(* ===== verification/Prelude.thy ===== *)
theory Prelude
  imports Main "HOL-Library.Word"
begin

text \<open>
  What every component of the reader shares: the machine integers and byte strings of the
  Rust code, its little-endian field reads, its slice and index operations with their
  panics, and the two ways the model passes errors around.  A Rust \<open>Result<T>\<close> is a value
  of \<open>'a result\<close>; a method that mutates its receiver (or a cache behind a lock) and may
  fail is a value of \<open>('s, 'a) sm\<close>, a function from the state to a result and the state
  after it.  A panic is a third outcome beside \<open>Ok\<close> and \<open>Err\<close>, so that freedom from panics
  is a theorem and never an assumption of the model.
\<close>

unbundle bit_operations_syntax

section \<open>Machine integers and bytes\<close>

type_synonym u8 = "8 word"
type_synonym u16 = "16 word"
type_synonym u32 = "32 word"
type_synonym u64 = "64 word"
type_synonym bytes = "8 word list"

text \<open>Collections: reads of a field inside a buffer, absence of panics, and the rules that
  lift a relation or an invariant through the state monad.\<close>

named_theorems read_simps
named_theorems safe_intros
named_theorems agree_intros
named_theorems reads_intros

text \<open>\<open>usize\<close> is 64 bits wide on the targets the crate ships for.  The values the model keeps
  as \<open>nat\<close> are lengths of vectors and numbers below \<open>2^40\<close>, so \<open>usize\<close> arithmetic on them
  does not wrap; where the source guards an addition (\<open>checked_add\<close>, \<open>checked_mul\<close>) the guard
  is kept.\<close>

definition usize_limit :: nat where
  "usize_limit = 2 ^ 64"

definition checked_add_usize :: "nat \<Rightarrow> nat \<Rightarrow> nat option" where
  "checked_add_usize a b = (if a + b < usize_limit then Some (a + b) else None)"

definition checked_mul_usize :: "nat \<Rightarrow> nat \<Rightarrow> nat option" where
  "checked_mul_usize a b = (if a * b < usize_limit then Some (a * b) else None)"

definition saturating_add_usize :: "nat \<Rightarrow> nat \<Rightarrow> nat" where
  "saturating_add_usize a b = min (a + b) (usize_limit - 1)"

lemma saturating_add_usize_exact: "a + b < usize_limit \<Longrightarrow> saturating_add_usize a b = a + b"
  by (simp add: saturating_add_usize_def)

text \<open>\<open>usize\<close> subtraction in the release profile, where it wraps.\<close>

definition wrapping_sub_usize :: "nat \<Rightarrow> nat \<Rightarrow> nat" where
  "wrapping_sub_usize a b = (if b \<le> a then a - b else usize_limit + a - b)"

lemma wrapping_sub_usize_exact [simp]: "b \<le> a \<Longrightarrow> wrapping_sub_usize a b = a - b"
  by (simp add: wrapping_sub_usize_def)

definition saturating_add :: "u64 \<Rightarrow> u64 \<Rightarrow> u64" where
  "saturating_add a b = (if unat a + unat b < 2 ^ 64 then a + b else - 1)"

definition saturating_sub :: "u64 \<Rightarrow> u64 \<Rightarrow> u64" where
  "saturating_sub a b = (if b \<le> a then a - b else 0)"

definition saturating_mul :: "u64 \<Rightarrow> u64 \<Rightarrow> u64" where
  "saturating_mul a b = (if unat a * unat b < 2 ^ 64 then a * b else - 1)"

definition checked_add :: "u64 \<Rightarrow> u64 \<Rightarrow> u64 option" where
  "checked_add a b = (if unat a + unat b < 2 ^ 64 then Some (a + b) else None)"

definition div_ceil_nat :: "nat \<Rightarrow> nat \<Rightarrow> nat" where
  "div_ceil_nat a b = (if a mod b = 0 then a div b else a div b + 1)"

lemma unat_u64_max: "unat (- 1 :: u64) = 2 ^ 64 - 1"
  by (simp add: unsigned_minus_1_eq_mask mask_eq_exp_minus_1)

lemma unat_ucast_up:
  "LENGTH('a) \<le> LENGTH('b) \<Longrightarrow> unat (ucast (x :: 'a::len word) :: 'b::len word) = unat x"
proof -
  assume "LENGTH('a) \<le> LENGTH('b)"
  then have "unat x < 2 ^ LENGTH('b)"
    using unsigned_less [of x] by (meson less_le_trans one_le_numeral power_increasing)
  then show ?thesis by (simp add: unsigned_ucast_eq take_bit_nat_eq_self)
qed

lemma unat_u64_less: "unat (a :: u64) < 2 ^ 64"
  using unsigned_less [of a] by simp

lemma unat_add_no_wrap:
  "unat (a :: u64) + unat b < 2 ^ 64 \<Longrightarrow> unat (a + b) = unat a + unat b"
  using unat_add_lem [of a b] by simp

lemma unat_mult_no_wrap:
  "unat (a :: u64) * unat b < 2 ^ 64 \<Longrightarrow> unat (a * b) = unat a * unat b"
  using unat_mult_lem [of a b] by simp

lemma unat_sub_no_wrap: "(b :: u64) \<le> a \<Longrightarrow> unat (a - b) = unat a - unat b"
  by (simp add: unat_sub)

lemma unat_saturating_add: "unat (saturating_add a b) = min (unat a + unat b) (2 ^ 64 - 1)"
  by (simp add: saturating_add_def unat_add_no_wrap unat_u64_max)

lemma unat_saturating_sub: "unat (saturating_sub a b) = unat a - unat b"
  by (auto simp: saturating_sub_def unat_sub_no_wrap word_le_nat_alt)

lemma unat_saturating_mul: "unat (saturating_mul a b) = min (unat a * unat b) (2 ^ 64 - 1)"
  by (simp add: saturating_mul_def unat_mult_no_wrap unat_u64_max)

lemma saturating_add_ge: "a \<le> saturating_add a b"
  using unat_u64_less [of a] by (simp add: word_le_nat_alt unat_saturating_add)

lemma checked_add_Some:
  "checked_add a b = Some c \<Longrightarrow> unat c = unat a + unat b"
  by (auto simp: checked_add_def unat_add_no_wrap split: if_splits)

lemma div_ceil_nat_ge:
  assumes "0 < b"
  shows "a \<le> div_ceil_nat a b * b"
proof -
  have "a = a div b * b + a mod b" by simp
  moreover have "a mod b < b" using assms by simp
  ultimately show ?thesis unfolding div_ceil_nat_def by (simp only: distrib_right split: if_split) arith
qed

lemma div_ceil_nat_pos: "0 < a \<Longrightarrow> 0 < b \<Longrightarrow> 0 < div_ceil_nat a b"
  using div_mult_mod_eq [of a b] by (cases "a div b") (auto simp: div_ceil_nat_def)

section \<open>Little-endian integers\<close>

fun le_nat :: "bytes \<Rightarrow> nat" where
  "le_nat [] = 0"
| "le_nat (b # bs) = unat b + 256 * le_nat bs"

definition from_le_bytes :: "bytes \<Rightarrow> 'a::len word" where
  "from_le_bytes bs = of_nat (le_nat bs)"

fun le_bytes :: "nat \<Rightarrow> nat \<Rightarrow> bytes" where
  "le_bytes 0 v = []"
| "le_bytes (Suc n) v = of_nat (v mod 256) # le_bytes n (v div 256)"

definition to_le_bytes :: "nat \<Rightarrow> 'a::len word \<Rightarrow> bytes" where
  "to_le_bytes n w = le_bytes n (unat w)"

lemma length_le_bytes [simp]: "length (le_bytes n v) = n"
  by (induction n arbitrary: v) auto

lemma length_to_le_bytes [simp]: "length (to_le_bytes n w) = n"
  by (simp add: to_le_bytes_def)

lemma unat_byte_less: "unat (b :: u8) < 256"
  using unsigned_less [of b] by simp

lemma le_nat_less: "le_nat bs < 256 ^ length bs"
proof (induction bs)
  case Nil
  then show ?case by simp
next
  case (Cons b bs)
  then have "Suc (le_nat bs) \<le> 256 ^ length bs" by simp
  then have "256 * Suc (le_nat bs) \<le> 256 * 256 ^ length bs" by (rule mult_le_mono2)
  with unat_byte_less [of b] show ?case by simp
qed

lemma le_nat_le_bytes: "le_nat (le_bytes n v) = v mod 256 ^ n"
proof (induction n arbitrary: v)
  case 0
  then show ?case by simp
next
  case (Suc n)
  have "unat (of_nat (v mod 256) :: u8) = v mod 256"
    by (simp add: unat_of_nat take_bit_eq_mod)
  with Suc show ?case by (simp add: mod_mult2_eq)
qed

lemma from_to_le_bytes:
  assumes "LENGTH('a) \<le> 8 * n"
  shows "from_le_bytes (to_le_bytes n (w :: 'a::len word)) = w"
proof -
  have "unat w < 2 ^ LENGTH('a)" by (rule unsigned_less)
  also have "(2 :: nat) ^ LENGTH('a) \<le> 2 ^ (8 * n)" using assms by simp
  also have "(2 :: nat) ^ (8 * n) = 256 ^ n" by (simp add: power_mult)
  finally have "unat w mod 256 ^ n = unat w" by simp
  then show ?thesis by (simp add: from_le_bytes_def to_le_bytes_def le_nat_le_bytes)
qed

lemmas from_to_le_bytes_widths [simp] =
  from_to_le_bytes [where 'a = 16 and n = 2, simplified]
  from_to_le_bytes [where 'a = 32 and n = 4, simplified]
  from_to_le_bytes [where 'a = 64 and n = 8, simplified]

text \<open>Reading bytes back out of a word that was read from them.\<close>

lemma le_nat_byte: "n < length bs \<Longrightarrow> le_nat bs div 256 ^ n mod 256 = unat (bs ! n)"
proof (induction bs arbitrary: n)
  case Nil
  then show ?case by simp
next
  case (Cons b bs)
  show ?case
  proof (cases n)
    case 0
    then show ?thesis using unat_byte_less [of b] by simp
  next
    case (Suc m)
    have "(unat b + 256 * le_nat bs) div 256 ^ Suc m = le_nat bs div 256 ^ m"
      using unat_byte_less [of b] by (simp add: div_mult2_eq)
    with Cons Suc show ?thesis by simp
  qed
qed

lemma unat_from_le_bytes:
  "8 * length bs \<le> LENGTH('a) \<Longrightarrow> unat (from_le_bytes bs :: 'a::len word) = le_nat bs"
proof -
  assume "8 * length bs \<le> LENGTH('a)"
  then have "(2 :: nat) ^ (8 * length bs) \<le> 2 ^ LENGTH('a)" by simp
  then have "(256 :: nat) ^ length bs \<le> 2 ^ LENGTH('a)" by (simp add: power_mult)
  with le_nat_less [of bs] show ?thesis by (simp add: from_le_bytes_def unat_of_nat)
qed

lemma byte_of_from_le_bytes:
  assumes "n < length bs" and "8 * length bs \<le> LENGTH('a)"
  shows "(ucast (drop_bit (8 * n) (from_le_bytes bs :: 'a::len word)) :: u8) = bs ! n"
proof -
  have "unat (ucast (drop_bit (8 * n) (from_le_bytes bs :: 'a word)) :: u8)
      = take_bit 8 (drop_bit (8 * n) (le_nat bs))"
    using assms by (simp add: unsigned_ucast_eq unat_drop_bit_eq unat_from_le_bytes)
  also have "\<dots> = unat (bs ! n)"
    using le_nat_byte [OF assms(1)] by (simp add: power_mult take_bit_eq_mod drop_bit_eq_div)
  finally show ?thesis by (simp only: word_unat_eq_iff)
qed

lemma le_bytes_le_nat: "le_bytes (length bs) (le_nat bs) = bs"
proof (induction bs)
  case Nil
  then show ?case by simp
next
  case (Cons b bs)
  then show ?case using unat_byte_less [of b] by simp
qed

lemma to_from_le_bytes:
  "8 * length bs \<le> LENGTH('a) \<Longrightarrow> to_le_bytes (length bs) (from_le_bytes bs :: 'a::len word) = bs"
  by (simp add: to_le_bytes_def unat_from_le_bytes le_bytes_le_nat)

end
