(* ===== verification/Errors.thy ===== *)
theory Errors
  imports Prelude
begin

text \<open>
  \<open>src/error.rs\<close>: the crate's error type, the POSIX errno each variant maps to, and its
  one-line rendering.  An \<open>fs_core\<close> block error is third-party; the reader only ever shows
  its \<open>Debug\<close> text, which is what stands for it here.  A \<open>fault\<close> is what can end a Rust call
  other than a value: an \<open>Err\<close> of the crate's type, a panic, or (for the one loop whose
  termination is not structural) never returning.
\<close>

type_synonym block_error = string

definition EIO :: int where "EIO = 5"
definition ENOENT :: int where "ENOENT = 2"
definition ENOTDIR :: int where "ENOTDIR = 20"
definition EINVAL :: int where "EINVAL = 22"
definition ENOTSUP :: int where "ENOTSUP = 45"
definition ERANGE :: int where "ERANGE = 34"

lemmas errno_defs = EIO_def ENOENT_def ENOTDIR_def EINVAL_def ENOTSUP_def ERANGE_def

datatype error =
    Block block_error
  | NotSquashfs
  | BadSuperblock string
  | BadMetadata string
  | BadInode string
  | BadDirent string
  | UnsupportedCompression u16
  | NotFound
  | NotExportable
  | NotADirectory
  | OutOfRange

fun to_errno :: "error \<Rightarrow> int" where
  "to_errno (Block _) = EIO"
| "to_errno NotSquashfs = EINVAL"
| "to_errno (BadSuperblock _) = EINVAL"
| "to_errno (BadMetadata _) = EIO"
| "to_errno (BadInode _) = EIO"
| "to_errno (BadDirent _) = EIO"
| "to_errno (UnsupportedCompression _) = ENOTSUP"
| "to_errno NotFound = ENOENT"
| "to_errno NotExportable = ENOTSUP"
| "to_errno NotADirectory = ENOTDIR"
| "to_errno OutOfRange = ERANGE"

text \<open>Decimal rendering of an unsigned integer, as Rust's \<open>{}\<close> prints it.\<close>

fun dec_digits :: "nat \<Rightarrow> string" where
  "dec_digits n =
     (if n < 10 then [char_of (48 + n)] else dec_digits (n div 10) @ [char_of (48 + n mod 10)])"

declare dec_digits.simps [simp del]

fun display_error :: "error \<Rightarrow> string" where
  "display_error (Block e) = ''block device: '' @ e"
| "display_error NotSquashfs = ''not a SquashFS image (magic mismatch at byte 0)''"
| "display_error (BadSuperblock s) = ''malformed superblock: '' @ s"
| "display_error (BadMetadata s) = ''malformed metadata block: '' @ s"
| "display_error (BadInode s) = ''malformed inode: '' @ s"
| "display_error (BadDirent s) = ''malformed directory: '' @ s"
| "display_error (UnsupportedCompression i) =
     ''unsupported SquashFS compressor id '' @ dec_digits (unat i)"
| "display_error NotFound = ''not found''"
| "display_error NotExportable =
     ''this image has no export table, so an inode number cannot be resolved''"
| "display_error NotADirectory = ''not a directory''"
| "display_error OutOfRange = ''read past end of file''"

datatype fault = Err error | Panic | Diverge

text \<open>Every error reaches the C ABI as a non-zero errno: \<open>0\<close> keeps meaning "no error".\<close>

lemma to_errno_pos: "0 < to_errno e"
  by (cases e) (simp_all add: errno_defs)

lemma to_errno_cases: "to_errno e \<in> {EIO, EINVAL, ENOTSUP, ENOENT, ENOTDIR, ERANGE}"
  by (cases e) simp_all

text \<open>The two answers an inode-number lookup must keep apart.\<close>

lemma not_exportable_not_found: "to_errno NotExportable \<noteq> to_errno NotFound"
  by (simp add: errno_defs)

lemma display_error_nonempty: "display_error e \<noteq> []"
  by (cases e) simp_all

end
