(* ===== verification/Outcome.thy ===== *)
theory Outcome
  imports Errors
begin

text \<open>
  Results, slices and the state-and-result monad, with the rules the component proofs use:
  when a computation cannot panic (\<open>safe\<close>, \<open>safe_s\<close>), what it keeps of an invariant
  (\<open>triple\<close>), and when it cannot tell two related states apart (\<open>agree\<close>).
\<close>

section \<open>Results\<close>

type_synonym 'a result = "fault + 'a"

abbreviation Ok :: "'a \<Rightarrow> 'a result" where "Ok \<equiv> Inr"
abbreviation Fail :: "error \<Rightarrow> 'a result" where "Fail e \<equiv> Inl (Err e)"
abbreviation Panics :: "'a result" where "Panics \<equiv> Inl Panic"

fun and_then :: "'a result \<Rightarrow> ('a \<Rightarrow> 'b result) \<Rightarrow> 'b result" where
  "and_then (Inl e) f = Inl e"
| "and_then (Inr v) f = f v"

definition ok_or :: "'a option \<Rightarrow> error \<Rightarrow> 'a result" where
  "ok_or x e = (case x of None \<Rightarrow> Fail e | Some v \<Rightarrow> Ok v)"

lemma ok_or_simps [simp]: "ok_or None e = Fail e" "ok_or (Some v) e = Ok v"
  by (simp_all add: ok_or_def)

lemma ok_or_eq_Ok [simp]: "ok_or x e = Ok v \<longleftrightarrow> x = Some v"
  by (cases x) simp_all

lemma and_then_eq_Ok [simp]: "and_then r f = Ok v \<longleftrightarrow> (\<exists>u. r = Ok u \<and> f u = Ok v)"
  by (cases r) simp_all

lemma and_then_assoc: "and_then (and_then r f) g = and_then r (\<lambda>v. and_then (f v) g)"
  by (cases r) simp_all

lemma if_fail_eq_Ok: "(if b then Fail e else r) = Ok v \<longleftrightarrow> \<not> b \<and> r = Ok v"
  by simp

definition safe :: "'a result \<Rightarrow> bool" where
  "safe r \<longleftrightarrow> r \<noteq> Inl Panic \<and> r \<noteq> Inl Diverge"

lemma safe_simps [simp]: "safe (Ok v)" "safe (Fail e)" "\<not> safe Panics" "\<not> safe (Inl Diverge)"
  by (simp_all add: safe_def)

lemma safe_ok_or [simp]: "safe (ok_or x e)"
  by (cases x) simp_all

lemma safe_and_then:
  "safe r \<Longrightarrow> (\<And>v. r = Ok v \<Longrightarrow> safe (f v)) \<Longrightarrow> safe (and_then r f)"
  by (cases r) (auto simp: safe_def)

text \<open>A loop that pushes one result per element and stops at the first failure.\<close>

fun map_result :: "('a \<Rightarrow> 'b result) \<Rightarrow> 'a list \<Rightarrow> 'b list result" where
  "map_result f [] = Ok []"
| "map_result f (x # xs) = and_then (f x) (\<lambda>y. and_then (map_result f xs) (\<lambda>ys. Ok (y # ys)))"

lemma safe_map_result: "(\<And>x. x \<in> set xs \<Longrightarrow> safe (f x)) \<Longrightarrow> safe (map_result f xs)"
  by (induction xs) (auto intro!: safe_and_then)

lemma map_result_Ok: "map_result f xs = Ok ys \<longleftrightarrow> list_all2 (\<lambda>x y. f x = Ok y) xs ys"
  by (induction xs arbitrary: ys) (auto simp: list_all2_Cons1)

lemma map_result_length: "map_result f xs = Ok ys \<Longrightarrow> length ys = length xs"
  by (auto simp: map_result_Ok dest: list_all2_lengthD)

lemma map_result_pure: "(\<And>x. x \<in> set xs \<Longrightarrow> f x = Ok (g x)) \<Longrightarrow> map_result f xs = Ok (map g xs)"
  by (induction xs) auto

lemma safe_if: "(b \<Longrightarrow> safe r) \<Longrightarrow> (\<not> b \<Longrightarrow> safe q) \<Longrightarrow> safe (if b then r else q)"
  by simp

section \<open>Slices and indexing\<close>

text \<open>\<open>&xs[a..b]\<close> panics unless \<open>a \<le> b \<le> len\<close>; \<open>xs[i]\<close> panics past the end; \<open>get\<close> does not.\<close>

definition slice :: "'a list \<Rightarrow> nat \<Rightarrow> nat \<Rightarrow> 'a list result" where
  "slice xs a b = (if a \<le> b \<and> b \<le> length xs then Ok (take (b - a) (drop a xs)) else Panics)"

definition slice_from :: "'a list \<Rightarrow> nat \<Rightarrow> 'a list result" where
  "slice_from xs a = (if a \<le> length xs then Ok (drop a xs) else Panics)"

definition slice_to :: "'a list \<Rightarrow> nat \<Rightarrow> 'a list result" where
  "slice_to xs b = (if b \<le> length xs then Ok (take b xs) else Panics)"

definition index :: "'a list \<Rightarrow> nat \<Rightarrow> 'a result" where
  "index xs i = (if i < length xs then Ok (xs ! i) else Panics)"

definition get :: "'a list \<Rightarrow> nat \<Rightarrow> 'a option" where
  "get xs i = (if i < length xs then Some (xs ! i) else None)"

definition get_range :: "'a list \<Rightarrow> nat \<Rightarrow> nat \<Rightarrow> 'a list option" where
  "get_range xs a b = (if a \<le> b \<and> b \<le> length xs then Some (take (b - a) (drop a xs)) else None)"

definition get_from :: "'a list \<Rightarrow> nat \<Rightarrow> 'a list option" where
  "get_from xs a = (if a \<le> length xs then Some (drop a xs) else None)"

text \<open>What a \<open>&mut [u8]\<close> of a fixed length holds after a callee wrote \<open>new\<close> over its start: a
  slice never changes length.\<close>

definition fill_slice :: "'a list \<Rightarrow> 'a list \<Rightarrow> 'a list" where
  "fill_slice buf new = take (length buf) new @ drop (length new) buf"

lemma length_fill_slice [simp]: "length (fill_slice buf new) = length buf"
  by (simp add: fill_slice_def)

lemma fill_slice_exact [simp]: "length new = length buf \<Longrightarrow> fill_slice buf new = new"
  by (simp add: fill_slice_def)

lemma slice_ok [read_simps]:
  "a \<le> b \<Longrightarrow> b \<le> length xs \<Longrightarrow> slice xs a b = Ok (take (b - a) (drop a xs))"
  by (simp add: slice_def)

lemma slice_from_ok [read_simps]: "a \<le> length xs \<Longrightarrow> slice_from xs a = Ok (drop a xs)"
  by (simp add: slice_from_def)

lemma slice_to_ok [read_simps]: "b \<le> length xs \<Longrightarrow> slice_to xs b = Ok (take b xs)"
  by (simp add: slice_to_def)

lemma index_ok [read_simps]: "i < length xs \<Longrightarrow> index xs i = Ok (xs ! i)"
  by (simp add: index_def)

lemma get_eq_Some [simp]: "get xs i = Some v \<longleftrightarrow> i < length xs \<and> xs ! i = v"
  by (auto simp: get_def)

lemma get_eq_None [simp]: "get xs i = None \<longleftrightarrow> length xs \<le> i"
  by (auto simp: get_def)

text \<open>A little-endian field of \<open>n\<close> bytes at offset \<open>at\<close>, read through a panicking slice.\<close>

definition rd_le :: "nat \<Rightarrow> bytes \<Rightarrow> nat \<Rightarrow> 'a::len word result" where
  "rd_le n b at = and_then (slice b at (at + n)) (\<lambda>s. Ok (from_le_bytes s))"

definition rd_u16 :: "bytes \<Rightarrow> nat \<Rightarrow> u16 result" where "rd_u16 = rd_le 2"
definition rd_u32 :: "bytes \<Rightarrow> nat \<Rightarrow> u32 result" where "rd_u32 = rd_le 4"
definition rd_u64 :: "bytes \<Rightarrow> nat \<Rightarrow> u64 result" where "rd_u64 = rd_le 8"

text \<open>The same field, without the bounds check: what a successful read returns.\<close>

definition field :: "nat \<Rightarrow> bytes \<Rightarrow> nat \<Rightarrow> 'a::len word" where
  "field n b at = from_le_bytes (take n (drop at b))"

lemma rd_u16_ok [read_simps]: "at + 2 \<le> length b \<Longrightarrow> rd_u16 b at = Ok (field 2 b at)"
  and rd_u32_ok [read_simps]: "at + 4 \<le> length b \<Longrightarrow> rd_u32 b at = Ok (field 4 b at)"
  and rd_u64_ok [read_simps]: "at + 8 \<le> length b \<Longrightarrow> rd_u64 b at = Ok (field 8 b at)"
  by (simp_all add: rd_u16_def rd_u32_def rd_u64_def rd_le_def field_def slice_def)

lemma field_append [simp]:
  "at + n \<le> length a \<Longrightarrow> field n (a @ b) at = field n a at"
  by (simp add: field_def)

lemma field_skip: "length a \<le> at \<Longrightarrow> field n (a @ b) at = field n b (at - length a)"
  by (simp add: field_def)

lemma field_to_le_bytes:
  "LENGTH('a) \<le> 8 * n \<Longrightarrow> field n (to_le_bytes n (w :: 'a::len word)) 0 = w"
  by (simp add: field_def from_to_le_bytes)

lemma field_drop: "field n b (p + i) = field n (drop p b) i"
  by (simp add: field_def add.commute)

lemma to_le_bytes_field:
  "k + n \<le> length b \<Longrightarrow> 8 * n \<le> LENGTH('a) \<Longrightarrow>
    to_le_bytes n (field n b k :: 'a::len word) = take n (drop k b)"
  using to_from_le_bytes [of "take n (drop k b)", where 'a = 'a] by (simp add: field_def)

text \<open>An array of fixed-size records: the record at an index, and a field inside it.\<close>

lemma take_drop_concat_fixed:
  assumes "\<And>x. x \<in> set xs \<Longrightarrow> length (f x) = n" and "i < length xs"
  shows "take n (drop (i * n) (concat (map f xs) @ r)) = f (xs ! i)"
  using assms
proof (induction xs arbitrary: i)
  case Nil
  then show ?case by simp
next
  case (Cons x xs)
  then show ?case by (cases i) (auto simp: ac_simps simp flip: drop_drop)
qed

lemma field_record:
  assumes "\<And>x. x \<in> set xs \<Longrightarrow> length (f x) = n" and "i < length xs" and "at + k \<le> n"
  shows "field k (concat (map f xs) @ r) (i * n + at) = field k (f (xs ! i)) at"
proof -
  have inner: "take k (drop at (take n D)) = take k (drop at D)" for D :: bytes
    using assms(3) by (simp add: drop_take min_def)
  have "take k (drop (i * n + at) (concat (map f xs) @ r)) =
      take k (drop at (drop (i * n) (concat (map f xs) @ r)))"
    by (simp only: drop_drop add.commute)
  also have "\<dots> = take k (drop at (f (xs ! i)))"
    using inner [of "drop (i * n) (concat (map f xs) @ r)"]
      take_drop_concat_fixed [where f = f and r = r, OF assms(1,2)] by (simp only:)
  finally show ?thesis by (simp only: field_def)
qed

section \<open>State and result\<close>

type_synonym ('s, 'a) sm = "'s \<Rightarrow> 'a result \<times> 's"

definition ret_s :: "'a \<Rightarrow> ('s, 'a) sm" where
  "ret_s v s = (Ok v, s)"

definition fail_s :: "error \<Rightarrow> ('s, 'a) sm" where
  "fail_s e s = (Fail e, s)"

definition lift_s :: "'a result \<Rightarrow> ('s, 'a) sm" where
  "lift_s r s = (r, s)"

definition read_s :: "('s \<Rightarrow> 'a) \<Rightarrow> ('s, 'a) sm" where
  "read_s f s = (Ok (f s), s)"

definition bind_s :: "('s, 'a) sm \<Rightarrow> ('a \<Rightarrow> ('s, 'b) sm) \<Rightarrow> ('s, 'b) sm" where
  "bind_s m f s = (case m s of (Inl e, s') \<Rightarrow> (Inl e, s') | (Inr v, s') \<Rightarrow> f v s')"

text \<open>\<open>match m { Ok(v) => .., Err(e) => .. }\<close>: an error becomes a value, a panic goes on unwinding.\<close>

definition attempt :: "('s, 'a) sm \<Rightarrow> ('s, error + 'a) sm" where
  "attempt m s =
     (case m s of
        (Inl (Err e), s') \<Rightarrow> (Ok (Inl e), s')
      | (Inl f, s') \<Rightarrow> (Inl f, s')
      | (Inr v, s') \<Rightarrow> (Ok (Inr v), s'))"

definition change :: "('s \<Rightarrow> 's) \<Rightarrow> ('s, unit) sm" where
  "change f s = (Ok (), f s)"

text \<open>A panic inside \<open>usize\<close> subtraction, indexing and the like, lifted into the monad.\<close>

lemmas sm_defs = ret_s_def fail_s_def lift_s_def read_s_def bind_s_def

lemma bind_s_congI [fundef_cong]:
  "m s = m' s' \<Longrightarrow> (\<And>v t. m' s' = (Ok v, t) \<Longrightarrow> f v t = f' v t) \<Longrightarrow>
    bind_s m f s = bind_s m' f' s'"
  by (auto simp: bind_s_def split: prod.splits sum.splits)

lemma bind_s_simps [simp]:
  "bind_s (ret_s v) f s = f v s"
  "bind_s (fail_s e) f s = (Fail e, s)"
  "bind_s (lift_s (Inl x)) f s = (Inl x, s)"
  "bind_s (lift_s (Inr v)) f s = f v s"
  "bind_s (read_s g) f s = f (g s) s"
  by (simp_all add: sm_defs)

lemma bind_s_assoc: "bind_s (bind_s m f) g s = bind_s m (\<lambda>v. bind_s (f v) g) s"
  by (auto simp: bind_s_def split: prod.splits sum.splits)

lemma bind_s_laws:
  "bind_s (ret_s v) f = f v"
  "bind_s (fail_s e) f = fail_s e"
  "bind_s (bind_s m f) g = bind_s m (\<lambda>v. bind_s (f v) g)"
  by (simp_all add: fun_eq_iff bind_s_assoc) (simp add: fail_s_def)

lemma bind_s_eq_Ok:
  "bind_s m f s = (Ok v, t) \<longleftrightarrow> (\<exists>u s'. m s = (Ok u, s') \<and> f u s' = (Ok v, t))"
  by (auto simp: bind_s_def split: prod.splits sum.splits)

subsection \<open>Triples: invariants, postconditions and freedom from panics\<close>

text \<open>\<open>triple P m Q\<close>: started where \<open>P\<close> holds, \<open>m\<close> does not panic, keeps \<open>P\<close> whatever it
  answers, and a value it answers satisfies \<open>Q\<close>.\<close>

definition triple :: "('s \<Rightarrow> bool) \<Rightarrow> ('s, 'a) sm \<Rightarrow> ('a \<Rightarrow> bool) \<Rightarrow> bool" where
  "triple P m Q \<longleftrightarrow>
     (\<forall>s. P s \<longrightarrow> safe (fst (m s)) \<and> P (snd (m s)) \<and> (\<forall>v. fst (m s) = Ok v \<longrightarrow> Q v))"

lemma triple_ret [safe_intros]: "Q v \<Longrightarrow> triple P (ret_s v) Q"
  by (simp add: triple_def ret_s_def)

lemma triple_fail [safe_intros]: "triple P (fail_s e) Q"
  by (simp add: triple_def fail_s_def)

lemma triple_lift [safe_intros]:
  "safe r \<Longrightarrow> (\<And>v. r = Ok v \<Longrightarrow> Q v) \<Longrightarrow> triple P (lift_s r) Q"
  by (simp add: triple_def lift_s_def)

lemma triple_read [safe_intros]: "(\<And>s. P s \<Longrightarrow> Q (f s)) \<Longrightarrow> triple P (read_s f) Q"
  by (simp add: triple_def read_s_def)

lemma triple_bind:
  assumes "triple P m R" and "\<And>v. R v \<Longrightarrow> triple P (f v) Q"
  shows "triple P (bind_s m f) Q"
  unfolding triple_def
proof (intro allI impI)
  fix s assume "P s"
  obtain r t where m: "m s = (r, t)" by fastforce
  with assms(1) \<open>P s\<close> have r: "safe r" "P t" "\<And>v. r = Ok v \<Longrightarrow> R v"
    by (auto simp: triple_def)
  show "safe (fst (bind_s m f s)) \<and> P (snd (bind_s m f s)) \<and>
    (\<forall>v. fst (bind_s m f s) = Ok v \<longrightarrow> Q v)"
  proof (cases r)
    case (Inl e)
    with m r show ?thesis by (simp add: bind_s_def safe_def)
  next
    case (Inr v)
    with assms(2) r have "triple P (f v) Q" by blast
    with m r Inr show ?thesis by (simp add: bind_s_def triple_def)
  qed
qed

lemma triple_weaken: "triple P m Q \<Longrightarrow> (\<And>v. Q v \<Longrightarrow> R v) \<Longrightarrow> triple P m R"
  by (auto simp: triple_def)

lemma triple_if [safe_intros]:
  "(b \<Longrightarrow> triple P m Q) \<Longrightarrow> (\<not> b \<Longrightarrow> triple P n Q) \<Longrightarrow> triple P (if b then m else n) Q"
  by simp

lemma tripleD:
  assumes "triple P m Q" and "P s"
  shows "safe (fst (m s))" "P (snd (m s))" "m s = (Ok v, t) \<Longrightarrow> Q v"
    "m s = (r, t) \<Longrightarrow> P t" "m s = (r, t) \<Longrightarrow> safe r"
  using assms by (auto simp: triple_def)

lemma triple_attempt:
  assumes "triple P m Q"
  shows "triple P (attempt m) (\<lambda>r. \<forall>v. r = Inr v \<longrightarrow> Q v)"
  unfolding triple_def
proof (intro allI impI)
  fix s assume "P s"
  obtain r t where m: "m s = (r, t)" by fastforce
  note tripleD [OF assms \<open>P s\<close>]
  with m show "safe (fst (attempt m s)) \<and> P (snd (attempt m s)) \<and>
    (\<forall>v. fst (attempt m s) = Ok v \<longrightarrow> (\<forall>u. v = Inr u \<longrightarrow> Q u))"
    by (cases r) (auto simp: attempt_def safe_def split: fault.splits)
qed

subsection \<open>Computations that respect a relation between states\<close>

text \<open>\<open>agree R m n\<close>: started in related states, \<open>m\<close> and \<open>n\<close> give the same answer and end
  in related states.\<close>

definition agree ::
  "('s \<Rightarrow> 't \<Rightarrow> bool) \<Rightarrow> ('s, 'a) sm \<Rightarrow> ('t, 'a) sm \<Rightarrow> bool" where
  "agree R m n \<longleftrightarrow>
     (\<forall>s t. R s t \<longrightarrow> fst (m s) = fst (n t) \<and> R (snd (m s)) (snd (n t)))"

lemma agree_ret [agree_intros]: "agree R (ret_s v) (ret_s v)"
  by (simp add: agree_def ret_s_def)

lemma agree_fail [agree_intros]: "agree R (fail_s e) (fail_s e)"
  by (simp add: agree_def fail_s_def)

lemma agree_lift [agree_intros]: "agree R (lift_s r) (lift_s r)"
  by (simp add: agree_def lift_s_def)

lemma agree_read: "(\<And>s t. R s t \<Longrightarrow> f s = g t) \<Longrightarrow> agree R (read_s f) (read_s g)"
  by (simp add: agree_def read_s_def)

lemma agree_bind [agree_intros]:
  assumes m: "agree R m m'" and f: "\<And>v. agree R (f v) (f' v)"
  shows "agree R (bind_s m f) (bind_s m' f')"
  unfolding agree_def
proof (intro allI impI)
  fix s t assume "R s t"
  obtain r s' r' t' where eqs: "m s = (r, s')" "m' t = (r', t')" by fastforce
  from m \<open>R s t\<close> have "fst (m s) = fst (m' t)" "R (snd (m s)) (snd (m' t))"
    by (auto simp: agree_def)
  with eqs have r: "r' = r" "R s' t'" by auto
  show "fst (bind_s m f s) = fst (bind_s m' f' t) \<and>
    R (snd (bind_s m f s)) (snd (bind_s m' f' t))"
  proof (cases r)
    case (Inl e)
    with eqs r show ?thesis by (simp add: bind_s_def)
  next
    case (Inr v)
    with eqs r f [of v] show ?thesis by (simp add: bind_s_def agree_def)
  qed
qed

lemma agree_if [agree_intros]:
  "(b \<Longrightarrow> agree R m m') \<Longrightarrow> (\<not> b \<Longrightarrow> agree R n n') \<Longrightarrow>
    agree R (if b then m else n) (if b then m' else n')"
  by simp

lemma agreeD:
  assumes "agree R m n" and "R s t"
  shows "fst (m s) = fst (n t)" "R (snd (m s)) (snd (n t))"
  using assms by (auto simp: agree_def)

lemma agree_attempt [agree_intros]: "agree R m n \<Longrightarrow> agree R (attempt m) (attempt n)"
  unfolding agree_def attempt_def
  by (intro allI impI) (fastforce split: prod.splits sum.splits fault.splits)

lemma agree_change: "(\<And>s t. R s t \<Longrightarrow> R (f s) (g t)) \<Longrightarrow> agree R (change f) (change g)"
  by (simp add: agree_def change_def)

end
