(* ===== verification/Compressors.thy ===== *)
theory Compressors
  imports Outcome
begin

text \<open>
  The compressor ids of \<open>src/decompress.rs\<close>: the \<open>Compressor\<close> enum, how an on-disk
  \<open>compression_id\<close> becomes one, its short name, and whether this build decodes it.
\<close>

datatype compressor = Gzip | Lzma | Lzo | Xz | Lz4 | Zstd

definition compressor_from_id :: "u16 \<Rightarrow> compressor result" where
  "compressor_from_id i =
     (if i = 1 then Ok Gzip
      else if i = 2 then Ok Lzma
      else if i = 3 then Ok Lzo
      else if i = 4 then Ok Xz
      else if i = 5 then Ok Lz4
      else if i = 6 then Ok Zstd
      else Fail (UnsupportedCompression i))"

fun compressor_name :: "compressor \<Rightarrow> string" where
  "compressor_name Gzip = ''gzip''"
| "compressor_name Lzma = ''lzma''"
| "compressor_name Lzo = ''lzo''"
| "compressor_name Xz = ''xz''"
| "compressor_name Lz4 = ''lz4''"
| "compressor_name Zstd = ''zstd''"

definition is_supported :: "compressor \<Rightarrow> bool" where
  "is_supported c = True"

text \<open>The ids and the enum correspond one to one, and nothing else is accepted.\<close>

fun compressor_id :: "compressor \<Rightarrow> u16" where
  "compressor_id Gzip = 1"
| "compressor_id Lzma = 2"
| "compressor_id Lzo = 3"
| "compressor_id Xz = 4"
| "compressor_id Lz4 = 5"
| "compressor_id Zstd = 6"

lemma compressor_from_id_Ok: "compressor_from_id i = Ok c \<longleftrightarrow> i = compressor_id c"
  by (cases c) (auto simp: compressor_from_id_def split: if_splits)

lemma safe_compressor_from_id [simp]: "safe (compressor_from_id i)"
  by (simp add: compressor_from_id_def)

lemma compressor_name_inject: "compressor_name c = compressor_name d \<Longrightarrow> c = d"
  by (cases c; cases d) simp_all

lemma compressor_name_fits: "length (compressor_name c) < 16"
  by (cases c) simp_all

end
