(* ===== verification/Externals.thy ===== *)
theory Externals
  imports Outcome
begin

text \<open>
  The code the crate calls and does not contain: the block device behind
  \<open>fs_core::BlockRead\<close>, the codec crates (\<open>flate2\<close>, \<open>lzma_rs\<close>, \<open>lz4_flex\<close>, \<open>ruzstd\<close>,
  \<open>lzo1x\<close>) and the \<open>lru\<close> crate's cache.  Each is a record of functions, an argument of every
  definition that uses it; nothing about what a codec decodes or a cache evicts is defined
  here.  The one contract stated is the \<open>lru\<close> crate's documented behaviour, as a predicate.
\<close>

section \<open>The block device\<close>

text \<open>\<open>read_at(offset, &mut buf)\<close> fills the whole buffer or fails; a slice keeps its length
  whatever the callee writes.  The archive is read-only, so a device answers a read the same way
  every time.\<close>

record device =
  dev_size_bytes :: u64
  dev_read :: "u64 \<Rightarrow> nat \<Rightarrow> block_error + bytes"

definition read_at :: "device \<Rightarrow> u64 \<Rightarrow> nat \<Rightarrow> bytes result" where
  "read_at dev off n =
     (case dev_read dev off n of
        Inl e \<Rightarrow> Fail (Block e)
      | Inr bs \<Rightarrow> Ok (fill_slice (replicate n 0) bs))"

lemma read_at_length: "read_at dev off n = Ok bs \<Longrightarrow> length bs = n"
  by (auto simp: read_at_def split: sum.splits)

lemma safe_read_at [simp]: "safe (read_at dev off n)"
  by (simp add: read_at_def split: sum.splits)

text \<open>A device over an in-memory image, as a reader that refuses to run off the end.\<close>

definition mem_device :: "bytes \<Rightarrow> device" where
  "mem_device img =
     \<lparr>dev_size_bytes = of_nat (length img),
      dev_read = (\<lambda>off n.
        if unat off + n \<le> length img then Inr (take n (drop (unat off) img))
        else Inl ''ShortRead'')\<rparr>"

lemma read_at_mem_device:
  "unat off + n \<le> length img \<Longrightarrow> read_at (mem_device img) off n = Ok (take n (drop (unat off) img))"
  by (simp add: read_at_def mem_device_def)

section \<open>The codecs\<close>

text \<open>What \<open>flate2::Decompress::decompress\<close> reports beside an error.\<close>

datatype zstatus = StreamEnd | StatusOk | BufError

text \<open>
  A streaming decoder (\<open>lzma_rs\<close>) is the list of buffers it writes to its sink and whether it
  then ends well; it stops with an error at the first write its sink refuses.  \<open>lzma2\<close> also
  reports how far into its input it read.  A zstd stream is the bytes it yields and whether it
  ends well after them; \<open>None\<close> when the frame header is refused.  \<open>crc32\<close> is \<open>flate2::Crc\<close>.
\<close>

record codecs =
  cd_zlib :: "bytes \<Rightarrow> nat \<Rightarrow> (zstatus \<times> nat \<times> bytes) option"
  cd_xz :: "bytes \<Rightarrow> bytes list \<times> bool"
  cd_lzma :: "bytes \<Rightarrow> bytes list \<times> bool"
  cd_lzma2 :: "bytes \<Rightarrow> bytes list \<times> bool \<times> nat"
  cd_lz4 :: "bytes \<Rightarrow> nat \<Rightarrow> (nat \<times> bytes) option"
  cd_zstd :: "bytes \<Rightarrow> (bytes \<times> bool) option"
  cd_lzo :: "bytes \<Rightarrow> nat \<Rightarrow> bytes option"
  cd_crc32 :: "bytes \<Rightarrow> u32"

text \<open>Codecs that refuse every input: what an image with nothing compressed needs of them, and what
  the closed examples run on.\<close>

definition no_codecs :: codecs where
  "no_codecs =
     \<lparr>cd_zlib = (\<lambda>i n. None), cd_xz = (\<lambda>i. ([], False)), cd_lzma = (\<lambda>i. ([], False)),
      cd_lzma2 = (\<lambda>i. ([], False, 0)), cd_lz4 = (\<lambda>i n. None), cd_zstd = (\<lambda>i. None),
      cd_lzo = (\<lambda>i n. None), cd_crc32 = (\<lambda>i. 0)\<rparr>"

section \<open>The LRU cache\<close>

record ('k, 'v, 'c) lru_ops =
  lru_new :: "nat \<Rightarrow> 'c"
  lru_get :: "'c \<Rightarrow> 'k \<Rightarrow> 'v option \<times> 'c"
  lru_put :: "'c \<Rightarrow> 'k \<Rightarrow> 'v \<Rightarrow> 'c"
  lru_len :: "'c \<Rightarrow> nat"
  lru_cap :: "'c \<Rightarrow> nat"

definition lru_holds :: "('k, 'v, 'c) lru_ops \<Rightarrow> 'c \<Rightarrow> 'k \<Rightarrow> 'v option" where
  "lru_holds L c k = fst (lru_get L c k)"

text \<open>The crate's documented behaviour: a new cache is empty; looking a key up changes no entry
  (only its recency); \<open>put\<close> stores the entry and may evict others, never invents one; the size
  never passes the capacity, and the capacity never changes.\<close>

definition lru_contract :: "('k, 'v, 'c) lru_ops \<Rightarrow> bool" where
  "lru_contract L \<longleftrightarrow>
     (\<forall>n k. lru_holds L (lru_new L n) k = None) \<and>
     (\<forall>c k k'. lru_holds L (snd (lru_get L c k)) k' = lru_holds L c k') \<and>
     (\<forall>c k v. lru_holds L (lru_put L c k v) k = Some v) \<and>
     (\<forall>c k v k'. k' \<noteq> k \<longrightarrow> lru_holds L (lru_put L c k v) k' \<in> {None, lru_holds L c k'})"

lemma lru_new_empty: "lru_contract L \<Longrightarrow> lru_holds L (lru_new L n) k = None"
  by (simp add: lru_contract_def)

lemma lru_get_keeps: "lru_contract L \<Longrightarrow> lru_get L c k = (r, c') \<Longrightarrow> lru_holds L c' k' = lru_holds L c k'"
  unfolding lru_contract_def by (metis snd_conv)

lemma lru_get_holds: "lru_get L c k = (r, c') \<Longrightarrow> r = lru_holds L c k"
  by (simp add: lru_holds_def)

lemma lru_put_holds:
  "lru_contract L \<Longrightarrow> lru_holds L (lru_put L c k v) k' = Some w \<Longrightarrow>
    (k' = k \<and> w = v) \<or> lru_holds L c k' = Some w"
  unfolding lru_contract_def by (metis option.inject option.distinct(1) insertE singletonD)

text \<open>A list-based cache, most recently used first: one implementation of the contract, which
  shows the contract can be met and which closed examples run on.\<close>

definition list_lru_get :: "nat \<times> ('k \<times> 'v) list \<Rightarrow> 'k \<Rightarrow> 'v option \<times> nat \<times> ('k \<times> 'v) list" where
  "list_lru_get c k =
     (case map_of (snd c) k of
        None \<Rightarrow> (None, c)
      | Some v \<Rightarrow> (Some v, fst c, (k, v) # filter (\<lambda>e. fst e \<noteq> k) (snd c)))"

definition list_lru_put :: "nat \<times> ('k \<times> 'v) list \<Rightarrow> 'k \<Rightarrow> 'v \<Rightarrow> nat \<times> ('k \<times> 'v) list" where
  "list_lru_put c k v = (fst c, take (max 1 (fst c)) ((k, v) # filter (\<lambda>e. fst e \<noteq> k) (snd c)))"

definition list_lru :: "('k, 'v, nat \<times> ('k \<times> 'v) list) lru_ops" where
  "list_lru =
     \<lparr>lru_new = (\<lambda>n. (n, [])), lru_get = list_lru_get, lru_put = list_lru_put,
      lru_len = (\<lambda>c. length (snd c)), lru_cap = fst\<rparr>"

lemma list_lru_holds: "lru_holds list_lru c k = map_of (snd c) k"
  by (simp add: lru_holds_def list_lru_def list_lru_get_def split: option.splits)

lemma map_of_filter_key: "k' \<noteq> k \<Longrightarrow> map_of (filter (\<lambda>e. fst e \<noteq> k) xs) k' = map_of xs k'"
  by (induction xs) auto

lemma map_of_take:
  assumes "map_of (take n xs) k = Some v"
  shows "map_of xs k = Some v"
  using assms by (induction xs arbitrary: n) (auto simp: take_Cons split: nat.splits if_splits)

lemma list_lru_contract: "lru_contract list_lru"
proof -
  have get: "map_of (snd (snd (list_lru_get c k))) k' = map_of (snd c) k'"
    for c :: "nat \<times> ('a \<times> 'b) list" and k k'
    by (auto simp: list_lru_get_def map_of_filter_key split: option.splits)
  have put: "map_of (snd (list_lru_put c k v)) k' \<in> {None, map_of (snd c) k'}"
    if "k' \<noteq> k" for c :: "nat \<times> ('a \<times> 'b) list" and k v k'
  proof (cases "map_of (snd (list_lru_put c k v)) k'")
    case (Some w)
    then have "map_of ((k, v) # filter (\<lambda>e. fst e \<noteq> k) (snd c)) k' = Some w"
      by (auto simp: list_lru_put_def dest: map_of_take)
    with that Some show ?thesis by (simp add: map_of_filter_key)
  qed simp
  have "map_of (snd (list_lru_put c k v)) k = Some v" for c :: "nat \<times> ('a \<times> 'b) list" and k v
    by (simp add: list_lru_put_def take_Cons split: nat.splits)
  with get put show ?thesis
    unfolding lru_contract_def list_lru_holds by (simp add: list_lru_def)
qed

section \<open>A memoised computation\<close>

text \<open>
  The interface both caches of a mount are used through: look up, and on a miss compute and
  store.  \<open>holds s k v\<close> says the cache has the entry.  The laws are what the reader relies on:
  a hit is an entry, lookups and stores invent nothing.  From them: a memoised computation
  gives the same answer as the computation itself.
\<close>

definition memo ::
  "('s \<Rightarrow> 'k \<Rightarrow> 'v option \<times> 's) \<Rightarrow> ('s \<Rightarrow> 'k \<Rightarrow> 'v \<Rightarrow> 's) \<Rightarrow> ('k \<Rightarrow> 'v result) \<Rightarrow> 'k \<Rightarrow> ('s, 'v) sm" where
  "memo lookup store f k s =
     (case lookup s k of
        (Some v, s') \<Rightarrow> (Ok v, s')
      | (None, s') \<Rightarrow>
          (case f k of Inl e \<Rightarrow> (Inl e, s') | Inr v \<Rightarrow> (Ok v, store s' k v)))"

definition memo_sound :: "('s \<Rightarrow> 'k \<Rightarrow> 'v \<Rightarrow> bool) \<Rightarrow> ('k \<Rightarrow> 'v result) \<Rightarrow> 's \<Rightarrow> bool" where
  "memo_sound holds f s \<longleftrightarrow> (\<forall>k v. holds s k v \<longrightarrow> f k = Ok v)"

locale memo_cache =
  fixes lookup :: "'s \<Rightarrow> 'k \<Rightarrow> 'v option \<times> 's"
    and store :: "'s \<Rightarrow> 'k \<Rightarrow> 'v \<Rightarrow> 's"
    and holds :: "'s \<Rightarrow> 'k \<Rightarrow> 'v \<Rightarrow> bool"
    and proper :: "'s \<Rightarrow> bool"
  assumes lookup_hit: "proper s \<Longrightarrow> lookup s k = (Some v, s') \<Longrightarrow> holds s k v"
    and lookup_keeps: "proper s \<Longrightarrow> lookup s k = (r, s') \<Longrightarrow> proper s' \<and> (holds s' k' v' \<longrightarrow> holds s k' v')"
    and store_keeps: "proper s \<Longrightarrow> proper (store s k v)"
    and store_adds: "proper s \<Longrightarrow> holds (store s k v) k' v' \<Longrightarrow> (k' = k \<and> v' = v) \<or> holds s k' v'"
begin

lemma lookup_sound:
  "proper s \<Longrightarrow> memo_sound holds f s \<Longrightarrow> lookup s k = (r, s') \<Longrightarrow> proper s' \<and> memo_sound holds f s'"
  unfolding memo_sound_def using lookup_keeps by blast

lemma store_sound:
  "proper s \<Longrightarrow> memo_sound holds f s \<Longrightarrow> f k = Ok v \<Longrightarrow> memo_sound holds f (store s k v)"
  unfolding memo_sound_def using store_adds by blast

lemma memo_transparent:
  assumes "proper s" and "memo_sound holds f s"
  shows "fst (memo lookup store f k s) = f k \<and>
    proper (snd (memo lookup store f k s)) \<and>
    memo_sound holds f (snd (memo lookup store f k s))"
proof -
  obtain r s' where l: "lookup s k = (r, s')" by fastforce
  with assms have s': "proper s'" "memo_sound holds f s'" using lookup_sound by blast+
  show ?thesis
  proof (cases r)
    case (Some v)
    with assms l have "f k = Ok v" using lookup_hit by (auto simp: memo_sound_def)
    with Some l s' show ?thesis by (simp add: memo_def)
  next
    case None
    with l s' show ?thesis
      by (auto simp: memo_def store_keeps store_sound split: sum.splits)
  qed
qed

end

end
