(* ===== verification/Sinks.thy ===== *)
theory Sinks
  imports Externals
begin

text \<open>
  The capped sink of \<open>src/decompress.rs\<close> (and its twin in \<open>src/xz.rs\<close>): the \<open>Write\<close>
  implementation a streaming decoder writes into, which refuses to grow past its limit.
\<close>

record capped =
  cap_buf :: bytes
  cap_limit :: nat

definition capped_holding :: "nat \<Rightarrow> capped" where
  "capped_holding max_out = \<lparr>cap_buf = [], cap_limit = saturating_add_usize max_out 1\<rparr>"

definition capped_write :: "capped \<Rightarrow> bytes \<Rightarrow> bool \<times> capped" where
  "capped_write s data =
     (if cap_limit s < length (cap_buf s) + length data then (False, s)
      else (True, s\<lparr>cap_buf := cap_buf s @ data\<rparr>))"

text \<open>A decoder writing its buffers one after the other, stopping at the first refused write.\<close>

fun feed :: "capped \<Rightarrow> bytes list \<Rightarrow> bool \<times> capped" where
  "feed s [] = (True, s)"
| "feed s (d # ds) =
     (case capped_write s d of (True, s') \<Rightarrow> feed s' ds | (False, s') \<Rightarrow> (False, s'))"

text \<open>The sink holds at most its limit, at every point of every decoder's run.\<close>

lemma capped_write_bounded:
  "length (cap_buf s) \<le> cap_limit s \<Longrightarrow>
    length (cap_buf (snd (capped_write s d))) \<le> cap_limit s \<and>
    cap_limit (snd (capped_write s d)) = cap_limit s"
  by (simp add: capped_write_def)

lemma feed_bounded:
  "length (cap_buf s) \<le> cap_limit s \<Longrightarrow> length (cap_buf (snd (feed s ds))) \<le> cap_limit s"
proof (induction s ds rule: feed.induct)
  case (1 s)
  then show ?case by simp
next
  case (2 s d ds)
  then show ?case
    using capped_write_bounded [of s d] by (auto split: prod.splits bool.splits)
qed

text \<open>A run whose every write was taken left exactly what was written.\<close>

lemma feed_all: "feed s ds = (True, s') \<Longrightarrow> cap_buf s' = cap_buf s @ concat ds"
proof (induction s ds rule: feed.induct)
  case (1 s)
  then show ?case by simp
next
  case (2 s d ds)
  then show ?case by (auto simp: capped_write_def split: if_splits)
qed

lemma feed_takes:
  "length (cap_buf s) + length (concat ds) \<le> cap_limit s \<Longrightarrow> fst (feed s ds)"
  by (induction s ds rule: feed.induct) (auto simp: capped_write_def)

section \<open>Properties\<close>

lemma feed_whole:
  assumes "cap_limit s = n"
  shows "feed s ds = (True, s\<lparr>cap_buf := cap_buf s @ concat ds\<rparr>) \<longleftrightarrow>
    length (cap_buf s) + length (concat ds) \<le> n \<or> ds = []"
  using assms
proof (induction ds arbitrary: s)
  case Nil
  then show ?case by simp
next
  case (Cons d ds)
  let ?s = "s\<lparr>cap_buf := cap_buf s @ d\<rparr>"
  show ?case
  proof (cases "cap_limit s < length (cap_buf s) + length d")
    case True
    with Cons.prems show ?thesis by (simp add: capped_write_def)
  next
    case False
    then have w: "capped_write s d = (True, ?s)" by (simp add: capped_write_def)
    from False Cons.prems Cons.IH [of ?s] show ?thesis
      by (cases "ds = []") (simp_all add: w add.assoc)
  qed
qed

lemma saturating_add_usize_le: "saturating_add_usize a b \<le> a + b"
  by (simp add: saturating_add_usize_def)

lemma capped_holding_bounded: "length (cap_buf (snd (feed (capped_holding n) ds))) \<le> n + 1"
  using feed_bounded [of "capped_holding n" ds] saturating_add_usize_le [of n 1]
  by (simp add: capped_holding_def)

lemma capped_holding_whole:
  "feed (capped_holding n) ds = (True, (capped_holding n)\<lparr>cap_buf := concat ds\<rparr>) \<longleftrightarrow>
    length (concat ds) \<le> saturating_add_usize n 1"
  using feed_whole [of "capped_holding n" "saturating_add_usize n 1" ds]
  by (auto simp: capped_holding_def)

text \<open>Whatever a decoder writes, the sink of a block of at most \<open>n\<close> bytes never holds more than
  \<open>n + 1\<close>; and it takes all a decoder writes exactly when that fits, and then holds just that.\<close>

lemma sink_never_exceeds:
  "length (cap_buf (snd (feed (capped_holding n) ds))) \<le> n + 1 \<and>
    (feed (capped_holding n) ds = (True, (capped_holding n)\<lparr>cap_buf := concat ds\<rparr>) \<longleftrightarrow>
      length (concat ds) \<le> saturating_add_usize n 1)"
  using capped_holding_bounded capped_holding_whole by blast

end
