(* ===== verification/Bcj.thy ===== *)
theory Bcj
  imports Outcome
begin

text \<open>
  The branch converters of \<open>src/xz.rs\<close>, in decode direction: \<open>x86\<close>, \<open>powerpc\<close>, \<open>ia64\<close>,
  \<open>arm\<close>, \<open>armthumb\<close> and \<open>sparc\<close>, and \<open>decode\<close>, which picks one.  The Rust code rewrites a
  buffer in place at increasing offsets \<open>i\<close>; every loop reads and writes at \<open>i\<close> and after it
  only, so the model consumes the buffer from the front and carries \<open>i\<close> along.
\<close>

datatype bcj = X86 | PowerPc | Ia64 | Arm | ArmThumb | Sparc

definition bcj_from_id :: "u64 \<Rightarrow> bcj result" where
  "bcj_from_id i =
     (if i = 0x04 then Ok X86
      else if i = 0x05 then Ok PowerPc
      else if i = 0x06 then Ok Ia64
      else if i = 0x07 then Ok Arm
      else if i = 0x08 then Ok ArmThumb
      else if i = 0x09 then Ok Sparc
      else if i = 0x0A then Fail (BadMetadata ''xz: the ARM64 BCJ filter is not implemented'')
      else if i = 0x0B then Fail (BadMetadata ''xz: the RISC-V BCJ filter is not implemented'')
      else if i = 0x03 then Fail (BadMetadata ''xz: the delta filter is not implemented'')
      else Fail (BadMetadata ''xz: unknown filter in the block's chain''))"

lemma safe_bcj_from_id [simp]: "safe (bcj_from_id i)"
  by (simp add: bcj_from_id_def)

section \<open>Words of the instruction stream\<close>

definition from_be_u32 :: "bytes \<Rightarrow> u32" where
  "from_be_u32 bs = from_le_bytes (rev bs)"

definition to_be_u32 :: "u32 \<Rightarrow> bytes" where
  "to_be_u32 w = rev (to_le_bytes 4 w)"

text \<open>\<open>start.wrapping_add(i as u32)\<close>, with what the architecture's program counter is ahead by.\<close>

definition pc_at :: "u32 \<Rightarrow> nat \<Rightarrow> u32 \<Rightarrow> u32" where
  "pc_at start i ahead = start + of_nat i + ahead"

text \<open>\<open>for i in (0..len & !(w-1)).step_by(w)\<close> over the \<open>w\<close>-byte windows of the buffer.\<close>

function map_windows :: "nat \<Rightarrow> (nat \<Rightarrow> bytes \<Rightarrow> bytes) \<Rightarrow> nat \<Rightarrow> bytes \<Rightarrow> bytes" where
  "map_windows w f i xs =
     (if w = 0 \<or> length xs < w then xs
      else f i (take w xs) @ map_windows w f (i + w) (drop w xs))"
  by pat_completeness auto
termination
  by (relation "measure (\<lambda>(w, f, i, xs). length xs)") auto

declare map_windows.simps [simp del]

section \<open>The fixed-width converters\<close>

definition powerpc_window :: "u32 \<Rightarrow> nat \<Rightarrow> bytes \<Rightarrow> bytes" where
  "powerpc_window start i xs =
     (let instr = from_be_u32 xs in
      if instr AND 0xFC000003 = 0x48000001 then
        let a = instr AND 0x03FFFFFC;
            a = a - pc_at start i 0;
            a = a AND 0x03FFFFFC
        in to_be_u32 (a OR 0x48000001)
      else xs)"

definition powerpc :: "u32 \<Rightarrow> bytes \<Rightarrow> bytes" where
  "powerpc start buf = map_windows 4 (powerpc_window start) 0 buf"

definition arm_window :: "u32 \<Rightarrow> nat \<Rightarrow> bytes \<Rightarrow> bytes" where
  "arm_window start i xs =
     (if xs ! 3 = 0xEB then
        let addr = ucast (xs ! 0) OR push_bit 8 (ucast (xs ! 1)) OR push_bit 16 (ucast (xs ! 2));
            addr = push_bit 2 (addr :: u32);
            addr = addr - pc_at start i 8;
            addr = drop_bit 2 addr
        in [ucast addr, ucast (drop_bit 8 addr), ucast (drop_bit 16 addr), xs ! 3]
      else xs)"

definition arm :: "u32 \<Rightarrow> bytes \<Rightarrow> bytes" where
  "arm start buf = map_windows 4 (arm_window start) 0 buf"

definition sparc_window :: "u32 \<Rightarrow> nat \<Rightarrow> bytes \<Rightarrow> bytes" where
  "sparc_window start i xs =
     (let instr = from_be_u32 xs in
      if drop_bit 22 instr = 0x100 \<or> drop_bit 22 instr = 0x1FF then
        let a = push_bit 2 instr;
            a = a - pc_at start i 0;
            a = drop_bit 2 a
        in to_be_u32 ((0x40000000 - (a AND 0x400000)) OR 0x40000000 OR (a AND 0x3FFFFF))
      else xs)"

definition sparc :: "u32 \<Rightarrow> bytes \<Rightarrow> bytes" where
  "sparc start buf = map_windows 4 (sparc_window start) 0 buf"

section \<open>IA-64: three 41-bit slots in a 16-byte bundle\<close>

definition ia64_branch_table :: "u32 list" where
  "ia64_branch_table =
     [0, 0, 0, 0, 0, 0, 0, 0, 0, 0, 0, 0, 0, 0, 0, 0, 4, 4, 6, 6, 0, 0, 7, 7, 4, 4, 0, 0, 4, 4,
      0, 0]"

definition ia64_slot :: "u32 \<Rightarrow> nat \<Rightarrow> nat \<Rightarrow> bytes \<Rightarrow> bytes" where
  "ia64_slot start i bit_pos xs =
     (let byte_pos = bit_pos div 8;
          bit_res = bit_pos mod 8;
          instr = (from_le_bytes (take 6 (drop byte_pos xs)) :: u64);
          norm = drop_bit bit_res instr
      in
      if drop_bit 37 norm AND 0x0F = 0x05 \<and> drop_bit 9 norm AND 0x07 = 0 then
        let addr = (ucast (drop_bit 13 norm AND 0x0FFFFF) :: u32);
            addr = addr OR push_bit 20 (ucast (drop_bit 36 norm AND 1));
            addr = push_bit 4 addr;
            addr = addr - pc_at start i 0;
            addr = drop_bit 4 addr;
            norm = norm AND NOT (push_bit 13 0x8FFFFF);
            norm = norm OR push_bit 13 (ucast (addr AND 0x0FFFFF));
            norm = norm OR push_bit 16 (ucast (addr AND 0x100000));
            instr = (instr AND (push_bit bit_res 1 - 1)) OR push_bit bit_res norm
        in take byte_pos xs @ to_le_bytes 6 instr @ drop (byte_pos + 6) xs
      else xs)"

fun ia64_slots :: "u32 \<Rightarrow> nat \<Rightarrow> u32 \<Rightarrow> nat list \<Rightarrow> bytes \<Rightarrow> bytes" where
  "ia64_slots start i msk [] xs = xs"
| "ia64_slots start i msk (slot # slots) xs =
     ia64_slots start i msk slots
       (if drop_bit slot msk AND 1 \<noteq> 0 then ia64_slot start i (5 + 41 * slot) xs else xs)"

definition ia64_window :: "u32 \<Rightarrow> nat \<Rightarrow> bytes \<Rightarrow> bytes" where
  "ia64_window start i xs =
     ia64_slots start i (ia64_branch_table ! unat (xs ! 0 AND 0x1F)) [0, 1, 2] xs"

definition ia64 :: "u32 \<Rightarrow> bytes \<Rightarrow> bytes" where
  "ia64 start buf = map_windows 16 (ia64_window start) 0 buf"

section \<open>ARM-Thumb: four bytes at every even offset\<close>

definition armthumb_window :: "u32 \<Rightarrow> nat \<Rightarrow> bytes \<Rightarrow> bytes" where
  "armthumb_window start i xs =
     (let addr =
            (push_bit 19 (ucast (xs ! 1) AND 0x07) OR push_bit 11 (ucast (xs ! 0)) OR
             push_bit 8 (ucast (xs ! 3) AND 0x07) OR ucast (xs ! 2) :: u32);
          addr = push_bit 1 addr;
          addr = addr - pc_at start i 4;
          addr = drop_bit 1 addr
      in [ucast (drop_bit 11 addr), 0xF0 OR ucast (drop_bit 19 addr AND 0x07),
          ucast addr, 0xF8 OR ucast (drop_bit 8 addr AND 0x07)])"

function armthumb_from :: "u32 \<Rightarrow> nat \<Rightarrow> bytes \<Rightarrow> bytes" where
  "armthumb_from start i xs =
     (if length xs < 4 then xs
      else if xs ! 1 AND 0xF8 = 0xF0 \<and> xs ! 3 AND 0xF8 = 0xF8 then
        armthumb_window start i (take 4 xs) @ armthumb_from start (i + 4) (drop 4 xs)
      else take 2 xs @ armthumb_from start (i + 2) (drop 2 xs))"
  by pat_completeness auto
termination
  by (relation "measure (\<lambda>(start, i, xs). length xs)") auto

declare armthumb_from.simps [simp del]

definition armthumb :: "u32 \<Rightarrow> bytes \<Rightarrow> bytes" where
  "armthumb start buf = armthumb_from start 0 buf"

section \<open>x86: call and jump displacements at any offset\<close>

definition x86_allowed :: "bool list" where
  "x86_allowed = [True, True, True, False, True, False, False, False]"

definition x86_bit_num :: "nat list" where
  "x86_bit_num = [0, 1, 2, 2, 3, 3, 3, 3]"

definition msbyte :: "u8 \<Rightarrow> bool" where
  "msbyte b \<longleftrightarrow> b = 0x00 \<or> b = 0xFF"

text \<open>The inner \<open>loop\<close>.  Nothing in its text bounds it: \<open>None\<close> is a call that never returns.\<close>

partial_function (option) x86_dest :: "u32 \<Rightarrow> nat \<Rightarrow> u32 \<Rightarrow> u32 option" where
  "x86_dest pc prev_mask src =
     (let dest = src - pc in
      if prev_mask = 0 then Some dest
      else
        let j = x86_bit_num ! prev_mask * 8;
            b = (ucast (drop_bit (24 - j) dest) :: u8)
        in
        if \<not> msbyte b then Some dest
        else x86_dest pc prev_mask (dest XOR (push_bit (32 - j) 1 - 1)))"

definition x86_convert :: "u32 \<Rightarrow> nat \<Rightarrow> nat \<Rightarrow> bytes \<Rightarrow> bytes option" where
  "x86_convert start i prev_mask disp =
     map_option (\<lambda>dest.
       let dest = dest AND 0x01FFFFFF;
           dest = dest OR (0 - (dest AND 0x01000000))
       in to_le_bytes 4 dest)
     (x86_dest (pc_at start i 5) prev_mask (from_le_bytes disp))"

text \<open>The mask of recent opcode bytes, as the head of the loop updates it from the distance to
  the last one (\<open>i.wrapping_sub(prev_pos)\<close>, \<open>prev_pos\<close> starting at \<open>usize::MAX\<close>).\<close>

definition x86_gap :: "nat \<Rightarrow> u64 \<Rightarrow> nat" where
  "x86_gap i prev_pos = unat (of_nat i - prev_pos)"

definition x86_mask :: "nat \<Rightarrow> nat \<Rightarrow> nat" where
  "x86_mask gap prev_mask = (if 3 < gap then 0 else (prev_mask * 2 ^ (gap - 1)) mod 8)"

definition x86_skip :: "nat \<Rightarrow> bytes \<Rightarrow> bool" where
  "x86_skip msk xs \<longleftrightarrow>
     msk \<noteq> 0 \<and> (\<not> x86_allowed ! msk \<or> msbyte (xs ! (4 - x86_bit_num ! msk)))"

function x86_from :: "u32 \<Rightarrow> nat \<Rightarrow> u64 \<Rightarrow> nat \<Rightarrow> bytes \<Rightarrow> bytes option" where
  "x86_from start i prev_pos prev_mask xs =
     (if length xs \<le> 4 then Some xs
      else if xs ! 0 AND 0xFE \<noteq> 0xE8 then
        map_option ((#) (xs ! 0)) (x86_from start (i + 1) prev_pos prev_mask (drop 1 xs))
      else
        let msk = x86_mask (x86_gap i prev_pos) prev_mask in
        if x86_skip msk xs then
          map_option ((#) (xs ! 0)) (x86_from start (i + 1) (of_nat i) (2 * msk + 1) (drop 1 xs))
        else if msbyte (xs ! 4) then
          (case x86_convert start i msk (take 4 (drop 1 xs)) of
             None \<Rightarrow> None
           | Some disp \<Rightarrow>
               map_option (\<lambda>rest. xs ! 0 # disp @ rest)
                 (x86_from start (i + 5) (of_nat i) msk (drop 5 xs)))
        else
          map_option ((#) (xs ! 0)) (x86_from start (i + 1) (of_nat i) (2 * msk + 1) (drop 1 xs)))"
  by pat_completeness auto
termination
  by (relation "measure (\<lambda>(start, i, prev_pos, prev_mask, xs). length xs)") auto

declare x86_from.simps [simp del]

definition x86 :: "u32 \<Rightarrow> bytes \<Rightarrow> bytes option" where
  "x86 start buf = x86_from start 0 (- 1) 0 buf"

section \<open>The converter a filter names\<close>

fun decode :: "bcj \<Rightarrow> u32 \<Rightarrow> bytes \<Rightarrow> bytes option" where
  "decode X86 start buf = x86 start buf"
| "decode PowerPc start buf = Some (powerpc start buf)"
| "decode Ia64 start buf = Some (ia64 start buf)"
| "decode Arm start buf = Some (arm start buf)"
| "decode ArmThumb start buf = Some (armthumb start buf)"
| "decode Sparc start buf = Some (sparc start buf)"

section \<open>The x86 inner loop returns\<close>

lemma take_bit_diff_left:
  "take_bit k (a - c) = take_bit k (take_bit k a - (c :: 'a::len word))"
proof -
  have "take_bit m (x - y) = take_bit m (take_bit m x - y)" for m and x y :: int
    by (metis take_bit_diff take_bit_of_int take_bit_take_bit min.idem)
  then show ?thesis by transfer (simp add: min.commute)
qed

lemma x86_second_pass:
  fixes src pc :: u32
  shows "take_bit k (((src - pc) XOR (push_bit k 1 - 1)) - pc) = take_bit k (NOT src)"
proof -
  have m: "push_bit k 1 - 1 = (mask k :: u32)" by (simp add: mask_eq_exp_minus_1)
  have "take_bit k ((src - pc) XOR mask k) = take_bit k (NOT (src - pc))"
    by (rule bit_word_eqI) (auto simp: bit_simps)
  then have "take_bit k (((src - pc) XOR mask k) - pc) = take_bit k (NOT (src - pc) - pc)"
    by (metis take_bit_diff_left)
  also have "NOT (src - pc) - pc = NOT src" by (simp add: not_eq_complement)
  finally show ?thesis by (simp only: m)
qed

lemma drop_byte_take_bit:
  "8 \<le> k \<Longrightarrow> (ucast (drop_bit (k - 8) (take_bit k (w :: u32))) :: u8) = ucast (drop_bit (k - 8) w)"
  by (rule bit_word_eqI) (auto simp: bit_simps)

text \<open>Two passes complement the byte the loop looks at.\<close>

lemma byte_second_pass:
  fixes src pc :: u32
  assumes "8 \<le> k" "k \<le> 32"
  shows "(ucast (drop_bit (k - 8) (((src - pc) XOR (push_bit k 1 - 1)) - pc)) :: u8)
    = NOT (ucast (drop_bit (k - 8) src))"
proof -
  have "(ucast (drop_bit (k - 8) (((src - pc) XOR (push_bit k 1 - 1)) - pc)) :: u8)
    = ucast (drop_bit (k - 8) (NOT src))"
    by (metis drop_byte_take_bit x86_second_pass assms(1))
  also have "\<dots> = NOT (ucast (drop_bit (k - 8) src))"
    using assms by (intro bit_word_eqI) (auto simp: bit_simps)
  finally show ?thesis .
qed

lemma msbyte_NOT: "msbyte (NOT b) \<longleftrightarrow> msbyte b"
proof -
  have "NOT b = 0 \<longleftrightarrow> b = - 1" by (metis bit.double_compl bit.compl_zero)
  moreover have "NOT b = - 1 \<longleftrightarrow> b = 0" by (metis bit.double_compl bit.compl_zero)
  moreover have "(0xFF :: u8) = - 1" by simp
  ultimately show ?thesis unfolding msbyte_def by metis
qed

lemma x86_dest_returns_at:
  assumes k: "32 - x86_bit_num ! m * 8 = k" "8 \<le> k" "k \<le> 32"
    and byte: "\<not> msbyte (ucast (drop_bit (k - 8) src))"
  shows "x86_dest pc m src \<noteq> None"
proof -
  have j: "24 - x86_bit_num ! m * 8 = k - 8" using k by arith
  let ?src = "(src - pc) XOR (push_bit k 1 - 1)"
  have second: "x86_dest pc m ?src \<noteq> None"
    using byte byte_second_pass [OF k(2,3), of src pc]
    by (subst x86_dest.simps) (simp add: Let_def j msbyte_NOT)
  then show ?thesis
    by (subst x86_dest.simps) (simp add: Let_def j k(1))
qed

lemma x86_dest_no_mask: "x86_dest pc 0 src = Some (src - pc)"
  by (subst x86_dest.simps) simp

lemma x86_convert_returns:
  assumes "length xs \<ge> 5" and "m < 8" and "\<not> x86_skip m xs"
  shows "x86_convert start i m (take 4 (drop 1 xs)) \<noteq> None"
proof (cases "m = 0")
  case True
  then show ?thesis by (simp add: x86_convert_def x86_dest_no_mask)
next
  case False
  let ?n = "x86_bit_num ! m"
  have "m = 1 \<or> m = 2 \<or> m = 4"
    using assms False by (auto simp: x86_skip_def x86_allowed_def nth_Cons' split: if_splits)
  then have n: "?n \<in> {1, 2, 3}" by (auto simp: x86_bit_num_def)
  have "\<not> msbyte (xs ! (4 - ?n))" using assms False by (simp add: x86_skip_def)
  moreover have "xs ! (4 - ?n) = take 4 (drop 1 xs) ! (3 - ?n)"
    using assms(1) n by (auto simp: numeral_eq_Suc)
  moreover have "\<dots> = ucast (drop_bit (8 * (3 - ?n)) (from_le_bytes (take 4 (drop 1 xs)) :: u32))"
    using assms(1) n by (intro byte_of_from_le_bytes [symmetric]) auto
  moreover have "8 * (3 - ?n) = (32 - ?n * 8) - 8" by simp
  ultimately have "\<not> msbyte (ucast (drop_bit ((32 - ?n * 8) - 8)
      (from_le_bytes (take 4 (drop 1 xs)) :: u32)))" by simp
  with n have "x86_dest (pc_at start i 5) m (from_le_bytes (take 4 (drop 1 xs))) \<noteq> None"
    by (intro x86_dest_returns_at [OF refl]) auto
  then show ?thesis by (auto simp: x86_convert_def)
qed

lemma x86_mask_less: "x86_mask gap m < 8"
  by (simp add: x86_mask_def)

lemma x86_from_returns:
  "\<exists>ys. x86_from start i p m xs = Some ys \<and> length ys = length xs"
proof (induction start i p m xs rule: x86_from.induct)
  case (1 start i p m xs)
  let ?m = "x86_mask (x86_gap i p) m"
  consider (short) "length xs \<le> 4"
    | (other) "4 < length xs" "xs ! 0 AND 0xFE \<noteq> 0xE8"
    | (skip) "4 < length xs" "xs ! 0 AND 0xFE = 0xE8" "x86_skip ?m xs \<or> \<not> msbyte (xs ! 4)"
    | (convert) "4 < length xs" "xs ! 0 AND 0xFE = 0xE8" "\<not> x86_skip ?m xs" "msbyte (xs ! 4)"
    by fastforce
  then show ?case
  proof cases
    case short
    then show ?thesis by (simp add: x86_from.simps)
  next
    case other
    with "1.IH"(1) show ?thesis by (subst x86_from.simps) auto
  next
    case skip
    then obtain ys where "x86_from start (i + 1) (of_nat i) (2 * ?m + 1) (drop 1 xs) = Some ys"
        "length ys = length (drop 1 xs)"
      using "1.IH"(2,4) by auto
    with skip show ?thesis by (subst x86_from.simps) (auto simp: Let_def)
  next
    case convert
    then obtain disp where d: "x86_convert start i ?m (take 4 (drop 1 xs)) = Some disp"
      using x86_convert_returns [of xs ?m start i] x86_mask_less by fastforce
    then have "length disp = 4" by (auto simp: x86_convert_def Let_def)
    moreover obtain ys where "x86_from start (i + 5) (of_nat i) ?m (drop 5 xs) = Some ys"
        "length ys = length (drop 5 xs)"
      using "1.IH"(3) [OF _ _ refl] convert d by auto
    ultimately show ?thesis using convert d by (subst x86_from.simps) (simp add: Let_def)
  qed
qed

section \<open>Every converter returns and keeps the block's length\<close>

lemma length_map_windows:
  assumes "\<And>i ys. length ys = w \<Longrightarrow> length (f i ys) = w"
  shows "length (map_windows w f i xs) = length xs"
proof (induction xs arbitrary: i rule: length_induct)
  case (1 xs)
  show ?case
  proof (cases "w = 0 \<or> length xs < w")
    case True
    then show ?thesis by (simp add: map_windows.simps)
  next
    case False
    then have "length (drop w xs) < length xs" by auto
    with "1.IH" have "length (map_windows w f (i + w) (drop w xs)) = length xs - w" by simp
    moreover have "length (f i (take w xs)) = w" using False assms by simp
    ultimately show ?thesis using False by (simp add: map_windows.simps [of w f i xs])
  qed
qed

lemma length_fixed_windows:
  "length ys = 4 \<Longrightarrow> length (powerpc_window start i ys) = 4"
  "length ys = 4 \<Longrightarrow> length (arm_window start i ys) = 4"
  "length ys = 4 \<Longrightarrow> length (sparc_window start i ys) = 4"
  by (simp_all add: powerpc_window_def arm_window_def sparc_window_def to_be_u32_def Let_def)

lemma length_ia64_slot:
  "bit_pos \<le> 87 \<Longrightarrow> length xs = 16 \<Longrightarrow> length (ia64_slot start i bit_pos xs) = 16"
  by (auto simp: ia64_slot_def Let_def min_def)

lemma length_ia64_slots:
  "set slots \<subseteq> {0, 1, 2} \<Longrightarrow> length xs = 16 \<Longrightarrow> length (ia64_slots start i msk slots xs) = 16"
  by (induction start i msk slots xs rule: ia64_slots.induct) (auto simp: length_ia64_slot)

lemma length_ia64_window: "length ys = 16 \<Longrightarrow> length (ia64_window start i ys) = 16"
  unfolding ia64_window_def by (rule length_ia64_slots) auto

lemma length_armthumb_from: "length (armthumb_from start i xs) = length xs"
proof (induction start i xs rule: armthumb_from.induct)
  case (1 start i xs)
  then show ?case
    by (subst armthumb_from.simps) (auto simp: armthumb_window_def Let_def)
qed

lemma decode_returns: "\<exists>buf'. decode k start buf = Some buf' \<and> length buf' = length buf"
  by (cases k)
    (simp_all add: x86_def x86_from_returns powerpc_def arm_def sparc_def ia64_def armthumb_def
      length_map_windows length_fixed_windows length_ia64_window length_armthumb_from)

section \<open>Properties\<close>

text \<open>Every branch converter returns, the x86 one with its unbounded inner loop included, and
  gives a block of the length it was given.\<close>

theorem converters_return:
  "\<exists>buf'. decode k start buf = Some buf' \<and> length buf' = length buf"
  by (rule decode_returns)

end
