(* ===== verification/Xz_Stream.thy ===== *)
theory Xz_Stream
  imports Sinks Bcj
begin

text \<open>
  The \<open>.xz\<close> container of \<open>src/xz.rs\<close>: the stream header, each block's header, filter chain,
  payload, padding and check, the index and the footer.  Decoding LZMA2 and CRC-32 are the
  codecs' (\<^theory_text>\<open>Externals\<close>); CRC-64 is the crate's own.
\<close>

definition STREAM_MAGIC :: bytes where
  "STREAM_MAGIC = [0xFD, 0x37, 0x7A, 0x58, 0x5A, 0x00]"

definition FILTER_LZMA2 :: u64 where "FILTER_LZMA2 = 0x21"

abbreviation bad :: "string \<Rightarrow> 'a result" where "bad why \<equiv> Fail (BadMetadata why)"

definition has_filters :: "bytes \<Rightarrow> bool result" where
  "has_filters stream =
     (case get_from stream 12 of
        None \<Rightarrow> Ok False
      | Some header \<Rightarrow>
          and_then (slice_to stream 6) (\<lambda>m.
          if m \<noteq> STREAM_MAGIC then Ok False
          else
            case get header 0 of
              Some size_byte \<Rightarrow>
                if size_byte \<noteq> 0 then
                  Ok (case get header 1 of Some flags \<Rightarrow> flags AND 0x03 \<noteq> 0 | None \<Rightarrow> False)
                else Ok False
            | None \<Rightarrow> Ok False))"

section \<open>Variable-length integers and CRC-64\<close>

fun varint_from :: "nat list \<Rightarrow> bytes \<Rightarrow> nat \<Rightarrow> u64 \<Rightarrow> (u64 \<times> nat) result" where
  "varint_from [] buf at v = bad ''xz: varint longer than nine bytes''"
| "varint_from (i # is) buf at v =
     (case get buf at of
        None \<Rightarrow> bad ''xz: varint runs off the block header''
      | Some b \<Rightarrow>
          let v' = v OR push_bit (7 * i) (ucast (b AND 0x7F)) in
          if b AND 0x80 = 0 then
            if 0 < i \<and> b = 0 then bad ''xz: varint is not minimally encoded''
            else Ok (v', at + 1)
          else varint_from is buf (at + 1) v')"

definition varint :: "bytes \<Rightarrow> nat \<Rightarrow> (u64 \<times> nat) result" where
  "varint buf at = varint_from [0..<9] buf at 0"

fun crc64_bits :: "nat \<Rightarrow> u64 \<Rightarrow> u64" where
  "crc64_bits 0 crc = crc"
| "crc64_bits (Suc n) crc =
     crc64_bits n
       (if crc AND 1 \<noteq> 0 then drop_bit 1 crc XOR 0xC96C5795D7870F42 else drop_bit 1 crc)"

definition crc64 :: "bytes \<Rightarrow> u64" where
  "crc64 data = NOT (foldl (\<lambda>crc b. crc64_bits 8 (crc XOR ucast b)) (NOT 0) data)"

section \<open>Zero padding to a multiple of four\<close>

function skip_zeros :: "string \<Rightarrow> bytes \<Rightarrow> nat \<Rightarrow> nat \<Rightarrow> nat result" where
  "skip_zeros why buf base at =
     (if (at - base) mod 4 = 0 then Ok at
      else if get buf at \<noteq> Some 0 then bad why
      else skip_zeros why buf base (at + 1))"
  by pat_completeness auto
termination
  by (relation "measure (\<lambda>(why, buf, base, at). length buf - at)") auto

declare skip_zeros.simps [simp del]

section \<open>The filter chain of a block header\<close>

definition filter_step ::
  "bool \<Rightarrow> u64 \<Rightarrow> bytes \<Rightarrow> (bcj \<times> u32) option \<Rightarrow> (bcj \<times> u32) option result" where
  "filter_step last_filter fid props conv =
     (if last_filter then
        if fid = FILTER_LZMA2 then
          case props of
            [code] \<Rightarrow>
              if code \<le> 40 then Ok conv
              else bad ''xz: LZMA2 properties are not one byte of at most 40''
          | _ \<Rightarrow> bad ''xz: LZMA2 properties are not one byte of at most 40''
        else bad ''xz: the chain does not end in LZMA2''
      else if fid = FILTER_LZMA2 then bad ''xz: LZMA2 before the end of the chain''
      else if conv \<noteq> None then bad ''xz: more than one filter before LZMA2''
      else
        and_then
          (if length props = 0 then Ok 0
           else if length props = 4 then Ok (from_le_bytes props)
           else bad ''xz: BCJ properties are neither empty nor 4 bytes'') (\<lambda>start.
        and_then (bcj_from_id fid) (\<lambda>kind. Ok (Some (kind, start)))))"

fun parse_filters ::
  "bytes \<Rightarrow> nat \<Rightarrow> nat list \<Rightarrow> nat \<Rightarrow> (bcj \<times> u32) option \<Rightarrow> ((bcj \<times> u32) option \<times> nat) result" where
  "parse_filters body filters [] at conv = Ok (conv, at)"
| "parse_filters body filters (ix # ixs) at conv =
     and_then (varint body at) (\<lambda>(fid, at).
     and_then (varint body at) (\<lambda>(len, at).
     and_then (ok_or (checked_add_usize at (unat len))
         (BadMetadata ''xz: filter properties run off the block header'')) (\<lambda>props_end.
     and_then (ok_or (get_range body at props_end)
         (BadMetadata ''xz: filter properties run off the block header'')) (\<lambda>props.
     and_then (filter_step (ix + 1 = filters) fid props conv) (\<lambda>conv'.
       parse_filters body filters ixs props_end conv')))))"

section \<open>A block header\<close>

record block_header =
  bh_len :: nat
  bh_compressed :: "u64 option"
  bh_uncompressed :: "u64 option"
  bh_filter :: "(bcj \<times> u32) option"

definition opt_varint :: "bool \<Rightarrow> bytes \<Rightarrow> nat \<Rightarrow> (u64 option \<times> nat) result" where
  "opt_varint present body at =
     (if present then and_then (varint body at) (\<lambda>(v, at). Ok (Some v, at)) else Ok (None, at))"

definition parse_block_header :: "codecs \<Rightarrow> bytes \<Rightarrow> nat \<Rightarrow> u8 \<Rightarrow> block_header result" where
  "parse_block_header C stream pos size_byte =
     (let header_len = (unat size_byte + 1) * 4 in
      and_then (ok_or (get_range stream pos (pos + header_len))
          (BadMetadata ''xz: block header runs off the stream'')) (\<lambda>header.
      and_then (rd_u32 header (header_len - 4)) (\<lambda>stored.
      and_then (slice_to header (header_len - 4)) (\<lambda>body.
      if cd_crc32 C body \<noteq> stored then bad ''xz: block header checksum mismatch''
      else
        and_then (index header 1) (\<lambda>block_flags.
        if block_flags AND 0x3C \<noteq> 0 then bad ''xz: reserved block flags set''
        else
          and_then (opt_varint (block_flags AND 0x40 \<noteq> 0) body 2) (\<lambda>(compressed_size, at).
          and_then (opt_varint (block_flags AND 0x80 \<noteq> 0) body at) (\<lambda>(uncompressed_size, at).
          let filters = unat (block_flags AND 0x03) + 1 in
          and_then (parse_filters body filters [0..<filters] at None) (\<lambda>(conv, at).
          and_then (slice_from body at) (\<lambda>rest.
          if list_ex (\<lambda>b. b \<noteq> 0) rest then bad ''xz: block header padding is not zero''
          else
            Ok \<lparr>bh_len = header_len, bh_compressed = compressed_size,
                bh_uncompressed = uncompressed_size, bh_filter = conv\<rparr>)))))))))"

section \<open>A block: payload, padding, check, converter\<close>

definition xz_payload :: "bytes \<Rightarrow> nat \<Rightarrow> u64 option \<Rightarrow> bytes result" where
  "xz_payload stream data_start compressed_size =
     and_then (ok_or (get_from stream data_start) (BadMetadata ''xz: block has no payload'')) (\<lambda>payload.
     case compressed_size of
       None \<Rightarrow> Ok payload
     | Some n \<Rightarrow> ok_or (get_range payload 0 (unat n))
                   (BadMetadata ''xz: compressed size runs off the stream''))"

text \<open>The payload through the LZMA2 decoder and the capped sink: the block as decoded and how
  much of the payload it took, with the sizes the header declared checked.\<close>

definition xz_decode_payload ::
  "codecs \<Rightarrow> nat \<Rightarrow> nat \<Rightarrow> block_header \<Rightarrow> bytes \<Rightarrow> (bytes \<times> nat) result" where
  "xz_decode_payload C max_out out_len h payload =
     (let (writes, well, consumed) = cd_lzma2 C payload;
          (taken, sink) = feed \<lparr>cap_buf = [], cap_limit = saturating_add_usize (max_out - out_len) 1\<rparr> writes;
          block = cap_buf sink
      in
      if \<not> (taken \<and> well) then bad ''xz decompression failed''
      else if (case bh_compressed h of Some n \<Rightarrow> unat n \<noteq> consumed | None \<Rightarrow> False) then
        bad ''xz: compressed size disagrees with the payload''
      else if (case bh_uncompressed h of Some n \<Rightarrow> unat n \<noteq> length block | None \<Rightarrow> False) then
        bad ''xz: uncompressed size disagrees with the payload''
      else if max_out < out_len + length block then bad ''decompressed block exceeds max size''
      else Ok (block, consumed))"

definition check_block :: "codecs \<Rightarrow> u8 \<Rightarrow> bytes \<Rightarrow> bytes \<Rightarrow> unit result" where
  "check_block C check block stored_check =
     (if check = 0x01 \<and> to_le_bytes 4 (cd_crc32 C block) \<noteq> stored_check then
        bad ''xz: block CRC32 mismatch''
      else if check = 0x04 \<and> to_le_bytes 8 (crc64 block) \<noteq> stored_check then
        bad ''xz: block CRC64 mismatch''
      else if check = 0x0A then bad ''xz: SHA-256 checked blocks are not supported''
      else Ok ())"

text \<open>The converter, run backwards over the whole block.\<close>

definition convert :: "(bcj \<times> u32) option \<Rightarrow> bytes \<Rightarrow> bytes result" where
  "convert conv block =
     (case conv of
        None \<Rightarrow> Ok block
      | Some (kind, start) \<Rightarrow>
          (case decode kind start block of None \<Rightarrow> Inl Diverge | Some b \<Rightarrow> Ok b))"

text \<open>One turn of the loop over blocks: the output so far, the block's index record, and where
  the next block starts.\<close>

definition xz_block ::
  "codecs \<Rightarrow> nat \<Rightarrow> bool \<Rightarrow> u8 \<Rightarrow> nat \<Rightarrow> bytes \<Rightarrow> bytes \<Rightarrow> nat \<Rightarrow> u8 \<Rightarrow>
    (bytes \<times> (u64 \<times> u64) \<times> nat) result" where
  "xz_block C max_out run_filter check check_len stream out pos size_byte =
     and_then (parse_block_header C stream pos size_byte) (\<lambda>h.
     let data_start = pos + bh_len h in
     and_then (xz_payload stream data_start (bh_compressed h)) (\<lambda>payload.
     and_then (xz_decode_payload C max_out (length out) h payload) (\<lambda>(block, consumed).
     and_then (skip_zeros ''xz: block padding is not zero'' stream pos (data_start + consumed)) (\<lambda>end_at.
     and_then (ok_or (get_range stream end_at (end_at + check_len))
         (BadMetadata ''xz: block check runs off the stream'')) (\<lambda>stored_check.
     let record =
           (of_nat (bh_len h + consumed + check_len) :: u64, of_nat (length block) :: u64)
     in
     if bh_filter h \<noteq> None \<and> \<not> run_filter then Ok (out @ block, record, end_at + check_len)
     else
       and_then (convert (bh_filter h) block) (\<lambda>block.
       and_then (check_block C check block stored_check) (\<lambda>_.
         Ok (out @ block, record, end_at + check_len))))))))"

section \<open>The index and the footer\<close>

fun check_records :: "bytes \<Rightarrow> (u64 \<times> u64) list \<Rightarrow> nat \<Rightarrow> nat result" where
  "check_records tail [] at = Ok at"
| "check_records tail ((unpadded, uncompressed) # rs) at =
     and_then (varint tail at) (\<lambda>(v, at).
     if v \<noteq> unpadded then bad ''xz: index record disagrees with its block''
     else
       and_then (varint tail at) (\<lambda>(v, at).
       if v \<noteq> uncompressed then bad ''xz: index record disagrees with its block''
       else check_records tail rs at))"

definition check_footer :: "codecs \<Rightarrow> bytes \<Rightarrow> nat \<Rightarrow> bytes \<Rightarrow> unit result" where
  "check_footer C tail index_len header_flags =
     and_then (ok_or (get_range tail index_len (index_len + 12))
         (BadMetadata ''xz: stream ends before its footer'')) (\<lambda>footer.
     and_then (slice_from footer 10) (\<lambda>magic.
     if magic \<noteq> [0x59, 0x5A] then bad ''xz: stream footer magic is wrong''
     else
       and_then (slice footer 4 10) (\<lambda>covered.
       and_then (slice_to footer 4) (\<lambda>stored.
       if to_le_bytes 4 (cd_crc32 C covered) \<noteq> stored then bad ''xz: stream footer is damaged''
       else
         and_then (slice footer 8 10) (\<lambda>flags.
         if flags \<noteq> header_flags then bad ''xz: stream footer flags disagree with the header''
         else
           and_then (rd_u32 footer 4) (\<lambda>backward.
           if ((ucast backward :: u64) + 1) * 4 \<noteq> of_nat index_len then
             bad ''xz: stream footer's backward size disagrees with the index''
           else
             and_then (slice_from tail (index_len + 12)) (\<lambda>padding.
             if length padding mod 4 \<noteq> 0 \<or> list_ex (\<lambda>b. b \<noteq> 0) padding then
               bad ''xz: bytes after the stream footer''
             else Ok ())))))))"

definition check_index_and_footer ::
  "codecs \<Rightarrow> bytes \<Rightarrow> (u64 \<times> u64) list \<Rightarrow> bytes \<Rightarrow> unit result" where
  "check_index_and_footer C tail records header_flags =
     and_then (varint tail 1) (\<lambda>(count, at).
     if count \<noteq> of_nat (length records) then
       bad ''xz: index record count disagrees with the blocks''
     else
       and_then (check_records tail records at) (\<lambda>at.
       and_then (skip_zeros ''xz: index padding is not zero'' tail 0 at) (\<lambda>at.
       and_then (ok_or (get_range tail at (at + 4))
           (BadMetadata ''xz: index CRC32 runs off the stream'')) (\<lambda>stored.
       and_then (slice_to tail at) (\<lambda>covered.
       if to_le_bytes 4 (cd_crc32 C covered) \<noteq> stored then bad ''xz: index CRC32 mismatch''
       else check_footer C tail (at + 4) header_flags)))))"

section \<open>The stream\<close>

definition check_len_of :: "u8 \<Rightarrow> nat result" where
  "check_len_of check =
     (if check = 0x00 then Ok 0
      else if check = 0x01 then Ok 4
      else if check = 0x04 then Ok 8
      else if check = 0x0A then Ok 32
      else bad ''xz: unknown check type'')"

text \<open>Each turn moves past at least its eight-byte header, so a stream of \<open>n\<close> bytes takes at most
  \<open>n\<close> turns: the loop is a recursion on how much of the stream is left.\<close>

lemma parse_block_header_len:
  "parse_block_header C stream pos b = Ok h \<Longrightarrow>
    bh_len h = (unat b + 1) * 4 \<and> pos + bh_len h \<le> length stream"
  by (auto simp: parse_block_header_def Let_def get_range_def split: prod.splits if_splits)

lemma skip_zeros_ge: "skip_zeros why buf base at = Ok e \<Longrightarrow> at \<le> e"
proof (induction why buf base at rule: skip_zeros.induct)
  case (1 why buf base at)
  then show ?case by (subst (asm) skip_zeros.simps) (fastforce split: if_splits)
qed

lemma xz_block_progress:
  "xz_block C max_out rf check clen stream out pos b = Ok (out', rec, pos') \<Longrightarrow>
    pos < pos' \<and> pos' \<le> length stream"
  by (auto simp: xz_block_def Let_def get_range_def dest!: parse_block_header_len skip_zeros_ge
      split: prod.splits if_splits)

function xz_blocks ::
  "codecs \<Rightarrow> nat \<Rightarrow> bool \<Rightarrow> u8 \<Rightarrow> nat \<Rightarrow> bytes \<Rightarrow> bytes \<Rightarrow> bytes \<Rightarrow> (u64 \<times> u64) list \<Rightarrow> nat \<Rightarrow>
    bytes result" where
  "xz_blocks C max_out run_filter check check_len flags stream out records pos =
     (case get stream pos of
        None \<Rightarrow> bad ''xz: stream ends before its index''
      | Some size_byte \<Rightarrow>
          if size_byte = 0 then
            and_then (slice_from stream pos) (\<lambda>tail.
            and_then (check_index_and_footer C tail records flags) (\<lambda>_. Ok out))
          else
            (case xz_block C max_out run_filter check check_len stream out pos size_byte of
               Inl e \<Rightarrow> Inl e
             | Inr (out', record, pos') \<Rightarrow>
                 xz_blocks C max_out run_filter check check_len flags stream out'
                   (records @ [record]) pos'))"
  by pat_completeness auto
termination
  by (relation "measure (\<lambda>(C, max_out, rf, check, clen, flags, stream, out, records, pos).
        length stream - pos)") (auto dest: xz_block_progress)

declare xz_blocks.simps [simp del]

definition decompress_with :: "codecs \<Rightarrow> bytes \<Rightarrow> nat \<Rightarrow> bool \<Rightarrow> bytes result" where
  "decompress_with C stream max_out run_filter =
     (if length stream < 12 then bad ''xz: not an xz stream''
      else
        and_then (slice_to stream 6) (\<lambda>magic.
        if magic \<noteq> STREAM_MAGIC then bad ''xz: not an xz stream''
        else
          and_then (slice stream 6 8) (\<lambda>flags.
          and_then (rd_u32 stream 8) (\<lambda>stored.
          if cd_crc32 C flags \<noteq> stored then bad ''xz: stream header is damaged''
          else
            and_then (index flags 0) (\<lambda>f0.
            if f0 \<noteq> 0 then bad ''xz: stream header is damaged''
            else
              and_then (index flags 1) (\<lambda>f1.
              let check = f1 AND 0x0F in
              and_then (check_len_of check) (\<lambda>check_len.
                xz_blocks C max_out run_filter check check_len flags stream [] [] 12)))))))"

definition xz_decompress :: "codecs \<Rightarrow> bytes \<Rightarrow> nat \<Rightarrow> bytes result" where
  "xz_decompress C stream max_out = decompress_with C stream max_out True"

section \<open>Every stream is decoded or refused, within its bound\<close>

lemma safe_varint_from: "safe (varint_from is buf at v)"
  by (induction "is" buf at v rule: varint_from.induct)
    (simp_all add: Let_def split: option.splits)

lemma safe_varint [simp]: "safe (varint buf at)"
  by (simp add: varint_def safe_varint_from)

lemma varint_from_moves:
  "varint_from is buf at v = Ok (w, at') \<Longrightarrow> at < at' \<and> at' \<le> length buf"
proof (induction "is" buf at v rule: varint_from.induct)
  case (1 buf at v)
  then show ?case by simp
next
  case (2 i "is" buf at v)
  then show ?case by (fastforce simp: Let_def split: option.splits if_splits)
qed

lemma varint_moves: "varint buf at = Ok (v, at') \<Longrightarrow> at < at' \<and> at' \<le> length buf"
  unfolding varint_def by (rule varint_from_moves)

lemma safe_skip_zeros [simp]: "safe (skip_zeros why buf base at)"
proof (induction why buf base at rule: skip_zeros.induct)
  case (1 why buf base at)
  then show ?case by (subst skip_zeros.simps) simp
qed

lemma skip_zeros_le:
  "skip_zeros why buf base at = Ok e \<Longrightarrow> at \<le> length buf \<Longrightarrow> e \<le> length buf"
proof (induction why buf base at rule: skip_zeros.induct)
  case (1 why buf base at)
  then show ?case by (subst (asm) (2) skip_zeros.simps) (auto simp: Suc_le_eq split: if_splits)
qed

lemma safe_filter_step [simp]: "safe (filter_step l fid props conv)"
  by (auto simp: filter_step_def intro!: safe_and_then split: list.splits)

lemma safe_parse_filters: "safe (parse_filters body filters ixs at conv)"
  by (induction body filters ixs at conv rule: parse_filters.induct)
    (auto intro!: safe_and_then split: prod.splits)

lemma parse_filters_moves:
  "parse_filters body filters ixs at conv = Ok (r, at') \<Longrightarrow> at \<le> length body \<or> ixs \<noteq> [] \<Longrightarrow>
    at' \<le> length body"
proof (induction ixs arbitrary: at conv)
  case Nil
  then show ?case by simp
next
  case (Cons ix ixs)
  then show ?case by (auto simp: get_range_def split: if_splits)
qed

lemma safe_opt_varint [simp]: "safe (opt_varint p body at)"
  by (auto simp: opt_varint_def intro!: safe_and_then)

text \<open>A nonzero size byte makes the header at least eight bytes, which is what every unchecked
  slice and index in the parser needs.\<close>

lemma safe_parse_block_header:
  assumes "b \<noteq> 0"
  shows "safe (parse_block_header C stream pos b)"
proof -
  have "1 \<le> unat b" using assms by (simp add: Suc_le_eq unat_gt_0)
  then show ?thesis
    by (auto simp: parse_block_header_def Let_def get_range_def rd_u32_ok slice_to_def index_def
        slice_from_def safe_parse_filters dest: parse_filters_moves
        intro!: safe_and_then split: prod.splits if_splits)
qed

lemma safe_xz_payload [simp]: "safe (xz_payload stream at n)"
  by (auto simp: xz_payload_def intro!: safe_and_then split: option.splits)

lemma safe_xz_decode_payload [simp]: "safe (xz_decode_payload C max_out n h payload)"
  by (simp add: xz_decode_payload_def Let_def split: prod.splits)

lemma xz_decode_payload_bound:
  "xz_decode_payload C max_out n h payload = Ok (block, k) \<Longrightarrow> n + length block \<le> max_out"
  by (simp add: xz_decode_payload_def Let_def split: prod.splits if_splits)

lemma safe_check_block [simp]: "safe (check_block C c b s)"
  by (simp add: check_block_def)

lemma safe_convert [simp]: "safe (convert conv block)"
  using decode_returns [of "fst (the conv)" "snd (the conv)" block]
  by (auto simp: convert_def split: option.splits prod.splits)

lemma convert_length: "convert conv block = Ok b \<Longrightarrow> length b = length block"
  using decode_returns [of "fst (the conv)" "snd (the conv)" block]
  by (auto simp: convert_def split: option.splits prod.splits)

lemma safe_xz_block:
  "b \<noteq> 0 \<Longrightarrow> safe (xz_block C max_out rf check clen stream out pos b)"
  by (auto simp: xz_block_def Let_def safe_parse_block_header intro!: safe_and_then split: prod.splits)

lemma xz_block_bound:
  "xz_block C max_out rf check clen stream out pos b = Ok (out', r, pos') \<Longrightarrow>
    length out' \<le> max_out"
  by (auto simp: xz_block_def Let_def dest!: xz_decode_payload_bound convert_length
      split: prod.splits if_splits)

lemma safe_check_records [simp]: "safe (check_records tail rs at)"
  by (induction tail rs at rule: check_records.induct)
    (auto intro!: safe_and_then split: prod.splits)

lemma check_records_le:
  "check_records tail rs at = Ok e \<Longrightarrow> at \<le> length tail \<Longrightarrow> e \<le> length tail"
  by (induction tail rs at rule: check_records.induct)
    (auto dest: varint_moves split: if_splits)

lemma safe_check_footer [simp]: "safe (check_footer C tail n flags)"
  by (auto simp: check_footer_def get_range_def slice_from_def slice_def slice_to_def rd_u32_ok
      intro!: safe_and_then split: if_splits)

lemma safe_check_index_and_footer [simp]: "safe (check_index_and_footer C tail rs flags)"
  by (auto simp: check_index_and_footer_def get_range_def slice_to_def
      intro!: safe_and_then split: if_splits)

lemma safe_xz_blocks:
  "safe (xz_blocks C max_out rf check clen flags stream out recs pos)"
proof (induction C max_out rf check clen flags stream out recs pos rule: xz_blocks.induct)
  case (1 C max_out rf check clen flags stream out recs pos)
  show ?case
  proof (cases "get stream pos")
    case None
    then show ?thesis by (subst xz_blocks.simps) (simp del: get_eq_None)
  next
    case (Some b)
    show ?thesis
    proof (cases "b = 0")
      case True
      with Some show ?thesis
        by (subst xz_blocks.simps)
          (auto simp: slice_from_def get_def split: if_splits intro!: safe_and_then)
    next
      case False
      with Some 1 safe_xz_block [OF False, of C max_out rf check clen stream out pos]
      show ?thesis
        by (subst xz_blocks.simps)
          (auto simp: safe_def simp del: get_eq_Some split: sum.splits prod.splits)
    qed
  qed
qed

lemma xz_blocks_bound:
  "xz_blocks C max_out rf check clen flags stream out recs pos = Ok v \<Longrightarrow>
    length out \<le> max_out \<Longrightarrow> length v \<le> max_out"
proof (induction C max_out rf check clen flags stream out recs pos rule: xz_blocks.induct)
  case (1 C max_out rf check clen flags stream out recs pos)
  then show ?case
    by (subst (asm) (2) xz_blocks.simps)
      (auto dest: xz_block_bound split: option.splits if_splits sum.splits prod.splits)
qed

lemma safe_check_len_of [simp]: "safe (check_len_of c)"
  by (simp add: check_len_of_def)

lemma safe_has_filters [simp]: "safe (has_filters stream)"
  by (auto simp: has_filters_def get_from_def slice_to_def intro!: safe_and_then
      split: option.splits if_splits)

lemma safe_xz_decompress [simp]: "safe (xz_decompress C stream max_out)"
  by (auto simp: xz_decompress_def decompress_with_def slice_to_def slice_def rd_u32_ok index_def
      Let_def safe_xz_blocks intro!: safe_and_then)

lemma xz_decompress_bound: "xz_decompress C stream max_out = Ok v \<Longrightarrow> length v \<le> max_out"
  by (auto simp: xz_decompress_def decompress_with_def Let_def dest: xz_blocks_bound
      split: if_splits)

section \<open>Properties\<close>

lemma xz_outcome:
  "case xz_decompress C input max_out of
     Inl (Err e) \<Rightarrow> True | Inl Panic \<Rightarrow> False | Inl Diverge \<Rightarrow> False | Inr v \<Rightarrow> length v \<le> max_out"
  using safe_xz_decompress [of C input max_out] xz_decompress_bound [of C input max_out]
  by (cases "xz_decompress C input max_out") (auto simp: safe_def split: fault.split)

text \<open>C37. The filtered xz reader returns on every input, with an error or with a block of at most
  the bytes asked for; it does not panic on any slice, and its loops over blocks, records, varints
  and padding end.\<close>

theorem xz_total_and_bounded:
  "case xz_decompress C input max_out of
     Inl (Err e) \<Rightarrow> True | Inl Panic \<Rightarrow> False | Inl Diverge \<Rightarrow> False | Inr v \<Rightarrow> length v \<le> max_out"
  by (rule xz_outcome)

end
