(* ===== verification/Codec.thy ===== *)
theory Codec
  imports Compressors Xz_Stream
begin

text \<open>
  The codec dispatch of \<open>src/decompress.rs\<close>: one function per compressor around the codec
  crates' entry points, and \<open>decompress\<close> over them.  What a codec decodes is a parameter; the
  bounds, the status checks and the error mapping are the crate's.
\<close>

section \<open>One codec at a time\<close>

definition decompress_zlib :: "codecs \<Rightarrow> bytes \<Rightarrow> nat \<Rightarrow> bytes result" where
  "decompress_zlib C input max_out =
     and_then (ok_or (cd_zlib C input max_out) (BadMetadata ''zlib decompression failed''))
       (\<lambda>(status, produced, written).
         if status \<noteq> StreamEnd then bad ''zlib stream did not finish''
         else if max_out < produced then bad ''decompressed block exceeds max size''
         else Ok (take produced (fill_slice (replicate max_out 0) written)))"

definition decompress_xz :: "codecs \<Rightarrow> bytes \<Rightarrow> nat \<Rightarrow> bytes result" where
  "decompress_xz C input max_out =
     and_then (has_filters input) (\<lambda>filtered.
       if filtered then xz_decompress C input max_out
       else
         (let (writes, well) = cd_xz C input;
              (taken, sink) = feed (capped_holding max_out) writes
          in
          if \<not> (taken \<and> well) then bad ''xz decompression failed''
          else if max_out < length (cap_buf sink) then bad ''decompressed block exceeds max size''
          else Ok (cap_buf sink)))"

definition decompress_lzma_alone :: "codecs \<Rightarrow> bytes \<Rightarrow> nat \<Rightarrow> bytes result" where
  "decompress_lzma_alone C input max_out =
     (let (writes, well) = cd_lzma C input;
          (taken, sink) = feed (capped_holding max_out) writes
      in
      if \<not> (taken \<and> well) then bad ''lzma decompression failed''
      else if max_out < length (cap_buf sink) then bad ''decompressed block exceeds max size''
      else Ok (cap_buf sink))"

definition decompress_lz4 :: "codecs \<Rightarrow> bytes \<Rightarrow> nat \<Rightarrow> bytes result" where
  "decompress_lz4 C input max_out =
     and_then (ok_or (cd_lz4 C input max_out) (BadMetadata ''lz4 decompression failed''))
       (\<lambda>(written, bs). Ok (take written (fill_slice (replicate max_out 0) bs)))"

text \<open>\<open>take(max_out + 1)\<close> stops reading the frame once it has that many bytes, so an error later in
  the frame is not met: the length check reports the block instead.\<close>

definition decompress_zstd :: "codecs \<Rightarrow> bytes \<Rightarrow> nat \<Rightarrow> bytes result" where
  "decompress_zstd C input max_out =
     and_then (ok_or (cd_zstd C input) (BadMetadata ''zstd frame decode init failed''))
       (\<lambda>(bs, well).
         let lim = saturating_add_usize max_out 1;
             out = take lim bs
         in
         if length bs < lim \<and> \<not> well then bad ''zstd decompression failed''
         else if max_out < length out then bad ''decompressed block exceeds max size''
         else Ok out)"

definition decompress :: "codecs \<Rightarrow> compressor \<Rightarrow> bytes \<Rightarrow> nat \<Rightarrow> bytes result" where
  "decompress C cmp input max_out =
     (case cmp of
        Gzip \<Rightarrow> decompress_zlib C input max_out
      | Xz \<Rightarrow> decompress_xz C input max_out
      | Lzma \<Rightarrow> decompress_lzma_alone C input max_out
      | Lz4 \<Rightarrow> decompress_lz4 C input max_out
      | Zstd \<Rightarrow> decompress_zstd C input max_out
      | Lzo \<Rightarrow> ok_or (cd_lzo C input max_out) (BadMetadata ''malformed LZO1X stream''))"

section \<open>Every block is decoded or refused, within its bound\<close>

text \<open>The one bound the crate leaves to a codec: \<open>lzo1x::decompress\<close> takes \<open>max_out\<close> as the
  most it may produce.\<close>

definition lzo_bounded :: "codecs \<Rightarrow> bool" where
  "lzo_bounded C \<longleftrightarrow> (\<forall>input max_out out. cd_lzo C input max_out = Some out \<longrightarrow> length out \<le> max_out)"

lemmas codec_defs =
  decompress_zlib_def decompress_xz_def decompress_lzma_alone_def decompress_lz4_def
  decompress_zstd_def

lemma safe_decompress: "safe (decompress C cmp input max_out)"
  by (cases cmp)
    (auto simp: decompress_def codec_defs Let_def intro!: safe_and_then split: prod.splits)

lemma decompress_bound:
  assumes "lzo_bounded C" "decompress C cmp input max_out = Ok out"
  shows "length out \<le> max_out"
  using assms
  by (cases cmp)
    (auto simp: decompress_def codec_defs lzo_bounded_def Let_def dest: xz_decompress_bound
      split: prod.splits if_splits)

text \<open>A zlib stream that stopped short is refused whatever it produced.\<close>

lemma zlib_unfinished:
  assumes "cd_zlib C input max_out = Some (status, n, bs)" "status \<noteq> StreamEnd"
  shows "decompress C Gzip input max_out = bad ''zlib stream did not finish''"
  using assms by (simp add: decompress_def decompress_zlib_def)

text \<open>A streaming codec whose output fits the block is taken whole.\<close>

lemma feed_exact:
  assumes "length (concat ws) \<le> max_out" "max_out + 1 < usize_limit"
  shows "\<exists>s. feed (capped_holding max_out) ws = (True, s) \<and> cap_buf s = concat ws"
proof -
  obtain t s where f: "feed (capped_holding max_out) ws = (t, s)" by fastforce
  have "fst (feed (capped_holding max_out) ws)"
    by (rule feed_takes) (use assms in \<open>simp add: capped_holding_def saturating_add_usize_exact\<close>)
  with f have "t" by simp
  with f feed_all [of "capped_holding max_out" ws s] show ?thesis
    by (simp add: capped_holding_def)
qed

lemma decompress_lzma_exact:
  assumes "cd_lzma C input = (ws, True)" "max_out + 1 < usize_limit"
  shows "decompress C Lzma input max_out = Ok (concat ws) \<longleftrightarrow> length (concat ws) \<le> max_out"
proof
  assume "length (concat ws) \<le> max_out"
  with feed_exact [of ws max_out] assms show "decompress C Lzma input max_out = Ok (concat ws)"
    by (auto simp: decompress_def decompress_lzma_alone_def)
next
  assume "decompress C Lzma input max_out = Ok (concat ws)"
  then show "length (concat ws) \<le> max_out"
    by (auto simp: decompress_def decompress_lzma_alone_def Let_def split: prod.splits if_splits)
qed

section \<open>Properties\<close>

text \<open>C35. With a codec crate that honours the bound it is given, no block decompresses to more than
  the bytes the caller asked for, whatever the compressor and the input.\<close>

theorem decompress_within_bound:
  assumes "lzo_bounded C" "decompress C cmp input max_out = Ok out"
  shows "length out \<le> max_out"
  using assms by (rule decompress_bound)

definition copying_codecs :: codecs where
  "copying_codecs = no_codecs
     \<lparr>cd_lzo := (\<lambda>i n. if length i \<le> n then Some i else None),
      cd_zlib := (\<lambda>i n. if length i \<le> n then Some (StreamEnd, length i, i) else None),
      cd_lzma := (\<lambda>i. (map (\<lambda>b. [b]) i, True))\<rparr>"

lemma decompress_within_bound_witness:
  "length [1, 2, 3 :: u8] \<le> 3"
proof (rule decompress_within_bound [of copying_codecs Gzip "[1, 2, 3]"])
  show "lzo_bounded copying_codecs" by (simp add: lzo_bounded_def copying_codecs_def)
  show "decompress copying_codecs Gzip [1, 2, 3] 3 = Ok [1, 2, 3]"
    by (simp add: decompress_def decompress_zlib_def copying_codecs_def fill_slice_def)
qed

text \<open>No input makes a decompression panic or run on.\<close>

lemma decompress_never_panics: "safe (decompress C cmp input max_out)"
  by (rule safe_decompress)

text \<open>An \<open>lzma\<close> block is decoded to all of what its decoder writes, and exactly when that fits
  the block: nothing is cut off and nothing past the bound is let through.\<close>

lemma lzma_block_exact:
  assumes "cd_lzma C input = (ws, True)" "max_out + 1 < usize_limit"
  shows "decompress C Lzma input max_out = Ok (concat ws) \<longleftrightarrow> length (concat ws) \<le> max_out"
  using assms by (rule decompress_lzma_exact)

lemma lzma_block_exact_witness:
  "decompress copying_codecs Lzma [1, 2, 3] 2 \<noteq> Ok [1, 2, 3] \<and>
   decompress copying_codecs Lzma [1, 2] 2 = Ok [1, 2]"
  using lzma_block_exact [of copying_codecs "[1, 2, 3]" "map (\<lambda>b. [b]) [1, 2, 3]" 2]
    lzma_block_exact [of copying_codecs "[1, 2]" "map (\<lambda>b. [b]) [1, 2]" 2]
  by (simp add: copying_codecs_def usize_limit_def)

text \<open>A zlib block whose stream did not reach its end is refused, however much it produced.\<close>

lemma truncated_zlib_refused:
  assumes "cd_zlib C input max_out = Some (status, n, bs)" "status \<noteq> StreamEnd"
  shows "decompress C Gzip input max_out = Fail (BadMetadata ''zlib stream did not finish'')"
  using assms by (rule zlib_unfinished)

lemma truncated_zlib_refused_witness:
  "decompress (no_codecs\<lparr>cd_zlib := (\<lambda>i n. Some (BufError, n, replicate n 7))\<rparr>) Gzip [1] 4 =
     Fail (BadMetadata ''zlib stream did not finish'')"
  by (rule truncated_zlib_refused [where status = BufError and n = 4 and bs = "[7, 7, 7, 7]"])
    (simp_all add: numeral_eq_Suc)

end
