(* ===== verification/Superblock.thy ===== *)
theory Superblock
  imports Compressors
begin

text \<open>
  \<open>src/superblock.rs\<close>: the 96-byte superblock, its parser, the check of its sizes and table
  starts against the device it was read from, and where the inode and directory tables end.
\<close>

section \<open>Data\<close>

definition SQUASHFS_MAGIC :: u32 where "SQUASHFS_MAGIC = 0x73717368"
definition SUPERBLOCK_SIZE :: nat where "SUPERBLOCK_SIZE = 96"
definition METADATA_SIZE :: nat where "METADATA_SIZE = 8192"
definition SQUASHFS_MINOR :: u16 where "SQUASHFS_MINOR = 0"
definition MIN_INODE_SIZE :: nat where "MIN_INODE_SIZE = 16"
definition MIN_BLOCK_LOG :: u16 where "MIN_BLOCK_LOG = 12"
definition MAX_BLOCK_LOG :: u16 where "MAX_BLOCK_LOG = 20"
definition SQUASHFS_INVALID_FRAG :: u32 where "SQUASHFS_INVALID_FRAG = 0xFFFFFFFF"
definition NO_TABLE :: u64 where "NO_TABLE = - 1"

lemmas superblock_consts =
  SQUASHFS_MAGIC_def SUPERBLOCK_SIZE_def METADATA_SIZE_def SQUASHFS_MINOR_def
  MIN_INODE_SIZE_def MIN_BLOCK_LOG_def MAX_BLOCK_LOG_def SQUASHFS_INVALID_FRAG_def

record superblock =
  sb_magic :: u32
  sb_inode_count :: u32
  sb_modification_time :: u32
  sb_block_size :: u32
  sb_fragment_entry_count :: u32
  sb_compression_id :: u16
  sb_block_log :: u16
  sb_flags :: u16
  sb_id_count :: u16
  sb_version_major :: u16
  sb_version_minor :: u16
  sb_root_inode_ref :: u64
  sb_bytes_used :: u64
  sb_id_table_start :: u64
  sb_xattr_id_table_start :: u64
  sb_inode_table_start :: u64
  sb_directory_table_start :: u64
  sb_fragment_table_start :: u64
  sb_export_table_start :: u64

section \<open>Parsing\<close>

text \<open>The nineteen field reads of the success branch, in the order the struct literal has them.\<close>

definition parse_fields ::
  "bytes \<Rightarrow> u32 \<Rightarrow> u32 \<Rightarrow> u16 \<Rightarrow> u16 \<Rightarrow> u16 \<Rightarrow> superblock result" where
  "parse_fields b magic block_size block_log version_major version_minor =
     and_then (rd_u32 b 0x04) (\<lambda>inode_count.
     and_then (rd_u32 b 0x08) (\<lambda>modification_time.
     and_then (rd_u32 b 0x10) (\<lambda>fragment_entry_count.
     and_then (rd_u16 b 0x14) (\<lambda>compression_id.
     and_then (rd_u16 b 0x18) (\<lambda>flags.
     and_then (rd_u16 b 0x1A) (\<lambda>id_count.
     and_then (rd_u64 b 0x20) (\<lambda>root_inode_ref.
     and_then (rd_u64 b 0x28) (\<lambda>bytes_used.
     and_then (rd_u64 b 0x30) (\<lambda>id_table_start.
     and_then (rd_u64 b 0x38) (\<lambda>xattr_id_table_start.
     and_then (rd_u64 b 0x40) (\<lambda>inode_table_start.
     and_then (rd_u64 b 0x48) (\<lambda>directory_table_start.
     and_then (rd_u64 b 0x50) (\<lambda>fragment_table_start.
     and_then (rd_u64 b 0x58) (\<lambda>export_table_start.
       Ok \<lparr>sb_magic = magic, sb_inode_count = inode_count,
           sb_modification_time = modification_time, sb_block_size = block_size,
           sb_fragment_entry_count = fragment_entry_count,
           sb_compression_id = compression_id, sb_block_log = block_log,
           sb_flags = flags, sb_id_count = id_count,
           sb_version_major = version_major, sb_version_minor = version_minor,
           sb_root_inode_ref = root_inode_ref, sb_bytes_used = bytes_used,
           sb_id_table_start = id_table_start,
           sb_xattr_id_table_start = xattr_id_table_start,
           sb_inode_table_start = inode_table_start,
           sb_directory_table_start = directory_table_start,
           sb_fragment_table_start = fragment_table_start,
           sb_export_table_start = export_table_start\<rparr>))))))))))))))"

definition parse :: "bytes \<Rightarrow> superblock result" where
  "parse b =
     (if length b < SUPERBLOCK_SIZE then Fail (BadSuperblock ''buffer shorter than 96 bytes'')
      else
        and_then (rd_u32 b 0x00) (\<lambda>magic.
        if magic \<noteq> SQUASHFS_MAGIC then Fail NotSquashfs
        else
          and_then (rd_u16 b 0x1C) (\<lambda>version_major.
          and_then (rd_u16 b 0x1E) (\<lambda>version_minor.
          if version_major \<noteq> 4 then Fail (BadSuperblock ''only SquashFS 4.x is supported'')
          else if version_minor > SQUASHFS_MINOR then
            Fail (BadSuperblock ''unknown SquashFS minor version (only 4.0 is supported)'')
          else
            and_then (rd_u16 b 0x16) (\<lambda>block_log.
            if \<not> (MIN_BLOCK_LOG \<le> block_log \<and> block_log \<le> MAX_BLOCK_LOG) then
              Fail (BadSuperblock ''block_log out of range'')
            else
              and_then (rd_u32 b 0x0C) (\<lambda>block_size.
              if block_size \<noteq> push_bit (unat block_log) 1 then
                Fail (BadSuperblock ''block_size != 1 << block_log'')
              else parse_fields b magic block_size block_log version_major version_minor))))))"

section \<open>The superblock against its device\<close>

fun min_or_max :: "u64 list \<Rightarrow> u64" where
  "min_or_max [] = - 1"
| "min_or_max (t # ts) = fold min ts t"

definition inode_table_end :: "superblock \<Rightarrow> u64" where
  "inode_table_end sb =
     min_or_max (filter (\<lambda>t. t \<noteq> NO_TABLE \<and> sb_inode_table_start sb < t)
       [sb_directory_table_start sb, sb_fragment_table_start sb, sb_export_table_start sb,
        sb_id_table_start sb, sb_xattr_id_table_start sb, sb_bytes_used sb])"

definition directory_table_end_sb :: "superblock \<Rightarrow> u64" where
  "directory_table_end_sb sb =
     min_or_max (filter (\<lambda>t. t \<noteq> NO_TABLE \<and> sb_directory_table_start sb < t)
       [sb_fragment_table_start sb, sb_export_table_start sb,
        sb_id_table_start sb, sb_xattr_id_table_start sb, sb_bytes_used sb])"

text \<open>The loop over the optional tables' starts: each present one at or after the one before.\<close>

fun in_order :: "u64 \<Rightarrow> u64 list \<Rightarrow> bool" where
  "in_order prev [] = True"
| "in_order prev (t # ts) =
     (if t = NO_TABLE then in_order prev ts
      else if t < prev then False
      else in_order t ts)"

definition inode_room :: "superblock \<Rightarrow> u64" where
  "inode_room sb =
     (let extent = saturating_sub (inode_table_end sb) (sb_inode_table_start sb)
      in saturating_mul (extent div 3) (of_nat (METADATA_SIZE div MIN_INODE_SIZE)))"

definition validate_against_device :: "superblock \<Rightarrow> u64 \<Rightarrow> unit result" where
  "validate_against_device sb device_size =
     (let start = of_nat SUPERBLOCK_SIZE;
          in_image = (\<lambda>t. start \<le> t \<and> t < sb_bytes_used sb);
          outside = BadSuperblock ''a table starts outside [superblock end, bytes_used)''
      in
      if device_size < sb_bytes_used sb then
        Fail (BadSuperblock ''bytes_used exceeds the size of the device'')
      else if list_ex (\<lambda>t. \<not> in_image t)
          [sb_inode_table_start sb, sb_directory_table_start sb, sb_id_table_start sb] then
        Fail outside
      else if list_ex (\<lambda>t. t \<noteq> NO_TABLE \<and> \<not> in_image t)
          [sb_fragment_table_start sb, sb_export_table_start sb, sb_xattr_id_table_start sb] then
        Fail outside
      else if sb_directory_table_start sb \<le> sb_inode_table_start sb then
        Fail (BadSuperblock
          ''table starts are out of order (inode table not before directory table)'')
      else if \<not> in_order (sb_directory_table_start sb)
          [sb_fragment_table_start sb, sb_export_table_start sb, sb_id_table_start sb,
           sb_xattr_id_table_start sb] then
        Fail (BadSuperblock ''table starts are out of order'')
      else if (case checked_add (sb_inode_table_start sb) (drop_bit 16 (sb_root_inode_ref sb)) of
                 None \<Rightarrow> True | Some b \<Rightarrow> sb_directory_table_start sb \<le> b) then
        Fail (BadSuperblock ''root inode reference points outside the inode table'')
      else if inode_room sb < ucast (sb_inode_count sb) then
        Fail (BadSuperblock ''inode_count exceeds what the inode table has room for'')
      else Ok ())"

definition sb_compressor :: "superblock \<Rightarrow> compressor result" where
  "sb_compressor sb = compressor_from_id (sb_compression_id sb)"

section \<open>The parser reads exactly the superblock's fields\<close>

text \<open>The on-disk layout (\<open>struct squashfs_super_block\<close>) as an encoder: the fields in file
  order, little-endian.\<close>

definition superblock_bytes :: "superblock \<Rightarrow> bytes" where
  "superblock_bytes sb =
     to_le_bytes 4 (sb_magic sb) @ to_le_bytes 4 (sb_inode_count sb) @
     to_le_bytes 4 (sb_modification_time sb) @ to_le_bytes 4 (sb_block_size sb) @
     to_le_bytes 4 (sb_fragment_entry_count sb) @ to_le_bytes 2 (sb_compression_id sb) @
     to_le_bytes 2 (sb_block_log sb) @ to_le_bytes 2 (sb_flags sb) @
     to_le_bytes 2 (sb_id_count sb) @ to_le_bytes 2 (sb_version_major sb) @
     to_le_bytes 2 (sb_version_minor sb) @ to_le_bytes 8 (sb_root_inode_ref sb) @
     to_le_bytes 8 (sb_bytes_used sb) @ to_le_bytes 8 (sb_id_table_start sb) @
     to_le_bytes 8 (sb_xattr_id_table_start sb) @ to_le_bytes 8 (sb_inode_table_start sb) @
     to_le_bytes 8 (sb_directory_table_start sb) @ to_le_bytes 8 (sb_fragment_table_start sb) @
     to_le_bytes 8 (sb_export_table_start sb)"

text \<open>A superblock the closed examples start from.\<close>

definition sample_superblock :: superblock where
  "sample_superblock =
     \<lparr>sb_magic = SQUASHFS_MAGIC, sb_inode_count = 1, sb_modification_time = 0,
      sb_block_size = 4096, sb_fragment_entry_count = 1, sb_compression_id = 1, sb_block_log = 12,
      sb_flags = 0, sb_id_count = 2, sb_version_major = 4, sb_version_minor = 0,
      sb_root_inode_ref = 0, sb_bytes_used = 400, sb_id_table_start = 10,
      sb_xattr_id_table_start = NO_TABLE, sb_inode_table_start = 0,
      sb_directory_table_start = 0, sb_fragment_table_start = 10, sb_export_table_start = NO_TABLE\<rparr>"

text \<open>What the parser promises of a superblock it returns.\<close>

definition geometry_ok :: "superblock \<Rightarrow> bool" where
  "geometry_ok sb \<longleftrightarrow>
     sb_magic sb = SQUASHFS_MAGIC \<and> sb_version_major sb = 4 \<and> sb_version_minor sb = 0 \<and>
     12 \<le> unat (sb_block_log sb) \<and> unat (sb_block_log sb) \<le> 20 \<and>
     unat (sb_block_size sb) = 2 ^ unat (sb_block_log sb)"

lemma length_superblock_bytes [simp]: "length (superblock_bytes sb) = SUPERBLOCK_SIZE"
  by (simp add: superblock_bytes_def SUPERBLOCK_SIZE_def)

lemma unat_power_2:
  assumes "n \<le> 20"
  shows "unat ((2 :: u32) ^ n) = 2 ^ n"
proof -
  have "(2 :: nat) ^ n \<le> 2 ^ 20" using assms by (rule power_increasing) simp
  then have "unat (of_nat (2 ^ n) :: u32) = 2 ^ n"
    by (simp only: unat_of_nat) simp
  then show ?thesis by simp
qed

lemma block_log_range:
  "(MIN_BLOCK_LOG \<le> l \<and> l \<le> MAX_BLOCK_LOG) = (12 \<le> unat l \<and> unat l \<le> 20)"
  by (simp add: MIN_BLOCK_LOG_def MAX_BLOCK_LOG_def word_le_nat_alt)

lemma block_size_eq:
  assumes "unat l \<le> 20"
  shows "s = (2 :: u32) ^ unat (l :: u16) \<longleftrightarrow> unat s = 2 ^ unat l"
  using unat_power_2 [OF assms] by (metis word_unat_eq_iff)

lemma minor_not_later: "SQUASHFS_MINOR < v \<longleftrightarrow> v \<noteq> 0"
  by (simp add: SQUASHFS_MINOR_def word_neq_0_conv)

lemmas field_at = field_skip field_to_le_bytes

lemma superblock_fields:
  "field 4 (superblock_bytes sb @ r) 0x00 = sb_magic sb"
  "field 4 (superblock_bytes sb @ r) 0x04 = sb_inode_count sb"
  "field 4 (superblock_bytes sb @ r) 0x08 = sb_modification_time sb"
  "field 4 (superblock_bytes sb @ r) 0x0C = sb_block_size sb"
  "field 4 (superblock_bytes sb @ r) 0x10 = sb_fragment_entry_count sb"
  "field 2 (superblock_bytes sb @ r) 0x14 = sb_compression_id sb"
  "field 2 (superblock_bytes sb @ r) 0x16 = sb_block_log sb"
  "field 2 (superblock_bytes sb @ r) 0x18 = sb_flags sb"
  "field 2 (superblock_bytes sb @ r) 0x1A = sb_id_count sb"
  "field 2 (superblock_bytes sb @ r) 0x1C = sb_version_major sb"
  "field 2 (superblock_bytes sb @ r) 0x1E = sb_version_minor sb"
  "field 8 (superblock_bytes sb @ r) 0x20 = sb_root_inode_ref sb"
  "field 8 (superblock_bytes sb @ r) 0x28 = sb_bytes_used sb"
  "field 8 (superblock_bytes sb @ r) 0x30 = sb_id_table_start sb"
  "field 8 (superblock_bytes sb @ r) 0x38 = sb_xattr_id_table_start sb"
  "field 8 (superblock_bytes sb @ r) 0x40 = sb_inode_table_start sb"
  "field 8 (superblock_bytes sb @ r) 0x48 = sb_directory_table_start sb"
  "field 8 (superblock_bytes sb @ r) 0x50 = sb_fragment_table_start sb"
  "field 8 (superblock_bytes sb @ r) 0x58 = sb_export_table_start sb"
  unfolding superblock_bytes_def append_assoc by (simp_all add: field_at)

lemma parse_fields_bytes:
  "parse_fields (superblock_bytes sb @ r) (sb_magic sb) (sb_block_size sb) (sb_block_log sb)
     (sb_version_major sb) (sb_version_minor sb) = Ok sb"
  by (simp add: parse_fields_def read_simps SUPERBLOCK_SIZE_def superblock_fields)

lemma safe_parse [simp]: "safe (parse b)"
  by (simp add: parse_def parse_fields_def read_simps SUPERBLOCK_SIZE_def)

lemma parse_geometry: "parse b = Ok sb \<Longrightarrow> geometry_ok sb"
  by (auto simp: parse_def parse_fields_def read_simps SUPERBLOCK_SIZE_def geometry_ok_def
      minor_not_later block_log_range block_size_eq unat_power_2 split: if_splits)

lemma parse_superblock_bytes:
  "geometry_ok sb \<Longrightarrow> parse (superblock_bytes sb @ r) = Ok sb"
  using parse_fields_bytes [of sb r]
  by (simp add: parse_def read_simps SUPERBLOCK_SIZE_def superblock_fields parse_fields_bytes
      geometry_ok_def minor_not_later block_log_range block_size_eq)

text \<open>Every buffer of 96 bytes or more starts with some superblock's bytes, so the parser is
  characterised on all buffers.\<close>

lemma superblock_bytes_onto:
  assumes "SUPERBLOCK_SIZE \<le> length b"
  shows "\<exists>sb. b = superblock_bytes sb @ drop SUPERBLOCK_SIZE b"
proof -
  define sb where "sb =
    \<lparr>sb_magic = field 4 b 0x00, sb_inode_count = field 4 b 0x04,
     sb_modification_time = field 4 b 0x08, sb_block_size = field 4 b 0x0C,
     sb_fragment_entry_count = field 4 b 0x10, sb_compression_id = field 2 b 0x14,
     sb_block_log = field 2 b 0x16, sb_flags = field 2 b 0x18, sb_id_count = field 2 b 0x1A,
     sb_version_major = field 2 b 0x1C, sb_version_minor = field 2 b 0x1E,
     sb_root_inode_ref = field 8 b 0x20, sb_bytes_used = field 8 b 0x28,
     sb_id_table_start = field 8 b 0x30, sb_xattr_id_table_start = field 8 b 0x38,
     sb_inode_table_start = field 8 b 0x40, sb_directory_table_start = field 8 b 0x48,
     sb_fragment_table_start = field 8 b 0x50, sb_export_table_start = field 8 b 0x58\<rparr>"
  have t: "take n (drop k b) @ drop m b = drop k b" if "m = k + n" for n k m
    using that by (metis append_take_drop_id drop_drop add.commute)
  have t0: "take n b @ drop n b = b" for n by simp
  have f: "to_le_bytes 2 (field 2 b k :: u16) = take 2 (drop k b)" if "k + 2 \<le> 96" for k
    using that assms by (simp add: to_le_bytes_field SUPERBLOCK_SIZE_def)
  have g: "to_le_bytes 4 (field 4 b k :: u32) = take 4 (drop k b)" if "k + 4 \<le> 96" for k
    using that assms by (simp add: to_le_bytes_field SUPERBLOCK_SIZE_def)
  have h: "to_le_bytes 8 (field 8 b k :: u64) = take 8 (drop k b)" if "k + 8 \<le> 96" for k
    using that assms by (simp add: to_le_bytes_field SUPERBLOCK_SIZE_def)
  have "superblock_bytes sb @ drop SUPERBLOCK_SIZE b = b"
    unfolding superblock_bytes_def sb_def append_assoc SUPERBLOCK_SIZE_def
    by (simp add: f g h t)
  then show ?thesis by metis
qed

lemma parse_iff:
  "parse b = Ok sb \<longleftrightarrow> geometry_ok sb \<and> (\<exists>r. b = superblock_bytes sb @ r)"
proof
  assume ok: "parse b = Ok sb"
  then have "SUPERBLOCK_SIZE \<le> length b" by (simp add: parse_def split: if_splits)
  then obtain sb' where b: "b = superblock_bytes sb' @ drop SUPERBLOCK_SIZE b"
    using superblock_bytes_onto by blast
  then obtain r where r: "b = superblock_bytes sb' @ r" by blast
  have "sb' = sb"
    using ok parse_fields_bytes [of sb' r] unfolding r
    by (auto simp: parse_def read_simps SUPERBLOCK_SIZE_def superblock_fields split: if_splits)
  with r parse_geometry [OF ok] show "geometry_ok sb \<and> (\<exists>r. b = superblock_bytes sb @ r)" by blast
next
  assume "geometry_ok sb \<and> (\<exists>r. b = superblock_bytes sb @ r)"
  then show "parse b = Ok sb" using parse_superblock_bytes by blast
qed

section \<open>The layout the check enforces\<close>

text \<open>The abstract layout: every present table inside the image and in file order, the root
  inode's block inside the inode table, and no more inodes than the inode table has room for
  (a metadata block is at least three bytes on disk, holds at most 8192 bytes, and an inode is at
  least 16).  No word arithmetic: the statement is about natural numbers.\<close>

definition later_tables :: "superblock \<Rightarrow> u64 list" where
  "later_tables sb =
     filter (\<lambda>t. t \<noteq> NO_TABLE)
       [sb_fragment_table_start sb, sb_export_table_start sb, sb_id_table_start sb,
        sb_xattr_id_table_start sb]"

definition well_laid_out :: "superblock \<Rightarrow> nat \<Rightarrow> bool" where
  "well_laid_out sb device_size \<longleftrightarrow>
     unat (sb_bytes_used sb) \<le> device_size \<and>
     96 \<le> unat (sb_inode_table_start sb) \<and>
     sb_inode_table_start sb < sb_directory_table_start sb \<and>
     sb_id_table_start sb \<noteq> NO_TABLE \<and>
     sorted (sb_directory_table_start sb # later_tables sb) \<and>
     (\<forall>t \<in> set (sb_directory_table_start sb # later_tables sb). t < sb_bytes_used sb) \<and>
     unat (sb_inode_table_start sb) + unat (drop_bit 16 (sb_root_inode_ref sb))
       < unat (sb_directory_table_start sb) \<and>
     unat (sb_inode_count sb)
       \<le> (unat (sb_directory_table_start sb) - unat (sb_inode_table_start sb)) div 3 * 512"

lemma in_order_sorted: "in_order p ts \<longleftrightarrow> sorted (p # filter (\<lambda>t. t \<noteq> NO_TABLE) ts)"
proof (induction p ts rule: in_order.induct)
  case (1 p)
  then show ?case by simp
next
  case (2 p t ts)
  then show ?case by (auto simp: not_less)
qed

lemma min_or_max_Min: "ts \<noteq> [] \<Longrightarrow> min_or_max ts = Min (set ts)"
proof (cases ts)
  case (Cons t us)
  then show ?thesis by (simp only: min_or_max.simps Min.set_eq_fold)
qed simp

lemma min_or_max_least:
  assumes "t \<in> set ts" and "\<And>u. u \<in> set ts \<Longrightarrow> t \<le> u"
  shows "min_or_max ts = t"
  using assms by (subst min_or_max_Min) (auto intro: Min_eqI)

lemma not_NO_TABLE: "t < u \<Longrightarrow> t \<noteq> NO_TABLE"
  by (auto simp: NO_TABLE_def)

lemma inode_table_end_directory:
  assumes "sb_inode_table_start sb < sb_directory_table_start sb"
    and "sb_directory_table_start sb < sb_bytes_used sb"
    and "sorted (sb_directory_table_start sb # later_tables sb)"
  shows "inode_table_end sb = sb_directory_table_start sb"
  unfolding inode_table_end_def
proof (rule min_or_max_least)
  have "sb_directory_table_start sb \<noteq> NO_TABLE"
    using assms(2) by (rule not_NO_TABLE)
  with assms(1) show "sb_directory_table_start sb \<in> set (filter
      (\<lambda>t. t \<noteq> NO_TABLE \<and> sb_inode_table_start sb < t)
      [sb_directory_table_start sb, sb_fragment_table_start sb, sb_export_table_start sb,
       sb_id_table_start sb, sb_xattr_id_table_start sb, sb_bytes_used sb])" by simp
  fix u
  assume "u \<in> set (filter
      (\<lambda>t. t \<noteq> NO_TABLE \<and> sb_inode_table_start sb < t)
      [sb_directory_table_start sb, sb_fragment_table_start sb, sb_export_table_start sb,
       sb_id_table_start sb, sb_xattr_id_table_start sb, sb_bytes_used sb])"
  then have "u = sb_directory_table_start sb \<or> u = sb_bytes_used sb \<or> u \<in> set (later_tables sb)"
    by (simp only: later_tables_def set_filter list.set) blast
  with assms(2,3) show "sb_directory_table_start sb \<le> u" by auto
qed

lemma inode_room_nat:
  assumes "inode_table_end sb = sb_directory_table_start sb"
  shows "\<not> inode_room sb < ucast (sb_inode_count sb) \<longleftrightarrow>
    unat (sb_inode_count sb)
      \<le> (unat (sb_directory_table_start sb) - unat (sb_inode_table_start sb)) div 3 * 512"
proof -
  have "unat (ucast (sb_inode_count sb) :: u64) = unat (sb_inode_count sb)"
    by (simp add: unat_ucast_up)
  moreover have "unat (sb_inode_count sb) < 2 ^ 32"
    using unsigned_less [of "sb_inode_count sb"] by simp
  ultimately show ?thesis using assms
    by (auto simp: inode_room_def Let_def not_less word_le_nat_alt unat_saturating_mul
        unat_saturating_sub unat_div superblock_consts)
qed

lemma root_block_nat:
  "(case checked_add a b of None \<Rightarrow> True | Some s \<Rightarrow> d \<le> s) \<longleftrightarrow> \<not> unat a + unat b < unat (d :: u64)"
  using unat_u64_less [of d]
  by (auto simp: checked_add_def word_le_nat_alt unat_add_no_wrap)

definition in_image :: "superblock \<Rightarrow> u64 \<Rightarrow> bool" where
  "in_image sb t \<longleftrightarrow> 96 \<le> unat t \<and> t < sb_bytes_used sb"

lemma validate_conj:
  "validate_against_device sb n = Ok () \<longleftrightarrow>
     sb_bytes_used sb \<le> n \<and>
     (\<forall>t \<in> {sb_inode_table_start sb, sb_directory_table_start sb, sb_id_table_start sb}.
        in_image sb t) \<and>
     (\<forall>t \<in> {sb_fragment_table_start sb, sb_export_table_start sb, sb_xattr_id_table_start sb}.
        t \<noteq> NO_TABLE \<longrightarrow> in_image sb t) \<and>
     sb_inode_table_start sb < sb_directory_table_start sb \<and>
     sorted (sb_directory_table_start sb # later_tables sb) \<and>
     unat (sb_inode_table_start sb) + unat (drop_bit 16 (sb_root_inode_ref sb))
       < unat (sb_directory_table_start sb) \<and>
     \<not> inode_room sb < ucast (sb_inode_count sb)"
proof -
  have start: "(of_nat SUPERBLOCK_SIZE :: u64) \<le> t \<longleftrightarrow> 96 \<le> unat t" for t :: u64
    by (simp add: SUPERBLOCK_SIZE_def word_le_nat_alt)
  show ?thesis
    unfolding validate_against_device_def Let_def in_order_sorted root_block_nat
      later_tables_def [symmetric] start if_fail_eq_Ok
    by (simp only: list_ex_iff list.set in_image_def not_less not_not de_Morgan_disj simp_thms ball_simps
        not_le de_Morgan_conj) auto
qed

lemma well_laid_out_in_image:
  assumes "well_laid_out sb n" and "t \<in> set (sb_directory_table_start sb # later_tables sb)"
  shows "in_image sb t"
proof -
  from assms have "sb_inode_table_start sb < t" "96 \<le> unat (sb_inode_table_start sb)"
    by (auto simp: well_laid_out_def)
  with assms show ?thesis by (auto simp: in_image_def well_laid_out_def word_less_nat_alt)
qed

lemma validate_iff:
  "validate_against_device sb n = Ok () \<longleftrightarrow> well_laid_out sb (unat n)" (is "?v \<longleftrightarrow> ?w")
proof
  assume v: ?v
  then have c: "sb_inode_table_start sb < sb_directory_table_start sb"
    "sb_directory_table_start sb < sb_bytes_used sb"
    "sorted (sb_directory_table_start sb # later_tables sb)"
    by (auto simp: validate_conj in_image_def)
  have "\<forall>t \<in> set (later_tables sb). t < sb_bytes_used sb"
    using v by (auto simp: validate_conj in_image_def later_tables_def)
  moreover have "sb_id_table_start sb \<noteq> NO_TABLE"
    using v not_NO_TABLE by (auto simp: validate_conj in_image_def)
  ultimately show ?w
    using v c inode_room_nat [OF inode_table_end_directory [OF c]]
    by (simp add: well_laid_out_def validate_conj in_image_def word_le_nat_alt)
next
  assume w: ?w
  then have c: "sb_inode_table_start sb < sb_directory_table_start sb"
    "sb_directory_table_start sb < sb_bytes_used sb"
    "sorted (sb_directory_table_start sb # later_tables sb)"
    by (auto simp: well_laid_out_def)
  have "in_image sb (sb_inode_table_start sb)"
    using w c by (auto simp: well_laid_out_def in_image_def)
  moreover have "t \<noteq> NO_TABLE \<Longrightarrow> in_image sb t"
    if "t \<in> {sb_fragment_table_start sb, sb_export_table_start sb, sb_id_table_start sb,
      sb_xattr_id_table_start sb}" for t
    using that by (intro well_laid_out_in_image [OF w]) (auto simp: later_tables_def)
  ultimately show ?v
    using w c inode_room_nat [OF inode_table_end_directory [OF c]]
      well_laid_out_in_image [OF w, of "sb_directory_table_start sb"]
    by (simp add: well_laid_out_def validate_conj word_le_nat_alt)
qed

section \<open>Properties\<close>

text \<open>C28. The parser is characterised on every buffer: it succeeds exactly on the buffers that
  start with the 96 bytes of a superblock with the supported magic, version and block geometry, and
  returns that superblock.\<close>

theorem parse_exact:
  "parse b = Ok sb \<longleftrightarrow> geometry_ok sb \<and> (\<exists>r. b = superblock_bytes sb @ r)"
  by (rule parse_iff)

text \<open>C29. The check against the device passes exactly when the superblock is well laid out there:
  the image fits the device, every table starts inside the image and after the superblock, the
  tables are in order, the root inode lies in the inode table, and the inode table has room for the
  inodes counted.\<close>

theorem validate_exact:
  "validate_against_device sb device_size = Ok () \<longleftrightarrow> well_laid_out sb (unat device_size)"
  by (rule validate_iff)

end
