(* ===== verification/Metablock.thy ===== *)
theory Metablock
  imports Codec Superblock
begin

text \<open>
  The metadata-block reader of \<open>src/metablock.rs\<close>: the cache of decompressed blocks, reading
  one block with and without it, metadata references, and the cursor that presents a run of
  blocks as a flat byte stream.

  A \<open>cursor\<close> record carries what the struct owns and the cache it was lent; its methods run in
  the state monad over it.  The results are three: the cache never changes what is read
  (\<open>cursor_rel\<close> and the rules \<open>agree_*\<close>), no cursor panics (\<open>cursor_ok\<close>, \<open>triple_*\<close>), and
  \<open>read_exact\<close> is a prefix of the flat stream (\<open>read_exact_stream\<close>).
\<close>

definition UNCOMPRESSED_BIT :: u16 where "UNCOMPRESSED_BIT = 0x8000"
definition SIZE_MASK :: u16 where "SIZE_MASK = 0x7FFF"

section \<open>The cache of decompressed blocks\<close>

record cached_block =
  cb_bytes :: bytes
  cb_next :: u64

record 'c meta_cache =
  mc_lru :: "'c option"
  mc_hits :: u64
  mc_misses :: u64

text \<open>What every metadata read is given besides the superblock: the device, the codecs and the
  LRU crate's operations.\<close>

record 'c meta_env =
  me_dev :: device
  me_codecs :: codecs
  me_lru :: "(u64, cached_block, 'c) lru_ops"

definition lru_of_capacity :: "('k, 'v, 'c) lru_ops \<Rightarrow> nat \<Rightarrow> 'c option" where
  "lru_of_capacity L capacity = (if capacity = 0 then None else Some (lru_new L capacity))"

definition mc_new :: "(u64, cached_block, 'c) lru_ops \<Rightarrow> nat \<Rightarrow> 'c meta_cache" where
  "mc_new L capacity = \<lparr>mc_lru = lru_of_capacity L capacity, mc_hits = 0, mc_misses = 0\<rparr>"

definition mc_set_capacity ::
  "(u64, cached_block, 'c) lru_ops \<Rightarrow> nat \<Rightarrow> 'c meta_cache \<Rightarrow> 'c meta_cache" where
  "mc_set_capacity L capacity g =
     g\<lparr>mc_lru := lru_of_capacity L capacity, mc_hits := 0, mc_misses := 0\<rparr>"

definition mc_stats ::
  "(u64, cached_block, 'c) lru_ops \<Rightarrow> 'c meta_cache \<Rightarrow> nat \<times> nat \<times> u64 \<times> u64" where
  "mc_stats L g =
     (case mc_lru g of
        Some lru \<Rightarrow> (lru_len L lru, lru_cap L lru, mc_hits g, mc_misses g)
      | None \<Rightarrow> (0, 0, mc_hits g, mc_misses g))"

definition mc_get ::
  "(u64, cached_block, 'c) lru_ops \<Rightarrow> 'c meta_cache \<Rightarrow> u64 \<Rightarrow> cached_block option \<times> 'c meta_cache" where
  "mc_get L g at =
     (case mc_lru g of
        None \<Rightarrow> (None, g)
      | Some lru \<Rightarrow>
          (case lru_get L lru at of
             (Some hit, lru') \<Rightarrow> (Some hit, g\<lparr>mc_lru := Some lru', mc_hits := mc_hits g + 1\<rparr>)
           | (None, lru') \<Rightarrow> (None, g\<lparr>mc_lru := Some lru', mc_misses := mc_misses g + 1\<rparr>)))"

definition mc_insert ::
  "(u64, cached_block, 'c) lru_ops \<Rightarrow> 'c meta_cache \<Rightarrow> u64 \<Rightarrow> cached_block \<Rightarrow> 'c meta_cache" where
  "mc_insert L g at block =
     (case mc_lru g of
        None \<Rightarrow> g
      | Some lru \<Rightarrow> g\<lparr>mc_lru := Some (lru_put L lru at block)\<rparr>)"

definition mc_holds ::
  "(u64, cached_block, 'c) lru_ops \<Rightarrow> 'c meta_cache \<Rightarrow> u64 \<Rightarrow> cached_block \<Rightarrow> bool" where
  "mc_holds L g at block \<longleftrightarrow> (\<exists>lru. mc_lru g = Some lru \<and> lru_holds L lru at = Some block)"

interpretation meta: memo_cache "mc_get L" "mc_insert L" "mc_holds L" "\<lambda>_. lru_contract L"
  for L :: "(u64, cached_block, 'c) lru_ops"
  by unfold_locales
    (auto simp: mc_get_def mc_insert_def mc_holds_def lru_get_keeps
      dest: lru_put_holds dest!: lru_get_holds split: option.splits prod.splits)

lemma mc_new_holds: "lru_contract L \<Longrightarrow> \<not> mc_holds L (mc_new L n) at block"
  by (auto simp: mc_holds_def mc_new_def lru_of_capacity_def lru_new_empty split: if_splits)

lemma mc_set_capacity_holds:
  "lru_contract L \<Longrightarrow> \<not> mc_holds L (mc_set_capacity L n g) at block"
  by (auto simp: mc_holds_def mc_set_capacity_def lru_of_capacity_def lru_new_empty split: if_splits)

section \<open>Reading one block\<close>

definition read_block_uncached ::
  "'c meta_env \<Rightarrow> superblock \<Rightarrow> u64 \<Rightarrow> (bytes \<times> u64) result" where
  "read_block_uncached E sb at =
     and_then (read_at (me_dev E) at 2) (\<lambda>hdr.
     let raw = from_le_bytes hdr :: u16;
         on_disk = unat (raw AND SIZE_MASK);
         is_compressed = (raw AND UNCOMPRESSED_BIT = 0)
     in
     if on_disk = 0 \<or> METADATA_SIZE < on_disk then
       Fail (BadMetadata ''metadata block size out of range'')
     else
       and_then (read_at (me_dev E) (at + 2) on_disk) (\<lambda>payload.
       and_then
         (if is_compressed then
            and_then (sb_compressor sb) (\<lambda>c. decompress (me_codecs E) c payload METADATA_SIZE)
          else if METADATA_SIZE < length payload then
            Fail (BadMetadata ''uncompressed metadata block too large'')
          else Ok payload)
         (\<lambda>out. Ok (out, at + 2 + of_nat on_disk))))"

definition read_block ::
  "'c meta_env \<Rightarrow> superblock \<Rightarrow> u64 \<Rightarrow> ('c meta_cache option, bytes \<times> u64) sm" where
  "read_block E sb at cache =
     (case (case cache of
              None \<Rightarrow> (None, None)
            | Some c \<Rightarrow> (case mc_get (me_lru E) c at of (r, c') \<Rightarrow> (r, Some c'))) of
        (Some hit, cache') \<Rightarrow> (Ok (cb_bytes hit, cb_next hit), cache')
      | (None, cache') \<Rightarrow>
          (case read_block_uncached E sb at of
             Inl e \<Rightarrow> (Inl e, cache')
           | Inr (bytes, next_abs) \<Rightarrow>
               (Ok (bytes, next_abs),
                map_option
                  (\<lambda>c. mc_insert (me_lru E) c at \<lparr>cb_bytes = bytes, cb_next = next_abs\<rparr>)
                  cache')))"

lemma safe_sb_compressor [simp]: "safe (sb_compressor sb)"
  by (simp add: sb_compressor_def compressor_from_id_def)

lemma safe_read_block_uncached [simp]: "safe (read_block_uncached E sb at)"
  by (auto simp: read_block_uncached_def Let_def safe_decompress intro!: safe_and_then)

lemma read_block_uncached_bound:
  assumes "lzo_bounded (me_codecs E)" "read_block_uncached E sb at = Ok (b, next_abs)"
  shows "length b \<le> METADATA_SIZE"
  using assms
  by (auto simp: read_block_uncached_def Let_def dest: decompress_bound split: if_splits)

text \<open>A metadata block as it is stored: the header word and the payload.\<close>

definition stored_block :: "bool \<Rightarrow> bytes \<Rightarrow> bytes" where
  "stored_block compressed payload =
     to_le_bytes 2 (of_nat (length payload + (if compressed then 0 else 0x8000)) :: u16) @ payload"

lemma stored_block_header:
  assumes "0 < length p" "length p \<le> METADATA_SIZE"
    and "w = (of_nat (length p + (if z then 0 else 0x8000)) :: u16)"
  shows "unat (w AND SIZE_MASK) = length p" "w AND UNCOMPRESSED_BIT = 0 \<longleftrightarrow> z"
proof -
  have l: "length p \<le> 8192" using assms(2) by (simp add: METADATA_SIZE_def)
  have u: "unat w = length p + (if z then 0 else 0x8000)"
    using l by (simp add: assms(3) unat_of_nat take_bit_nat_eq_self del: of_nat_add)
  have m: "unat w AND 0x7FFF = unat w mod 2 ^ 15"
    using take_bit_eq_mask [of 15 "unat w"] by (simp add: take_bit_eq_mod mask_eq_exp_minus_1)
  then show "unat (w AND SIZE_MASK) = length p"
    using l u by (simp add: SIZE_MASK_def unsigned_and_eq)
  have "bit (unat w) 15 \<longleftrightarrow> \<not> z"
    unfolding u using l by (cases z) (simp_all add: bit_iff_odd div_add_self2)
  then have b: "bit w 15 \<longleftrightarrow> \<not> z" by (simp add: bit_unsigned_iff)
  show "w AND UNCOMPRESSED_BIT = 0 \<longleftrightarrow> z"
  proof
    assume "w AND UNCOMPRESSED_BIT = 0"
    then have "\<not> bit (w AND UNCOMPRESSED_BIT) 15" by simp
    moreover have "bit UNCOMPRESSED_BIT 15" by (simp add: UNCOMPRESSED_BIT_def)
    ultimately show z using b by (simp add: bit_and_iff)
  next
    assume z
    show "w AND UNCOMPRESSED_BIT = 0"
    proof (rule bit_word_eqI)
      fix n :: nat assume "n < LENGTH(16)"
      have "bit UNCOMPRESSED_BIT n \<longleftrightarrow> n = 15"
        using \<open>n < LENGTH(16)\<close> bit_push_bit_iff [of 15 "1 :: u16" n]
        by (auto simp: UNCOMPRESSED_BIT_def bit_1_iff)
      then show "bit (w AND UNCOMPRESSED_BIT) n = bit 0 n"
        using \<open>z\<close> b by (auto simp: bit_and_iff)
    qed
  qed
qed

text \<open>A cache that tells the truth: every entry is what decompressing its block gives.\<close>

definition block_at :: "'c meta_env \<Rightarrow> superblock \<Rightarrow> u64 \<Rightarrow> cached_block result" where
  "block_at E sb at =
     and_then (read_block_uncached E sb at) (\<lambda>(b, n). Ok \<lparr>cb_bytes = b, cb_next = n\<rparr>)"

definition mc_sound :: "'c meta_env \<Rightarrow> superblock \<Rightarrow> 'c meta_cache option \<Rightarrow> bool" where
  "mc_sound E sb cache \<longleftrightarrow>
     (case cache of
        None \<Rightarrow> True
      | Some c \<Rightarrow> lru_contract (me_lru E) \<and> memo_sound (mc_holds (me_lru E)) (block_at E sb) c)"

lemma read_block_memo:
  "read_block E sb at (Some c) =
     (case memo (mc_get (me_lru E)) (mc_insert (me_lru E)) (block_at E sb) at c of
        (r, c') \<Rightarrow> (and_then r (\<lambda>b. Ok (cb_bytes b, cb_next b)), Some c'))"
  by (auto simp: read_block_def memo_def block_at_def split: prod.splits option.splits sum.splits)

lemma read_block_transparent:
  assumes "mc_sound E sb cache"
  shows "fst (read_block E sb at cache) = read_block_uncached E sb at \<and>
    mc_sound E sb (snd (read_block E sb at cache))"
proof (cases cache)
  case None
  then show ?thesis by (auto simp: read_block_def mc_sound_def split: sum.splits)
next
  case (Some c)
  have b: "and_then (block_at E sb at) (\<lambda>b. Ok (cb_bytes b, cb_next b)) = read_block_uncached E sb at"
    by (cases "read_block_uncached E sb at") (auto simp: block_at_def)
  from Some assms meta.memo_transparent [of "me_lru E" "block_at E sb" c at]
  have m: "fst (memo (mc_get (me_lru E)) (mc_insert (me_lru E)) (block_at E sb) at c) = block_at E sb at"
    "memo_sound (mc_holds (me_lru E)) (block_at E sb)
       (snd (memo (mc_get (me_lru E)) (mc_insert (me_lru E)) (block_at E sb) at c))"
    and L: "lru_contract (me_lru E)"
    by (auto simp: mc_sound_def)
  show ?thesis
    unfolding Some read_block_memo using m L b by (auto simp: mc_sound_def split: prod.split)
qed

text \<open>Two caches that both tell the truth, the empty one among them, are interchangeable.\<close>

definition mc_rel ::
  "'c meta_env \<Rightarrow> superblock \<Rightarrow> 'c meta_cache option \<Rightarrow> 'c meta_cache option \<Rightarrow> bool" where
  "mc_rel E sb c d \<longleftrightarrow> mc_sound E sb c \<and> mc_sound E sb d"

lemma mc_sound_None [simp]: "mc_sound E sb None"
  by (simp add: mc_sound_def)

lemma agree_read_block [agree_intros]:
  "agree (mc_rel E sb) (read_block E sb a) (read_block E sb a)"
  unfolding agree_def mc_rel_def using read_block_transparent by metis

lemma mc_sound_new: "lru_contract (me_lru E) \<Longrightarrow> mc_sound E sb (Some (mc_new (me_lru E) n))"
  by (simp add: mc_sound_def memo_sound_def mc_new_holds)

lemma mc_sound_set_capacity:
  "lru_contract (me_lru E) \<Longrightarrow> mc_sound E sb (Some (mc_set_capacity (me_lru E) n g))"
  by (simp add: mc_sound_def memo_sound_def mc_set_capacity_holds)

section \<open>Metadata references\<close>

record metadata_ref =
  mr_block_offset :: u64
  mr_in_block :: u16

definition from_packed :: "u64 \<Rightarrow> metadata_ref" where
  "from_packed packed =
     \<lparr>mr_block_offset = drop_bit 16 packed, mr_in_block = ucast (packed AND 0xFFFF)\<rparr>"

definition start_abs :: "metadata_ref \<Rightarrow> u64 \<Rightarrow> u64" where
  "start_abs r table_start = saturating_add table_start (mr_block_offset r)"

section \<open>The cursor\<close>

datatype window = Whole bytes | Spliced bytes

fun window_bytes :: "window \<Rightarrow> bytes" where
  "window_bytes (Whole b) = b"
| "window_bytes (Spliced b) = b"

record 'c cursor =
  cu_next :: u64
  cu_buf :: window
  cu_pos :: nat
  cu_limit :: "(u64 \<times> string) option"
  cu_cache :: "'c meta_cache option"

definition cursor_new ::
  "'c meta_env \<Rightarrow> superblock \<Rightarrow> u64 \<Rightarrow> u16 \<Rightarrow> 'c meta_cache option \<Rightarrow>
    'c cursor result \<times> 'c meta_cache option" where
  "cursor_new E sb start in_block cache =
     (case read_block E sb start cache of
        (Inl e, cache') \<Rightarrow> (Inl e, cache')
      | (Inr (block, next_abs), cache') \<Rightarrow>
          if length block < unat in_block then
            (Fail (BadMetadata ''metadata reference offset past block end''), cache')
          else
            (Ok \<lparr>cu_next = next_abs, cu_buf = Whole block, cu_pos = unat in_block,
                 cu_limit = None, cu_cache = cache'\<rparr>, cache'))"

definition with_limit :: "'c cursor \<Rightarrow> u64 \<Rightarrow> string \<Rightarrow> 'c cursor" where
  "with_limit cu end_abs why = cu\<lparr>cu_limit := Some (end_abs, why)\<rparr>"

definition limit_reached :: "'c cursor \<Rightarrow> string option" where
  "limit_reached cu =
     (case cu_limit cu of
        None \<Rightarrow> None
      | Some (end_abs, why) \<Rightarrow> if end_abs \<le> cu_next cu then Some why else None)"

definition refill :: "'c meta_env \<Rightarrow> superblock \<Rightarrow> ('c cursor, unit) sm" where
  "refill E sb cu =
     (case limit_reached cu of
        Some why \<Rightarrow> (Fail (BadMetadata why), cu)
      | None \<Rightarrow>
          (case read_block E sb (cu_next cu) (cu_cache cu) of
             (Inl e, cache') \<Rightarrow> (Inl e, cu\<lparr>cu_cache := cache'\<rparr>)
           | (Inr (block, next_abs), cache') \<Rightarrow>
               let cu = cu\<lparr>cu_cache := cache'\<rparr> in
               if block = [] then
                 (Fail (BadMetadata ''empty metadata block while reading record''), cu)
               else
                 (case slice_from (window_bytes (cu_buf cu)) (cu_pos cu) of
                    Inl e \<Rightarrow> (Inl e, cu)
                  | Inr spliced \<Rightarrow>
                      (Ok (), cu\<lparr>cu_pos := 0, cu_buf := Spliced (spliced @ block),
                                 cu_next := next_abs\<rparr>))))"

definition available :: "'c cursor \<Rightarrow> nat" where
  "available cu = wrapping_sub_usize (length (window_bytes (cu_buf cu))) (cu_pos cu)"

lemma refill_grows:
  "refill E sb cu = (Ok u, cu') \<Longrightarrow> available cu < available cu'"
  by (auto simp: refill_def Let_def available_def slice_from_def simp flip: length_greater_0_conv
      split: option.splits prod.splits sum.splits if_splits)

function ensure :: "'c meta_env \<Rightarrow> superblock \<Rightarrow> nat \<Rightarrow> ('c cursor, unit) sm" where
  "ensure E sb n cu =
     (if available cu < n then
        (case refill E sb cu of
           (Inl e, cu') \<Rightarrow> (Inl e, cu')
         | (Inr _, cu') \<Rightarrow> ensure E sb n cu')
      else (Ok (), cu))"
  by pat_completeness auto
termination
  by (relation "measure (\<lambda>(E, sb, n, cu). n - available cu)") (auto dest!: sym [THEN refill_grows])

declare ensure.simps [simp del]

definition take_bytes :: "nat \<Rightarrow> ('c cursor, bytes) sm" where
  "take_bytes n cu =
     (case slice (window_bytes (cu_buf cu)) (cu_pos cu) (cu_pos cu + n) of
        Inl e \<Rightarrow> (Inl e, cu)
      | Inr out \<Rightarrow> (Ok out, cu\<lparr>cu_pos := cu_pos cu + n\<rparr>))"

definition read_exact :: "'c meta_env \<Rightarrow> superblock \<Rightarrow> nat \<Rightarrow> ('c cursor, bytes) sm" where
  "read_exact E sb n = bind_s (ensure E sb n) (\<lambda>_. take_bytes n)"

definition read_u16 :: "'c meta_env \<Rightarrow> superblock \<Rightarrow> ('c cursor, u16) sm" where
  "read_u16 E sb = bind_s (read_exact E sb 2) (\<lambda>b. lift_s (rd_u16 b 0))"

definition read_i16 :: "'c meta_env \<Rightarrow> superblock \<Rightarrow> ('c cursor, u16) sm" where
  "read_i16 E sb = read_u16 E sb"

definition read_u32 :: "'c meta_env \<Rightarrow> superblock \<Rightarrow> ('c cursor, u32) sm" where
  "read_u32 E sb = bind_s (read_exact E sb 4) (\<lambda>b. lift_s (rd_u32 b 0))"

definition read_u64 :: "'c meta_env \<Rightarrow> superblock \<Rightarrow> ('c cursor, u64) sm" where
  "read_u64 E sb = bind_s (read_exact E sb 8) (\<lambda>b. lift_s (rd_u64 b 0))"

section \<open>No cursor panics\<close>

definition unread :: "'c cursor \<Rightarrow> bytes" where
  "unread cu = drop (cu_pos cu) (window_bytes (cu_buf cu))"

definition cursor_ok :: "'c cursor \<Rightarrow> bool" where
  "cursor_ok cu \<longleftrightarrow> cu_pos cu \<le> length (window_bytes (cu_buf cu))"

lemma available_unread: "cursor_ok cu \<Longrightarrow> available cu = length (unread cu)"
  by (simp add: cursor_ok_def available_def unread_def)

lemma safe_read_block: "safe (fst (read_block E sb a cache))"
  using safe_read_block_uncached [of E sb a]
  by (auto simp: read_block_def safe_def split: option.splits sum.splits prod.splits)

lemma triple_read_block [safe_intros]: "triple (\<lambda>_. True) (read_block E sb a) (\<lambda>_. True)"
  by (simp add: triple_def safe_read_block)

lemma cursor_new_ok:
  "cursor_new E sb start i cache = (r, cache') \<Longrightarrow> safe r \<and> (\<forall>cu. r = Ok cu \<longrightarrow> cursor_ok cu)"
  using safe_read_block [of E sb start cache]
  by (auto simp: cursor_new_def cursor_ok_def safe_def split: prod.splits sum.splits if_splits)

lemma with_limit_simps [simp]:
  "cursor_ok (with_limit cu e why) = cursor_ok cu"
  "unread (with_limit cu e why) = unread cu"
  "cu_next (with_limit cu e why) = cu_next cu"
  "cu_cache (with_limit cu e why) = cu_cache cu"
  "cu_limit (with_limit cu e why) = Some (e, why)"
  by (simp_all add: with_limit_def cursor_ok_def unread_def)

lemma triple_refill: "triple cursor_ok (refill E sb) (\<lambda>_. True)"
  unfolding triple_def
proof (intro allI impI)
  fix cu :: "'a cursor" assume "cursor_ok cu"
  then show "safe (fst (refill E sb cu)) \<and> cursor_ok (snd (refill E sb cu)) \<and>
      (\<forall>v. fst (refill E sb cu) = Ok v \<longrightarrow> True)"
    using safe_read_block [of E sb "cu_next cu" "cu_cache cu"]
    by (auto simp: refill_def cursor_ok_def slice_from_def Let_def safe_def
        split: option.splits prod.splits sum.splits)
qed

lemma ensure_ok:
  "cursor_ok cu \<Longrightarrow> ensure E sb n cu = (r, cu') \<Longrightarrow>
    safe r \<and> cursor_ok cu' \<and> (\<forall>u. r = Ok u \<longrightarrow> n \<le> length (unread cu'))"
proof (induction E sb n cu arbitrary: r cu' rule: ensure.induct)
  case (1 E sb n cu)
  obtain q d where q: "refill E sb cu = (q, d)" by fastforce
  from tripleD [OF triple_refill 1(2)] q have d: "cursor_ok d" "safe q" by fastforce+
  show ?case
  proof (cases "available cu < n \<and> (\<exists>u. q = Ok u)")
    case True
    with 1(3) q have "ensure E sb n d = (r, cu')" by (auto simp: ensure.simps [of E sb n cu])
    with 1(1) True q d show ?thesis by fastforce
  next
    case False
    with 1(2,3) q d show ?thesis
      by (cases q) (auto simp: ensure.simps [of E sb n cu] available_unread split: if_splits)
  qed
qed

lemma take_bytes_unread:
  assumes "cursor_ok cu" "n \<le> length (unread cu)"
  shows "take_bytes n cu = (Ok (take n (unread cu)), cu\<lparr>cu_pos := cu_pos cu + n\<rparr>)"
proof -
  from assms have "cu_pos cu + n \<le> length (window_bytes (cu_buf cu))"
    by (auto simp: cursor_ok_def unread_def)
  then show ?thesis by (simp add: take_bytes_def slice_def unread_def)
qed

lemma advance_simps:
  assumes "cursor_ok cu" "n \<le> length (unread cu)"
  shows "cursor_ok (cu\<lparr>cu_pos := cu_pos cu + n\<rparr>)"
    "unread (cu\<lparr>cu_pos := cu_pos cu + n\<rparr>) = drop n (unread cu)"
  using assms by (auto simp: cursor_ok_def unread_def add.commute)

lemma triple_read_exact [safe_intros]: "triple cursor_ok (read_exact E sb n) (\<lambda>b. length b = n)"
  unfolding triple_def
proof (intro allI impI)
  fix cu :: "'a cursor" assume "cursor_ok cu"
  obtain r d where r: "ensure E sb n cu = (r, d)" by fastforce
  with \<open>cursor_ok cu\<close> ensure_ok have "safe r" "cursor_ok d" "\<forall>u. r = Ok u \<longrightarrow> n \<le> length (unread d)"
    by blast+
  with r show "safe (fst (read_exact E sb n cu)) \<and> cursor_ok (snd (read_exact E sb n cu)) \<and>
      (\<forall>v. fst (read_exact E sb n cu) = Ok v \<longrightarrow> length v = n)"
    by (cases r) (auto simp: read_exact_def bind_s_def take_bytes_unread advance_simps safe_def)
qed

lemma triple_read_u16 [safe_intros]: "triple cursor_ok (read_u16 E sb) (\<lambda>_. True)"
  and triple_read_i16 [safe_intros]: "triple cursor_ok (read_i16 E sb) (\<lambda>_. True)"
  and triple_read_u32 [safe_intros]: "triple cursor_ok (read_u32 E sb) (\<lambda>_. True)"
  and triple_read_u64 [safe_intros]: "triple cursor_ok (read_u64 E sb) (\<lambda>_. True)"
  unfolding read_i16_def read_u16_def read_u32_def read_u64_def
  by (rule triple_bind, rule triple_read_exact, simp add: read_simps triple_lift)+

section \<open>What a cursor reads does not depend on the cache\<close>

text \<open>The next block of the run, as decompression alone gives it.\<close>

definition pull ::
  "'c meta_env \<Rightarrow> superblock \<Rightarrow> (u64 \<times> string) option \<Rightarrow> u64 \<Rightarrow> (bytes \<times> u64) result" where
  "pull E sb lim nxt =
     (if \<exists>e why. lim = Some (e, why) \<and> e \<le> nxt then Fail (BadMetadata (snd (the lim)))
      else
        and_then (read_block_uncached E sb nxt) (\<lambda>(b, n).
          if b = [] then Fail (BadMetadata ''empty metadata block while reading record'')
          else Ok (b, n)))"

definition good :: "'c meta_env \<Rightarrow> superblock \<Rightarrow> 'c cursor \<Rightarrow> bool" where
  "good E sb cu \<longleftrightarrow> cursor_ok cu \<and> mc_sound E sb (cu_cache cu)"

text \<open>Two cursors at the same place of the same stream, however they came to be there.\<close>

definition cursor_rel :: "'c meta_env \<Rightarrow> superblock \<Rightarrow> 'c cursor \<Rightarrow> 'c cursor \<Rightarrow> bool" where
  "cursor_rel E sb c d \<longleftrightarrow>
     good E sb c \<and> good E sb d \<and> unread c = unread d \<and> cu_next c = cu_next d \<and>
     cu_limit c = cu_limit d"

lemma refill_pull:
  assumes "good E sb cu" and "refill E sb cu = (r, cu')"
  shows "good E sb cu' \<and> cu_limit cu' = cu_limit cu \<and>
    (case pull E sb (cu_limit cu) (cu_next cu) of
       Inl e \<Rightarrow> r = Inl e \<and> unread cu' = unread cu \<and> cu_next cu' = cu_next cu
     | Inr (b, n) \<Rightarrow> r = Ok () \<and> b \<noteq> [] \<and> unread cu' = unread cu @ b \<and> cu_next cu' = n)"
proof -
  obtain q cache' where q: "read_block E sb (cu_next cu) (cu_cache cu) = (q, cache')" by fastforce
  with assms(1) read_block_transparent [of E sb "cu_cache cu" "cu_next cu"]
  have u: "read_block_uncached E sb (cu_next cu) = q" "mc_sound E sb cache'"
    by (auto simp: good_def)
  show ?thesis
    using assms q u
    by (cases q)
      (auto simp: refill_def pull_def limit_reached_def good_def cursor_ok_def unread_def
        slice_from_def Let_def split: option.splits prod.splits if_splits)
qed

lemma agree_refill: "agree (cursor_rel E sb) (refill E sb) (refill E sb)"
  unfolding agree_def
proof (intro allI impI)
  fix c d assume R: "cursor_rel E sb c d"
  obtain r c' q d' where e: "refill E sb c = (r, c')" "refill E sb d = (q, d')" by fastforce
  from R refill_pull [OF _ e(1)] refill_pull [OF _ e(2)]
  show "fst (refill E sb c) = fst (refill E sb d) \<and>
      cursor_rel E sb (snd (refill E sb c)) (snd (refill E sb d))"
    by (auto simp: e cursor_rel_def split: sum.splits)
qed

lemma ensure_rel:
  "cursor_rel E sb c d \<Longrightarrow>
    fst (ensure E sb n c) = fst (ensure E sb n d) \<and>
    cursor_rel E sb (snd (ensure E sb n c)) (snd (ensure E sb n d))"
proof (induction E sb n c arbitrary: d rule: ensure.induct)
  case (1 E sb n c)
  then have av: "available c = available d"
    by (simp add: cursor_rel_def good_def available_unread)
  obtain r c' q d' where e: "refill E sb c = (r, c')" "refill E sb d = (q, d')" by fastforce
  with agreeD [OF agree_refill 1(2)] have "r = q" "cursor_rel E sb c' d'" by auto
  with 1 av e show ?case
    by (cases q) (auto simp: ensure.simps [of E sb n c] ensure.simps [of E sb n d])
qed

lemma ensure_enough:
  "good E sb c \<Longrightarrow> ensure E sb n c = (Ok u, c') \<Longrightarrow> good E sb c' \<and> n \<le> length (unread c')"
  using ensure_rel [of E sb c c n] ensure_ok [of c E sb n "Ok u" c']
  by (simp add: cursor_rel_def good_def)

lemma agree_read_exact [agree_intros]:
  "agree (cursor_rel E sb) (read_exact E sb n) (read_exact E sb n)"
  unfolding agree_def
proof (intro allI impI)
  fix c d :: "'a cursor" assume R: "cursor_rel E sb c d"
  obtain r c' q d' where e: "ensure E sb n c = (r, c')" "ensure E sb n d = (q, d')" by fastforce
  with ensure_rel [OF R] have eq: "r = q" and R': "cursor_rel E sb c' d'" by (metis fst_conv snd_conv)+
  show "fst (read_exact E sb n c) = fst (read_exact E sb n d) \<and>
      cursor_rel E sb (snd (read_exact E sb n c)) (snd (read_exact E sb n d))"
  proof (cases q)
    case (Inl f)
    with e eq R' show ?thesis by (simp add: read_exact_def bind_s_def)
  next
    case (Inr u)
    with e eq R ensure_enough [of E sb c n u c'] have "n \<le> length (unread c')"
      by (simp add: cursor_rel_def)
    with R' Inr e eq show ?thesis
      by (simp add: read_exact_def bind_s_def cursor_rel_def good_def take_bytes_unread advance_simps)
  qed
qed

lemma agree_read_u16 [agree_intros]: "agree (cursor_rel E sb) (read_u16 E sb) (read_u16 E sb)"
  and agree_read_i16 [agree_intros]: "agree (cursor_rel E sb) (read_i16 E sb) (read_i16 E sb)"
  and agree_read_u32 [agree_intros]: "agree (cursor_rel E sb) (read_u32 E sb) (read_u32 E sb)"
  and agree_read_u64 [agree_intros]: "agree (cursor_rel E sb) (read_u64 E sb) (read_u64 E sb)"
  unfolding read_i16_def read_u16_def read_u32_def read_u64_def by (intro agree_intros)+

lemma cursor_new_rel:
  assumes "mc_sound E sb cache"
    and "cursor_new E sb start i cache = (r, c1)" and "cursor_new E sb start i None = (q, c2)"
  shows "mc_sound E sb c1 \<and>
    ((\<exists>e. r = Inl e \<and> q = Inl e) \<or>
     (\<exists>cu cd. r = Ok cu \<and> q = Ok cd \<and> cursor_rel E sb cu cd \<and> cu_cache cu = c1))"
proof -
  obtain a c1' b c2' where
    e: "read_block E sb start cache = (a, c1')" "read_block E sb start None = (b, c2')" by fastforce
  with read_block_transparent [OF assms(1), of start] read_block_transparent [of E sb None start]
  have "a = b" "mc_sound E sb c1'" "mc_sound E sb c2'" by (auto simp: mc_sound_def)
  with e assms(2,3) show ?thesis
    by (cases b)
      (auto simp: cursor_new_def cursor_rel_def good_def cursor_ok_def unread_def
        split: prod.splits if_splits)
qed

section \<open>A cursor is a flat byte stream\<close>

text \<open>\<open>block_run E sb lim p bs q\<close>: pulling consecutive blocks from offset \<open>p\<close> gives the bytes \<open>bs\<close>
  and leaves the next block at \<open>q\<close>.\<close>

inductive block_run ::
  "'c meta_env \<Rightarrow> superblock \<Rightarrow> (u64 \<times> string) option \<Rightarrow> u64 \<Rightarrow> bytes \<Rightarrow> u64 \<Rightarrow> bool"
  for E :: "'c meta_env" and sb :: superblock and lim :: "(u64 \<times> string) option" where
  run_none: "block_run E sb lim p [] p"
| run_block: "pull E sb lim p = Ok (b, n) \<Longrightarrow> block_run E sb lim n bs q \<Longrightarrow>
    block_run E sb lim p (b @ bs) q"

inductive_cases block_runE: "block_run E sb lim p bs q"

lemma ensure_stream:
  "good E sb cu \<Longrightarrow> ensure E sb n cu = (Ok u, cu') \<Longrightarrow>
    \<exists>bs. block_run E sb (cu_limit cu) (cu_next cu) bs (cu_next cu') \<and>
      unread cu' = unread cu @ bs \<and> cu_limit cu' = cu_limit cu"
proof (induction E sb n cu rule: ensure.induct)
  case (1 E sb n cu)
  show ?case
  proof (cases "available cu < n")
    case False
    with 1(3) show ?thesis
      by (auto simp: ensure.simps [of E sb n cu] intro!: exI [of _ "[]"] run_none)
  next
    case True
    obtain r d where r: "refill E sb cu = (r, d)" by fastforce
    with True 1(3) obtain x where x: "r = Ok x" "ensure E sb n d = (Ok u, cu')"
      by (cases r) (auto simp: ensure.simps [of E sb n cu])
    from refill_pull [OF 1(2) r] x(1) obtain b m where
      d: "good E sb d" "cu_limit d = cu_limit cu" "unread d = unread cu @ b" "cu_next d = m"
        "pull E sb (cu_limit cu) (cu_next cu) = Ok (b, m)"
      by (auto split: sum.splits)
    from 1(1) [OF True r [symmetric] x(1) d(1) x(2)] obtain bs where
      "block_run E sb (cu_limit cu) m bs (cu_next cu')" "unread cu' = unread d @ bs"
      "cu_limit cu' = cu_limit cu"
      unfolding d by auto
    with d run_block [OF d(5)] show ?thesis by (intro exI [of _ "b @ bs"]) simp
  qed
qed

lemma read_exact_run:
  assumes "good E sb cu" "read_exact E sb n cu = (Ok out, cu')"
  shows "\<exists>bs. block_run E sb (cu_limit cu) (cu_next cu) bs (cu_next cu') \<and>
    unread cu @ bs = out @ unread cu' \<and> length out = n \<and> good E sb cu'"
proof -
  from assms(2) obtain u d where d: "ensure E sb n cu = (Ok u, d)" "take_bytes n d = (Ok out, cu')"
    by (auto simp: read_exact_def bind_s_eq_Ok)
  from ensure_enough [OF assms(1) d(1)] have n: "good E sb d" "cursor_ok d" "n \<le> length (unread d)"
    by (auto simp: good_def)
  from take_bytes_unread [OF n(2,3)] d(2) have
    "out = take n (unread d)" "cu' = d\<lparr>cu_pos := cu_pos d + n\<rparr>" by auto
  with n advance_simps [OF n(2,3)] ensure_stream [OF assms(1) d(1)] show ?thesis
    by (auto simp: good_def append_take_drop_id)
qed

lemma ensure_supplied:
  "block_run E sb lim p bs q \<Longrightarrow> good E sb cu \<Longrightarrow> cu_limit cu = lim \<Longrightarrow> cu_next cu = p \<Longrightarrow>
    n \<le> length (unread cu) + length bs \<Longrightarrow> \<exists>cu'. ensure E sb n cu = (Ok (), cu')"
proof (induction arbitrary: cu rule: block_run.induct)
  case (run_none p)
  then show ?case by (auto simp: ensure.simps [of E sb n cu] available_unread good_def)
next
  case (run_block p b m bs q)
  show ?case
  proof (cases "available cu < n")
    case False
    then show ?thesis by (auto simp: ensure.simps [of E sb n cu])
  next
    case True
    obtain r d where r: "refill E sb cu = (r, d)" by fastforce
    from refill_pull [OF run_block.prems(1) r] run_block.hyps(1) run_block.prems have
      "good E sb d" "cu_limit d = lim" "unread d = unread cu @ b" "cu_next d = m" "r = Ok ()"
      by auto
    with run_block.IH [of d] run_block.prems True r show ?thesis
      by (auto simp: ensure.simps [of E sb n cu])
  qed
qed

lemma read_exact_supplied:
  assumes "block_run E sb (cu_limit cu) (cu_next cu) bs q" "good E sb cu"
    and "n \<le> length (unread cu @ bs)"
  shows "\<exists>out cu'. read_exact E sb n cu = (Ok out, cu')"
proof -
  from ensure_supplied [OF assms(1,2)] assms(3) obtain d where d: "ensure E sb n cu = (Ok (), d)"
    by auto
  with ensure_enough [OF assms(2) d] show ?thesis
    by (simp add: read_exact_def bind_s_def good_def take_bytes_unread)
qed

lemma block_run_det:
  "block_run E sb lim p bs q \<Longrightarrow> block_run E sb lim p cs r \<Longrightarrow>
    length bs \<le> length cs \<Longrightarrow> bs = take (length bs) cs"
proof (induction arbitrary: cs rule: block_run.induct)
  case (run_none p)
  then show ?case by simp
next
  case (run_block p b m bs q)
  from run_block.prems(1) show ?case
    by (rule block_runE) (use run_block in auto)
qed

text \<open>Reading in one piece or in two is the same: the bytes, the error, and where the cursor ends.\<close>

lemma ensure_split: "m \<le> k \<Longrightarrow> ensure E sb k cu = bind_s (ensure E sb m) (\<lambda>_. ensure E sb k) cu"
proof (induction E sb m cu rule: ensure.induct)
  case (1 E sb m cu)
  show ?case
  proof (cases "available cu < m")
    case True
    obtain r d where r: "refill E sb cu = (r, d)" by fastforce
    with True 1 show ?thesis
      by (cases r)
        (auto simp: ensure.simps [of E sb m cu] ensure.simps [of E sb k cu] bind_s_def)
  next
    case False
    then show ?thesis by (simp add: ensure.simps [of E sb m cu] bind_s_def)
  qed
qed

definition behind :: "'c meta_env \<Rightarrow> superblock \<Rightarrow> bytes \<Rightarrow> 'c cursor \<Rightarrow> 'c cursor \<Rightarrow> bool" where
  "behind E sb a c d \<longleftrightarrow>
     good E sb c \<and> good E sb d \<and> unread c = a @ unread d \<and> cu_next c = cu_next d \<and>
     cu_limit c = cu_limit d"

lemma ensure_behind:
  "behind E sb a c d \<Longrightarrow>
    fst (ensure E sb (length a + n) c) = fst (ensure E sb n d) \<and>
    behind E sb a (snd (ensure E sb (length a + n) c)) (snd (ensure E sb n d))"
proof (induction E sb n d arbitrary: c rule: ensure.induct)
  case (1 E sb n d)
  then have av: "available c < length a + n \<longleftrightarrow> available d < n"
    by (auto simp: behind_def good_def available_unread)
  obtain r c' q d' where e: "refill E sb c = (r, c')" "refill E sb d = (q, d')" by fastforce
  from 1(2) refill_pull [OF _ e(1)] refill_pull [OF _ e(2)]
  have "r = q" "behind E sb a c' d'" by (auto simp: behind_def split: sum.splits)
  with 1 av e show ?case
    by (cases q)
      (auto simp: ensure.simps [of E sb n d] ensure.simps [of E sb "length a + n" c])
qed

lemma read_exact_split:
  assumes "good E sb cu"
  shows "fst (read_exact E sb (m + n) cu) =
    fst (bind_s (read_exact E sb m) (\<lambda>a. bind_s (read_exact E sb n) (\<lambda>b. ret_s (a @ b))) cu)"
proof -
  obtain r d where d: "ensure E sb m cu = (r, d)" by fastforce
  show ?thesis
  proof (cases r)
    case (Inl e)
    with d show ?thesis
      by (simp add: read_exact_def ensure_split [of m "m + n"] bind_s_def)
  next
    case (Inr u)
    let ?a = "take m (unread d)"
    let ?d = "d\<lparr>cu_pos := cu_pos d + m\<rparr>"
    from assms d Inr ensure_enough have g: "good E sb d" "cursor_ok d" "m \<le> length (unread d)"
      unfolding good_def by blast+
    then have b: "behind E sb ?a d ?d"
      using advance_simps [OF g(2,3)] by (simp add: behind_def good_def)
    obtain q c' f' where q: "ensure E sb (m + n) d = (q, c')" "ensure E sb n ?d = (q, f')"
      "behind E sb ?a c' f'"
      using ensure_behind [OF b, of n] g(3) by (metis length_take min_absorb2 prod.collapse)
    have "take (m + n) (unread c') = ?a @ take n (unread f')"
      using q(3) g(3) by (simp add: behind_def min_absorb2)
    moreover have "m + n \<le> length (unread c')" "n \<le> length (unread f')" if "q = Ok x" for x
      using that q ensure_enough [OF g(1) q(1) [unfolded that]] g(3)
      by (auto simp: behind_def)
    ultimately show ?thesis
      using Inr d q g
      by (cases q)
        (auto simp: read_exact_def ensure_split [of m "m + n" E sb cu] bind_s_def ret_s_def
          take_bytes_unread behind_def good_def)
  qed
qed

section \<open>Parsing what the stream holds\<close>

text \<open>\<open>stream E sb cu s\<close>: the bytes ahead of the cursor, up to some block boundary, are \<open>s\<close>.
  \<open>reads E sb m v a\<close>: whenever the bytes ahead start with \<open>a\<close>, the parser \<open>m\<close> answers \<open>v\<close> and
  leaves the cursor behind them.\<close>

definition stream :: "'c meta_env \<Rightarrow> superblock \<Rightarrow> 'c cursor \<Rightarrow> bytes \<Rightarrow> bool" where
  "stream E sb cu s \<longleftrightarrow>
     good E sb cu \<and>
     (\<exists>bs q. block_run E sb (cu_limit cu) (cu_next cu) bs q \<and> s = unread cu @ bs)"

definition reads :: "'c meta_env \<Rightarrow> superblock \<Rightarrow> ('c cursor, 'a) sm \<Rightarrow> 'a \<Rightarrow> bytes \<Rightarrow> bool" where
  "reads E sb m v a \<longleftrightarrow>
     (\<forall>cu b. stream E sb cu (a @ b) \<longrightarrow> (\<exists>cu'. m cu = (Ok v, cu') \<and> stream E sb cu' b))"

lemma block_run_append:
  "block_run E sb lim p as q \<Longrightarrow> block_run E sb lim q bs r \<Longrightarrow> block_run E sb lim p (as @ bs) r"
  by (induction rule: block_run.induct) (auto intro: run_block)

lemma block_run_rest:
  "block_run E sb lim p as q \<Longrightarrow> block_run E sb lim p bs r \<Longrightarrow> length as \<le> length bs \<Longrightarrow>
    \<exists>cs. bs = as @ cs \<and> block_run E sb lim q cs r"
proof (induction arbitrary: bs rule: block_run.induct)
  case (run_none p)
  then show ?case by simp
next
  case (run_block p b n as q)
  from run_block.prems(1) show ?case
  proof (cases rule: block_run.cases)
    case run_none
    with run_block.prems(2) have "b = []" by simp
    with run_block.hyps(1) show ?thesis by (auto simp: pull_def split: if_splits)
  next
    case (run_block b' n' bs')
    with run_block.hyps(1) have "b' = b" "n' = n" by auto
    with run_block run_block.prems show ?thesis
      using run_block.IH [of bs'] by auto
  qed
qed

lemma ensure_lazy:
  "stream E sb cu s \<Longrightarrow> n \<le> length s \<Longrightarrow> \<exists>cu'. ensure E sb n cu = (Ok (), cu') \<and> stream E sb cu' s"
proof (induction E sb n cu rule: ensure.induct)
  case (1 E sb n cu)
  show ?case
  proof (cases "available cu < n")
    case False
    with 1 show ?thesis by (auto simp: ensure.simps [of E sb n cu])
  next
    case True
    obtain r d where r: "refill E sb cu = (r, d)" by fastforce
    from 1(2) obtain bs q where run: "block_run E sb (cu_limit cu) (cu_next cu) bs q"
      and s: "s = unread cu @ bs" and g: "good E sb cu"
      by (auto simp: stream_def)
    from True g s 1(3) have "bs \<noteq> []" by (auto simp: good_def available_unread)
    with run obtain b m cs where p: "pull E sb (cu_limit cu) (cu_next cu) = Ok (b, m)"
      and "block_run E sb (cu_limit cu) m cs q" "bs = b @ cs"
      by (blast elim: block_run.cases)
    with refill_pull [OF g r] s have "r = Ok ()" "stream E sb d s"
      by (auto simp: stream_def)
    with 1(1) [OF True r [symmetric]] 1(3) True r show ?thesis
      by (simp add: ensure.simps [of E sb n cu])
  qed
qed

lemma reads_exact [reads_intros]: "reads E sb (read_exact E sb (length a)) a a"
  unfolding reads_def
proof (intro allI impI)
  fix cu b assume "stream E sb cu (a @ b)"
  with ensure_lazy [of E sb cu "a @ b" "length a"] obtain d where
    d: "ensure E sb (length a) cu = (Ok (), d)" "stream E sb d (a @ b)" by auto
  then have "good E sb cu" using \<open>stream E sb cu (a @ b)\<close> by (simp add: stream_def)
  with ensure_enough d(1) have g: "good E sb d" "length a \<le> length (unread d)" by blast+
  from d(2) obtain bs q where run: "block_run E sb (cu_limit d) (cu_next d) bs q"
    and s: "a @ b = unread d @ bs" by (auto simp: stream_def)
  have t: "take_bytes (length a) d = (Ok (take (length a) (unread d)), d\<lparr>cu_pos := cu_pos d + length a\<rparr>)"
    using take_bytes_unread g by (auto simp: good_def)
  have "take (length a) (unread d) = a" "drop (length a) (unread d) @ bs = b"
    using s g(2) by (auto simp: append_eq_append_conv_if)
  with g run advance_simps [of d "length a"] have
    "stream E sb (d\<lparr>cu_pos := cu_pos d + length a\<rparr>) b"
    by (auto simp: stream_def good_def)
  with t d(1) \<open>take (length a) (unread d) = a\<close>
  show "\<exists>cu'. read_exact E sb (length a) cu = (Ok a, cu') \<and> stream E sb cu' b"
    by (simp add: read_exact_def bind_s_def)
qed

lemma reads_ret [reads_intros]: "reads E sb (ret_s v) v []"
  by (simp add: reads_def ret_s_def)

lemma reads_lift [reads_intros]: "r = Ok v \<Longrightarrow> reads E sb (lift_s r) v []"
  by (simp add: reads_def lift_s_def)

lemma reads_bind:
  assumes "reads E sb m u a" "reads E sb (f u) v b"
  shows "reads E sb (bind_s m f) v (a @ b)"
  unfolding reads_def
proof (intro allI impI)
  fix cu c assume "stream E sb cu ((a @ b) @ c)"
  with assms(1) obtain cu' where "m cu = (Ok u, cu')" "stream E sb cu' (b @ c)"
    by (auto simp: reads_def)
  moreover from this assms(2) obtain cu'' where "f u cu' = (Ok v, cu'')" "stream E sb cu'' c"
    by (auto simp: reads_def)
  ultimately show "\<exists>cu'. bind_s m f cu = (Ok v, cu') \<and> stream E sb cu' c"
    by (simp add: bind_s_def)
qed

lemma reads_u16: "reads E sb (read_u16 E sb) w (to_le_bytes 2 w)"
  and reads_u32: "reads E sb (read_u32 E sb) w' (to_le_bytes 4 w')"
  and reads_u64: "reads E sb (read_u64 E sb) w'' (to_le_bytes 8 w'')"
proof -
  have 2: "reads E sb (read_exact E sb 2) (to_le_bytes 2 w) (to_le_bytes 2 w)"
    using reads_exact [of E sb "to_le_bytes 2 w"] by simp
  have 4: "reads E sb (read_exact E sb 4) (to_le_bytes 4 w') (to_le_bytes 4 w')"
    using reads_exact [of E sb "to_le_bytes 4 w'"] by simp
  have 8: "reads E sb (read_exact E sb 8) (to_le_bytes 8 w'') (to_le_bytes 8 w'')"
    using reads_exact [of E sb "to_le_bytes 8 w''"] by simp
  show "reads E sb (read_u16 E sb) w (to_le_bytes 2 w)"
    using reads_bind [OF 2, of _ w "[]"] unfolding read_u16_def
    by (simp add: reads_lift read_simps field_to_le_bytes)
  show "reads E sb (read_u32 E sb) w' (to_le_bytes 4 w')"
    using reads_bind [OF 4, of _ w' "[]"] unfolding read_u32_def
    by (simp add: reads_lift read_simps field_to_le_bytes)
  show "reads E sb (read_u64 E sb) w'' (to_le_bytes 8 w'')"
    using reads_bind [OF 8, of _ w'' "[]"] unfolding read_u64_def
    by (simp add: reads_lift read_simps field_to_le_bytes)
qed

text \<open>Binding a read field, as the parsers do it.\<close>

lemmas reads_field [reads_intros] =
  reads_bind [OF reads_u16] reads_bind [OF reads_u32] reads_bind [OF reads_u64]

section \<open>Running a parser at a metadata reference\<close>

definition with_cursor ::
  "'c meta_env \<Rightarrow> superblock \<Rightarrow> u64 \<Rightarrow> u16 \<Rightarrow> ('c cursor \<Rightarrow> 'c cursor) \<Rightarrow> ('c cursor, 'a) sm \<Rightarrow>
    ('c meta_cache option, 'a) sm" where
  "with_cursor E sb start in_block f m cache =
     (case cursor_new E sb start in_block cache of
        (Inl e, cache') \<Rightarrow> (Inl e, cache')
      | (Inr cu, _) \<Rightarrow> (case m (f cu) of (r, cu') \<Rightarrow> (r, cu_cache cu')))"

text \<open>What may be done to a fresh cursor before it reads: nothing, or a limit.\<close>

definition limiting :: "('c cursor \<Rightarrow> 'c cursor) \<Rightarrow> bool" where
  "limiting f \<longleftrightarrow> f = (\<lambda>cu. cu) \<or> (\<exists>e why. f = (\<lambda>cu. with_limit cu e why))"

lemma limiting_simps [simp]: "limiting (\<lambda>cu. cu)" "limiting (\<lambda>cu. with_limit cu e why)"
  by (auto simp: limiting_def)

lemma limiting_ok: "limiting f \<Longrightarrow> cursor_ok cu \<Longrightarrow> cursor_ok (f cu)"
  by (auto simp: limiting_def)

lemma limiting_rel: "limiting f \<Longrightarrow> cursor_rel E sb c d \<Longrightarrow> cursor_rel E sb (f c) (f d)"
  by (auto simp: limiting_def cursor_rel_def good_def)

lemma triple_with_cursor:
  assumes "triple cursor_ok m Q" "limiting f"
  shows "triple (\<lambda>_. True) (with_cursor E sb start i f m) Q"
  unfolding triple_def
proof (intro allI impI conjI TrueI)
  fix cache :: "'a meta_cache option" and v
  obtain r c where c: "cursor_new E sb start i cache = (r, c)" by fastforce
  have run: "with_cursor E sb start i f m cache =
      (case r of Inl e \<Rightarrow> (Inl e, c) | Inr cu \<Rightarrow> (fst (m (f cu)), cu_cache (snd (m (f cu)))))"
    by (simp add: with_cursor_def c split: sum.split prod.split)
  have "safe (fst (with_cursor E sb start i f m cache)) \<and>
      (fst (with_cursor E sb start i f m cache) = Ok v \<longrightarrow> Q v)"
  proof (cases r)
    case (Inl e)
    with run cursor_new_ok [OF c] show ?thesis by (simp add: safe_def)
  next
    case (Inr cu)
    with cursor_new_ok [OF c] assms(2) have "cursor_ok (f cu)" by (simp add: limiting_ok)
    with assms(1) show ?thesis unfolding run Inr triple_def by simp
  qed
  then show "safe (fst (with_cursor E sb start i f m cache))"
    "fst (with_cursor E sb start i f m cache) = Ok v \<Longrightarrow> Q v" by blast+
qed

lemma mc_rel_None:
  assumes "\<And>c. mc_sound E sb c \<Longrightarrow> fst (m c) = fst (m None) \<and> mc_sound E sb (snd (m c))"
  shows "agree (mc_rel E sb) m m"
  unfolding agree_def mc_rel_def
proof (intro allI impI)
  fix c d assume cd: "mc_sound E sb c \<and> mc_sound E sb d"
  show "fst (m c) = fst (m d) \<and> mc_sound E sb (snd (m c)) \<and> mc_sound E sb (snd (m d))"
    using assms [OF conjunct1 [OF cd]] assms [OF conjunct2 [OF cd]] by (elim conjE) (intro conjI, simp_all only:)
qed

lemma agree_with_cursor:
  assumes "agree (cursor_rel E sb) m m" "limiting f"
  shows "agree (mc_rel E sb) (with_cursor E sb start i f m) (with_cursor E sb start i f m)"
proof (rule mc_rel_None)
  fix c assume c: "mc_sound E sb c"
  obtain r c1 q c2 where e: "cursor_new E sb start i c = (r, c1)" "cursor_new E sb start i None = (q, c2)"
    by fastforce
  show "fst (with_cursor E sb start i f m c) = fst (with_cursor E sb start i f m None) \<and>
      mc_sound E sb (snd (with_cursor E sb start i f m c))"
  proof (cases r)
    case (Inl e1)
    with cursor_new_rel [OF c e] e show ?thesis by (auto simp: with_cursor_def)
  next
    case (Inr cu)
    with cursor_new_rel [OF c e] obtain cd where cd: "q = Ok cd" "cursor_rel E sb cu cd" by auto
    from agreeD [OF assms(1) limiting_rel [OF assms(2) cd(2)]]
    have "fst (m (f cu)) = fst (m (f cd))" "cursor_rel E sb (snd (m (f cu))) (snd (m (f cd)))" .
    with e Inr cd(1) show ?thesis
      by (auto simp: with_cursor_def cursor_rel_def good_def split: prod.splits)
  qed
qed

text \<open>The bytes at a metadata reference, up to some block boundary.\<close>

definition metadata_at ::
  "'c meta_env \<Rightarrow> superblock \<Rightarrow> (u64 \<times> string) option \<Rightarrow> u64 \<Rightarrow> u16 \<Rightarrow> bytes \<Rightarrow> bool" where
  "metadata_at E sb lim start in_block s \<longleftrightarrow>
     (\<exists>b n bs q. read_block_uncached E sb start = Ok (b, n) \<and> unat in_block \<le> length b \<and>
        block_run E sb lim n bs q \<and> s = drop (unat in_block) b @ bs)"

definition limited :: "(u64 \<times> string) option \<Rightarrow> 'c cursor \<Rightarrow> 'c cursor" where
  "limited lim cu = (case lim of None \<Rightarrow> cu | Some (e, why) \<Rightarrow> with_limit cu e why)"

lemma limited_None: "limited None = (\<lambda>cu. cu)"
  and limited_Some: "limited (Some (e, why)) = (\<lambda>cu. with_limit cu e why)"
  by (simp_all add: limited_def fun_eq_iff)

lemma with_cursor_reads:
  assumes m: "reads E sb m v a" and at: "metadata_at E sb lim start i (a @ rest)"
    and c: "mc_sound E sb cache"
  shows "fst (with_cursor E sb start i (limited lim) m cache) = Ok v"
proof -
  from at obtain b n bs q where b: "read_block_uncached E sb start = Ok (b, n)" "unat i \<le> length b"
    and run: "block_run E sb lim n bs q" and s: "a @ rest = drop (unat i) b @ bs"
    by (auto simp: metadata_at_def)
  with read_block_transparent [OF c, of start] obtain c' where
    "read_block E sb start cache = (Ok (b, n), c')" "mc_sound E sb c'"
    by (metis prod.collapse)
  with b(2) obtain cu where cu: "cursor_new E sb start i cache = (Ok cu, c')"
    "cu_next cu = n" "unread cu = drop (unat i) b" "cu_limit cu = None" "good E sb cu"
    by (auto simp: cursor_new_def unread_def good_def cursor_ok_def)
  then have "good E sb (limited lim cu)" "unread (limited lim cu) = drop (unat i) b"
    "cu_next (limited lim cu) = n" "cu_limit (limited lim cu) = lim"
    by (auto simp: limited_def good_def split: option.splits)
  with run s have "stream E sb (limited lim cu) (a @ rest)"
    unfolding stream_def by auto
  with m obtain cu' where "m (limited lim cu) = (Ok v, cu')" unfolding reads_def by blast
  with cu(1) show ?thesis by (simp add: with_cursor_def)
qed

section \<open>A read elsewhere while a cursor is open\<close>

text \<open>The cursor only borrows the cache: another read in the middle of a record uses and updates the
  same one.\<close>

definition on_cache :: "('c meta_cache option, 'a) sm \<Rightarrow> ('c cursor, 'a) sm" where
  "on_cache m cu = (case m (cu_cache cu) of (r, cache') \<Rightarrow> (r, cu\<lparr>cu_cache := cache'\<rparr>))"

lemma cursor_ok_cache [simp]: "cursor_ok (cu\<lparr>cu_cache := c\<rparr>) = cursor_ok cu"
  by (simp add: cursor_ok_def)

lemma triple_on_cache:
  assumes "triple (\<lambda>_. True) m Q"
  shows "triple cursor_ok (on_cache m) Q"
  unfolding triple_def
proof (intro allI impI)
  fix cu :: "'a cursor" assume "cursor_ok cu"
  then show "safe (fst (on_cache m cu)) \<and> cursor_ok (snd (on_cache m cu)) \<and>
      (\<forall>v. fst (on_cache m cu) = Ok v \<longrightarrow> Q v)"
    using assms [unfolded triple_def, rule_format, of "cu_cache cu"]
    by (cases "m (cu_cache cu)") (simp add: on_cache_def)
qed

lemma agree_on_cache:
  assumes "agree (mc_rel E sb) m m"
  shows "agree (cursor_rel E sb) (on_cache m) (on_cache m)"
  unfolding agree_def
proof (intro allI impI)
  fix c d assume R: "cursor_rel E sb c d"
  then have "mc_rel E sb (cu_cache c) (cu_cache d)" by (simp add: cursor_rel_def mc_rel_def good_def)
  note a = agreeD [OF assms this]
  obtain r c' q d' where e: "m (cu_cache c) = (r, c')" "m (cu_cache d) = (q, d')" by fastforce
  with R a show "fst (on_cache m c) = fst (on_cache m d) \<and>
      cursor_rel E sb (snd (on_cache m c)) (snd (on_cache m d))"
    by (simp add: on_cache_def cursor_rel_def good_def mc_rel_def unread_def)
qed

lemma reads_on_cache:
  assumes "\<And>cache. mc_sound E sb cache \<Longrightarrow> fst (m cache) = Ok v \<and> mc_sound E sb (snd (m cache))"
  shows "reads E sb (on_cache m) v []"
  unfolding reads_def
proof (intro allI impI)
  fix cu b assume s: "stream E sb cu ([] @ b)"
  then have "mc_sound E sb (cu_cache cu)" by (simp add: stream_def good_def)
  note a = assms [OF this]
  obtain r c' where e: "m (cu_cache cu) = (r, c')" by fastforce
  with a s show "\<exists>cu'. on_cache m cu = (Ok v, cu') \<and> stream E sb cu' b"
    by (simp add: on_cache_def stream_def good_def unread_def)
qed

section \<open>A stored block is read back\<close>

lemma read_stored_block:
  assumes "0 < length c" "length c \<le> METADATA_SIZE"
    and "read_at (me_dev E) a 2 = Ok (take 2 (stored_block z c))"
    and "read_at (me_dev E) (a + 2) (length c) = Ok c"
    and "if z then and_then (sb_compressor sb) (\<lambda>k. decompress (me_codecs E) k c METADATA_SIZE) = Ok p
         else p = c"
  shows "read_block_uncached E sb a = Ok (p, a + 2 + of_nat (length c))"
proof -
  obtain w where w: "w = (of_nat (length c + (if z then 0 else 0x8000)) :: u16)" by blast
  obtain hd where hd: "hd = take 2 (stored_block z c)" by blast
  note h = stored_block_header [OF assms(1,2) w]
  have "hd = to_le_bytes 2 w" by (simp add: hd w stored_block_def)
  then have f: "from_le_bytes hd = w" by (simp add: from_to_le_bytes)
  have r: "read_at (me_dev E) a 2 = Ok hd" using assms(3) by (simp only: hd)
  have len: "(length c = 0 \<or> METADATA_SIZE < length c) = False" using assms(1,2) by auto
  show ?thesis
    using assms(4,5) len
    by (cases z) (simp_all add: read_block_uncached_def Let_def r f h flip: not_le)
qed

text \<open>An image in memory, with nothing compressed.\<close>

definition plain_env :: "bytes \<Rightarrow> (nat \<times> (u64 \<times> cached_block) list) meta_env" where
  "plain_env img = \<lparr>me_dev = mem_device img, me_codecs = no_codecs, me_lru = list_lru\<rparr>"

lemma plain_block_at:
  assumes "drop (unat a) img = stored_block False p @ rest" "unat a + 2 < 2 ^ 64"
    and "0 < length p" "length p \<le> METADATA_SIZE"
  shows "read_block_uncached (plain_env img) sb a = Ok (p, a + 2 + of_nat (length p))"
proof -
  have l: "length (drop (unat a) img) = 2 + length p + length rest"
    by (simp add: assms(1) stored_block_def)
  have "length (drop (unat a) img) = length img - unat a" by simp
  with l have le: "unat a + 2 + length p \<le> length img" by linarith
  have a2: "unat (a + 2) = unat a + 2"
    using assms(2) unat_add_lem [of a 2] by simp
  have "take 2 (drop (unat a) img) = take 2 (stored_block False p)"
    unfolding assms(1) by (simp add: stored_block_def)
  then have r1: "read_at (mem_device img) a 2 = Ok (take 2 (stored_block False p))"
    using le by (simp add: read_at_mem_device)
  have "drop (unat (a + 2)) img = drop 2 (drop (unat a) img)" by (simp add: a2 add.commute)
  then have "take (length p) (drop (unat (a + 2)) img) = p"
    unfolding assms(1) by (simp add: stored_block_def)
  then have r2: "read_at (mem_device img) (a + 2) (length p) = Ok p"
    using le a2 by (simp add: read_at_mem_device)
  show ?thesis
    by (rule read_stored_block [where z = False]) (use assms(3,4) r1 r2 in \<open>simp_all add: plain_env_def\<close>)
qed

lemma plain_metadata_at:
  assumes "drop (unat a) img = stored_block False p @ rest" "unat a + 2 < 2 ^ 64"
    and "0 < length p" "length p \<le> METADATA_SIZE"
  shows "metadata_at (plain_env img) sb lim a 0 (p @ [])"
  unfolding metadata_at_def
  by (intro exI conjI, rule plain_block_at [OF assms], simp, rule run_none) simp

section \<open>Properties\<close>

lemma read_exact_iff:
  assumes "good E sb cu"
  shows "fst (read_exact E sb n cu) = Ok out \<longleftrightarrow>
    (\<exists>bs q. block_run E sb (cu_limit cu) (cu_next cu) bs q \<and> n \<le> length (unread cu @ bs) \<and>
       out = take n (unread cu @ bs))"
proof
  assume "fst (read_exact E sb n cu) = Ok out"
  then obtain cu' where "read_exact E sb n cu = (Ok out, cu')" by (metis prod.collapse)
  from read_exact_run [OF assms this] obtain bs where
    "block_run E sb (cu_limit cu) (cu_next cu) bs (cu_next cu')" "unread cu @ bs = out @ unread cu'"
    "length out = n" by blast
  then show "\<exists>bs q. block_run E sb (cu_limit cu) (cu_next cu) bs q \<and> n \<le> length (unread cu @ bs) \<and>
       out = take n (unread cu @ bs)"
    by (intro exI [of _ bs] exI [of _ "cu_next cu'"]) simp
next
  assume "\<exists>bs q. block_run E sb (cu_limit cu) (cu_next cu) bs q \<and> n \<le> length (unread cu @ bs) \<and>
       out = take n (unread cu @ bs)"
  then obtain bs q where run: "block_run E sb (cu_limit cu) (cu_next cu) bs q"
    and n: "n \<le> length (unread cu @ bs)" and out: "out = take n (unread cu @ bs)" by blast
  from read_exact_supplied [OF run assms n] obtain o' cu' where
    r: "read_exact E sb n cu = (Ok o', cu')" by blast
  from read_exact_run [OF assms r] obtain cs where
    cs: "block_run E sb (cu_limit cu) (cu_next cu) cs (cu_next cu')" "unread cu @ cs = o' @ unread cu'"
    "length o' = n" by blast
  have "take n (unread cu @ cs) = take n (unread cu @ bs)"
  proof (cases "length bs \<le> length cs")
    case True
    from block_run_det [OF run cs(1) this] n show ?thesis by (metis append_take_drop_id append_assoc
      take_append append_Nil2 diff_is_0_eq take_0)
  next
    case False
    then have "cs = take (length cs) bs" using block_run_det [OF cs(1) run] by simp
    moreover have "n \<le> length (unread cu @ cs)" using cs(2,3) by (metis length_append le_add1)
    ultimately show ?thesis by (metis append_take_drop_id append_assoc
      take_append append_Nil2 diff_is_0_eq take_0)
  qed
  with cs(2,3) out r show "fst (read_exact E sb n cu) = Ok out" by simp
qed

text \<open>A metadata block that is on the device as the format stores it, compressed or not, is read
  back as its payload, with the offset of the block after it.\<close>

lemma metadata_block_of_layout:
  assumes "0 < length c" "length c \<le> METADATA_SIZE"
    and "read_at (me_dev E) a 2 = Ok (take 2 (stored_block z c))"
    and "read_at (me_dev E) (a + 2) (length c) = Ok c"
    and "if z then and_then (sb_compressor sb) (\<lambda>k. decompress (me_codecs E) k c METADATA_SIZE) = Ok p
         else p = c"
  shows "read_block_uncached E sb a = Ok (p, a + 2 + of_nat (length c))"
  using assms by (rule read_stored_block)

lemma metadata_block_of_layout_witness:
  "read_block_uncached (plain_env (stored_block False [7, 8, 9])) sample_superblock 0 = Ok ([7, 8, 9], 5)"
proof -
  have "read_block_uncached (plain_env (stored_block False [7, 8, 9])) sample_superblock 0 =
      Ok ([7, 8, 9], 0 + 2 + of_nat (length [7, 8, 9 :: u8]))"
    by (rule metadata_block_of_layout [where z = False])
      (simp_all add: METADATA_SIZE_def plain_env_def read_at_mem_device stored_block_def)
  then show ?thesis by simp
qed

text \<open>The cache of decompressed blocks is invisible: with entries that are true, a read gives
  what decompressing the block gives, and leaves the cache true.\<close>

theorem cached_block_is_the_block:
  assumes "mc_sound E sb cache"
  shows "fst (read_block E sb a cache) = read_block_uncached E sb a \<and>
    mc_sound E sb (snd (read_block E sb a cache))"
  using assms by (rule read_block_transparent)

lemma cached_block_is_the_block_witness:
  "fst (read_block (plain_env []) sample_superblock 0 (Some (mc_new list_lru 4))) =
     read_block_uncached (plain_env []) sample_superblock 0"
proof (rule cached_block_is_the_block [THEN conjunct1])
  show "mc_sound (plain_env []) sample_superblock (Some (mc_new list_lru 4))"
    using mc_sound_new [of "plain_env []" sample_superblock 4] by (simp add: plain_env_def list_lru_contract)
qed

text \<open>C11. A cursor is a flat byte stream: it reads \<open>n\<close> bytes exactly when the blocks ahead of it, up
  to its limit, hold that many, and the bytes are the first \<open>n\<close> of them.\<close>

theorem cursor_is_a_stream:
  assumes "good E sb cu"
  shows "fst (read_exact E sb n cu) = Ok out \<longleftrightarrow>
    (\<exists>bs q. block_run E sb (cu_limit cu) (cu_next cu) bs q \<and> n \<le> length (unread cu @ bs) \<and>
       out = take n (unread cu @ bs))"
  using assms by (rule read_exact_iff)

definition sample_cursor :: "(nat \<times> (u64 \<times> cached_block) list) cursor" where
  "sample_cursor =
     \<lparr>cu_next = 5, cu_buf = Whole [7, 8, 9], cu_pos = 1, cu_limit = None, cu_cache = None\<rparr>"

lemma sample_cursor_good: "good E sb sample_cursor"
  by (simp add: good_def cursor_ok_def sample_cursor_def)

lemma cursor_is_a_stream_witness:
  "fst (read_exact (plain_env []) sample_superblock 2 sample_cursor) = Ok [8, 9]"
proof (rule cursor_is_a_stream [OF sample_cursor_good, THEN iffD2], intro exI conjI)
  show "block_run (plain_env []) sample_superblock (cu_limit sample_cursor) (cu_next sample_cursor) [] 5"
    by (simp add: sample_cursor_def run_none)
qed (simp_all add: unread_def sample_cursor_def)

text \<open>Reading in one piece or in two is the same: the bytes, or the error.\<close>

lemma read_in_pieces:
  assumes "good E sb cu"
  shows "fst (read_exact E sb (m + n) cu) =
    fst (bind_s (read_exact E sb m) (\<lambda>a. bind_s (read_exact E sb n) (\<lambda>b. ret_s (a @ b))) cu)"
  using assms by (rule read_exact_split)

lemma read_in_pieces_witness:
  "fst (read_exact (plain_env []) sample_superblock (1 + 1) sample_cursor) =
     fst (bind_s (read_exact (plain_env []) sample_superblock 1)
       (\<lambda>a. bind_s (read_exact (plain_env []) sample_superblock 1) (\<lambda>b. ret_s (a @ b))) sample_cursor)"
  by (rule read_in_pieces [OF sample_cursor_good])

end
