(* ===== verification/Tables.thy ===== *)
theory Tables
  imports Metablock
begin

text \<open>
  The indirect tables of \<open>src/table.rs\<close>: ids, fragments and the export map.  Each is an array
  of fixed-size entries in metadata blocks that a raw pointer array names.  A table that is on
  the device the way the format says reads back as its entries (\<open>read_id_table_entries\<close>,
  \<open>read_fragment_table_entries\<close>, \<open>export_lookup_entry\<close>); a count the device has no room for is
  refused before anything is read.
\<close>

section \<open>Size words\<close>

definition DATA_UNCOMPRESSED_BIT :: u32 where "DATA_UNCOMPRESSED_BIT = push_bit 24 1"
definition DATA_SIZE_MASK :: u32 where "DATA_SIZE_MASK = push_bit 24 1 - 1"

definition data_on_disk_size :: "u32 \<Rightarrow> u32" where
  "data_on_disk_size raw = raw AND DATA_SIZE_MASK"

definition data_is_compressed :: "u32 \<Rightarrow> bool" where
  "data_is_compressed raw \<longleftrightarrow> raw AND DATA_UNCOMPRESSED_BIT = 0"

lemma DATA_SIZE_MASK_eq: "DATA_SIZE_MASK = mask 24"
  by (simp add: DATA_SIZE_MASK_def mask_eq_exp_minus_1 push_bit_eq_mult)

lemma data_on_disk_size_bound: "unat (data_on_disk_size raw) < 2 ^ 24"
proof -
  have "data_on_disk_size raw = take_bit 24 raw"
    by (simp add: data_on_disk_size_def DATA_SIZE_MASK_eq take_bit_eq_mask)
  then show ?thesis using take_bit_nat_less_exp [of 24 "unat raw"] by (simp add: unsigned_take_bit_eq)
qed

section \<open>Reading the blocks of a table\<close>

record fragment_entry =
  fe_start :: u64
  fe_size :: u32

text \<open>The loop over the pointer array, with no cache: the tables are read once, at open.\<close>

definition pointed_block :: "'c meta_env \<Rightarrow> superblock \<Rightarrow> bytes \<Rightarrow> nat \<Rightarrow> bytes result" where
  "pointed_block E sb ptr_bytes i =
     and_then (rd_u64 ptr_bytes (i * 8)) (\<lambda>p.
     and_then (fst (read_block E sb p None)) (\<lambda>(block, _). Ok block))"

definition read_indirect_table ::
  "'c meta_env \<Rightarrow> superblock \<Rightarrow> u64 \<Rightarrow> nat \<Rightarrow> bytes result" where
  "read_indirect_table E sb table_start total_bytes =
     (if total_bytes = 0 then Ok []
      else
        let n_blocks = div_ceil_nat total_bytes METADATA_SIZE in
        and_then (ok_or (checked_mul_usize n_blocks 8)
            (BadMetadata ''indirect table pointer array overflows'')) (\<lambda>array_bytes.
        let room = saturating_sub (min (sb_bytes_used sb) (dev_size_bytes (me_dev E))) table_start in
        if unat room < array_bytes then
          Fail (BadMetadata ''indirect table declares more blocks than it has room for'')
        else
          and_then (read_at (me_dev E) table_start array_bytes) (\<lambda>ptr_bytes.
          and_then (map_result (pointed_block E sb ptr_bytes) [0..<n_blocks]) (\<lambda>blocks.
          let out = concat blocks in
          if length out < total_bytes then
            Fail (BadMetadata ''indirect table shorter than expected'')
          else Ok out))))"

definition read_id_table :: "'c meta_env \<Rightarrow> superblock \<Rightarrow> u32 list result" where
  "read_id_table E sb =
     (let n = unat (sb_id_count sb) in
      if n = 0 then Ok []
      else
        and_then (read_indirect_table E sb (sb_id_table_start sb) (n * 4)) (\<lambda>bytes.
          map_result (\<lambda>i. rd_u32 bytes (i * 4)) [0..<n]))"

definition fragment_entry_at :: "bytes \<Rightarrow> nat \<Rightarrow> fragment_entry result" where
  "fragment_entry_at bytes i =
     (let o' = i * 16 in
      and_then (rd_u64 bytes o') (\<lambda>start.
      and_then (rd_u32 bytes (o' + 8)) (\<lambda>sz.
        Ok \<lparr>fe_start = start, fe_size = sz\<rparr>)))"

definition read_fragment_table :: "'c meta_env \<Rightarrow> superblock \<Rightarrow> fragment_entry list result" where
  "read_fragment_table E sb =
     (let n = unat (sb_fragment_entry_count sb) in
      if n = 0 then Ok []
      else
        and_then (read_indirect_table E sb (sb_fragment_table_start sb) (n * 16)) (\<lambda>bytes.
          map_result (fragment_entry_at bytes) [0..<n]))"

section \<open>The export table\<close>

definition EXPORT_ENTRY_SIZE :: nat where "EXPORT_ENTRY_SIZE = 8"

record export_table =
  ex_block_starts :: "u64 list"
  ex_inode_count :: u32

definition export_lookup ::
  "'c meta_env \<Rightarrow> superblock \<Rightarrow> export_table \<Rightarrow> u32 \<Rightarrow> ('c meta_cache option, u64) sm" where
  "export_lookup E sb t inode_number =
     (if inode_number = 0 \<or> ex_inode_count t < inode_number then fail_s NotFound
      else
        let idx = unat (inode_number - 1);
            byte = idx * EXPORT_ENTRY_SIZE;
            block = byte div METADATA_SIZE;
            within = byte mod METADATA_SIZE
        in
        bind_s (lift_s (ok_or (get (ex_block_starts t) block)
            (BadMetadata ''export table is shorter than it claims''))) (\<lambda>start.
        bind_s (read_block E sb start) (\<lambda>(data, _).
        let end_at = within + EXPORT_ENTRY_SIZE in
        if length data < end_at then
          fail_s (BadMetadata ''export table entry runs past its metadata block'')
        else lift_s (rd_u64 data within))))"

definition read_export_table :: "'c meta_env \<Rightarrow> superblock \<Rightarrow> export_table option result" where
  "read_export_table E sb =
     (let start = sb_export_table_start sb in
      if start = NO_TABLE then Ok None
      else
        let inode_count = sb_inode_count sb in
        if inode_count = 0 then Ok (Some \<lparr>ex_block_starts = [], ex_inode_count = 0\<rparr>)
        else
          let total_bytes = unat inode_count * EXPORT_ENTRY_SIZE;
              n_blocks = div_ceil_nat total_bytes METADATA_SIZE
          in
          and_then (ok_or (checked_mul_usize n_blocks 8)
              (BadMetadata ''export table pointer array overflows'')) (\<lambda>array_bytes.
          let room = saturating_sub (min (sb_bytes_used sb) (dev_size_bytes (me_dev E))) start in
          if unat room < array_bytes then
            Fail (BadMetadata ''export table declares more blocks than it has room for'')
          else
            and_then (read_at (me_dev E) start array_bytes) (\<lambda>ptr_bytes.
            and_then (map_result (\<lambda>i. rd_u64 ptr_bytes (i * 8)) [0..<n_blocks]) (\<lambda>starts.
              Ok (Some \<lparr>ex_block_starts = starts, ex_inode_count = inode_count\<rparr>)))))"

section \<open>Nothing panics\<close>

lemma safe_read_block_None [simp]: "safe (fst (read_block E sb p None))"
  by (rule safe_read_block)

lemma safe_pointed_block: "(i + 1) * 8 \<le> length ptrs \<Longrightarrow> safe (pointed_block E sb ptrs i)"
  by (auto simp: pointed_block_def read_simps intro!: safe_and_then)

lemma safe_read_indirect_table [simp]: "safe (read_indirect_table E sb start total_bytes)"
  unfolding read_indirect_table_def Let_def
  by (auto simp: checked_mul_usize_def dest!: read_at_length
      intro!: safe_and_then safe_map_result safe_pointed_block split: if_splits)

lemma read_indirect_table_length: "read_indirect_table E sb start total_bytes = Ok out \<Longrightarrow> total_bytes \<le> length out"
  by (auto simp: read_indirect_table_def Let_def split: if_splits)

lemma safe_read_id_table: "safe (read_id_table E sb)"
  unfolding read_id_table_def Let_def
  by (auto simp: read_simps dest!: read_indirect_table_length intro!: safe_and_then safe_map_result)

lemma read_id_table_length: "read_id_table E sb = Ok ids \<Longrightarrow> length ids = unat (sb_id_count sb)"
  by (auto simp: read_id_table_def Let_def dest: map_result_length split: if_splits)

lemma fragment_entry_at_ok:
  "i * 16 + 12 \<le> length b \<Longrightarrow>
    fragment_entry_at b i = Ok \<lparr>fe_start = field 8 b (i * 16), fe_size = field 4 b (i * 16 + 8)\<rparr>"
  by (simp add: fragment_entry_at_def Let_def read_simps)

lemma safe_read_fragment_table: "safe (read_fragment_table E sb)"
  unfolding read_fragment_table_def Let_def
  by (auto simp: fragment_entry_at_ok dest!: read_indirect_table_length
      intro!: safe_and_then safe_map_result)

lemma read_fragment_table_length:
  "read_fragment_table E sb = Ok fs \<Longrightarrow> length fs = unat (sb_fragment_entry_count sb)"
  by (auto simp: read_fragment_table_def Let_def dest: map_result_length split: if_splits)

lemma safe_read_export_table: "safe (read_export_table E sb)"
  unfolding read_export_table_def Let_def
  by (auto simp: checked_mul_usize_def read_simps dest!: read_at_length
      intro!: safe_and_then safe_map_result split: if_splits)

lemma triple_export_lookup [safe_intros]: "triple (\<lambda>_. True) (export_lookup E sb t n) (\<lambda>_. True)"
  unfolding export_lookup_def Let_def
  by (intro triple_if triple_bind [where R = "\<lambda>_. True"] safe_intros)
    (auto simp: read_simps EXPORT_ENTRY_SIZE_def split: prod.splits intro!: safe_intros)

lemma agree_export_lookup [agree_intros]:
  "agree (mc_rel E sb) (export_lookup E sb t n) (export_lookup E sb t n)"
  unfolding export_lookup_def Let_def
  by (intro agree_intros) (auto split: prod.splits intro!: agree_intros)

section \<open>A table on the device reads back as its entries\<close>

text \<open>The pointer array at \<open>start\<close> and, behind each pointer, the block it names.\<close>

definition table_room :: "'c meta_env \<Rightarrow> superblock \<Rightarrow> u64 \<Rightarrow> nat" where
  "table_room E sb start =
     unat (saturating_sub (min (sb_bytes_used sb) (dev_size_bytes (me_dev E))) start)"

definition table_at ::
  "'c meta_env \<Rightarrow> superblock \<Rightarrow> u64 \<Rightarrow> nat \<Rightarrow> u64 list \<Rightarrow> bool" where
  "table_at E sb start total_bytes ptrs \<longleftrightarrow>
     length ptrs = div_ceil_nat total_bytes METADATA_SIZE \<and>
     length ptrs * 8 \<le> table_room E sb start \<and>
     read_at (me_dev E) start (length ptrs * 8) = Ok (concat (map (to_le_bytes 8) ptrs))"

definition block_bytes :: "'c meta_env \<Rightarrow> superblock \<Rightarrow> u64 \<Rightarrow> bytes \<Rightarrow> bool" where
  "block_bytes E sb p b \<longleftrightarrow> (\<exists>next_abs. read_block_uncached E sb p = Ok (b, next_abs))"

lemma length_concat_fixed:
  "(\<And>x. x \<in> set xs \<Longrightarrow> length (f x) = n) \<Longrightarrow> length (concat (map f xs)) = length xs * n"
  by (induction xs) auto

lemma rd_u64_pointer:
  assumes "i < length ptrs"
  shows "rd_u64 (concat (map (to_le_bytes 8) ptrs)) (i * 8) = Ok (ptrs ! i)"
proof -
  have "length (concat (map (to_le_bytes 8) ptrs)) = length ptrs * 8"
    by (rule length_concat_fixed) simp
  moreover have "field 8 (concat (map (to_le_bytes 8) ptrs) @ []) (i * 8 + 0) = ptrs ! i"
    using assms by (subst field_record) (simp_all add: field_to_le_bytes)
  ultimately show ?thesis using assms by (simp add: read_simps)
qed

lemma table_room_less: "n \<le> table_room E sb start \<Longrightarrow> n < usize_limit"
  using unsigned_less [where 'a = nat,
      of "saturating_sub (min (sb_bytes_used sb) (dev_size_bytes (me_dev E))) start"]
  by (simp add: table_room_def usize_limit_def)

lemma pointed_block_eq:
  assumes "i < length ptrs" "block_bytes E sb (ptrs ! i) b"
  shows "pointed_block E sb (concat (map (to_le_bytes 8) ptrs)) i = Ok b"
  using assms read_block_transparent [of E sb None "ptrs ! i"]
  by (auto simp: pointed_block_def rd_u64_pointer block_bytes_def)

lemma read_indirect_table_eq:
  assumes "0 < total_bytes" "table_at E sb start total_bytes ptrs"
    and "list_all2 (block_bytes E sb) ptrs blocks" "total_bytes \<le> length (concat blocks)"
  shows "read_indirect_table E sb start total_bytes = Ok (concat blocks)"
proof -
  let ?p = "concat (map (to_le_bytes 8) ptrs)"
  have "map_result (pointed_block E sb ?p) [0..<length ptrs] = Ok blocks"
    unfolding map_result_Ok
    using assms(3) by (auto simp: list_all2_conv_all_nth pointed_block_eq)
  with assms(1,2,4) table_room_less [of "length ptrs * 8" E sb start] show ?thesis
    by (auto simp: read_indirect_table_def table_at_def table_room_def Let_def checked_mul_usize_def
        intro!: exI [of _ blocks])
qed

lemma rd_u32_entry:
  assumes "i < length ids"
  shows "rd_u32 (concat (map (to_le_bytes 4) ids) @ r) (i * 4) = Ok (ids ! i)"
proof -
  have "length (concat (map (to_le_bytes 4) ids)) = length ids * 4"
    by (rule length_concat_fixed) simp
  moreover have "field 4 (concat (map (to_le_bytes 4) ids) @ r) (i * 4 + 0) = ids ! i"
    using assms by (subst field_record) (simp_all add: field_to_le_bytes)
  ultimately show ?thesis using assms by (simp add: read_simps)
qed

lemma id_table_eq:
  assumes "length ids = unat (sb_id_count sb)"
    and "table_at E sb (sb_id_table_start sb) (length ids * 4) ptrs"
    and "list_all2 (block_bytes E sb) ptrs blocks"
    and "concat blocks = concat (map (to_le_bytes 4) ids) @ slack"
  shows "read_id_table E sb = Ok ids"
proof (cases "ids = []")
  case True
  with assms(1) show ?thesis by (simp add: read_id_table_def)
next
  case False
  have "length (concat (map (to_le_bytes 4) ids)) = length ids * 4"
    by (rule length_concat_fixed) simp
  with False assms have "read_indirect_table E sb (sb_id_table_start sb) (length ids * 4) = Ok (concat blocks)"
    by (intro read_indirect_table_eq) (auto simp flip: length_greater_0_conv)
  moreover have "map_result (\<lambda>i. rd_u32 (concat blocks) (i * 4)) [0..<length ids] = Ok ids"
    unfolding assms(4)
    by (subst map_result_pure [where g = "\<lambda>i. ids ! i"]) (simp_all add: rd_u32_entry map_nth)
  ultimately show ?thesis
    using False assms(1)
    by (auto simp: read_id_table_def Let_def simp flip: length_greater_0_conv)
qed

definition fragment_bytes :: "(fragment_entry \<times> u32) \<Rightarrow> bytes" where
  "fragment_bytes f =
     to_le_bytes 8 (fe_start (fst f)) @ to_le_bytes 4 (fe_size (fst f)) @ to_le_bytes 4 (snd f)"

lemma fragment_entry_at_entry:
  assumes "i < length fs"
  shows "fragment_entry_at (concat (map fragment_bytes fs) @ r) i = Ok (fst (fs ! i))"
proof -
  have len: "length (concat (map fragment_bytes fs)) = length fs * 16"
    by (rule length_concat_fixed) (simp add: fragment_bytes_def)
  have "field 8 (concat (map fragment_bytes fs) @ r) (i * 16 + 0) = fe_start (fst (fs ! i))"
    using assms by (subst field_record) (simp_all add: fragment_bytes_def field_to_le_bytes)
  moreover have "field 4 (concat (map fragment_bytes fs) @ r) (i * 16 + 8) = fe_size (fst (fs ! i))"
    using assms
    by (subst field_record) (simp_all add: fragment_bytes_def field_to_le_bytes field_skip)
  ultimately show ?thesis using assms len by (simp add: fragment_entry_at_ok)
qed

lemma fragment_table_eq:
  assumes "length fs = unat (sb_fragment_entry_count sb)"
    and "table_at E sb (sb_fragment_table_start sb) (length fs * 16) ptrs"
    and "list_all2 (block_bytes E sb) ptrs blocks"
    and "concat blocks = concat (map fragment_bytes fs) @ slack"
  shows "read_fragment_table E sb = Ok (map fst fs)"
proof (cases "fs = []")
  case True
  with assms(1) show ?thesis by (simp add: read_fragment_table_def)
next
  case False
  have "length (concat (map fragment_bytes fs)) = length fs * 16"
    by (rule length_concat_fixed) (simp add: fragment_bytes_def)
  with False assms have
    "read_indirect_table E sb (sb_fragment_table_start sb) (length fs * 16) = Ok (concat blocks)"
    by (intro read_indirect_table_eq) (auto simp flip: length_greater_0_conv)
  moreover have "map_result (fragment_entry_at (concat blocks)) [0..<length fs] = Ok (map fst fs)"
    unfolding assms(4)
    by (subst map_result_pure [where g = "\<lambda>i. fst (fs ! i)"])
      (auto simp: fragment_entry_at_entry intro: nth_equalityI)
  ultimately show ?thesis
    using False assms(1)
    by (auto simp: read_fragment_table_def Let_def simp flip: length_greater_0_conv)
qed

section \<open>The export map\<close>

text \<open>Entry \<open>n - 1\<close> of the map, 1024 entries to a block: block \<open>k\<close> holds the references of the
  inodes numbered \<open>1024 k + 1\<close> to \<open>1024 k + 1024\<close>.\<close>

definition export_map ::
  "'c meta_env \<Rightarrow> superblock \<Rightarrow> export_table \<Rightarrow> u64 list \<Rightarrow> bool" where
  "export_map E sb t refs \<longleftrightarrow>
     length refs = unat (ex_inode_count t) \<and>
     length (ex_block_starts t) = div_ceil_nat (length refs * 8) METADATA_SIZE \<and>
     (\<forall>k < length (ex_block_starts t).
        block_bytes E sb (ex_block_starts t ! k)
          (concat (map (to_le_bytes 8) (take 1024 (drop (k * 1024) refs)))))"

lemma export_position:
  "i * EXPORT_ENTRY_SIZE div METADATA_SIZE = i div 1024"
  "i * EXPORT_ENTRY_SIZE mod METADATA_SIZE = (i mod 1024) * 8"
proof -
  have "i * 8 div (1024 * 8) = i div 1024" "i * 8 mod (1024 * 8) = (i mod 1024) * (8::nat)"
    by (simp_all only: div_mult_mult2 mod_mult_mult2)
  then show "i * EXPORT_ENTRY_SIZE div METADATA_SIZE = i div 1024"
    "i * EXPORT_ENTRY_SIZE mod METADATA_SIZE = (i mod 1024) * 8"
    by (simp_all add: EXPORT_ENTRY_SIZE_def METADATA_SIZE_def)
qed

lemma export_lookup_eq:
  assumes "export_map E sb t refs" "mc_sound E sb cache" "1 \<le> n" "n \<le> ex_inode_count t"
  shows "fst (export_lookup E sb t n cache) = Ok (refs ! (unat n - 1))"
proof -
  define i where "i = unat (n - 1)"
  have "n \<noteq> 0" using assms(3) by auto
  then have i: "i = unat n - 1" by (simp add: i_def unat_minus_one)
  have len: "length refs = unat (ex_inode_count t)"
    and nb: "length (ex_block_starts t) = div_ceil_nat (length refs * 8) METADATA_SIZE"
    and blk: "\<And>k. k < length (ex_block_starts t) \<Longrightarrow> block_bytes E sb (ex_block_starts t ! k)
          (concat (map (to_le_bytes 8) (take 1024 (drop (k * 1024) refs))))"
    using assms(1) by (auto simp: export_map_def)
  have il: "i < length refs"
    using assms(4) \<open>n \<noteq> 0\<close> i len unat_gt_0 [of n] by (auto simp: word_le_nat_alt)
  let ?k = "i div 1024"
  let ?es = "take 1024 (drop (?k * 1024) refs)"
  have "length refs * 8 \<le> length (ex_block_starts t) * 8192"
    unfolding nb using div_ceil_nat_ge [of METADATA_SIZE "length refs * 8"]
    by (simp add: METADATA_SIZE_def)
  with il have k: "?k < length (ex_block_starts t)" by (simp add: less_mult_imp_div_less)
  from blk [OF k] obtain nx where
    "read_block_uncached E sb (ex_block_starts t ! ?k) = Ok (concat (map (to_le_bytes 8) ?es), nx)"
    by (auto simp: block_bytes_def)
  with read_block_transparent [OF assms(2), of "ex_block_starts t ! ?k"] obtain c' where
    b: "read_block E sb (ex_block_starts t ! ?k) cache = (Ok (concat (map (to_le_bytes 8) ?es), nx), c')"
    by (metis prod.collapse)
  have m: "i mod 1024 < length ?es"
    using il by simp (metis div_mult_mod_eq add.commute less_diff_conv mod_less_divisor zero_less_numeral)
  have ends: "i mod 1024 * 8 + EXPORT_ENTRY_SIZE \<le> min (length refs - i div 1024 * 1024) 1024 * 8"
    using m unfolding EXPORT_ENTRY_SIZE_def length_take length_drop by linarith
  have "?es ! (i mod 1024) = refs ! i" using m by simp
  moreover have "length (concat (map (to_le_bytes 8) ?es)) = length ?es * 8"
    by (rule length_concat_fixed) simp
  ultimately show ?thesis
    using b m k \<open>n \<noteq> 0\<close> assms(4) rd_u64_pointer [OF m] unfolding i [symmetric]
    by (simp add: export_lookup_def Let_def export_position bind_s_def lift_s_def fail_s_def
        get_def i_def [symmetric] not_less ends)
qed

section \<open>Properties\<close>

lemma read_indirect_table_room:
  "read_indirect_table E sb start total_bytes = Ok out \<Longrightarrow>
    total_bytes = 0 \<or> div_ceil_nat total_bytes METADATA_SIZE * 8 \<le> table_room E sb start"
  by (auto simp: read_indirect_table_def table_room_def Let_def checked_mul_usize_def split: if_splits)

text \<open>An id table that is on the device as the format stores it, pointers and blocks, reads back
  as exactly its ids.\<close>

theorem id_table_of_layout:
  assumes "length ids = unat (sb_id_count sb)"
    and "table_at E sb (sb_id_table_start sb) (length ids * 4) ptrs"
    and "list_all2 (block_bytes E sb) ptrs blocks"
    and "concat blocks = concat (map (to_le_bytes 4) ids) @ slack"
  shows "read_id_table E sb = Ok ids"
  using assms by (rule id_table_eq)

text \<open>An image of one block and the pointer array behind it.\<close>

definition table_image :: "bytes \<Rightarrow> bytes" where
  "table_image entries = stored_block False entries @ to_le_bytes 8 (0 :: u64)"

lemma id_table_of_layout_witness:
  "read_id_table (plain_env (table_image (concat (map (to_le_bytes 4) [1000, 0 :: u32])))) sample_superblock =
     Ok [1000, 0]"
proof (rule id_table_of_layout [where ptrs = "[0]" and slack = "[]" and
      blocks = "[concat (map (to_le_bytes 4) [1000, 0 :: u32])]"])
  let ?e = "concat (map (to_le_bytes 4) [1000, 0 :: u32])"
  show "table_at (plain_env (table_image ?e)) sample_superblock (sb_id_table_start sample_superblock)
      (length [1000, 0 :: u32] * 4) [0]"
    by (simp add: table_at_def table_room_def plain_env_def read_at_mem_device table_image_def
        stored_block_def sample_superblock_def div_ceil_nat_def METADATA_SIZE_def saturating_sub_def
        mem_device_def read_at_def)
  have "read_block_uncached (plain_env (table_image ?e)) sample_superblock 0 =
      Ok (?e, 0 + 2 + of_nat (length ?e))"
    by (rule plain_block_at [where rest = "to_le_bytes 8 (0 :: u64)"])
      (simp_all add: table_image_def METADATA_SIZE_def)
  then show "list_all2 (block_bytes (plain_env (table_image ?e)) sample_superblock) [0] [?e]"
    by (simp add: block_bytes_def)
qed (simp_all add: sample_superblock_def)

text \<open>A fragment table on the device reads back as its entries, the unused words dropped.\<close>

lemma fragment_table_of_layout:
  assumes "length fs = unat (sb_fragment_entry_count sb)"
    and "table_at E sb (sb_fragment_table_start sb) (length fs * 16) ptrs"
    and "list_all2 (block_bytes E sb) ptrs blocks"
    and "concat blocks = concat (map fragment_bytes fs) @ slack"
  shows "read_fragment_table E sb = Ok (map fst fs)"
  using assms by (rule fragment_table_eq)

lemma fragment_table_of_layout_witness:
  "read_fragment_table
     (plain_env (table_image (concat (map fragment_bytes [(\<lparr>fe_start = 96, fe_size = 7\<rparr>, 0)]))))
     (sample_superblock\<lparr>sb_fragment_table_start := 18\<rparr>) = Ok [\<lparr>fe_start = 96, fe_size = 7\<rparr>]"
proof -
  let ?f = "(\<lparr>fe_start = 96, fe_size = 7\<rparr>, 0 :: u32)"
  let ?e = "concat (map fragment_bytes [?f])"
  let ?sb = "sample_superblock\<lparr>sb_fragment_table_start := 18\<rparr>"
  have "read_block_uncached (plain_env (table_image ?e)) ?sb 0 = Ok (?e, 0 + 2 + of_nat (length ?e))"
    by (rule plain_block_at [where rest = "to_le_bytes 8 (0 :: u64)"])
      (simp_all add: table_image_def METADATA_SIZE_def fragment_bytes_def)
  then have "list_all2 (block_bytes (plain_env (table_image ?e)) ?sb) [0] [?e]"
    by (simp add: block_bytes_def)
  moreover have "table_at (plain_env (table_image ?e)) ?sb (sb_fragment_table_start ?sb)
      (length [?f] * 16) [0]"
    by (simp add: table_at_def table_room_def plain_env_def table_image_def stored_block_def
        sample_superblock_def div_ceil_nat_def METADATA_SIZE_def saturating_sub_def mem_device_def
        read_at_def fragment_bytes_def)
  ultimately have "read_fragment_table (plain_env (table_image ?e)) ?sb = Ok (map fst [?f])"
    by (intro fragment_table_of_layout [where slack = "[]" and ptrs = "[0]" and blocks = "[?e]"]) (simp_all add: sample_superblock_def)
  then show ?thesis by simp
qed

text \<open>The export map: with the blocks the format asks for behind the pointers, looking up inode
  number \<open>n\<close>, counted from one, gives entry \<open>n - 1\<close>, through any cache that is true.\<close>

lemma export_lookup_of_layout:
  assumes "export_map E sb t refs" "mc_sound E sb cache" "1 \<le> n" "n \<le> ex_inode_count t"
  shows "fst (export_lookup E sb t n cache) = Ok (refs ! (unat n - 1))"
  using assms by (rule export_lookup_eq)

lemma export_lookup_of_layout_witness:
  "fst (export_lookup (plain_env (stored_block False (concat (map (to_le_bytes 8) [11, 22 :: u64]))))
     sample_superblock \<lparr>ex_block_starts = [0], ex_inode_count = 2\<rparr> 2 None) = Ok 22"
proof -
  let ?e = "concat (map (to_le_bytes 8) [11, 22 :: u64])"
  let ?E = "plain_env (stored_block False ?e)"
  have "read_block_uncached ?E sample_superblock 0 = Ok (?e, 0 + 2 + of_nat (length ?e))"
    by (rule plain_block_at [where rest = "[]"]) (simp_all add: METADATA_SIZE_def)
  then have "export_map ?E sample_superblock \<lparr>ex_block_starts = [0], ex_inode_count = 2\<rparr> [11, 22]"
    by (simp add: export_map_def block_bytes_def div_ceil_nat_def METADATA_SIZE_def)
  from export_lookup_of_layout [OF this, of None 2] show ?thesis by simp
qed

text \<open>A table is read only when its pointer array fits between its start and the end of the
  image: the count in the superblock cannot ask for more.\<close>

lemma table_bounded_by_room:
  assumes "read_indirect_table E sb start total_bytes = Ok out"
  shows "total_bytes = 0 \<or> div_ceil_nat total_bytes METADATA_SIZE * 8 \<le> table_room E sb start"
  using assms by (rule read_indirect_table_room)

lemma table_bounded_by_room_witness:
  "(0 :: nat) = 0 \<or> div_ceil_nat 0 METADATA_SIZE * 8 \<le> table_room (plain_env []) sample_superblock 10"
  by (rule table_bounded_by_room [where out = "[]"]) (simp add: read_indirect_table_def)

end
