(* ===== verification/Inode.thy ===== *)
theory Inode
  imports Metablock
begin

text \<open>
  Inode parsing, \<open>src/inode.rs\<close>: the fourteen on-disk inode types behind one \<open>inode\<close> record.
  The layouts are stated a second time as an encoder (\<open>inode_bytes\<close>), and the parser reads each
  of them back; every other type id is refused.
\<close>

section \<open>Inode types\<close>

definition TYPE_BASIC_DIR :: u16 where "TYPE_BASIC_DIR = 1"
definition TYPE_BASIC_FILE :: u16 where "TYPE_BASIC_FILE = 2"
definition TYPE_BASIC_SYMLINK :: u16 where "TYPE_BASIC_SYMLINK = 3"
definition TYPE_BASIC_BLKDEV :: u16 where "TYPE_BASIC_BLKDEV = 4"
definition TYPE_BASIC_CHRDEV :: u16 where "TYPE_BASIC_CHRDEV = 5"
definition TYPE_BASIC_FIFO :: u16 where "TYPE_BASIC_FIFO = 6"
definition TYPE_BASIC_SOCKET :: u16 where "TYPE_BASIC_SOCKET = 7"
definition TYPE_EXT_DIR :: u16 where "TYPE_EXT_DIR = 8"
definition TYPE_EXT_FILE :: u16 where "TYPE_EXT_FILE = 9"
definition TYPE_EXT_SYMLINK :: u16 where "TYPE_EXT_SYMLINK = 10"
definition TYPE_EXT_BLKDEV :: u16 where "TYPE_EXT_BLKDEV = 11"
definition TYPE_EXT_CHRDEV :: u16 where "TYPE_EXT_CHRDEV = 12"
definition TYPE_EXT_FIFO :: u16 where "TYPE_EXT_FIFO = 13"
definition TYPE_EXT_SOCKET :: u16 where "TYPE_EXT_SOCKET = 14"

lemmas type_ids =
  TYPE_BASIC_DIR_def TYPE_BASIC_FILE_def TYPE_BASIC_SYMLINK_def TYPE_BASIC_BLKDEV_def
  TYPE_BASIC_CHRDEV_def TYPE_BASIC_FIFO_def TYPE_BASIC_SOCKET_def TYPE_EXT_DIR_def
  TYPE_EXT_FILE_def TYPE_EXT_SYMLINK_def TYPE_EXT_BLKDEV_def TYPE_EXT_CHRDEV_def
  TYPE_EXT_FIFO_def TYPE_EXT_SOCKET_def

definition MAX_BLOCKS :: u64 where "MAX_BLOCKS = push_bit 24 1"
definition MAX_SYMLINK :: u32 where "MAX_SYMLINK = push_bit 16 1"
definition SQUASHFS_INVALID_XATTR :: u32 where "SQUASHFS_INVALID_XATTR = 0xFFFFFFFF"

datatype file_type = Dir | RegFile | Symlink | CharDev | BlockDev | Fifo | Socket | Unknown

definition from_type_id :: "u16 \<Rightarrow> file_type" where
  "from_type_id t =
     (if t \<in> {TYPE_BASIC_DIR, TYPE_EXT_DIR} then Dir
      else if t \<in> {TYPE_BASIC_FILE, TYPE_EXT_FILE} then RegFile
      else if t \<in> {TYPE_BASIC_SYMLINK, TYPE_EXT_SYMLINK} then Symlink
      else if t \<in> {TYPE_BASIC_CHRDEV, TYPE_EXT_CHRDEV} then CharDev
      else if t \<in> {TYPE_BASIC_BLKDEV, TYPE_EXT_BLKDEV} then BlockDev
      else if t \<in> {TYPE_BASIC_FIFO, TYPE_EXT_FIFO} then Fifo
      else if t \<in> {TYPE_BASIC_SOCKET, TYPE_EXT_SOCKET} then Socket
      else Unknown)"

fun to_abi :: "file_type \<Rightarrow> u8" where
  "to_abi Unknown = 0"
| "to_abi RegFile = 1"
| "to_abi Dir = 2"
| "to_abi CharDev = 3"
| "to_abi BlockDev = 4"
| "to_abi Fifo = 5"
| "to_abi Socket = 6"
| "to_abi Symlink = 7"

text \<open>The octal constants of the source: \<open>0o040000\<close> is \<open>0x4000\<close>, and so on.\<close>

fun mode_bits :: "file_type \<Rightarrow> u16" where
  "mode_bits Dir = 0x4000"
| "mode_bits RegFile = 0x8000"
| "mode_bits Symlink = 0xA000"
| "mode_bits CharDev = 0x2000"
| "mode_bits BlockDev = 0x6000"
| "mode_bits Fifo = 0x1000"
| "mode_bits Socket = 0xC000"
| "mode_bits Unknown = 0"

section \<open>The inode\<close>

record inode =
  in_type :: u16
  in_permissions :: u16
  in_uid_idx :: u16
  in_gid_idx :: u16
  in_mtime :: u32
  in_number :: u32
  in_nlink :: u32
  in_file_size :: u64
  in_dir_start_block :: u32
  in_dir_block_offset :: u16
  in_blocks_start :: u64
  in_fragment_index :: u32
  in_fragment_offset :: u32
  in_block_sizes :: "u32 list"
  in_symlink_target :: bytes
  in_rdev :: u32
  in_xattr_index :: u32

definition file_type_of :: "inode \<Rightarrow> file_type" where
  "file_type_of i = from_type_id (in_type i)"

definition is_dir :: "inode \<Rightarrow> bool" where "is_dir i \<longleftrightarrow> file_type_of i = Dir"
definition is_regular_file :: "inode \<Rightarrow> bool" where "is_regular_file i \<longleftrightarrow> file_type_of i = RegFile"
definition is_symlink :: "inode \<Rightarrow> bool" where "is_symlink i \<longleftrightarrow> file_type_of i = Symlink"

definition rdev_major :: "inode \<Rightarrow> u32" where
  "rdev_major i = drop_bit 8 (in_rdev i AND 0xfff00)"

definition rdev_minor :: "inode \<Rightarrow> u32" where
  "rdev_minor i = (in_rdev i AND 0xff) OR (drop_bit 12 (in_rdev i) AND 0xfff00)"

definition has_xattrs :: "inode \<Rightarrow> bool" where
  "has_xattrs i \<longleftrightarrow> in_xattr_index i \<noteq> SQUASHFS_INVALID_XATTR"

definition has_fragment :: "inode \<Rightarrow> bool" where
  "has_fragment i \<longleftrightarrow> is_regular_file i \<and> in_fragment_index i \<noteq> SQUASHFS_INVALID_FRAG"

definition dir_listing_len :: "inode \<Rightarrow> nat" where
  "dir_listing_len i = unat (in_file_size i) - 3"

section \<open>Parsing\<close>

text \<open>\<open>u64::div_ceil\<close> and \<open>/\<close> panic on a zero divisor.\<close>

definition block_count :: "u64 \<Rightarrow> u64 \<Rightarrow> u32 \<Rightarrow> u64 result" where
  "block_count file_size block_size fragment_index =
     and_then
       (if block_size = 0 then Panics
        else if fragment_index = SQUASHFS_INVALID_FRAG then
          Ok (of_nat (div_ceil_nat (unat file_size) (unat block_size)))
        else Ok (file_size div block_size))
       (\<lambda>n. if MAX_BLOCKS < n then Fail (BadInode ''file block count exceeds sanity bound'') else Ok n)"

fun read_block_sizes :: "'c meta_env \<Rightarrow> superblock \<Rightarrow> nat \<Rightarrow> ('c cursor, u32 list) sm" where
  "read_block_sizes E sb 0 = ret_s []"
| "read_block_sizes E sb (Suc n) =
     bind_s (read_u32 E sb) (\<lambda>w. bind_s (read_block_sizes E sb n) (\<lambda>ws. ret_s (w # ws)))"

definition read_symlink :: "'c meta_env \<Rightarrow> superblock \<Rightarrow> u32 \<Rightarrow> ('c cursor, bytes) sm" where
  "read_symlink E sb sz =
     (if MAX_SYMLINK < sz then fail_s (BadInode ''symlink target exceeds sanity bound'')
      else read_exact E sb (unat sz))"

definition inode_default :: inode where
  "inode_default =
     \<lparr>in_type = 0, in_permissions = 0, in_uid_idx = 0, in_gid_idx = 0, in_mtime = 0,
      in_number = 0, in_nlink = 1, in_file_size = 0, in_dir_start_block = 0,
      in_dir_block_offset = 0, in_blocks_start = 0, in_fragment_index = SQUASHFS_INVALID_FRAG,
      in_fragment_offset = 0, in_block_sizes = [], in_symlink_target = [], in_rdev = 0,
      in_xattr_index = SQUASHFS_INVALID_XATTR\<rparr>"

definition read_header :: "'c meta_env \<Rightarrow> superblock \<Rightarrow> ('c cursor, inode) sm" where
  "read_header E sb =
     bind_s (read_u16 E sb) (\<lambda>inode_type.
     bind_s (read_u16 E sb) (\<lambda>permissions.
     bind_s (read_u16 E sb) (\<lambda>uid_idx.
     bind_s (read_u16 E sb) (\<lambda>gid_idx.
     bind_s (read_u32 E sb) (\<lambda>mtime.
     bind_s (read_u32 E sb) (\<lambda>inode_number.
       ret_s (inode_default\<lparr>in_type := inode_type, in_permissions := permissions,
         in_uid_idx := uid_idx, in_gid_idx := gid_idx, in_mtime := mtime,
         in_number := inode_number\<rparr>)))))))"

definition read_basic_dir :: "'c meta_env \<Rightarrow> superblock \<Rightarrow> inode \<Rightarrow> ('c cursor, inode) sm" where
  "read_basic_dir E sb i =
     bind_s (read_u32 E sb) (\<lambda>start.
     bind_s (read_u32 E sb) (\<lambda>nlink.
     bind_s (read_u16 E sb) (\<lambda>sz.
     bind_s (read_u16 E sb) (\<lambda>offset.
     bind_s (read_u32 E sb) (\<lambda>parent.
       ret_s (i\<lparr>in_dir_start_block := start, in_nlink := nlink, in_file_size := ucast sz,
         in_dir_block_offset := offset\<rparr>))))))"

definition read_ext_dir :: "'c meta_env \<Rightarrow> superblock \<Rightarrow> inode \<Rightarrow> ('c cursor, inode) sm" where
  "read_ext_dir E sb i =
     bind_s (read_u32 E sb) (\<lambda>nlink.
     bind_s (read_u32 E sb) (\<lambda>sz.
     bind_s (read_u32 E sb) (\<lambda>start.
     bind_s (read_u32 E sb) (\<lambda>parent.
     bind_s (read_u16 E sb) (\<lambda>index_count.
     bind_s (read_u16 E sb) (\<lambda>offset.
     bind_s (read_u32 E sb) (\<lambda>xattr_index.
       ret_s (i\<lparr>in_nlink := nlink, in_file_size := ucast sz, in_dir_start_block := start,
         in_dir_block_offset := offset, in_xattr_index := xattr_index\<rparr>))))))))"

definition read_basic_file :: "'c meta_env \<Rightarrow> superblock \<Rightarrow> inode \<Rightarrow> ('c cursor, inode) sm" where
  "read_basic_file E sb i =
     bind_s (read_u32 E sb) (\<lambda>start.
     bind_s (read_u32 E sb) (\<lambda>fragment_index.
     bind_s (read_u32 E sb) (\<lambda>fragment_offset.
     bind_s (read_u32 E sb) (\<lambda>sz.
     bind_s (lift_s (block_count (ucast sz) (ucast (sb_block_size sb)) fragment_index)) (\<lambda>n.
     bind_s (read_block_sizes E sb (unat n)) (\<lambda>sizes.
       ret_s (i\<lparr>in_blocks_start := ucast start, in_fragment_index := fragment_index,
         in_fragment_offset := fragment_offset, in_file_size := ucast sz,
         in_block_sizes := sizes\<rparr>)))))))"

definition read_ext_file :: "'c meta_env \<Rightarrow> superblock \<Rightarrow> inode \<Rightarrow> ('c cursor, inode) sm" where
  "read_ext_file E sb i =
     bind_s (read_u64 E sb) (\<lambda>start.
     bind_s (read_u64 E sb) (\<lambda>sz.
     bind_s (read_u64 E sb) (\<lambda>sparse.
     bind_s (read_u32 E sb) (\<lambda>nlink.
     bind_s (read_u32 E sb) (\<lambda>fragment_index.
     bind_s (read_u32 E sb) (\<lambda>fragment_offset.
     bind_s (read_u32 E sb) (\<lambda>xattr_index.
     bind_s (lift_s (block_count sz (ucast (sb_block_size sb)) fragment_index)) (\<lambda>n.
     bind_s (read_block_sizes E sb (unat n)) (\<lambda>sizes.
       ret_s (i\<lparr>in_blocks_start := start, in_file_size := sz, in_nlink := nlink,
         in_fragment_index := fragment_index, in_fragment_offset := fragment_offset,
         in_xattr_index := xattr_index, in_block_sizes := sizes\<rparr>))))))))))"

definition read_link :: "'c meta_env \<Rightarrow> superblock \<Rightarrow> inode \<Rightarrow> ('c cursor, inode) sm" where
  "read_link E sb i =
     bind_s (read_u32 E sb) (\<lambda>nlink.
     bind_s (read_u32 E sb) (\<lambda>target_size.
     bind_s (read_symlink E sb target_size) (\<lambda>target.
       ret_s (i\<lparr>in_nlink := nlink, in_symlink_target := target,
         in_file_size := ucast target_size\<rparr>))))"

definition read_dev :: "'c meta_env \<Rightarrow> superblock \<Rightarrow> inode \<Rightarrow> ('c cursor, inode) sm" where
  "read_dev E sb i =
     bind_s (read_u32 E sb) (\<lambda>nlink.
     bind_s (read_u32 E sb) (\<lambda>rdev.
       ret_s (i\<lparr>in_nlink := nlink, in_rdev := rdev\<rparr>)))"

definition read_ipc :: "'c meta_env \<Rightarrow> superblock \<Rightarrow> inode \<Rightarrow> ('c cursor, inode) sm" where
  "read_ipc E sb i = bind_s (read_u32 E sb) (\<lambda>nlink. ret_s (i\<lparr>in_nlink := nlink\<rparr>))"

text \<open>The extended symlink, device and ipc inodes: the basic form and an xattr index.\<close>

definition then_xattr ::
  "'c meta_env \<Rightarrow> superblock \<Rightarrow> ('c cursor, inode) sm \<Rightarrow> ('c cursor, inode) sm" where
  "then_xattr E sb m =
     bind_s m (\<lambda>i. bind_s (read_u32 E sb) (\<lambda>x. ret_s (i\<lparr>in_xattr_index := x\<rparr>)))"

definition read_body :: "'c meta_env \<Rightarrow> superblock \<Rightarrow> inode \<Rightarrow> ('c cursor, inode) sm" where
  "read_body E sb i =
     (let t = in_type i in
      if t = TYPE_BASIC_DIR then read_basic_dir E sb i
      else if t = TYPE_EXT_DIR then read_ext_dir E sb i
      else if t = TYPE_BASIC_FILE then read_basic_file E sb i
      else if t = TYPE_EXT_FILE then read_ext_file E sb i
      else if t = TYPE_BASIC_SYMLINK then read_link E sb i
      else if t = TYPE_EXT_SYMLINK then then_xattr E sb (read_link E sb i)
      else if t = TYPE_BASIC_BLKDEV \<or> t = TYPE_BASIC_CHRDEV then read_dev E sb i
      else if t = TYPE_EXT_BLKDEV \<or> t = TYPE_EXT_CHRDEV then then_xattr E sb (read_dev E sb i)
      else if t = TYPE_BASIC_FIFO \<or> t = TYPE_BASIC_SOCKET then read_ipc E sb i
      else if t = TYPE_EXT_FIFO \<or> t = TYPE_EXT_SOCKET then then_xattr E sb (read_ipc E sb i)
      else if t = 0 then fail_s (BadInode ''inode type 0'')
      else fail_s (BadInode ''unknown inode type''))"

definition inode_read ::
  "'c meta_env \<Rightarrow> superblock \<Rightarrow> u64 \<Rightarrow> ('c meta_cache option, inode) sm" where
  "inode_read E sb inode_ref =
     (let r = from_packed inode_ref in
      with_cursor E sb (start_abs r (sb_inode_table_start sb)) (mr_in_block r) (\<lambda>cu. cu)
        (bind_s (read_header E sb) (read_body E sb)))"

section \<open>No panic, and no dependence on the cache\<close>

lemma safe_block_count: "bs \<noteq> 0 \<Longrightarrow> safe (block_count fs bs fi)"
  by (simp add: block_count_def)

lemma block_count_bound: "block_count fs bs fi = Ok n \<Longrightarrow> unat n \<le> 2 ^ 24"
  by (auto simp: block_count_def MAX_BLOCKS_def not_less word_le_nat_alt split: if_splits)

lemma triple_read_block_sizes: "triple cursor_ok (read_block_sizes E sb n) (\<lambda>ws. length ws = n)"
proof (induction E sb n rule: read_block_sizes.induct)
  case (1 E sb)
  then show ?case by (simp add: triple_ret)
next
  case (2 E sb n)
  then show ?case
    by (auto intro!: triple_bind [OF triple_read_u32] triple_bind [OF 2] triple_ret)
qed

lemma triple_read_symlink [safe_intros]: "triple cursor_ok (read_symlink E sb sz) (\<lambda>b. length b = unat sz)"
  by (simp add: read_symlink_def triple_fail triple_read_exact)

lemmas triple_field =
  triple_bind [OF triple_read_u16] triple_bind [OF triple_read_u32] triple_bind [OF triple_read_u64]

lemma triple_read_header [safe_intros]: "triple cursor_ok (read_header E sb) (\<lambda>_. True)"
  unfolding read_header_def by (intro triple_field triple_ret TrueI)

lemma triple_then_xattr:
  "triple cursor_ok m (\<lambda>_. True) \<Longrightarrow> triple cursor_ok (then_xattr E sb m) (\<lambda>_. True)"
  unfolding then_xattr_def by (rule triple_bind, assumption) (intro triple_field triple_ret TrueI)

lemma triple_read_body:
  assumes "sb_block_size sb \<noteq> 0"
  shows "triple cursor_ok (read_body E sb i) (\<lambda>_. True)"
proof -
  have bc: "safe (block_count fs (ucast (sb_block_size sb)) fi)" for fs fi
  proof (rule safe_block_count)
    have "unat (ucast (sb_block_size sb) :: u64) = unat (sb_block_size sb)" by (simp add: unat_ucast_up)
    with assms show "(ucast (sb_block_size sb) :: u64) \<noteq> 0" by (metis unat_eq_zero unsigned_0)
  qed
  have dirs: "triple cursor_ok (read_basic_dir E sb i) (\<lambda>_. True)"
    "triple cursor_ok (read_ext_dir E sb i) (\<lambda>_. True)"
    unfolding read_basic_dir_def read_ext_dir_def by (intro triple_field triple_ret TrueI)+
  have files: "triple cursor_ok (read_basic_file E sb i) (\<lambda>_. True)"
    "triple cursor_ok (read_ext_file E sb i) (\<lambda>_. True)"
    unfolding read_basic_file_def read_ext_file_def
    by (intro triple_field triple_bind [OF triple_lift [OF bc, where Q = "\<lambda>_. True"]]
        triple_bind [OF triple_read_block_sizes] triple_ret TrueI)+
  have link: "triple cursor_ok (read_link E sb i) (\<lambda>_. True)"
    unfolding read_link_def
    by (intro triple_field triple_bind [OF triple_read_symlink] triple_ret TrueI)
  have rest: "triple cursor_ok (read_dev E sb i) (\<lambda>_. True)" "triple cursor_ok (read_ipc E sb i) (\<lambda>_. True)"
    unfolding read_dev_def read_ipc_def by (intro triple_field triple_ret TrueI)+
  show ?thesis
    unfolding read_body_def Let_def
    by (intro triple_if dirs files link rest triple_then_xattr triple_fail)
qed

lemma triple_inode_read [safe_intros]:
  "sb_block_size sb \<noteq> 0 \<Longrightarrow> triple (\<lambda>_. True) (inode_read E sb r) (\<lambda>_. True)"
  unfolding inode_read_def Let_def
  by (intro triple_with_cursor triple_bind [OF triple_read_header] triple_read_body limiting_simps)

lemma agree_read_block_sizes [agree_intros]:
  "agree (cursor_rel E sb) (read_block_sizes E sb n) (read_block_sizes E sb n)"
  by (induction n) (auto intro!: agree_intros)

lemma agree_read_body [agree_intros]:
  "agree (cursor_rel E sb) (read_body E sb i) (read_body E sb i)"
  unfolding read_body_def read_basic_dir_def read_ext_dir_def read_basic_file_def read_ext_file_def
    read_link_def read_dev_def read_ipc_def then_xattr_def read_symlink_def Let_def
  by (intro agree_intros)

lemma agree_inode_read [agree_intros]:
  "agree (mc_rel E sb) (inode_read E sb r) (inode_read E sb r)"
  unfolding inode_read_def Let_def read_header_def
  by (intro agree_with_cursor agree_intros limiting_simps)

section \<open>The fourteen layouts\<close>

text \<open>What follows the common header, one constructor per layout; a device or ipc layout serves two
  type ids (\<open>True\<close>: character device, socket).\<close>

datatype stored_body =
    Basic_dir u32 u32 u16 u16 u32
  | Ext_dir u32 u32 u32 u32 u16 u16 u32
  | Basic_file u32 u32 u32 u32 "u32 list"
  | Ext_file u64 u64 u64 u32 u32 u32 u32 "u32 list"
  | Basic_symlink u32 bytes
  | Ext_symlink u32 bytes u32
  | Basic_dev bool u32 u32
  | Ext_dev bool u32 u32 u32
  | Basic_ipc bool u32
  | Ext_ipc bool u32 u32

record stored_header =
  sh_permissions :: u16
  sh_uid_idx :: u16
  sh_gid_idx :: u16
  sh_mtime :: u32
  sh_number :: u32

fun body_type :: "stored_body \<Rightarrow> u16" where
  "body_type (Basic_dir start nlink sz offset parent) = 1"
| "body_type (Basic_file start fi fo sz sizes) = 2"
| "body_type (Basic_symlink nlink target) = 3"
| "body_type (Basic_dev c nlink rdev) = (if c then 5 else 4)"
| "body_type (Basic_ipc s nlink) = (if s then 7 else 6)"
| "body_type (Ext_dir nlink sz start parent ic offset x) = 8"
| "body_type (Ext_file start sz sparse nlink fi fo x sizes) = 9"
| "body_type (Ext_symlink nlink target x) = 10"
| "body_type (Ext_dev c nlink rdev x) = (if c then 12 else 11)"
| "body_type (Ext_ipc s nlink x) = (if s then 14 else 13)"

definition sizes_bytes :: "u32 list \<Rightarrow> bytes" where
  "sizes_bytes ws = concat (map (to_le_bytes 4) ws)"

fun body_bytes :: "stored_body \<Rightarrow> bytes" where
  "body_bytes (Basic_dir start nlink sz offset parent) =
     to_le_bytes 4 start @ to_le_bytes 4 nlink @ to_le_bytes 2 sz @ to_le_bytes 2 offset @
     to_le_bytes 4 parent @ []"
| "body_bytes (Ext_dir nlink sz start parent ic offset x) =
     to_le_bytes 4 nlink @ to_le_bytes 4 sz @ to_le_bytes 4 start @ to_le_bytes 4 parent @
     to_le_bytes 2 ic @ to_le_bytes 2 offset @ to_le_bytes 4 x @ []"
| "body_bytes (Basic_file start fi fo sz sizes) =
     to_le_bytes 4 start @ to_le_bytes 4 fi @ to_le_bytes 4 fo @ to_le_bytes 4 sz @ [] @
     sizes_bytes sizes @ []"
| "body_bytes (Ext_file start sz sparse nlink fi fo x sizes) =
     to_le_bytes 8 start @ to_le_bytes 8 sz @ to_le_bytes 8 sparse @ to_le_bytes 4 nlink @
     to_le_bytes 4 fi @ to_le_bytes 4 fo @ to_le_bytes 4 x @ [] @ sizes_bytes sizes @ []"
| "body_bytes (Basic_symlink nlink target) =
     to_le_bytes 4 nlink @ to_le_bytes 4 (of_nat (length target) :: u32) @ target @ []"
| "body_bytes (Ext_symlink nlink target x) =
     (to_le_bytes 4 nlink @ to_le_bytes 4 (of_nat (length target) :: u32) @ target @ []) @
     to_le_bytes 4 x @ []"
| "body_bytes (Basic_dev c nlink rdev) = to_le_bytes 4 nlink @ to_le_bytes 4 rdev @ []"
| "body_bytes (Ext_dev c nlink rdev x) =
     (to_le_bytes 4 nlink @ to_le_bytes 4 rdev @ []) @ to_le_bytes 4 x @ []"
| "body_bytes (Basic_ipc s nlink) = to_le_bytes 4 nlink @ []"
| "body_bytes (Ext_ipc s nlink x) = (to_le_bytes 4 nlink @ []) @ to_le_bytes 4 x @ []"

definition header_bytes :: "u16 \<Rightarrow> stored_header \<Rightarrow> bytes" where
  "header_bytes t h =
     to_le_bytes 2 t @ to_le_bytes 2 (sh_permissions h) @ to_le_bytes 2 (sh_uid_idx h) @
     to_le_bytes 2 (sh_gid_idx h) @ to_le_bytes 4 (sh_mtime h) @ to_le_bytes 4 (sh_number h) @ []"

definition inode_bytes :: "stored_header \<Rightarrow> stored_body \<Rightarrow> bytes" where
  "inode_bytes h b = header_bytes (body_type b) h @ body_bytes b"

text \<open>How many size words a file has: a tail that lives in a fragment has none.\<close>

definition data_blocks :: "superblock \<Rightarrow> nat \<Rightarrow> u32 \<Rightarrow> nat" where
  "data_blocks sb sz fi =
     (if fi = SQUASHFS_INVALID_FRAG then div_ceil_nat sz (unat (sb_block_size sb))
      else sz div unat (sb_block_size sb))"

fun body_ok :: "superblock \<Rightarrow> stored_body \<Rightarrow> bool" where
  "body_ok sb (Basic_file start fi fo sz sizes) \<longleftrightarrow>
     sb_block_size sb \<noteq> 0 \<and> length sizes = data_blocks sb (unat sz) fi \<and> length sizes \<le> 2 ^ 24"
| "body_ok sb (Ext_file start sz sparse nlink fi fo x sizes) \<longleftrightarrow>
     sb_block_size sb \<noteq> 0 \<and> length sizes = data_blocks sb (unat sz) fi \<and> length sizes \<le> 2 ^ 24"
| "body_ok sb (Basic_symlink nlink target) \<longleftrightarrow> length target \<le> 2 ^ 16"
| "body_ok sb (Ext_symlink nlink target x) \<longleftrightarrow> length target \<le> 2 ^ 16"
| "body_ok sb _ \<longleftrightarrow> True"

text \<open>What the parser is to make of each layout: the fields it has, and the defaults of the rest.\<close>

fun with_body :: "stored_body \<Rightarrow> inode \<Rightarrow> inode" where
  "with_body (Basic_dir start nlink sz offset parent) i =
     i\<lparr>in_dir_start_block := start, in_nlink := nlink, in_file_size := ucast sz,
       in_dir_block_offset := offset\<rparr>"
| "with_body (Ext_dir nlink sz start parent ic offset x) i =
     i\<lparr>in_nlink := nlink, in_file_size := ucast sz, in_dir_start_block := start,
       in_dir_block_offset := offset, in_xattr_index := x\<rparr>"
| "with_body (Basic_file start fi fo sz sizes) i =
     i\<lparr>in_blocks_start := ucast start, in_fragment_index := fi, in_fragment_offset := fo,
       in_file_size := ucast sz, in_block_sizes := sizes\<rparr>"
| "with_body (Ext_file start sz sparse nlink fi fo x sizes) i =
     i\<lparr>in_blocks_start := start, in_file_size := sz, in_nlink := nlink, in_fragment_index := fi,
       in_fragment_offset := fo, in_xattr_index := x, in_block_sizes := sizes\<rparr>"
| "with_body (Basic_symlink nlink target) i =
     i\<lparr>in_nlink := nlink, in_symlink_target := target, in_file_size := of_nat (length target)\<rparr>"
| "with_body (Ext_symlink nlink target x) i =
     i\<lparr>in_nlink := nlink, in_symlink_target := target, in_file_size := of_nat (length target),
       in_xattr_index := x\<rparr>"
| "with_body (Basic_dev c nlink rdev) i = i\<lparr>in_nlink := nlink, in_rdev := rdev\<rparr>"
| "with_body (Ext_dev c nlink rdev x) i =
     i\<lparr>in_nlink := nlink, in_rdev := rdev, in_xattr_index := x\<rparr>"
| "with_body (Basic_ipc s nlink) i = i\<lparr>in_nlink := nlink\<rparr>"
| "with_body (Ext_ipc s nlink x) i = i\<lparr>in_nlink := nlink, in_xattr_index := x\<rparr>"

definition headed :: "u16 \<Rightarrow> stored_header \<Rightarrow> inode" where
  "headed t h =
     inode_default\<lparr>in_type := t, in_permissions := sh_permissions h, in_uid_idx := sh_uid_idx h,
       in_gid_idx := sh_gid_idx h, in_mtime := sh_mtime h, in_number := sh_number h\<rparr>"

definition inode_of :: "stored_header \<Rightarrow> stored_body \<Rightarrow> inode" where
  "inode_of h b = with_body b (headed (body_type b) h)"

section \<open>Each layout is read back\<close>

lemma reads_header: "reads E sb (read_header E sb) (headed t h) (header_bytes t h)"
  unfolding read_header_def header_bytes_def headed_def by (intro reads_intros)

lemma reads_sizes: "reads E sb (read_block_sizes E sb (length ws)) ws (sizes_bytes ws)"
proof (induction ws)
  case Nil
  then show ?case by (simp add: sizes_bytes_def reads_ret)
next
  case (Cons w ws)
  have "reads E sb (bind_s (read_block_sizes E sb (length ws)) (\<lambda>ws. ret_s (w # ws))) (w # ws)
      (sizes_bytes ws @ [])"
    by (rule reads_bind [OF Cons reads_ret])
  then show ?case by (auto simp: sizes_bytes_def intro: reads_field)
qed

lemma block_count_eq:
  assumes "sb_block_size sb \<noteq> 0" "data_blocks sb (unat fs) fi = n" "n \<le> 2 ^ 24"
  shows "block_count fs (ucast (sb_block_size sb)) fi = Ok (of_nat n) \<and> unat (of_nat n :: u64) = n"
proof -
  have u: "unat (ucast (sb_block_size sb) :: u64) = unat (sb_block_size sb)" by (simp add: unat_ucast_up)
  then have nz: "(ucast (sb_block_size sb) :: u64) \<noteq> 0" using assms(1) by (metis unat_eq_zero unsigned_0)
  have n: "unat (of_nat n :: u64) = n" using assms(3) by (simp add: unat_of_nat take_bit_nat_eq_self)
  then have le: "\<not> MAX_BLOCKS < (of_nat n :: u64)"
    using assms(3) by (simp add: MAX_BLOCKS_def word_less_nat_alt)
  have "fs div ucast (sb_block_size sb) = of_nat n" if "fi \<noteq> SQUASHFS_INVALID_FRAG"
    using assms(2) that u n by (simp add: word_unat_eq_iff unat_div data_blocks_def)
  then show ?thesis
    using assms(2) nz u n le by (auto simp: block_count_def data_blocks_def)
qed

lemma reads_target:
  assumes "length target \<le> 2 ^ 16"
  shows "reads E sb (read_symlink E sb (of_nat (length target))) target target"
proof -
  have n: "unat (of_nat (length target) :: u32) = length target"
    using assms by (simp add: unat_of_nat take_bit_nat_eq_self)
  then have "\<not> MAX_SYMLINK < (of_nat (length target) :: u32)"
    using assms by (simp add: MAX_SYMLINK_def word_less_nat_alt)
  with n reads_exact [of E sb target] show ?thesis by (simp add: read_symlink_def)
qed

lemma reads_counted_sizes:
  assumes "sb_block_size sb \<noteq> 0" "length ws = data_blocks sb (unat fs) fi" "length ws \<le> 2 ^ 24"
    and "reads E sb (f ws) v b"
  shows "reads E sb
    (bind_s (lift_s (block_count fs (ucast (sb_block_size sb)) fi))
      (\<lambda>n. bind_s (read_block_sizes E sb (unat n)) f)) v ([] @ sizes_bytes ws @ b)"
proof -
  from block_count_eq [OF assms(1) assms(2) [symmetric] assms(3)]
  have bc: "block_count fs (ucast (sb_block_size sb)) fi = Ok (of_nat (length ws))"
    and n: "unat (of_nat (length ws) :: u64) = length ws" by auto
  have "reads E sb (bind_s (read_block_sizes E sb (unat (of_nat (length ws) :: u64))) f) v (sizes_bytes ws @ b)"
    unfolding n by (rule reads_bind [where f = f, OF reads_sizes assms(4)])
  from reads_bind [where f = "\<lambda>n. bind_s (read_block_sizes E sb (unat n)) f", OF reads_lift [OF bc] this]
  show ?thesis .
qed

lemma reads_then_xattr:
  "reads E sb m i a \<Longrightarrow>
    reads E sb (then_xattr E sb m) (i\<lparr>in_xattr_index := x\<rparr>) (a @ to_le_bytes 4 x @ [])"
  unfolding then_xattr_def by (rule reads_bind, assumption) (intro reads_intros)

lemma reads_link:
  assumes "length target \<le> 2 ^ 16"
  shows "reads E sb (read_link E sb i)
    (i\<lparr>in_nlink := nlink, in_symlink_target := target, in_file_size := of_nat (length target)\<rparr>)
    (to_le_bytes 4 nlink @ to_le_bytes 4 (of_nat (length target) :: u32) @ target @ [])"
proof -
  have "unat (of_nat (length target) :: u32) = length target"
    using assms by (simp add: unat_of_nat take_bit_nat_eq_self)
  then have sz: "(ucast (of_nat (length target) :: u32) :: u64) = of_nat (length target)"
    using assms by (simp add: word_unat_eq_iff unat_ucast_up unat_of_nat take_bit_nat_eq_self)
  show ?thesis
    unfolding read_link_def
    by (rule reads_field, rule reads_field, rule reads_bind [OF reads_target [OF assms]])
      (simp add: sz reads_ret)
qed

lemma reads_dev: "reads E sb (read_dev E sb i) (i\<lparr>in_nlink := nlink, in_rdev := rdev\<rparr>)
    (to_le_bytes 4 nlink @ to_le_bytes 4 rdev @ [])"
  unfolding read_dev_def by (intro reads_intros)

lemma reads_ipc: "reads E sb (read_ipc E sb i) (i\<lparr>in_nlink := nlink\<rparr>) (to_le_bytes 4 nlink @ [])"
  unfolding read_ipc_def by (intro reads_intros)

lemma reads_basic_file:
  assumes "body_ok sb (Basic_file start fi fo sz sizes)"
  shows "reads E sb (read_basic_file E sb i) (with_body (Basic_file start fi fo sz sizes) i)
    (body_bytes (Basic_file start fi fo sz sizes))"
  unfolding read_basic_file_def body_bytes.simps with_body.simps
  by (rule reads_field, rule reads_field, rule reads_field, rule reads_field, rule reads_counted_sizes)
    (use assms in \<open>simp_all add: reads_ret unat_ucast_up\<close>)

lemma reads_ext_file:
  assumes "body_ok sb (Ext_file start sz sparse nlink fi fo x sizes)"
  shows "reads E sb (read_ext_file E sb i) (with_body (Ext_file start sz sparse nlink fi fo x sizes) i)
    (body_bytes (Ext_file start sz sparse nlink fi fo x sizes))"
  unfolding read_ext_file_def body_bytes.simps with_body.simps
  by (rule reads_field, rule reads_field, rule reads_field, rule reads_field, rule reads_field,
      rule reads_field, rule reads_field, rule reads_counted_sizes)
    (use assms in \<open>simp_all add: reads_ret\<close>)

lemma reads_dirs:
  "reads E sb (read_basic_dir E sb i) (with_body (Basic_dir a b c d e) i) (body_bytes (Basic_dir a b c d e))"
  "reads E sb (read_ext_dir E sb i) (with_body (Ext_dir a b f d' e' c g) i)
    (body_bytes (Ext_dir a b f d' e' c g))"
  unfolding read_basic_dir_def read_ext_dir_def body_bytes.simps with_body.simps
  by (intro reads_intros)+

lemma reads_body:
  assumes "body_ok sb b" "in_type i = body_type b"
  shows "reads E sb (read_body E sb i) (with_body b i) (body_bytes b)"
  using assms
proof (cases b)
  case (Basic_dir a1 a2 a3 a4 a5)
  with assms(2) reads_dirs(1) show ?thesis by (simp add: read_body_def type_ids)
next
  case (Ext_dir a1 a2 a3 a4 a5 a6 a7)
  with assms(2) reads_dirs(2) show ?thesis by (simp add: read_body_def type_ids)
next
  case (Basic_file a1 a2 a3 a4 a5)
  with assms(2) reads_basic_file [OF assms(1) [unfolded Basic_file]] show ?thesis
    by (simp add: read_body_def type_ids)
next
  case (Ext_file a1 a2 a3 a4 a5 a6 a7 a8)
  with assms(2) reads_ext_file [OF assms(1) [unfolded Ext_file]] show ?thesis
    by (simp add: read_body_def type_ids)
next
  case (Basic_symlink a1 a2)
  with assms reads_link [of a2] show ?thesis by (simp add: read_body_def type_ids)
next
  case (Ext_symlink a1 a2 a3)
  with assms reads_then_xattr [OF reads_link [of a2]] show ?thesis
    by (simp add: read_body_def type_ids)
next
  case (Basic_dev a1 a2 a3)
  with assms reads_dev show ?thesis by (simp add: read_body_def type_ids split: if_splits)
next
  case (Ext_dev a1 a2 a3 a4)
  with assms reads_then_xattr [OF reads_dev] show ?thesis
    by (simp add: read_body_def type_ids split: if_splits)
next
  case (Basic_ipc a1 a2)
  with assms reads_ipc show ?thesis by (simp add: read_body_def type_ids split: if_splits)
next
  case (Ext_ipc a1 a2 a3)
  with assms reads_then_xattr [OF reads_ipc] show ?thesis
    by (simp add: read_body_def type_ids split: if_splits)
qed

lemma inode_read_layout:
  assumes "body_ok sb b" "mc_sound E sb cache"
    and "metadata_at E sb None (start_abs (from_packed r) (sb_inode_table_start sb))
      (mr_in_block (from_packed r)) (inode_bytes h b @ rest)"
  shows "fst (inode_read E sb r cache) = Ok (inode_of h b)"
proof -
  have "reads E sb (bind_s (read_header E sb) (read_body E sb)) (inode_of h b) (inode_bytes h b)"
    unfolding inode_bytes_def inode_of_def
    by (rule reads_bind [OF reads_header reads_body]) (use assms(1) in \<open>simp_all add: headed_def\<close>)
  from with_cursor_reads [OF this assms(3,2)] show ?thesis
    by (simp add: inode_read_def Let_def limited_None)
qed

section \<open>Properties\<close>

text \<open>C31. Each of the fourteen inode layouts is read back: where the metadata at a reference is a
  header and a body as the format stores them, the parser gives the inode with those fields and the
  defaults of the others, through any cache that is true.\<close>

theorem inode_of_layout:
  assumes "body_ok sb b" "mc_sound E sb cache"
    and "metadata_at E sb None (start_abs (from_packed r) (sb_inode_table_start sb))
      (mr_in_block (from_packed r)) (inode_bytes h b @ rest)"
  shows "fst (inode_read E sb r cache) = Ok (inode_of h b)"
  using assms by (rule inode_read_layout)

definition sample_header :: stored_header where
  "sample_header = \<lparr>sh_permissions = 420, sh_uid_idx = 0, sh_gid_idx = 1, sh_mtime = 9, sh_number = 3\<rparr>"

lemma inode_of_layout_witness:
  "fst (inode_read (plain_env (stored_block False (inode_bytes sample_header (Basic_symlink 1 [0x61, 0x62]))))
     sample_superblock 0 None) = Ok (inode_of sample_header (Basic_symlink 1 [0x61, 0x62]))"
proof (rule inode_of_layout)
  show "metadata_at (plain_env (stored_block False (inode_bytes sample_header (Basic_symlink 1 [0x61, 0x62]))))
      sample_superblock None (start_abs (from_packed 0) (sb_inode_table_start sample_superblock))
      (mr_in_block (from_packed 0)) (inode_bytes sample_header (Basic_symlink 1 [0x61, 0x62]) @ [])"
    by (simp only: from_packed_def start_abs_def sample_superblock_def metadata_ref.select_convs
        superblock.select_convs, simp add: saturating_add_def,
        rule plain_metadata_at [where rest = "[]", unfolded append_Nil2])
      (simp_all add: inode_bytes_def header_bytes_def METADATA_SIZE_def)
qed simp_all

text \<open>The packing of \<open>new_encode_dev\<close> in the kernel.\<close>

definition new_encode_dev :: "u32 \<Rightarrow> u32 \<Rightarrow> u32" where
  "new_encode_dev major minor =
     (minor AND 0xff) OR push_bit 8 major OR push_bit 12 (minor AND NOT 0xff)"

lemma low_bits:
  fixes w :: u32
  assumes "w < 2 ^ k" "bit w n"
  shows "n < k"
proof -
  have "w AND mask k = w" using assms(1) by (rule less_mask_eq)
  with assms(2) show ?thesis by (metis bit_and_iff bit_mask_iff)
qed

lemma device_masks: "(0xff :: u32) = mask 8" "(0xfff00 :: u32) = push_bit 8 (mask 12)"
  by (simp_all add: mask_eq_exp_minus_1 push_bit_eq_mult)

lemma rdev_decode:
  assumes "major < 2 ^ 12" "minor < 2 ^ 20" "in_rdev i = new_encode_dev major minor"
  shows "rdev_major i = major" "rdev_minor i = minor"
proof -
  have M: "bit major n \<Longrightarrow> n < 12" for n using low_bits [OF assms(1)] by simp
  have m: "bit minor n \<Longrightarrow> n < 20" for n using low_bits [OF assms(2)] by simp
  show "rdev_major i = major"
    unfolding rdev_major_def assms(3) new_encode_dev_def device_masks
    by (rule bit_word_eqI) (auto simp: bit_simps dest: M)
  show "rdev_minor i = minor"
    unfolding rdev_minor_def assms(3) new_encode_dev_def device_masks
    by (rule bit_word_eqI) (auto simp: bit_simps dest: M m)
qed

text \<open>Device numbers: the kernel's packing of a major number below \<open>2^12\<close> and a minor below
  \<open>2^20\<close> is decoded to the two numbers.\<close>

lemma device_numbers_round_trip:
  assumes "major < 2 ^ 12" "minor < 2 ^ 20" "in_rdev i = new_encode_dev major minor"
  shows "rdev_major i = major \<and> rdev_minor i = minor"
  using rdev_decode [OF assms] by simp

lemma device_numbers_round_trip_witness:
  "rdev_major (inode_default\<lparr>in_rdev := new_encode_dev 259 4097\<rparr>) = 259 \<and>
   rdev_minor (inode_default\<lparr>in_rdev := new_encode_dev 259 4097\<rparr>) = 4097"
  by (rule device_numbers_round_trip) simp_all

end
