(* ===== verification/Xattrs.thy ===== *)
theory Xattrs
  imports Tables Inode
begin

text \<open>
  Extended attributes, \<open>src/xattr.rs\<close>: the id table, one attribute set, and the out-of-line
  values a set may refer to.  A set that decodes has the lengths the format allows and adds up to
  the size its id declares; a set laid out the way the format says is read back whole.
\<close>

definition XATTR_VALUE_OOL :: u16 where "XATTR_VALUE_OOL = 0x0100"
definition XATTR_PREFIX_MASK :: u16 where "XATTR_PREFIX_MASK = 0x00FF"

text \<open>\<open>user.\<close>, \<open>trusted.\<close>, \<open>security.\<close>\<close>

definition PREFIXES :: "bytes list" where
  "PREFIXES =
     [[0x75, 0x73, 0x65, 0x72, 0x2E],
      [0x74, 0x72, 0x75, 0x73, 0x74, 0x65, 0x64, 0x2E],
      [0x73, 0x65, 0x63, 0x75, 0x72, 0x69, 0x74, 0x79, 0x2E]]"

definition ID_ENTRY_SIZE :: nat where "ID_ENTRY_SIZE = 16"
definition ID_TABLE_HEADER_SIZE :: nat where "ID_TABLE_HEADER_SIZE = 16"
definition MAX_NAME_LEN :: nat where "MAX_NAME_LEN = 255"
definition MAX_VALUE_LEN :: nat where "MAX_VALUE_LEN = 65536"
definition MAX_XATTRS_PER_INODE :: u32 where "MAX_XATTRS_PER_INODE = 16384"

record xattr_entry =
  xe_name :: bytes
  xe_value :: bytes

record xattr_id =
  xi_ref :: u64
  xi_count :: u32
  xi_size :: u32

record xattr_id_table =
  xt_table_start :: u64
  xt_ids :: "xattr_id list"

definition xt_len :: "xattr_id_table \<Rightarrow> nat" where "xt_len t = length (xt_ids t)"
definition xt_is_empty :: "xattr_id_table \<Rightarrow> bool" where "xt_is_empty t \<longleftrightarrow> xt_ids t = []"

section \<open>The id table\<close>

definition xattr_id_at :: "bytes \<Rightarrow> nat \<Rightarrow> xattr_id result" where
  "xattr_id_at bytes i =
     and_then (slice bytes (i * ID_ENTRY_SIZE) ((i + 1) * ID_ENTRY_SIZE)) (\<lambda>e.
     and_then (rd_u64 e 0) (\<lambda>r.
     and_then (rd_u32 e 8) (\<lambda>count.
     and_then (rd_u32 e 12) (\<lambda>sz.
       Ok \<lparr>xi_ref = r, xi_count = count, xi_size = sz\<rparr>))))"

definition xattr_read_id_table :: "'c meta_env \<Rightarrow> superblock \<Rightarrow> xattr_id_table option result" where
  "xattr_read_id_table E sb =
     (let header_at = sb_xattr_id_table_start sb in
      if header_at = NO_TABLE then Ok None
      else
        and_then (read_at (me_dev E) header_at ID_TABLE_HEADER_SIZE) (\<lambda>header.
        and_then (rd_u64 header 0) (\<lambda>table_start.
        and_then (rd_u32 header 8) (\<lambda>ids.
        let xattr_ids = unat ids in
        if xattr_ids = 0 then Ok (Some \<lparr>xt_table_start = table_start, xt_ids = []\<rparr>)
        else if header_at \<le> table_start then
          Fail (BadMetadata ''xattr pair table starts at or after its own index'')
        else
          and_then
            (read_indirect_table E sb (header_at + of_nat ID_TABLE_HEADER_SIZE)
              (xattr_ids * ID_ENTRY_SIZE)) (\<lambda>bytes.
          and_then (map_result (xattr_id_at bytes) [0..<xattr_ids]) (\<lambda>ids.
            Ok (Some \<lparr>xt_table_start = table_start, xt_ids = ids\<rparr>)))))))"

section \<open>A set\<close>

definition read_ool_value ::
  "'c meta_env \<Rightarrow> superblock \<Rightarrow> xattr_id_table \<Rightarrow> u64 \<Rightarrow> ('c meta_cache option, bytes) sm" where
  "read_ool_value E sb t packed =
     (let r = from_packed packed in
      with_cursor E sb (start_abs r (xt_table_start t)) (mr_in_block r) (\<lambda>cu. cu)
        (bind_s (read_u32 E sb) (\<lambda>vsize.
         if MAX_VALUE_LEN < unat vsize then
           fail_s (BadMetadata ''out-of-line xattr value longer than the format allows'')
         else read_exact E sb (unat vsize))))"

definition read_value ::
  "'c meta_env \<Rightarrow> superblock \<Rightarrow> xattr_id_table \<Rightarrow> u16 \<Rightarrow> ('c cursor, bytes) sm" where
  "read_value E sb t raw_type =
     (if raw_type AND XATTR_VALUE_OOL \<noteq> 0 then
        bind_s (read_u32 E sb) (\<lambda>vsize.
        if unat vsize \<noteq> 8 then
          fail_s (BadMetadata ''out-of-line xattr value is not an 8-byte reference'')
        else
          bind_s (read_u64 E sb) (\<lambda>target. on_cache (read_ool_value E sb t target)))
      else
        bind_s (read_u32 E sb) (\<lambda>vsize.
        if MAX_VALUE_LEN < unat vsize then
          fail_s (BadMetadata ''xattr value longer than the format allows'')
        else read_exact E sb (unat vsize)))"

definition read_name :: "'c meta_env \<Rightarrow> superblock \<Rightarrow> ('c cursor, u16 \<times> bytes) sm" where
  "read_name E sb =
     bind_s (read_u16 E sb) (\<lambda>raw_type.
     bind_s (read_u16 E sb) (\<lambda>name_size.
     if MAX_NAME_LEN < unat name_size then
       fail_s (BadMetadata ''xattr name longer than the format allows'')
     else
       bind_s (read_exact E sb (unat name_size)) (\<lambda>suffix.
       bind_s (lift_s (ok_or (get PREFIXES (unat (raw_type AND XATTR_PREFIX_MASK)))
           (BadMetadata ''xattr names an undefined namespace''))) (\<lambda>prefix.
       let name = prefix @ suffix in
       if MAX_NAME_LEN < length name then
         fail_s (BadMetadata ''xattr name longer than the format allows'')
       else ret_s (raw_type, name)))))"

text \<open>The loop over the pairs of a set, with the running total, and the check after it.\<close>

fun read_pairs ::
  "'c meta_env \<Rightarrow> superblock \<Rightarrow> xattr_id_table \<Rightarrow> u32 \<Rightarrow> nat \<Rightarrow> u64 \<Rightarrow> ('c cursor, xattr_entry list) sm" where
  "read_pairs E sb t sz 0 total_len =
     (if total_len \<noteq> ucast sz then
        fail_s (BadMetadata ''xattr set does not add up to the size it declared'')
      else ret_s [])"
| "read_pairs E sb t sz (Suc n) total_len =
     bind_s (read_name E sb) (\<lambda>(raw_type, name).
     bind_s (read_value E sb t raw_type) (\<lambda>value.
     let total_len = total_len + (of_nat (length name) + 1 + of_nat (length value)) in
     if ucast sz < total_len then
       fail_s (BadMetadata ''xattr set is longer than the size it declared'')
     else
       bind_s (read_pairs E sb t sz n total_len) (\<lambda>es.
         ret_s (\<lparr>xe_name = name, xe_value = value\<rparr> # es))))"

definition read_set ::
  "'c meta_env \<Rightarrow> superblock \<Rightarrow> xattr_id_table \<Rightarrow> u32 \<Rightarrow> ('c meta_cache option, xattr_entry list) sm" where
  "read_set E sb t idx =
     bind_s (lift_s (ok_or (get (xt_ids t) (unat idx))
         (BadMetadata ''xattr index past the end of the table''))) (\<lambda>xid.
     if MAX_XATTRS_PER_INODE < xi_count xid then
       fail_s (BadMetadata ''xattr set declares an absurd count'')
     else
       let r = from_packed (xi_ref xid) in
       with_cursor E sb (start_abs r (xt_table_start t)) (mr_in_block r) (\<lambda>cu. cu)
         (read_pairs E sb t (xi_size xid) (unat (xi_count xid)) 0))"

section \<open>No panic, and no dependence on the cache\<close>

lemma xattr_id_at_ok:
  "(i + 1) * 16 \<le> length b \<Longrightarrow> xattr_id_at b i =
    Ok \<lparr>xi_ref = field 8 b (i * 16), xi_count = field 4 b (i * 16 + 8), xi_size = field 4 b (i * 16 + 12)\<rparr>"
  by (simp add: xattr_id_at_def ID_ENTRY_SIZE_def read_simps field_def drop_take add.commute)

lemma safe_xattr_read_id_table: "safe (xattr_read_id_table E sb)"
  unfolding xattr_read_id_table_def Let_def
  by (auto simp: read_simps xattr_id_at_ok ID_TABLE_HEADER_SIZE_def ID_ENTRY_SIZE_def
      dest!: read_at_length read_indirect_table_length intro!: safe_and_then safe_map_result)

lemma triple_read_ool_value [safe_intros]:
  "triple (\<lambda>_. True) (read_ool_value E sb t p) (\<lambda>v. length v \<le> MAX_VALUE_LEN)"
proof -
  have "triple cursor_ok (read_exact E sb n) (\<lambda>v. length v \<le> MAX_VALUE_LEN)" if "n \<le> MAX_VALUE_LEN" for n
    by (rule triple_weaken [OF triple_read_exact]) (use that in simp)
  then show ?thesis
    unfolding read_ool_value_def Let_def
    by (intro triple_with_cursor triple_bind [OF triple_read_u32] triple_if triple_fail limiting_simps)
      (simp add: not_less)
qed

lemma triple_read_value:
  "triple cursor_ok (read_value E sb t ty) (\<lambda>v. length v \<le> MAX_VALUE_LEN)"
proof -
  have "triple cursor_ok (read_exact E sb n) (\<lambda>v. length v \<le> MAX_VALUE_LEN)" if "n \<le> MAX_VALUE_LEN" for n
    by (rule triple_weaken [OF triple_read_exact]) (use that in simp)
  then show ?thesis
    unfolding read_value_def
    by (intro triple_if triple_bind [OF triple_read_u32] triple_bind [OF triple_read_u64]
        triple_fail triple_on_cache [OF triple_read_ool_value])
      (simp add: not_less)
qed

definition namespaced :: "bytes \<Rightarrow> bool" where
  "namespaced name \<longleftrightarrow> length name \<le> MAX_NAME_LEN \<and> (\<exists>p \<in> set PREFIXES. \<exists>s. name = p @ s)"

lemma triple_read_name: "triple cursor_ok (read_name E sb) (\<lambda>(ty, name). namespaced name)"
  unfolding read_name_def Let_def
  by (intro triple_if triple_bind [OF triple_read_u16] triple_fail
      triple_bind [OF triple_read_exact] triple_bind [OF triple_lift [where Q = "\<lambda>p. p \<in> set PREFIXES"]]
      triple_ret)
    (auto simp: namespaced_def not_less)

text \<open>What a set that decodes is: that many entries, each within the format's limits, adding up to
  the declared size.\<close>

definition entry_ok :: "xattr_entry \<Rightarrow> bool" where
  "entry_ok e \<longleftrightarrow> namespaced (xe_name e) \<and> length (xe_value e) \<le> MAX_VALUE_LEN"

lemma entry_ok_simp:
  "entry_ok \<lparr>xe_name = n, xe_value = v\<rparr> \<longleftrightarrow> namespaced n \<and> length v \<le> MAX_VALUE_LEN"
  by (simp add: entry_ok_def)

definition set_size :: "xattr_entry list \<Rightarrow> nat" where
  "set_size es = sum_list (map (\<lambda>e. length (xe_name e) + 1 + length (xe_value e)) es)"

lemma add_entry_nat:
  assumes "unat total_len \<le> unat (sz :: u32)" "length name \<le> MAX_NAME_LEN" "length v \<le> MAX_VALUE_LEN"
  shows "unat (total_len + (of_nat (length name) + 1 + of_nat (length v)) :: u64) =
    unat total_len + (length name + 1 + length v)"
proof -
  have "unat sz < 2 ^ 32" using unsigned_less [of sz, where 'a = nat] by simp
  with assms have s: "unat total_len + (length name + 1 + length v) < 2 ^ 64"
    by (simp add: MAX_NAME_LEN_def MAX_VALUE_LEN_def)
  have "total_len + (of_nat (length name) + 1 + of_nat (length v)) =
      (of_nat (unat total_len + (length name + 1 + length v)) :: u64)"
    by simp
  then show ?thesis
    using s by (simp only: unat_of_nat take_bit_nat_eq_self) (simp add: take_bit_nat_eq_self)
qed

lemma triple_read_pairs:
  "unat total_len \<le> unat sz \<Longrightarrow>
    triple cursor_ok (read_pairs E sb t sz n total_len)
      (\<lambda>es. length es = n \<and> list_all entry_ok es \<and> unat total_len + set_size es = unat sz)"
proof (induction n arbitrary: total_len)
  case 0
  show ?case
    by (simp only: read_pairs.simps, intro triple_if triple_fail triple_ret)
      (simp add: set_size_def unat_ucast_up)
next
  case (Suc n)
  show ?case
    unfolding read_pairs.simps
  proof (rule triple_bind [OF triple_read_name], clarsimp, rule triple_bind [OF triple_read_value],
      unfold Let_def, intro triple_if triple_fail)
    fix ty :: u16 and name val :: bytes
    let ?t = "total_len + (of_nat (length name) + 1 + of_nat (length val))"
    assume nm: "namespaced name" and v: "length val \<le> MAX_VALUE_LEN" and "\<not> ucast sz < ?t"
    then have le: "unat ?t \<le> unat sz" by (simp add: not_less word_le_nat_alt unat_ucast_up)
    have "unat ?t = unat total_len + (length name + 1 + length val)"
      using nm v by (intro add_entry_nat [OF Suc.prems]) (simp_all add: namespaced_def)
    then show "triple cursor_ok
        (bind_s (read_pairs E sb t sz n ?t) (\<lambda>es. ret_s (\<lparr>xe_name = name, xe_value = val\<rparr> # es)))
        (\<lambda>es. length es = Suc n \<and> list_all entry_ok es \<and> unat total_len + set_size es = unat sz)"
      using nm v by (intro triple_bind [OF Suc.IH [OF le]] triple_ret) (auto simp: set_size_def entry_ok_simp)
  qed
qed

lemma triple_read_set:
  "triple (\<lambda>_. True) (read_set E sb t idx)
    (\<lambda>es. list_all entry_ok es \<and> unat idx < length (xt_ids t) \<and>
      length es = unat (xi_count (xt_ids t ! unat idx)) \<and> set_size es = unat (xi_size (xt_ids t ! unat idx)))"
  unfolding read_set_def Let_def
proof (rule triple_bind [OF triple_lift
      [where Q = "\<lambda>x. unat idx < length (xt_ids t) \<and> x = xt_ids t ! unat idx"]], goal_cases)
  case (3 xid)
  then show ?case
    by (intro triple_if triple_fail triple_with_cursor limiting_simps
        triple_weaken [OF triple_read_pairs]) auto
qed auto

lemma agree_read_ool_value [agree_intros]:
  "agree (mc_rel E sb) (read_ool_value E sb t p) (read_ool_value E sb t p)"
  unfolding read_ool_value_def Let_def by (intro agree_with_cursor agree_intros limiting_simps)

lemma agree_read_pairs [agree_intros]:
  "agree (cursor_rel E sb) (read_pairs E sb t sz n k) (read_pairs E sb t sz n k)"
proof (induction n arbitrary: k)
  case 0
  then show ?case by (simp add: agree_intros)
next
  case (Suc n)
  have val: "agree (cursor_rel E sb) (read_value E sb t ty) (read_value E sb t ty)" for ty
    unfolding read_value_def by (intro agree_intros agree_on_cache)
  have name: "agree (cursor_rel E sb) (read_name E sb) (read_name E sb)"
    unfolding read_name_def Let_def by (intro agree_intros)
  show ?case
    unfolding read_pairs.simps
    by (rule agree_bind [OF name], clarsimp, rule agree_bind [OF val], unfold Let_def)
      (intro agree_intros Suc)
qed

lemma agree_read_set [agree_intros]:
  "agree (mc_rel E sb) (read_set E sb t idx) (read_set E sb t idx)"
  unfolding read_set_def Let_def by (intro agree_intros agree_with_cursor limiting_simps)

section \<open>A set laid out by the format is read back\<close>

text \<open>A stored pair: the prefix index, the rest of the name, the value, and the reference the value
  is kept behind when it is out of line.\<close>

record stored_xattr =
  sx_prefix :: nat
  sx_suffix :: bytes
  sx_value :: bytes
  sx_target :: "u64 option"

definition raw_type_of :: "stored_xattr \<Rightarrow> u16" where
  "raw_type_of x = (if sx_target x = None then 0 else 0x100) + of_nat (sx_prefix x)"

definition pair_bytes :: "stored_xattr \<Rightarrow> bytes" where
  "pair_bytes x =
     (to_le_bytes 2 (raw_type_of x) @ to_le_bytes 2 (of_nat (length (sx_suffix x)) :: u16) @
      sx_suffix x @ [] @ []) @
     (case sx_target x of
        None \<Rightarrow> to_le_bytes 4 (of_nat (length (sx_value x)) :: u32) @ sx_value x
      | Some r \<Rightarrow> to_le_bytes 4 (8 :: u32) @ to_le_bytes 8 r @ [])"

definition entry_of :: "stored_xattr \<Rightarrow> xattr_entry" where
  "entry_of x = \<lparr>xe_name = PREFIXES ! sx_prefix x @ sx_suffix x, xe_value = sx_value x\<rparr>"

text \<open>An out-of-line value is at its reference, under a length of its own.\<close>

definition pair_ok :: "'c meta_env \<Rightarrow> superblock \<Rightarrow> xattr_id_table \<Rightarrow> stored_xattr \<Rightarrow> bool" where
  "pair_ok E sb t x \<longleftrightarrow>
     sx_prefix x < 3 \<and> length (xe_name (entry_of x)) \<le> MAX_NAME_LEN \<and>
     length (sx_value x) \<le> MAX_VALUE_LEN \<and>
     (case sx_target x of
        None \<Rightarrow> True
      | Some r \<Rightarrow>
          \<exists>rest. metadata_at E sb None (start_abs (from_packed r) (xt_table_start t))
            (mr_in_block (from_packed r))
            ((to_le_bytes 4 (of_nat (length (sx_value x)) :: u32) @ sx_value x) @ rest))"

lemma prefix_cases: "n < 3 \<Longrightarrow> n = 0 \<or> n = 1 \<or> n = (2::nat)"
  by auto

lemma raw_type_bits:
  assumes "sx_prefix x < 3"
  shows "unat (raw_type_of x AND XATTR_PREFIX_MASK) = sx_prefix x"
    "raw_type_of x AND XATTR_VALUE_OOL = 0 \<longleftrightarrow> sx_target x = None"
  using prefix_cases [OF assms]
  by (auto simp: raw_type_of_def XATTR_PREFIX_MASK_def XATTR_VALUE_OOL_def)

lemma reads_name:
  assumes "pair_ok E sb t x"
  shows "reads E sb (read_name E sb) (raw_type_of x, xe_name (entry_of x))
    (to_le_bytes 2 (raw_type_of x) @ to_le_bytes 2 (of_nat (length (sx_suffix x)) :: u16) @
      sx_suffix x @ [] @ [])"
proof -
  from assms have p: "sx_prefix x < 3" and n: "length (PREFIXES ! sx_prefix x @ sx_suffix x) \<le> MAX_NAME_LEN"
    by (auto simp: pair_ok_def entry_of_def)
  then have l: "length (sx_suffix x) \<le> 255" by (simp add: MAX_NAME_LEN_def)
  then have u: "unat (of_nat (length (sx_suffix x)) :: u16) = length (sx_suffix x)"
    by (simp add: unat_of_nat take_bit_nat_eq_self)
  have g: "get PREFIXES (sx_prefix x) = Some (PREFIXES ! sx_prefix x)"
    using p by (simp add: PREFIXES_def)
  have tail: "reads E sb
      (bind_s (lift_s (Ok (PREFIXES ! sx_prefix x))) (\<lambda>prefix.
        let name = prefix @ sx_suffix x in
        if MAX_NAME_LEN < length name then
          fail_s (BadMetadata ''xattr name longer than the format allows'')
        else ret_s (raw_type_of x, name)))
      (raw_type_of x, xe_name (entry_of x)) ([] @ [])"
    by (rule reads_bind [OF reads_lift [OF refl]]) (use n in \<open>simp add: entry_of_def reads_ret\<close>)
  have l': "(MAX_NAME_LEN < length (sx_suffix x)) = False" using l by (simp add: MAX_NAME_LEN_def)
  show ?thesis
    unfolding read_name_def
    by (rule reads_field, rule reads_field, simp only: u raw_type_bits(1) [OF p] g ok_or_simps l' if_False,
        rule reads_bind, rule reads_exact, rule tail)
qed

lemma ool_value_eq:
  assumes "mc_sound E sb cache" "length v \<le> MAX_VALUE_LEN"
    and "metadata_at E sb None (start_abs (from_packed r) (xt_table_start t))
      (mr_in_block (from_packed r)) ((to_le_bytes 4 (of_nat (length v) :: u32) @ v) @ rest)"
  shows "fst (read_ool_value E sb t r cache) = Ok v"
proof -
  have u: "unat (of_nat (length v) :: u32) = length v"
    using assms(2) by (simp add: MAX_VALUE_LEN_def unat_of_nat take_bit_nat_eq_self)
  have "reads E sb
      (bind_s (read_u32 E sb) (\<lambda>vsize.
         if MAX_VALUE_LEN < unat vsize then
           fail_s (BadMetadata ''out-of-line xattr value longer than the format allows'')
         else read_exact E sb (unat vsize)))
      v (to_le_bytes 4 (of_nat (length v) :: u32) @ v)"
    by (rule reads_field) (use assms(2) in \<open>simp add: u reads_exact\<close>)
  from with_cursor_reads [OF this assms(3,1)] show ?thesis
    by (simp add: read_ool_value_def Let_def limited_None)
qed

lemma reads_value:
  assumes "pair_ok E sb t x"
  shows "reads E sb (read_value E sb t (raw_type_of x)) (sx_value x)
    (case sx_target x of
        None \<Rightarrow> to_le_bytes 4 (of_nat (length (sx_value x)) :: u32) @ sx_value x
      | Some r \<Rightarrow> to_le_bytes 4 (8 :: u32) @ to_le_bytes 8 r @ [])"
proof (cases "sx_target x")
  case None
  have u: "unat (of_nat (length (sx_value x)) :: u32) = length (sx_value x)"
    using assms by (simp add: pair_ok_def MAX_VALUE_LEN_def unat_of_nat take_bit_nat_eq_self)
  have "\<not> raw_type_of x AND XATTR_VALUE_OOL \<noteq> 0"
    using assms None by (simp add: pair_ok_def raw_type_bits)
  then show ?thesis
    unfolding read_value_def None
    by (simp only: if_False option.case, intro reads_field)
      (use assms in \<open>simp add: u reads_exact pair_ok_def\<close>)
next
  case (Some r)
  then obtain rest where "metadata_at E sb None (start_abs (from_packed r) (xt_table_start t))
      (mr_in_block (from_packed r))
      ((to_le_bytes 4 (of_nat (length (sx_value x)) :: u32) @ sx_value x) @ rest)"
    and len: "length (sx_value x) \<le> MAX_VALUE_LEN"
    using assms by (auto simp: pair_ok_def)
  then have "fst (read_ool_value E sb t r c) = Ok (sx_value x) \<and> mc_sound E sb (snd (read_ool_value E sb t r c))"
    if "mc_sound E sb c" for c
    using ool_value_eq [OF that len] agreeD(2) [OF agree_read_ool_value, of E sb c c] that
    by (simp add: mc_rel_def)
  then have oc: "reads E sb (on_cache (read_ool_value E sb t r)) (sx_value x) []" by (rule reads_on_cache)
  have u8: "unat (8 :: u32) = 8" by simp
  have ool: "(raw_type_of x AND XATTR_VALUE_OOL = 0) = False"
    using assms Some by (simp add: pair_ok_def raw_type_bits)
  show ?thesis
    unfolding read_value_def Some
    by (simp only: ool if_True not_False_eq_True option.case, rule reads_field,
        simp only: u8 simp_thms if_False, rule reads_field, rule oc)
qed

lemma reads_pairs:
  assumes "\<forall>x \<in> set xs. pair_ok E sb t x"
    and "unat total_len + set_size (map entry_of xs) = unat sz"
  shows "reads E sb (read_pairs E sb t sz (length xs) total_len) (map entry_of xs)
    (concat (map pair_bytes xs))"
  using assms
proof (induction xs arbitrary: total_len)
  case Nil
  then have "total_len = ucast sz" by (simp add: set_size_def word_unat_eq_iff unat_ucast_up)
  then show ?case by (simp add: reads_ret)
next
  case (Cons x xs)
  let ?e = "entry_of x"
  let ?t = "total_len + (of_nat (length (xe_name ?e)) + 1 + of_nat (length (sx_value x)))"
  from Cons.prems have ok: "pair_ok E sb t x" by simp
  then have n: "length (xe_name ?e) \<le> MAX_NAME_LEN" "length (sx_value x) \<le> MAX_VALUE_LEN"
    by (auto simp: pair_ok_def)
  have v: "xe_value ?e = sx_value x" by (simp add: entry_of_def)
  have t: "unat ?t = unat total_len + (length (xe_name ?e) + 1 + length (sx_value x))"
    by (rule add_entry_nat [OF _ n, of _ sz]) (use Cons.prems(2) in simp)
  with Cons.prems(2) v have sum: "unat ?t + set_size (map entry_of xs) = unat sz"
    by (simp add: set_size_def)
  then have le: "\<not> ucast sz < ?t" by (simp add: word_less_nat_alt unat_ucast_up)
  have "reads E sb (bind_s (read_pairs E sb t sz (length xs) ?t) (\<lambda>es. ret_s (?e # es)))
      (?e # map entry_of xs) (concat (map pair_bytes xs) @ [])"
    by (rule reads_bind [OF Cons.IH [OF _ sum] reads_ret]) (use Cons.prems(1) in simp)
  moreover have "?e = \<lparr>xe_name = xe_name ?e, xe_value = sx_value x\<rparr>" by (simp add: entry_of_def)
  ultimately have tail: "reads E sb
      (let total_len = ?t in
       if ucast sz < total_len then
         fail_s (BadMetadata ''xattr set is longer than the size it declared'')
       else
         bind_s (read_pairs E sb t sz (length xs) total_len) (\<lambda>es.
           ret_s (\<lparr>xe_name = xe_name ?e, xe_value = sx_value x\<rparr> # es)))
      (?e # map entry_of xs) (concat (map pair_bytes xs))"
    using le by simp
  have split: "concat (map pair_bytes (x # xs)) =
      (to_le_bytes 2 (raw_type_of x) @ to_le_bytes 2 (of_nat (length (sx_suffix x)) :: u16) @
        sx_suffix x @ [] @ []) @
      (case sx_target x of
         None \<Rightarrow> to_le_bytes 4 (of_nat (length (sx_value x)) :: u32) @ sx_value x
       | Some r \<Rightarrow> to_le_bytes 4 (8 :: u32) @ to_le_bytes 8 r @ []) @
      concat (map pair_bytes xs)"
    by (simp only: list.map concat.simps pair_bytes_def [of x] append.assoc)
  show ?case
    unfolding split unfolding length_Cons read_pairs.simps list.map
    by (rule reads_bind, rule reads_name [OF ok], simp only: prod.case,
        rule reads_bind, rule reads_value [OF ok], rule tail)
qed

lemma read_set_layout:
  assumes "mc_sound E sb cache"
    and "unat idx < length (xt_ids t)" "xt_ids t ! unat idx = xid"
    and "\<forall>x \<in> set xs. pair_ok E sb t x"
    and "unat (xi_count xid) = length xs" "xi_count xid \<le> MAX_XATTRS_PER_INODE"
    and "unat (xi_size xid) = set_size (map entry_of xs)"
    and "metadata_at E sb None (start_abs (from_packed (xi_ref xid)) (xt_table_start t))
      (mr_in_block (from_packed (xi_ref xid))) (concat (map pair_bytes xs) @ rest)"
  shows "fst (read_set E sb t idx cache) = Ok (map entry_of xs)"
proof -
  have "reads E sb (read_pairs E sb t (xi_size xid) (length xs) 0) (map entry_of xs)
      (concat (map pair_bytes xs))"
    by (rule reads_pairs) (use assms(4,7) in simp_all)
  from with_cursor_reads [OF this assms(8,1)] show ?thesis
    using assms(2,3,5,6) by (simp add: read_set_def get_def Let_def limited_None flip: not_less)
qed

section \<open>Properties\<close>

text \<open>C32. A set of attributes laid out as the format stores it, values inline or out of line, reads
  back as exactly its names, prefixes put back, and values.\<close>

theorem set_of_layout:
  assumes "mc_sound E sb cache"
    and "unat idx < length (xt_ids t)" "xt_ids t ! unat idx = xid"
    and "\<forall>x \<in> set xs. pair_ok E sb t x"
    and "unat (xi_count xid) = length xs" "xi_count xid \<le> MAX_XATTRS_PER_INODE"
    and "unat (xi_size xid) = set_size (map entry_of xs)"
    and "metadata_at E sb None (start_abs (from_packed (xi_ref xid)) (xt_table_start t))
      (mr_in_block (from_packed (xi_ref xid))) (concat (map pair_bytes xs) @ rest)"
  shows "fst (read_set E sb t idx cache) = Ok (map entry_of xs)"
  using assms by (rule read_set_layout)

definition sample_xattr :: stored_xattr where
  "sample_xattr = \<lparr>sx_prefix = 0, sx_suffix = [0x61], sx_value = [1, 2], sx_target = None\<rparr>"

definition sample_xattr_table :: xattr_id_table where
  "sample_xattr_table =
     \<lparr>xt_table_start = 0, xt_ids = [\<lparr>xi_ref = 0, xi_count = 1, xi_size = 9\<rparr>]\<rparr>"

lemma set_of_layout_witness:
  "fst (read_set (plain_env (stored_block False (pair_bytes sample_xattr))) sample_superblock
     sample_xattr_table 0 None) = Ok [entry_of sample_xattr]"
proof -
  let ?E = "plain_env (stored_block False (pair_bytes sample_xattr))"
  have "metadata_at ?E sample_superblock None 0 0 (pair_bytes sample_xattr @ [])"
    by (rule plain_metadata_at [where rest = "[]", unfolded append_Nil2])
      (simp_all add: pair_bytes_def sample_xattr_def METADATA_SIZE_def)
  then have "fst (read_set ?E sample_superblock sample_xattr_table 0 None) =
      Ok (map entry_of [sample_xattr])"
    by (intro set_of_layout [where xid = "\<lparr>xi_ref = 0, xi_count = 1, xi_size = 9\<rparr>" and rest = "[]"])
      (simp_all add: sample_xattr_table_def pair_ok_def entry_of_def sample_xattr_def PREFIXES_def
        MAX_NAME_LEN_def MAX_VALUE_LEN_def MAX_XATTRS_PER_INODE_def set_size_def from_packed_def
        start_abs_def saturating_add_def)
  then show ?thesis by simp
qed

text \<open>C33. A set that is read is the one asked for: the index is inside the id table, the set has as many
  pairs as the entry at that index counts, their sizes, terminators included, add up to the size that
  entry declares, and every name has a known prefix and every value is within the format's bound; in
  any state of the cache, and without a panic.\<close>

theorem set_adds_up:
  "triple (\<lambda>_. True) (read_set E sb t idx)
    (\<lambda>es. list_all entry_ok es \<and> unat idx < length (xt_ids t) \<and>
      length es = unat (xi_count (xt_ids t ! unat idx)) \<and> set_size es = unat (xi_size (xt_ids t ! unat idx)))"
  by (rule triple_read_set)

end
