(* ===== verification/Dirlist.thy ===== *)
theory Dirlist
  imports Outcome
begin

text \<open>
  The directory-listing parser of \<open>src/dir.rs\<close>.  The layout it accepts is stated by an encoder
  (\<open>listing_bytes\<close>); the parser accepts exactly the encodings of well-formed listings and
  returns their entries in order.
\<close>

definition SQUASHFS_NAME_LEN :: nat where "SQUASHFS_NAME_LEN = 256"
definition MAX_ENTRIES_PER_HEADER :: nat where "MAX_ENTRIES_PER_HEADER = 256"

record dir_entry =
  de_name :: bytes
  de_inode_ref :: u64
  de_type_id :: u16
  de_inode_number :: u32

section \<open>The parser\<close>

definition check_name :: "bytes \<Rightarrow> unit result" where
  "check_name name =
     (if name = [0x2E] \<or> name = [0x2E, 0x2E] then
        Fail (BadDirent ''directory entry name is reserved'')
      else if 0x2F \<in> set name then 
        Fail (BadDirent (''directory entry name contains '' @ [CHR 0x27, CHR ''/'', CHR 0x27]))
      else if 0 \<in> set name then Fail (BadDirent ''directory entry name contains NUL'')
      else Ok ())"

text \<open>The body of the inner loop: one entry at \<open>p\<close>, and where the next one starts.\<close>

definition parse_entry :: "bytes \<Rightarrow> u32 \<Rightarrow> u32 \<Rightarrow> nat \<Rightarrow> (dir_entry \<times> nat) result" where
  "parse_entry buf start base_inode p =
     (if length buf < p + 8 then Fail (BadDirent ''truncated directory entry header'')
      else
        and_then (rd_u16 buf p) (\<lambda>offset.
        and_then (rd_u16 buf (p + 2)) (\<lambda>inode_offset.
        and_then (rd_u16 buf (p + 4)) (\<lambda>type_id.
        and_then (rd_u16 buf (p + 6)) (\<lambda>name_size.
        let p = p + 8;
            name_len = unat name_size + 1
        in
        if SQUASHFS_NAME_LEN < name_len then Fail (BadDirent ''entry name too long'')
        else if length buf < p + name_len then
          Fail (BadDirent ''truncated directory entry name'')
        else
          and_then (slice buf p (p + name_len)) (\<lambda>name.
          let p = p + name_len in
          and_then (check_name name) (\<lambda>_.
            Ok (\<lparr>de_name = name,
                 de_inode_ref = push_bit 16 (ucast start) OR ucast offset,
                 de_type_id = type_id,
                 de_inode_number = ucast ((ucast base_inode :: u64) + scast inode_offset)\<rparr>,
                p))))))))"

fun parse_entries ::
  "bytes \<Rightarrow> u32 \<Rightarrow> u32 \<Rightarrow> nat \<Rightarrow> nat \<Rightarrow> (dir_entry list \<times> nat) result" where
  "parse_entries buf start base_inode 0 p = Ok ([], p)"
| "parse_entries buf start base_inode (Suc n) p =
     and_then (parse_entry buf start base_inode p) (\<lambda>(e, p).
     and_then (parse_entries buf start base_inode n p) (\<lambda>(es, p). Ok (e # es, p)))"

text \<open>One turn of the outer loop: a header at \<open>p\<close> and its entries.\<close>

definition parse_group :: "bytes \<Rightarrow> nat \<Rightarrow> (dir_entry list \<times> nat) result" where
  "parse_group buf p =
     (if length buf < p + 12 then Fail (BadDirent ''truncated directory header'')
      else
        and_then (rd_u32 buf p) (\<lambda>count.
        and_then (rd_u32 buf (p + 4)) (\<lambda>start.
        and_then (rd_u32 buf (p + 8)) (\<lambda>base_inode.
        let p = p + 12 in
        and_then (ok_or (checked_add_usize (unat count) 1)
            (BadDirent ''directory header count overflow'')) (\<lambda>entries.
        if MAX_ENTRIES_PER_HEADER < entries then
          Fail (BadDirent ''directory header count > 256'')
        else parse_entries buf start base_inode entries p)))))"

lemma parse_entry_moves:
  "parse_entry buf st base p = Ok (e, p') \<Longrightarrow> p + 8 < p' \<and> p' \<le> length buf"
  by (auto simp: parse_entry_def Let_def split: if_splits)

lemma parse_entries_moves:
  "parse_entries buf st base n p = Ok (es, p') \<Longrightarrow> p \<le> length buf \<Longrightarrow> p \<le> p' \<and> p' \<le> length buf"
  by (induction buf st base n p arbitrary: es rule: parse_entries.induct)
    (auto dest!: parse_entry_moves, fastforce)

lemma parse_group_moves:
  "parse_group buf p = Ok (es, p') \<Longrightarrow> p + 12 \<le> p' \<and> p' \<le> length buf"
  by (auto simp: parse_group_def Let_def dest!: parse_entries_moves split: if_splits)

function parse_from :: "bytes \<Rightarrow> nat \<Rightarrow> dir_entry list result" where
  "parse_from buf p =
     (if p < length buf then
        (case parse_group buf p of
           Inl e \<Rightarrow> Inl e
         | Inr (es, p') \<Rightarrow> and_then (parse_from buf p') (\<lambda>rest. Ok (es @ rest)))
      else Ok [])"
  by pat_completeness auto
termination
  by (relation "measure (\<lambda>(buf, p). length buf - p)") (auto dest: parse_group_moves sym)

declare parse_from.simps [simp del]

definition parse_listing :: "bytes \<Rightarrow> dir_entry list result" where
  "parse_listing buf = parse_from buf 0"

section \<open>The layout\<close>

text \<open>An entry as it is stored, a header with its entries, and the listing they make.\<close>

record stored_entry =
  se_offset :: u16
  se_delta :: u16
  se_type :: u16
  se_name :: bytes

record stored_group =
  sg_start :: u32
  sg_base :: u32
  sg_entries :: "stored_entry list"

definition entry_bytes :: "stored_entry \<Rightarrow> bytes" where
  "entry_bytes r =
     to_le_bytes 2 (se_offset r) @ to_le_bytes 2 (se_delta r) @ to_le_bytes 2 (se_type r) @
     to_le_bytes 2 (of_nat (length (se_name r) - 1) :: u16) @ se_name r"

definition group_bytes :: "stored_group \<Rightarrow> bytes" where
  "group_bytes g =
     to_le_bytes 4 (of_nat (length (sg_entries g) - 1) :: u32) @ to_le_bytes 4 (sg_start g) @
     to_le_bytes 4 (sg_base g) @ concat (map entry_bytes (sg_entries g))"

definition listing_bytes :: "stored_group list \<Rightarrow> bytes" where
  "listing_bytes gs = concat (map group_bytes gs)"

text \<open>A name the parser may hand out: not empty, at most 256 bytes, one path component, no NUL.\<close>

definition name_ok :: "bytes \<Rightarrow> bool" where
  "name_ok name \<longleftrightarrow>
     name \<noteq> [] \<and> length name \<le> 256 \<and> name \<noteq> [0x2E] \<and> name \<noteq> [0x2E, 0x2E] \<and>
     0x2F \<notin> set name \<and> 0 \<notin> set name"

definition group_ok :: "stored_group \<Rightarrow> bool" where
  "group_ok g \<longleftrightarrow>
     sg_entries g \<noteq> [] \<and> length (sg_entries g) \<le> 256 \<and>
     (\<forall>r \<in> set (sg_entries g). name_ok (se_name r))"

definition resolve :: "u32 \<Rightarrow> u32 \<Rightarrow> stored_entry \<Rightarrow> dir_entry" where
  "resolve start base r =
     \<lparr>de_name = se_name r,
      de_inode_ref = of_nat (unat start * 2 ^ 16 + unat (se_offset r)),
      de_type_id = se_type r,
      de_inode_number = of_int (uint base + sint (se_delta r))\<rparr>"

definition group_entries :: "stored_group \<Rightarrow> dir_entry list" where
  "group_entries g = map (resolve (sg_start g) (sg_base g)) (sg_entries g)"

section \<open>The parser accepts exactly the layout\<close>

lemma inode_ref_eq:
  "push_bit 16 (ucast (s :: u32)) OR ucast (off :: u16) = (of_nat (unat s * 2 ^ 16 + unat off) :: u64)"
proof -
  have "(of_nat (unat s * 2 ^ 16 + unat off) :: u64) = push_bit 16 (ucast s) + ucast off"
    by (simp add: push_bit_eq_mult)
  also have "\<dots> = push_bit 16 (ucast s) OR ucast off"
    by (rule disjunctive_add_eq_or, rule bit_word_eqI) (auto simp: bit_simps dest: bit_imp_le_length)
  finally show ?thesis by simp
qed

lemma inode_number_eq:
  "(ucast ((ucast (base :: u32) :: u64) + scast (d :: u16)) :: u32) = of_int (uint base + sint d)"
  by transfer (simp add: take_bit_add)

lemma le_fields4:
  assumes "8 \<le> length bs"
  shows "to_le_bytes 2 (field 2 bs 0 :: u16) @ to_le_bytes 2 (field 2 bs 2 :: u16) @
    to_le_bytes 2 (field 2 bs 4 :: u16) @ to_le_bytes 2 (field 2 bs 6 :: u16) @ drop 8 bs = bs"
proof -
  have t: "take 2 (drop k bs) @ drop (k + 2) bs = drop k bs" for k
    by (metis append_take_drop_id drop_drop add.commute)
  have f: "to_le_bytes 2 (field 2 bs k :: u16) = take 2 (drop k bs)" if "k + 2 \<le> length bs" for k
    using that by (simp add: to_le_bytes_field)
  have "to_le_bytes 2 (field 2 bs 0 :: u16) @ to_le_bytes 2 (field 2 bs 2 :: u16) @
      to_le_bytes 2 (field 2 bs 4 :: u16) @ to_le_bytes 2 (field 2 bs 6 :: u16) @ drop 8 bs =
      take 2 (drop 0 bs) @ take 2 (drop 2 bs) @ take 2 (drop 4 bs) @ take 2 (drop 6 bs) @ drop 8 bs"
    using assms by (simp add: f)
  also have "\<dots> = bs"
    using t [of 0] t [of 2] t [of 4] t [of 6] by simp
  finally show ?thesis .
qed

lemma check_name_Ok: "check_name name = Ok u \<longleftrightarrow>
    name \<noteq> [0x2E] \<and> name \<noteq> [0x2E, 0x2E] \<and> 0x2F \<notin> set name \<and> 0 \<notin> set name"
  by (simp add: check_name_def)

lemma length_entry_bytes: "length (entry_bytes r) = 8 + length (se_name r)"
  by (simp add: entry_bytes_def)

lemma parse_entry_complete:
  assumes "name_ok (se_name r)" "p \<le> length buf" "drop p buf = entry_bytes r @ rest"
  shows "parse_entry buf st base p = Ok (resolve st base r, p + length (entry_bytes r))"
proof -
  have "1 \<le> length (se_name r)" "length (se_name r) \<le> 256"
    using assms(1) by (auto simp: name_ok_def Suc_le_eq)
  then have n: "unat (of_nat (length (se_name r) - 1) :: u16) + 1 = length (se_name r)"
    by (simp add: unat_of_nat take_bit_nat_eq_self del: of_nat_diff)
  have len: "length buf = p + 8 + length (se_name r) + length rest"
    using assms(2,3) by (metis (no_types, lifting) length_append length_drop length_entry_bytes
        le_add_diff_inverse add.assoc)
  have f: "(field 2 buf (p + k) :: u16) = field 2 (entry_bytes r @ rest) k" for k
    by (simp add: field_drop assms(3))
  have fields: "(field 2 buf p :: u16) = se_offset r" "(field 2 buf (p + 2) :: u16) = se_delta r"
    "(field 2 buf (p + 4) :: u16) = se_type r"
    "(field 2 buf (p + 6) :: u16) = of_nat (length (se_name r) - 1)"
    using f [of 0] f [of 2] f [of 4] f [of 6]
    by (simp_all add: entry_bytes_def field_skip field_to_le_bytes)
  obtain w where w: "(field 2 buf (p + 6) :: u16) = w" "unat w + 1 = length (se_name r)"
    using fields(4) n by blast
  have "drop (p + 8) buf = drop 8 (entry_bytes r @ rest)"
    by (metis assms(3) drop_drop add.commute)
  then have name: "take (length (se_name r)) (drop (p + 8) buf) = se_name r"
    by (simp add: entry_bytes_def)
  have "check_name (se_name r) = Ok ()"
    using assms(1) by (simp add: check_name_Ok name_ok_def)
  with assms(1) w len name show ?thesis
    by (simp add: parse_entry_def read_simps fields(1-3) w(1) Let_def SQUASHFS_NAME_LEN_def
        name_ok_def length_entry_bytes resolve_def inode_ref_eq inode_number_eq
        del: add_2_eq_Suc')
qed

lemma parse_entry_parts:
  assumes "parse_entry buf st base p = Ok (e, p')"
    and "n = unat (field 2 buf (p + 6) :: u16) + 1"
  shows "p + 8 + n \<le> length buf" "n \<le> 256" "check_name (take n (drop (p + 8) buf)) = Ok ()"
proof -
  from assms have "p + 8 \<le> length buf"
    by (simp add: parse_entry_def split: if_splits)
  with assms show "p + 8 + n \<le> length buf" "n \<le> 256" "check_name (take n (drop (p + 8) buf)) = Ok ()"
    by (simp_all add: parse_entry_def read_simps Let_def SQUASHFS_NAME_LEN_def split: if_splits)
qed

lemma parse_entry_sound:
  assumes "parse_entry buf st base p = Ok (e, p')"
  shows "\<exists>r rest. name_ok (se_name r) \<and> drop p buf = entry_bytes r @ rest"
proof -
  define n where "n = unat (field 2 buf (p + 6) :: u16) + 1"
  note parts = parse_entry_parts [OF assms n_def]
  define bs where "bs = drop p buf"
  define r where "r = \<lparr>se_offset = field 2 bs 0, se_delta = field 2 bs 2,
      se_type = field 2 bs 4, se_name = take n (drop (p + 8) buf)\<rparr>"
  have l: "length (se_name r) = n" using parts(1) by (simp add: r_def)
  then have "(of_nat (length (se_name r) - 1) :: u16) = field 2 bs 6"
    by (simp add: n_def field_drop bs_def)
  moreover have "take n (drop (p + 8) buf) @ drop (p + 8 + n) buf = drop 8 bs"
    unfolding bs_def by (metis append_take_drop_id drop_drop add.commute)
  ultimately have "entry_bytes r @ drop (p + 8 + n) buf =
      to_le_bytes 2 (field 2 bs 0 :: u16) @ to_le_bytes 2 (field 2 bs 2 :: u16) @
      to_le_bytes 2 (field 2 bs 4 :: u16) @ to_le_bytes 2 (field 2 bs 6 :: u16) @ drop 8 bs"
    by (simp add: entry_bytes_def r_def)
  also have "\<dots> = bs" using parts(1) by (intro le_fields4) (simp add: bs_def)
  finally have "drop p buf = entry_bytes r @ drop (p + 8 + n) buf" by (simp add: bs_def)
  moreover have "se_name r \<noteq> []" using l by (auto simp: n_def)
  with parts(2,3) l have "name_ok (se_name r)"
    by (simp add: name_ok_def check_name_Ok r_def)
  ultimately show ?thesis by blast
qed

lemma parse_entries_complete:
  assumes "\<forall>r \<in> set rs. name_ok (se_name r)" "p \<le> length buf"
    and "drop p buf = concat (map entry_bytes rs) @ rest"
  shows "parse_entries buf st base (length rs) p =
    Ok (map (resolve st base) rs, p + length (concat (map entry_bytes rs)))"
  using assms
proof (induction rs arbitrary: p)
  case Nil
  then show ?case by simp
next
  case (Cons r rs)
  from Cons.prems have d: "drop p buf = entry_bytes r @ concat (map entry_bytes rs) @ rest" by simp
  with Cons.prems have e: "parse_entry buf st base p = Ok (resolve st base r, p + length (entry_bytes r))"
    by (intro parse_entry_complete) auto
  have "drop (p + length (entry_bytes r)) buf = concat (map entry_bytes rs) @ rest"
    using d by (metis append_eq_conv_conj drop_drop add.commute)
  moreover have "p + length (entry_bytes r) \<le> length buf"
    using parse_entry_moves [OF e] by simp
  ultimately show ?case
    using Cons e by (simp add: add.assoc)
qed

lemma parse_entries_sound:
  assumes "parse_entries buf st base n p = Ok (es, p')" "p \<le> length buf"
  shows "\<exists>rs rest. length rs = n \<and> (\<forall>r \<in> set rs. name_ok (se_name r)) \<and>
    drop p buf = concat (map entry_bytes rs) @ rest"
  using assms
proof (induction n arbitrary: p es)
  case 0
  then show ?case by auto
next
  case (Suc n)
  then obtain e q es' where e: "parse_entry buf st base p = Ok (e, q)"
    "parse_entries buf st base n q = Ok (es', p')" by auto
  from parse_entry_sound [OF e(1)] obtain r rest where
    r: "name_ok (se_name r)" "drop p buf = entry_bytes r @ rest" by blast
  with parse_entry_complete [OF r(1) Suc.prems(2) r(2), of st base] e(1) have
    q: "q = p + length (entry_bytes r)" by simp
  have "q \<le> length buf" using parse_entry_moves [OF e(1)] by simp
  from Suc.IH [OF e(2) this] obtain rs rest' where
    rs: "length rs = n" "\<forall>r \<in> set rs. name_ok (se_name r)"
      "drop q buf = concat (map entry_bytes rs) @ rest'" by blast
  have "drop q buf = rest"
    using r(2) q by (metis append_eq_conv_conj drop_drop add.commute)
  with r rs show ?case by (intro exI [of _ "r # rs"] exI [of _ rest']) simp
qed

lemma group_header:
  assumes "group_ok g" "drop p buf = group_bytes g @ rest" "p \<le> length buf"
  shows "rd_u32 buf p = Ok (of_nat (length (sg_entries g) - 1))"
    "rd_u32 buf (p + 4) = Ok (sg_start g)" "rd_u32 buf (p + 8) = Ok (sg_base g)"
    "p + 12 \<le> length buf"
    "drop (p + 12) buf = concat (map entry_bytes (sg_entries g)) @ rest"
proof -
  have "length (drop p buf) = length (group_bytes g @ rest)" using assms(2) by simp
  with assms(3) show le: "p + 12 \<le> length buf" by (simp add: group_bytes_def)
  have f: "(field 4 buf (p + k) :: u32) = field 4 (group_bytes g @ rest) k" for k
    by (simp add: field_drop assms(2))
  show "rd_u32 buf p = Ok (of_nat (length (sg_entries g) - 1))"
    "rd_u32 buf (p + 4) = Ok (sg_start g)" "rd_u32 buf (p + 8) = Ok (sg_base g)"
    using f [of 0] f [of 4] f [of 8] le
    by (simp_all add: read_simps group_bytes_def field_skip field_to_le_bytes)
  have "drop (p + 12) buf = drop 12 (group_bytes g @ rest)"
    by (metis assms(2) drop_drop add.commute)
  then show "drop (p + 12) buf = concat (map entry_bytes (sg_entries g)) @ rest"
    by (simp add: group_bytes_def)
qed

lemma group_count:
  "group_ok g \<Longrightarrow> unat (of_nat (length (sg_entries g) - 1) :: u32) + 1 = length (sg_entries g)"
  by (cases "sg_entries g") (simp_all add: group_ok_def unat_of_nat take_bit_nat_eq_self)

lemma parse_group_complete:
  assumes "group_ok g" "p \<le> length buf" "drop p buf = group_bytes g @ rest"
  shows "parse_group buf p = Ok (group_entries g, p + length (group_bytes g))"
proof -
  note h = group_header [OF assms(1,3,2)]
  obtain w where w: "rd_u32 buf p = Ok w" "unat w + 1 = length (sg_entries g)"
    using h(1) group_count [OF assms(1)] by blast
  have "parse_entries buf (sg_start g) (sg_base g) (length (sg_entries g)) (p + 12) =
      Ok (group_entries g, p + 12 + length (concat (map entry_bytes (sg_entries g))))"
    unfolding group_entries_def
    by (rule parse_entries_complete [OF _ h(4,5)]) (use assms(1) in \<open>simp add: group_ok_def\<close>)
  moreover have "length (sg_entries g) \<le> 256" using assms(1) by (simp add: group_ok_def)
  ultimately show ?thesis
    using w h(2-4)
    by (simp add: parse_group_def Let_def checked_add_usize_def usize_limit_def
        MAX_ENTRIES_PER_HEADER_def group_bytes_def del: One_nat_def Suc_eq_plus1 add_Suc_right)
qed

lemma le_fields3:
  assumes "12 \<le> length bs"
  shows "to_le_bytes 4 (field 4 bs 0 :: u32) @ to_le_bytes 4 (field 4 bs 4 :: u32) @
    to_le_bytes 4 (field 4 bs 8 :: u32) @ drop 12 bs = bs"
proof -
  have t: "take 4 (drop k bs) @ drop (k + 4) bs = drop k bs" for k
    by (metis append_take_drop_id drop_drop add.commute)
  have f: "to_le_bytes 4 (field 4 bs k :: u32) = take 4 (drop k bs)" if "k + 4 \<le> length bs" for k
    using that by (simp add: to_le_bytes_field)
  show ?thesis
    using assms t [of 0] t [of 4] t [of 8] by (simp add: f)
qed

lemma parse_group_parts:
  assumes "parse_group buf p = Ok (es, p')" and "c = (field 4 buf p :: u32)"
  shows "p + 12 \<le> length buf" "unat c + 1 \<le> 256"
    "parse_entries buf (field 4 buf (p + 4)) (field 4 buf (p + 8)) (unat c + 1) (p + 12) = Ok (es, p')"
proof -
  from assms show le: "p + 12 \<le> length buf"
    by (simp add: parse_group_def split: if_splits)
  with assms show "unat c + 1 \<le> 256"
    "parse_entries buf (field 4 buf (p + 4)) (field 4 buf (p + 8)) (unat c + 1) (p + 12) = Ok (es, p')"
    by (simp_all add: parse_group_def read_simps Let_def checked_add_usize_def
        MAX_ENTRIES_PER_HEADER_def del: parse_entries.simps split: if_splits)
qed

lemma parse_group_sound:
  assumes "parse_group buf p = Ok (es, p')"
  shows "\<exists>g rest. group_ok g \<and> drop p buf = group_bytes g @ rest"
proof -
  define c where "c = (field 4 buf p :: u32)"
  note parts = parse_group_parts [OF assms c_def]
  define bs where "bs = drop p buf"
  from parse_entries_sound [OF parts(3,1)] obtain rs rest where
    rs: "length rs = unat c + 1" "\<forall>r \<in> set rs. name_ok (se_name r)"
      "drop (p + 12) buf = concat (map entry_bytes rs) @ rest" by blast
  define g where "g = \<lparr>sg_start = field 4 bs 4, sg_base = field 4 bs 8, sg_entries = rs\<rparr>"
  have "(of_nat (length rs - 1) :: u32) = field 4 bs 0"
    using rs(1) field_drop [of 4 buf p 0] by (simp add: c_def bs_def)
  moreover have "drop 12 bs = drop (p + 12) buf" by (simp add: bs_def add.commute)
  ultimately have "group_bytes g @ rest =
      to_le_bytes 4 (field 4 bs 0 :: u32) @ to_le_bytes 4 (field 4 bs 4 :: u32) @
      to_le_bytes 4 (field 4 bs 8 :: u32) @ drop 12 bs"
    using rs(3) by (simp add: group_bytes_def g_def)
  also have "\<dots> = bs" using parts(1) by (intro le_fields3) (simp add: bs_def)
  finally have "drop p buf = group_bytes g @ rest" by (simp add: bs_def)
  moreover have "group_ok g" using rs(1,2) parts(2) by (auto simp: group_ok_def g_def)
  ultimately show ?thesis by blast
qed

lemma parse_from_complete:
  assumes "\<forall>g \<in> set gs. group_ok g" "p \<le> length buf" "drop p buf = listing_bytes gs"
  shows "parse_from buf p = Ok (concat (map group_entries gs))"
  using assms
proof (induction gs arbitrary: p)
  case Nil
  then show ?case by (simp add: listing_bytes_def parse_from.simps)
next
  case (Cons g gs)
  then have d: "drop p buf = group_bytes g @ listing_bytes gs" by (simp add: listing_bytes_def)
  have e: "parse_group buf p = Ok (group_entries g, p + length (group_bytes g))"
    by (rule parse_group_complete [OF _ Cons.prems(2) d]) (use Cons.prems in simp)
  have "drop (p + length (group_bytes g)) buf = listing_bytes gs"
    using d by (metis append_eq_conv_conj drop_drop add.commute)
  moreover have "p + length (group_bytes g) \<le> length buf" "p < length buf"
    using parse_group_moves [OF e] by auto
  ultimately show ?case
    using Cons e by (simp add: parse_from.simps [of buf p])
qed

lemma parse_from_sound:
  "parse_from buf p = Ok es \<Longrightarrow> p \<le> length buf \<Longrightarrow>
    \<exists>gs. (\<forall>g \<in> set gs. group_ok g) \<and> drop p buf = listing_bytes gs"
proof (induction buf p arbitrary: es rule: parse_from.induct)
  case (1 buf p)
  show ?case
  proof (cases "p < length buf")
    case False
    with 1 show ?thesis by (intro exI [of _ "[]"]) (simp add: listing_bytes_def)
  next
    case True
    with 1(2) obtain es1 q es2 where e: "parse_group buf p = Ok (es1, q)" "parse_from buf q = Ok es2"
      by (auto simp: parse_from.simps [of buf p] split: sum.splits)
    from parse_group_sound [OF e(1)] obtain g rest where
      g: "group_ok g" "drop p buf = group_bytes g @ rest" by blast
    with parse_group_complete [OF g(1) 1(3) g(2)] e(1) have q: "q = p + length (group_bytes g)" by simp
    have "q \<le> length buf" using parse_group_moves [OF e(1)] by simp
    from 1(1) [OF True e(1) refl e(2) this] obtain gs where
      gs: "\<forall>g \<in> set gs. group_ok g" "drop q buf = listing_bytes gs" by blast
    have "drop q buf = rest" using g(2) q by (metis append_eq_conv_conj drop_drop add.commute)
    with g gs show ?thesis by (intro exI [of _ "g # gs"]) (simp add: listing_bytes_def)
  qed
qed

lemma parse_listing_iff:
  "parse_listing buf = Ok es \<longleftrightarrow>
    (\<exists>gs. (\<forall>g \<in> set gs. group_ok g) \<and> buf = listing_bytes gs \<and> es = concat (map group_entries gs))"
proof
  assume "parse_listing buf = Ok es"
  moreover from this obtain gs where "\<forall>g \<in> set gs. group_ok g" "buf = listing_bytes gs"
    using parse_from_sound [of buf 0 es] by (auto simp: parse_listing_def)
  moreover from this have "parse_from buf 0 = Ok (concat (map group_entries gs))"
    by (intro parse_from_complete) auto
  ultimately show "\<exists>gs. (\<forall>g \<in> set gs. group_ok g) \<and> buf = listing_bytes gs \<and>
      es = concat (map group_entries gs)"
    by (auto simp: parse_listing_def)
next
  assume "\<exists>gs. (\<forall>g \<in> set gs. group_ok g) \<and> buf = listing_bytes gs \<and>
      es = concat (map group_entries gs)"
  then show "parse_listing buf = Ok es"
    using parse_from_complete [of _ 0 buf] by (auto simp: parse_listing_def)
qed

section \<open>It never panics, and every name is a single component\<close>

lemma safe_check_name [simp]: "safe (check_name name)"
  by (simp add: check_name_def)

lemma safe_parse_entry: "safe (parse_entry buf st base p)"
  unfolding parse_entry_def Let_def by (auto simp: read_simps intro!: safe_and_then)

lemma safe_parse_entries: "safe (parse_entries buf st base n p)"
  by (induction buf st base n p rule: parse_entries.induct)
    (auto intro!: safe_and_then safe_parse_entry)

lemma safe_parse_group: "safe (parse_group buf p)"
  unfolding parse_group_def Let_def
  by (auto simp: read_simps safe_parse_entries intro!: safe_and_then)

lemma safe_parse_from: "safe (parse_from buf p)"
proof (induction buf p rule: parse_from.induct)
  case (1 buf p)
  show ?case
  proof (cases "parse_group buf p")
    case (Inl e)
    with safe_parse_group [of buf p] show ?thesis
      by (subst parse_from.simps) (simp add: safe_def)
  next
    case (Inr r)
    with 1 show ?thesis
      by (subst parse_from.simps) (cases r, auto intro!: safe_and_then)
  qed
qed

lemma safe_parse_listing [simp]: "safe (parse_listing buf)"
  by (simp add: parse_listing_def safe_parse_from)

lemma parse_listing_names:
  "parse_listing buf = Ok es \<Longrightarrow> e \<in> set es \<Longrightarrow> name_ok (de_name e)"
  by (auto simp: parse_listing_iff group_ok_def group_entries_def resolve_def)

section \<open>Properties\<close>

text \<open>C30. The directory parser accepts exactly the listings the format allows, headers of 1 to 256
  entries with names of single path components, and returns every entry, in order, with the inode
  reference, number and type it stores; the bytes decide the entries.\<close>

theorem parse_listing_exact:
  "parse_listing buf = Ok es \<longleftrightarrow>
    (\<exists>gs. list_all group_ok gs \<and> buf = listing_bytes gs \<and> es = concat (map group_entries gs))"
  by (simp add: parse_listing_iff list_all_iff)

end
