(* ===== verification/Data_Cache.thy ===== *)
theory Data_Cache
  imports Externals
begin

text \<open>
  The cache of decompressed data and fragment blocks of \<open>src/fs.rs\<close> (\<open>DataCache\<close>): a block is
  kept under its whole request, so that the same offset asked for with another size word or
  another bound is another entry.  It provides the memo interface of \<^theory_text>\<open>Externals\<close>.
\<close>

type_synonym data_key = "u64 \<times> u32 \<times> nat"

record 'd data_cache =
  dc_lru :: "'d option"
  dc_hits :: u64
  dc_misses :: u64

definition dc_lru_of :: "('k, 'v, 'd) lru_ops \<Rightarrow> nat \<Rightarrow> 'd option" where
  "dc_lru_of L capacity = (if capacity = 0 then None else Some (lru_new L capacity))"

definition dc_new :: "(data_key, bytes, 'd) lru_ops \<Rightarrow> nat \<Rightarrow> 'd data_cache" where
  "dc_new L capacity = \<lparr>dc_lru = dc_lru_of L capacity, dc_hits = 0, dc_misses = 0\<rparr>"

definition dc_set_capacity ::
  "(data_key, bytes, 'd) lru_ops \<Rightarrow> nat \<Rightarrow> 'd data_cache \<Rightarrow> 'd data_cache" where
  "dc_set_capacity L capacity g =
     g\<lparr>dc_lru := dc_lru_of L capacity, dc_hits := 0, dc_misses := 0\<rparr>"

definition dc_stats :: "(data_key, bytes, 'd) lru_ops \<Rightarrow> 'd data_cache \<Rightarrow> nat \<times> nat \<times> u64 \<times> u64" where
  "dc_stats L g =
     (case dc_lru g of
        Some lru \<Rightarrow> (lru_len L lru, lru_cap L lru, dc_hits g, dc_misses g)
      | None \<Rightarrow> (0, 0, dc_hits g, dc_misses g))"

definition dc_get ::
  "(data_key, bytes, 'd) lru_ops \<Rightarrow> 'd data_cache \<Rightarrow> data_key \<Rightarrow> bytes option \<times> 'd data_cache" where
  "dc_get L g key =
     (case dc_lru g of
        None \<Rightarrow> (None, g)
      | Some lru \<Rightarrow>
          (case lru_get L lru key of
             (Some hit, lru') \<Rightarrow> (Some hit, g\<lparr>dc_lru := Some lru', dc_hits := dc_hits g + 1\<rparr>)
           | (None, lru') \<Rightarrow> (None, g\<lparr>dc_lru := Some lru', dc_misses := dc_misses g + 1\<rparr>)))"

definition dc_insert ::
  "(data_key, bytes, 'd) lru_ops \<Rightarrow> 'd data_cache \<Rightarrow> data_key \<Rightarrow> bytes \<Rightarrow> 'd data_cache" where
  "dc_insert L g key block =
     (case dc_lru g of
        None \<Rightarrow> g
      | Some lru \<Rightarrow> g\<lparr>dc_lru := Some (lru_put L lru key block)\<rparr>)"

definition dc_holds ::
  "(data_key, bytes, 'd) lru_ops \<Rightarrow> 'd data_cache \<Rightarrow> data_key \<Rightarrow> bytes \<Rightarrow> bool" where
  "dc_holds L g key block \<longleftrightarrow> (\<exists>lru. dc_lru g = Some lru \<and> lru_holds L lru key = Some block)"

interpretation data: memo_cache "dc_get L" "dc_insert L" "dc_holds L" "\<lambda>_. lru_contract L"
  for L :: "(data_key, bytes, 'd) lru_ops"
  by unfold_locales
    (auto simp: dc_get_def dc_insert_def dc_holds_def lru_get_keeps
      dest: lru_put_holds dest!: lru_get_holds split: option.splits prod.splits)

lemma dc_new_holds: "lru_contract L \<Longrightarrow> \<not> dc_holds L (dc_new L n) key block"
  by (auto simp: dc_holds_def dc_new_def dc_lru_of_def lru_new_empty split: if_splits)

lemma dc_set_capacity_holds: "lru_contract L \<Longrightarrow> \<not> dc_holds L (dc_set_capacity L n g) key block"
  by (auto simp: dc_holds_def dc_set_capacity_def dc_lru_of_def lru_new_empty split: if_splits)

text \<open>A lookup counts exactly one of the two counters while the cache is on, and neither while it
  is off; a capacity of zero holds nothing.\<close>

lemma dc_get_counts:
  "dc_get L g key = (r, g') \<Longrightarrow>
    (dc_lru g = None \<longrightarrow> r = None \<and> g' = g) \<and>
    (dc_lru g \<noteq> None \<longrightarrow>
      dc_hits g' = dc_hits g + (if r = None then 0 else 1) \<and>
      dc_misses g' = dc_misses g + (if r = None then 1 else 0))"
  by (auto simp: dc_get_def split: option.splits prod.splits)

lemma dc_off: "dc_lru (dc_set_capacity L 0 g) = None"
  by (simp add: dc_set_capacity_def dc_lru_of_def)

end
