(* ===== verification/Filesystem.thy ===== *)
theory Filesystem
  imports Xattrs Dirlist Data_Cache
begin

text \<open>
  The filesystem handle of \<open>src/fs.rs\<close>: opening an image, resolving owners, inodes, directories,
  paths and attributes.  The handle's fields do not change after \<open>open\<close>; what a call may change
  is the two caches behind their locks, which are the state (\<open>caches\<close>) its methods run in.
\<close>

definition DEFAULT_CACHE_BLOCKS :: nat where "DEFAULT_CACHE_BLOCKS = 32"
definition DEFAULT_META_CACHE_BLOCKS :: nat where "DEFAULT_META_CACHE_BLOCKS = 256"
definition DEFAULT_DATA_CACHE_BLOCKS :: nat where "DEFAULT_DATA_CACHE_BLOCKS = 8"

text \<open>The code outside the crate: the codecs, the LRU crate at its two types, and
  \<open>fs_core::CachingDevice::read_only\<close>.\<close>

record ('c, 'd) world =
  w_codecs :: codecs
  w_meta_lru :: "(u64, cached_block, 'c) lru_ops"
  w_data_lru :: "(data_key, bytes, 'd) lru_ops"
  w_caching_device :: "device \<Rightarrow> u64 \<Rightarrow> nat \<Rightarrow> device"

record filesystem =
  fs_dev :: device
  fs_sb :: superblock
  fs_comp :: compressor
  fs_id_table :: "u32 list"
  fs_fragments :: "fragment_entry list"
  fs_xattr_ids :: "xattr_id_table option"
  fs_exports :: "export_table option"
  fs_dir_table_end :: u64

record ('c, 'd) caches =
  ca_meta :: "'c meta_cache"
  ca_data :: "'d data_cache"

definition meta_env_on :: "('c, 'd) world \<Rightarrow> device \<Rightarrow> 'c meta_env" where
  "meta_env_on W dev = \<lparr>me_dev = dev, me_codecs = w_codecs W, me_lru = w_meta_lru W\<rparr>"

abbreviation env :: "('c, 'd) world \<Rightarrow> filesystem \<Rightarrow> 'c meta_env" where
  "env W fs \<equiv> meta_env_on W (fs_dev fs)"

section \<open>Opening an image\<close>

definition superblock_read :: "device \<Rightarrow> superblock result" where
  "superblock_read dev = and_then (read_at dev 0 SUPERBLOCK_SIZE) parse"

text \<open>The loop over the four tables that come after the directory table.\<close>

fun nearest_table :: "device \<Rightarrow> superblock \<Rightarrow> (u64 \<times> bool) list \<Rightarrow> u64 \<Rightarrow> u64" where
  "nearest_table dev sb [] end_at = end_at"
| "nearest_table dev sb ((start, has_blocks) # ts) end_at =
     (if start = NO_TABLE \<or> \<not> has_blocks then nearest_table dev sb ts end_at
      else
        (case read_at dev start 8 of
           Inl _ \<Rightarrow> nearest_table dev sb ts end_at
         | Inr b \<Rightarrow>
             let first = from_le_bytes b :: u64 in
             nearest_table dev sb ts
               (if sb_directory_table_start sb < first then min end_at first else end_at)))"

definition directory_table_end :: "device \<Rightarrow> superblock \<Rightarrow> u64" where
  "directory_table_end dev sb =
     nearest_table dev sb
       [(sb_fragment_table_start sb, 0 < sb_fragment_entry_count sb),
        (sb_export_table_start sb, True),
        (sb_id_table_start sb, 0 < sb_id_count sb),
        (sb_xattr_id_table_start sb, True)]
       (directory_table_end_sb sb)"

definition open_with_cache ::
  "('c, 'd) world \<Rightarrow> device \<Rightarrow> nat \<Rightarrow> (filesystem \<times> ('c, 'd) caches) result" where
  "open_with_cache W dev blocks =
     and_then
       (if blocks = 0 then Ok dev
        else
          and_then (superblock_read dev) (\<lambda>sb.
            Ok (w_caching_device W dev (ucast (sb_block_size sb)) blocks))) (\<lambda>dev.
     let E = meta_env_on W dev in
     and_then (superblock_read dev) (\<lambda>sb.
     and_then (validate_against_device sb (dev_size_bytes dev)) (\<lambda>_.
     and_then (sb_compressor sb) (\<lambda>c.
     if \<not> is_supported c then Fail (UnsupportedCompression (sb_compression_id sb))
     else
       and_then (read_id_table E sb) (\<lambda>id_table.
       and_then (read_fragment_table E sb) (\<lambda>fragments.
       and_then (xattr_read_id_table E sb) (\<lambda>xattr_ids.
       and_then (read_export_table E sb) (\<lambda>exports.
         Ok (\<lparr>fs_dev = dev, fs_sb = sb, fs_comp = c, fs_id_table = id_table,
              fs_fragments = fragments, fs_xattr_ids = xattr_ids, fs_exports = exports,
              fs_dir_table_end = directory_table_end dev sb\<rparr>,
             \<lparr>ca_meta = mc_new (w_meta_lru W) DEFAULT_META_CACHE_BLOCKS,
              ca_data = dc_new (w_data_lru W) DEFAULT_DATA_CACHE_BLOCKS\<rparr>)))))))))"

definition open_image :: "('c, 'd) world \<Rightarrow> device \<Rightarrow> (filesystem \<times> ('c, 'd) caches) result" where
  "open_image W dev = open_with_cache W dev DEFAULT_CACHE_BLOCKS"

section \<open>The caches of a mount\<close>

definition set_meta_cache_capacity :: "('c, 'd) world \<Rightarrow> nat \<Rightarrow> ('c, 'd) caches \<Rightarrow> ('c, 'd) caches" where
  "set_meta_cache_capacity W blocks s =
     s\<lparr>ca_meta := mc_set_capacity (w_meta_lru W) blocks (ca_meta s)\<rparr>"

definition set_data_cache_capacity :: "('c, 'd) world \<Rightarrow> nat \<Rightarrow> ('c, 'd) caches \<Rightarrow> ('c, 'd) caches" where
  "set_data_cache_capacity W blocks s =
     s\<lparr>ca_data := dc_set_capacity (w_data_lru W) blocks (ca_data s)\<rparr>"

text \<open>A metadata read through the mount's own cache.\<close>

definition on_meta :: "('c meta_cache option, 'a) sm \<Rightarrow> (('c, 'd) caches, 'a) sm" where
  "on_meta m s =
     (case m (Some (ca_meta s)) of
        (r, Some c) \<Rightarrow> (r, s\<lparr>ca_meta := c\<rparr>)
      | (r, None) \<Rightarrow> (r, s))"

section \<open>Owners and inodes\<close>

definition resolve_id :: "filesystem \<Rightarrow> u16 \<Rightarrow> string \<Rightarrow> u32 result" where
  "resolve_id fs idx what = ok_or (get (fs_id_table fs) (unat idx)) (BadInode what)"

definition resolve_uid :: "filesystem \<Rightarrow> u16 \<Rightarrow> u32 result" where
  "resolve_uid fs idx = resolve_id fs idx ''uid index past the image's id table''"

definition resolve_gid :: "filesystem \<Rightarrow> u16 \<Rightarrow> u32 result" where
  "resolve_gid fs idx = resolve_id fs idx ''gid index past the image's id table''"

definition read_inode ::
  "('c, 'd) world \<Rightarrow> filesystem \<Rightarrow> u64 \<Rightarrow> (('c, 'd) caches, inode) sm" where
  "read_inode W fs inode_ref = on_meta (inode_read (env W fs) (fs_sb fs) inode_ref)"

definition is_exportable :: "filesystem \<Rightarrow> bool" where
  "is_exportable fs \<longleftrightarrow> fs_exports fs \<noteq> None"

definition inode_ref_for_number ::
  "('c, 'd) world \<Rightarrow> filesystem \<Rightarrow> u32 \<Rightarrow> (('c, 'd) caches, u64) sm" where
  "inode_ref_for_number W fs inode_number =
     bind_s (lift_s (ok_or (fs_exports fs) NotExportable)) (\<lambda>t.
       on_meta (export_lookup (env W fs) (fs_sb fs) t inode_number))"

definition read_inode_by_number ::
  "('c, 'd) world \<Rightarrow> filesystem \<Rightarrow> u32 \<Rightarrow> (('c, 'd) caches, inode) sm" where
  "read_inode_by_number W fs inode_number =
     bind_s (inode_ref_for_number W fs inode_number) (read_inode W fs)"

definition root_inode :: "('c, 'd) world \<Rightarrow> filesystem \<Rightarrow> (('c, 'd) caches, inode) sm" where
  "root_inode W fs = read_inode W fs (sb_root_inode_ref (fs_sb fs))"

section \<open>Directories and paths\<close>

definition read_dir ::
  "('c, 'd) world \<Rightarrow> filesystem \<Rightarrow> inode \<Rightarrow> (('c, 'd) caches, dir_entry list) sm" where
  "read_dir W fs i =
     (if \<not> is_dir i then fail_s NotADirectory
      else
        let listing_len = dir_listing_len i in
        if listing_len = 0 then ret_s []
        else
          let start =
                start_abs
                  \<lparr>mr_block_offset = ucast (in_dir_start_block i), mr_in_block = in_dir_block_offset i\<rparr>
                  (sb_directory_table_start (fs_sb fs))
          in
          bind_s
            (on_meta
              (with_cursor (env W fs) (fs_sb fs) start (in_dir_block_offset i)
                (\<lambda>cu. with_limit cu (fs_dir_table_end fs)
                  ''directory listing runs past the end of the directory table'')
                (read_exact (env W fs) (fs_sb fs) listing_len)))
            (\<lambda>buf. lift_s (parse_listing buf)))"

text \<open>The linear scan: the first entry of that name.\<close>

definition lookup_in ::
  "('c, 'd) world \<Rightarrow> filesystem \<Rightarrow> inode \<Rightarrow> bytes \<Rightarrow> (('c, 'd) caches, inode) sm" where
  "lookup_in W fs dir name =
     bind_s (read_dir W fs dir) (\<lambda>es.
       case find (\<lambda>e. de_name e = name) es of
         None \<Rightarrow> fail_s NotFound
       | Some e \<Rightarrow> read_inode W fs (de_inode_ref e))"

fun split_slash :: "bytes \<Rightarrow> bytes list" where
  "split_slash [] = [[]]"
| "split_slash (b # bs) =
     (if b = 0x2F then [] # split_slash bs
      else (case split_slash bs of [] \<Rightarrow> [[b]] | c # cs \<Rightarrow> (b # c) # cs))"

definition components :: "bytes \<Rightarrow> bytes list" where
  "components path = filter (\<lambda>c. c \<noteq> []) (split_slash path)"

fun walk ::
  "('c, 'd) world \<Rightarrow> filesystem \<Rightarrow> inode \<Rightarrow> bytes list \<Rightarrow> (('c, 'd) caches, inode) sm" where
  "walk W fs node [] = ret_s node"
| "walk W fs node (c # cs) =
     (if \<not> is_dir node then fail_s NotADirectory
      else bind_s (lookup_in W fs node c) (\<lambda>node. walk W fs node cs))"

definition lookup_path_bytes ::
  "('c, 'd) world \<Rightarrow> filesystem \<Rightarrow> bytes \<Rightarrow> (('c, 'd) caches, inode) sm" where
  "lookup_path_bytes W fs path =
     bind_s (root_inode W fs) (\<lambda>node. walk W fs node (components path))"

section \<open>Attributes and links\<close>

definition list_xattrs ::
  "('c, 'd) world \<Rightarrow> filesystem \<Rightarrow> inode \<Rightarrow> (('c, 'd) caches, xattr_entry list) sm" where
  "list_xattrs W fs i =
     (case fs_xattr_ids fs of
        None \<Rightarrow> ret_s []
      | Some t \<Rightarrow>
          if \<not> has_xattrs i then ret_s []
          else on_meta (read_set (env W fs) (fs_sb fs) t (in_xattr_index i)))"

definition get_xattr ::
  "('c, 'd) world \<Rightarrow> filesystem \<Rightarrow> inode \<Rightarrow> bytes \<Rightarrow> (('c, 'd) caches, bytes option) sm" where
  "get_xattr W fs i name =
     bind_s (list_xattrs W fs i) (\<lambda>es.
       ret_s (map_option xe_value (find (\<lambda>e. xe_name e = name) es)))"

definition read_symlink_target :: "inode \<Rightarrow> bytes result" where
  "read_symlink_target i =
     (if \<not> is_symlink i then Fail (BadInode ''read_symlink_target on non-symlink'')
      else Ok (in_symlink_target i))"

section \<open>No call panics\<close>

lemma safe_superblock_read [simp]: "safe (superblock_read dev)"
  by (auto simp: superblock_read_def intro!: safe_and_then)

lemma superblock_read_block_size: "superblock_read dev = Ok sb \<Longrightarrow> sb_block_size sb \<noteq> 0"
  by (auto simp: superblock_read_def dest!: parse_geometry simp: geometry_ok_def)

lemma safe_validate [simp]: "safe (validate_against_device sb n)"
  unfolding validate_against_device_def Let_def by (intro safe_if safe_simps)

lemma safe_open: "safe (open_with_cache W dev blocks)"
  unfolding open_with_cache_def Let_def
  by (auto intro!: safe_and_then
      simp: safe_read_id_table safe_read_fragment_table safe_xattr_read_id_table safe_read_export_table)

lemma triple_on_meta:
  assumes "triple (\<lambda>_. True) m Q"
  shows "triple (\<lambda>_. True) (on_meta m) Q"
  unfolding triple_def
proof (intro allI impI)
  fix s :: "('a, 'c) caches"
  obtain r c where m: "m (Some (ca_meta s)) = (r, c)" by fastforce
  with assms [unfolded triple_def, rule_format, of "Some (ca_meta s)"]
  have "safe r" "\<forall>v. r = Ok v \<longrightarrow> Q v" by auto
  with m show "safe (fst (on_meta m s)) \<and> True \<and> (\<forall>v. fst (on_meta m s) = Ok v \<longrightarrow> Q v)"
    by (cases c) (simp_all add: on_meta_def)
qed

text \<open>What a mounted handle is: a block size that is not zero is all its calls rely on.\<close>

definition mounted :: "filesystem \<Rightarrow> bool" where
  "mounted fs \<longleftrightarrow> sb_block_size (fs_sb fs) \<noteq> 0"

lemma triple_read_inode: "mounted fs \<Longrightarrow> triple (\<lambda>_. True) (read_inode W fs r) (\<lambda>_. True)"
  unfolding read_inode_def mounted_def by (intro triple_on_meta triple_inode_read)

lemma triple_inode_ref: "triple (\<lambda>_. True) (inode_ref_for_number W fs n) (\<lambda>_. True)"
  unfolding inode_ref_for_number_def
  by (intro triple_bind [OF triple_lift [where Q = "\<lambda>_. True"]] triple_on_meta triple_export_lookup)
    simp_all

lemma triple_by_number: "mounted fs \<Longrightarrow> triple (\<lambda>_. True) (read_inode_by_number W fs n) (\<lambda>_. True)"
  unfolding read_inode_by_number_def
  by (intro triple_bind [OF triple_inode_ref] triple_read_inode)

text \<open>The entries a directory gives have names that are single path components.\<close>

definition names_ok :: "dir_entry list \<Rightarrow> bool" where
  "names_ok es \<longleftrightarrow> (\<forall>e \<in> set es. name_ok (de_name e))"

lemma triple_read_dir: "triple (\<lambda>_. True) (read_dir W fs i) names_ok"
  unfolding read_dir_def Let_def
  by (intro triple_if triple_fail triple_ret
      triple_bind [OF triple_on_meta [OF triple_with_cursor [OF triple_read_exact]]] triple_lift
      limiting_simps)
    (auto simp: names_ok_def parse_listing_names)

lemma triple_lookup_in: "mounted fs \<Longrightarrow> triple (\<lambda>_. True) (lookup_in W fs dir name) (\<lambda>_. True)"
  unfolding lookup_in_def
  by (rule triple_bind [OF triple_read_dir]) (auto simp: triple_fail triple_read_inode split: option.split)

lemma triple_walk: "mounted fs \<Longrightarrow> triple (\<lambda>_. True) (walk W fs node cs) (\<lambda>_. True)"
proof (induction cs arbitrary: node)
  case Nil
  then show ?case by (simp add: triple_ret)
next
  case (Cons c cs)
  then show ?case
    by (simp add: triple_fail triple_bind [OF triple_lookup_in])
qed

lemma triple_lookup_path: "mounted fs \<Longrightarrow> triple (\<lambda>_. True) (lookup_path_bytes W fs p) (\<lambda>_. True)"
  unfolding lookup_path_bytes_def root_inode_def
  by (intro triple_bind [OF triple_read_inode] triple_walk)

lemma triple_list_xattrs: "triple (\<lambda>_. True) (list_xattrs W fs i) (list_all entry_ok)"
  unfolding list_xattrs_def
  by (auto split: option.split intro!: triple_if triple_ret triple_on_meta
      triple_weaken [OF triple_read_set])

lemma triple_get_xattr:
  "triple (\<lambda>_. True) (get_xattr W fs i name) (\<lambda>v. \<forall>b. v = Some b \<longrightarrow> length b \<le> MAX_VALUE_LEN)"
  unfolding get_xattr_def
  by (rule triple_bind [OF triple_list_xattrs], rule triple_ret)
    (auto simp: find_Some_iff list_all_length entry_ok_def)

section \<open>What opening establishes\<close>

lemma open_parts:
  assumes "open_with_cache W dev blocks = Ok (fs, s)"
  shows "geometry_ok (fs_sb fs)"
    "well_laid_out (fs_sb fs) (unat (dev_size_bytes (fs_dev fs)))"
    "sb_compressor (fs_sb fs) = Ok (fs_comp fs)"
    "length (fs_id_table fs) = unat (sb_id_count (fs_sb fs))"
    "length (fs_fragments fs) = unat (sb_fragment_entry_count (fs_sb fs))"
    "fs_dir_table_end fs = directory_table_end (fs_dev fs) (fs_sb fs)"
    "s = \<lparr>ca_meta = mc_new (w_meta_lru W) DEFAULT_META_CACHE_BLOCKS,
          ca_data = dc_new (w_data_lru W) DEFAULT_DATA_CACHE_BLOCKS\<rparr>"
  using assms
  by (auto simp: open_with_cache_def Let_def superblock_read_def validate_iff
      dest!: parse_geometry read_id_table_length read_fragment_table_length split: if_splits)

lemma geometry_block_size: "geometry_ok sb \<Longrightarrow> sb_block_size sb \<noteq> 0"
  by (auto simp: geometry_ok_def)

lemma open_mounted: "open_with_cache W dev blocks = Ok (fs, s) \<Longrightarrow> mounted fs"
  using open_parts(1) geometry_block_size unfolding mounted_def by blast

section \<open>Where the directory table ends\<close>

text \<open>A candidate: the first metadata block of a later table, when the table has one, its pointer
  can be read, and it lies past the directory table's start.\<close>

definition first_block :: "device \<Rightarrow> superblock \<Rightarrow> u64 \<times> bool \<Rightarrow> u64 option" where
  "first_block dev sb t =
     (if fst t = NO_TABLE \<or> \<not> snd t then None
      else
        (case read_at dev (fst t) 8 of
           Inl _ \<Rightarrow> None
         | Inr b \<Rightarrow>
             if sb_directory_table_start sb < from_le_bytes b then Some (from_le_bytes b) else None))"

lemma nearest_table_step:
  "nearest_table dev sb (t # ts) e =
    nearest_table dev sb ts (case first_block dev sb t of None \<Rightarrow> e | Some p \<Rightarrow> min e p)"
  by (cases t) (simp add: first_block_def Let_def split: sum.split)

lemma nearest_table_Min:
  "nearest_table dev sb ts e = Min (set (e # List.map_filter (first_block dev sb) ts))"
proof (induction ts arbitrary: e)
  case Nil
  then show ?case by (simp add: map_filter_simps)
next
  case (Cons t ts)
  then show ?case
    unfolding nearest_table_step
    by (cases "first_block dev sb t"; cases "set (List.map_filter (first_block dev sb) ts) = {}")
      (simp_all add: map_filter_simps min.assoc)
qed

lemma first_block_above: "first_block dev sb t = Some p \<Longrightarrow> sb_directory_table_start sb < p"
  by (simp add: first_block_def split: if_splits sum.splits)

lemma nearest_table_bounds:
  "nearest_table dev sb ts e \<le> e"
  "sb_directory_table_start sb < e \<Longrightarrow> sb_directory_table_start sb < nearest_table dev sb ts e"
proof -
  let ?S = "set (e # List.map_filter (first_block dev sb) ts)"
  have "Min ?S \<le> e" by (rule Min_le) simp_all
  then show "nearest_table dev sb ts e \<le> e" unfolding nearest_table_Min .
  assume e: "sb_directory_table_start sb < e"
  have "Min ?S \<in> ?S" by (rule Min_in) simp_all
  with e first_block_above show "sb_directory_table_start sb < nearest_table dev sb ts e"
    unfolding nearest_table_Min by (auto simp: List.map_filter_def)
qed

text \<open>What lies past the directory table of an image, stated over the bytes: the start of a later table, the
  end of the archive, or the first metadata block of a table that has one, as the table's index or
  header names it.  An absent table's start is the greatest word and comes before nothing.\<close>

definition past_directories :: "device \<Rightarrow> superblock \<Rightarrow> u64 \<Rightarrow> bool" where
  "past_directories dev sb p \<longleftrightarrow>
     sb_directory_table_start sb < p \<and>
     (p \<in> {sb_fragment_table_start sb, sb_export_table_start sb, sb_id_table_start sb,
        sb_xattr_id_table_start sb, sb_bytes_used sb} \<or>
      (\<exists>start b. read_at dev start 8 = Ok b \<and> p = from_le_bytes b \<and> start \<noteq> NO_TABLE \<and>
        (start = sb_fragment_table_start sb \<and> sb_fragment_entry_count sb \<noteq> 0 \<or>
         start = sb_export_table_start sb \<or>
         start = sb_id_table_start sb \<and> sb_id_count sb \<noteq> 0 \<or>
         start = sb_xattr_id_table_start sb)))"

lemma first_block_Some:
  "first_block dev sb t = Some p \<longleftrightarrow>
    fst t \<noteq> NO_TABLE \<and> snd t \<and> sb_directory_table_start sb < p \<and>
    (\<exists>b. read_at dev (fst t) 8 = Ok b \<and> p = from_le_bytes b)"
  by (auto simp: first_block_def split: sum.split)

lemma set_map_filter: "set (List.map_filter f xs) = {y. \<exists>x \<in> set xs. f x = Some y}"
  by (force simp: List.map_filter_def)

lemma min_or_max_set: "min_or_max ts = (if set ts = {} then - 1 else Min (set ts))"
  using min_or_max_Min [of ts] by (cases "ts = []") simp_all

lemma word_gt_0: "0 < (w :: 'a::len word) \<longleftrightarrow> w \<noteq> 0"
  by (simp add: word_neq_0_conv)

lemma directory_table_end_least:
  assumes "sb_directory_table_start sb < sb_bytes_used sb"
  shows "past_directories dev sb (directory_table_end dev sb)"
    and "past_directories dev sb p \<Longrightarrow> directory_table_end dev sb \<le> p"
proof -
  let ?E = "directory_table_end_sb sb"
  let ?starts = "{sb_fragment_table_start sb, sb_export_table_start sb, sb_id_table_start sb,
    sb_xattr_id_table_start sb, sb_bytes_used sb}"
  let ?ts = "[(sb_fragment_table_start sb, 0 < sb_fragment_entry_count sb), (sb_export_table_start sb, True),
    (sb_id_table_start sb, 0 < sb_id_count sb), (sb_xattr_id_table_start sb, True)]"
  let ?F = "set (List.map_filter (first_block dev sb) ?ts)"
  let ?later = "{t \<in> ?starts. t \<noteq> NO_TABLE \<and> sb_directory_table_start sb < t}"
  have E: "?E = (if ?later = {} then - 1 else Min ?later)"
  proof -
    have "?later = set (filter (\<lambda>t. t \<noteq> NO_TABLE \<and> sb_directory_table_start sb < t)
        [sb_fragment_table_start sb, sb_export_table_start sb, sb_id_table_start sb,
         sb_xattr_id_table_start sb, sb_bytes_used sb])"
      by (simp only: set_filter) auto
    then show ?thesis unfolding directory_table_end_sb_def min_or_max_set by (simp only:)
  qed
  have fin: "finite ?later" by simp
  have top: "t \<le> NO_TABLE" for t :: u64 by (simp add: NO_TABLE_def)
  have E_in: "?E \<in> ?starts \<and> sb_directory_table_start sb < ?E"
  proof (cases "?later = {}")
    case True
    then have "sb_bytes_used sb = NO_TABLE" using assms by auto
    with True assms E show ?thesis by (simp add: NO_TABLE_def)
  next
    case False
    with Min_in [OF fin False] E show ?thesis by auto
  qed
  have E_le: "?E \<le> t" if "t \<in> ?starts" "sb_directory_table_start sb < t" for t
  proof (cases "t = NO_TABLE")
    case True
    then show ?thesis using top by simp
  next
    case False
    with that have t: "t \<in> ?later" by simp
    with Min_le [OF fin t] E show ?thesis by auto
  qed
  have F: "q \<in> ?F \<longleftrightarrow> sb_directory_table_start sb < q \<and>
      (\<exists>start b. read_at dev start 8 = Ok b \<and> q = from_le_bytes b \<and> start \<noteq> NO_TABLE \<and>
        (start = sb_fragment_table_start sb \<and> sb_fragment_entry_count sb \<noteq> 0 \<or>
         start = sb_export_table_start sb \<or>
         start = sb_id_table_start sb \<and> sb_id_count sb \<noteq> 0 \<or>
         start = sb_xattr_id_table_start sb))" for q
    unfolding set_map_filter first_block_Some by (auto simp: word_gt_0)
  have past: "past_directories dev sb q \<longleftrightarrow> q \<in> ?F \<or> q \<in> ?starts \<and> sb_directory_table_start sb < q" for q
    unfolding past_directories_def F by blast
  have D: "directory_table_end dev sb = Min (insert ?E ?F)"
    unfolding directory_table_end_def nearest_table_Min by simp
  have "Min (insert ?E ?F) \<in> insert ?E ?F" by (rule Min_in) simp_all
  then show "past_directories dev sb (directory_table_end dev sb)"
    unfolding past D using E_in by (metis insertE)
  assume "past_directories dev sb p"
  then have "p \<in> ?F \<or> ?E \<le> p" unfolding past using E_le by blast
  moreover have le: "Min (insert ?E ?F) \<le> x" if "x \<in> insert ?E ?F" for x
    by (rule Min_le) (simp, rule that)
  note le [of p] order_trans [OF le [OF insertI1], of p]
  ultimately show "directory_table_end dev sb \<le> p" unfolding D by blast
qed

section \<open>A directory laid out by the format is listed\<close>

lemma fst_on_meta: "fst (on_meta m s) = fst (m (Some (ca_meta s)))"
  by (auto simp: on_meta_def split: prod.split option.split)

abbreviation past_table :: string where
  "past_table \<equiv> ''directory listing runs past the end of the directory table''"

definition dir_start :: "filesystem \<Rightarrow> inode \<Rightarrow> u64" where
  "dir_start fs i = saturating_add (sb_directory_table_start (fs_sb fs)) (ucast (in_dir_start_block i))"

lemma read_dir_listing:
  assumes "is_dir i" "dir_listing_len i \<noteq> 0"
  shows "read_dir W fs i =
    bind_s
      (on_meta
        (with_cursor (env W fs) (fs_sb fs) (dir_start fs i) (in_dir_block_offset i)
          (limited (Some (fs_dir_table_end fs, past_table)))
          (read_exact (env W fs) (fs_sb fs) (dir_listing_len i))))
      (\<lambda>buf. lift_s (parse_listing buf))"
  using assms by (simp add: read_dir_def Let_def dir_start_def start_abs_def limited_Some)

lemma read_dir_bytes:
  assumes "is_dir i" "dir_listing_len i = length l" "l \<noteq> []"
    and "mc_sound (env W fs) (fs_sb fs) (Some (ca_meta s))"
    and "metadata_at (env W fs) (fs_sb fs) (Some (fs_dir_table_end fs, past_table)) (dir_start fs i)
      (in_dir_block_offset i) (l @ rest)"
  shows "fst (read_dir W fs i s) = parse_listing l"
proof -
  have "dir_listing_len i \<noteq> 0" using assms(2,3) by simp
  note rd = read_dir_listing [OF assms(1) this, of W fs]
  from with_cursor_reads [OF reads_exact assms(5,4)] assms(2)
  have "fst (on_meta (with_cursor (env W fs) (fs_sb fs) (dir_start fs i) (in_dir_block_offset i)
          (limited (Some (fs_dir_table_end fs, past_table)))
          (read_exact (env W fs) (fs_sb fs) (dir_listing_len i))) s) = Ok l"
    by (simp add: fst_on_meta)
  then show ?thesis
    unfolding rd by (auto simp: bind_s_def lift_s_def split: prod.split)
qed

lemma read_dir_groups:
  assumes "is_dir i" "unat (in_file_size i) = length (listing_bytes gs) + 3" "\<forall>g \<in> set gs. group_ok g"
    and "mc_sound (env W fs) (fs_sb fs) (Some (ca_meta s))"
    and "metadata_at (env W fs) (fs_sb fs) (Some (fs_dir_table_end fs, past_table)) (dir_start fs i)
      (in_dir_block_offset i) (listing_bytes gs @ rest)"
  shows "fst (read_dir W fs i s) = Ok (concat (map group_entries gs))"
proof (cases "gs = []")
  case True
  with assms(1,2) show ?thesis
    by (simp add: read_dir_def dir_listing_len_def listing_bytes_def ret_s_def Let_def)
next
  case False
  then obtain g where "g \<in> set gs" by (cases gs) auto
  then have "listing_bytes gs \<noteq> []"
    by (auto simp: listing_bytes_def group_bytes_def to_le_bytes_def)
       (metis length_0_conv length_append length_le_bytes add_is_0 zero_neq_numeral)
  with assms read_dir_bytes [of i "listing_bytes gs" W fs s rest] show ?thesis
    using parse_listing_iff [of "listing_bytes gs"] by (auto simp: dir_listing_len_def)
qed

text \<open>The other direction: what is listed was read from blocks that start before the table's end.\<close>

lemma block_run_below:
  "block_run E sb (Some (e, why)) p bs q \<Longrightarrow> bs \<noteq> [] \<Longrightarrow> p < e"
  by (induction rule: block_run.induct) (auto simp: pull_def not_le split: if_splits)

section \<open>Paths\<close>

lemma split_slash_not_Nil: "split_slash bs \<noteq> []"
  by (induction bs) (auto split: list.split)

lemma split_slash_append: "split_slash (p @ 0x2F # q) = split_slash p @ split_slash q"
proof (induction p)
  case Nil
  then show ?case by simp
next
  case (Cons b p)
  then show ?case
    using split_slash_not_Nil [of p] by (auto split: list.split)
qed

lemma split_slash_plain: "0x2F \<notin> set c \<Longrightarrow> split_slash c = [c]"
  by (induction c) auto

lemma components_append: "components (p @ 0x2F # q) = components p @ components q"
  by (simp add: components_def split_slash_append)

lemma components_plain: "0x2F \<notin> set c \<Longrightarrow> c \<noteq> [] \<Longrightarrow> components c = [c]"
  by (simp add: components_def split_slash_plain)

definition join_path :: "bytes list \<Rightarrow> bytes" where
  "join_path cs = concat (map (\<lambda>c. 0x2F # c) cs)"

lemma components_join:
  "\<forall>c \<in> set cs. c \<noteq> [] \<and> 0x2F \<notin> set c \<Longrightarrow> components (join_path cs) = cs"
proof (induction cs rule: rev_induct)
  case Nil
  then show ?case by (simp add: join_path_def components_def)
next
  case (snoc c cs)
  then have "components (join_path cs @ 0x2F # c) = cs @ [c]"
    by (simp only: components_append) (simp add: components_plain)
  then show ?case by (simp add: join_path_def)
qed

lemma components_valid: "c \<in> set (components p) \<Longrightarrow> c \<noteq> [] \<and> 0x2F \<notin> set c"
proof -
  have "c \<in> set (split_slash p) \<Longrightarrow> 0x2F \<notin> set c"
  proof (induction p arbitrary: c)
    case Nil
    then show ?case by simp
  next
    case (Cons b p)
    then show ?case
      using split_slash_not_Nil [of p] by (auto split: list.splits if_splits)
  qed
  then show "c \<in> set (components p) \<Longrightarrow> c \<noteq> [] \<and> 0x2F \<notin> set c"
    by (simp add: components_def)
qed

lemma walk_append: "walk W fs node (cs @ ds) = bind_s (walk W fs node cs) (\<lambda>n. walk W fs n ds)"
proof (induction cs arbitrary: node)
  case Nil
  then show ?case by (simp add: fun_eq_iff)
next
  case (Cons c cs)
  then show ?case by (cases "is_dir node") (simp_all add: bind_s_laws)
qed

lemma lookup_path_append:
  "lookup_path_bytes W fs (p @ 0x2F # q) =
    bind_s (lookup_path_bytes W fs p) (\<lambda>n. walk W fs n (components q))"
  by (simp add: lookup_path_bytes_def components_append walk_append fun_eq_iff bind_s_assoc)

lemma lookup_path_components:
  "components p = components q \<Longrightarrow> lookup_path_bytes W fs p = lookup_path_bytes W fs q"
  by (simp add: lookup_path_bytes_def)

text \<open>A name the listing hands out resolves when it is handed back, as a path component too.\<close>

lemma lookup_listed:
  assumes "read_dir W fs dir s = (Ok es, s')" "e \<in> set es"
  shows "\<exists>e' \<in> set es. de_name e' = de_name e \<and>
    lookup_in W fs dir (de_name e) s = read_inode W fs (de_inode_ref e') s'"
proof -
  from assms(2) obtain e' where e': "find (\<lambda>x. de_name x = de_name e) es = Some e'"
    by (cases "find (\<lambda>x. de_name x = de_name e) es") (auto simp: find_None_iff)
  then have "e' \<in> set es" "de_name e' = de_name e" by (auto simp: find_Some_iff)
  with assms(1) e' show ?thesis by (auto simp: lookup_in_def bind_s_def)
qed

lemma walk_listed:
  assumes "read_dir W fs dir s = (Ok es, s')" "e \<in> set es"
  shows "walk W fs dir (components (de_name e)) s = lookup_in W fs dir (de_name e) s"
proof -
  have "is_dir dir" using assms(1) by (auto simp: read_dir_def fail_s_def split: if_splits)
  moreover have "name_ok (de_name e)"
    using tripleD(3) [OF triple_read_dir _ assms(1)] assms(2) by (auto simp: names_ok_def)
  then have "components (de_name e) = [de_name e]"
    by (auto simp: name_ok_def components_plain)
  ultimately show ?thesis
    by (auto simp: bind_s_def ret_s_def split: prod.split sum.split)
qed

section \<open>A small image\<close>

text \<open>An image with nothing compressed: the superblock, one data block of four bytes, the inode
  table (the root directory and a file \<open>a\<close>), the directory table and the id table.  The closed
  examples of this theory and of those after it run on it.\<close>

definition image_superblock :: superblock where
  "image_superblock =
     \<lparr>sb_magic = SQUASHFS_MAGIC, sb_inode_count = 2, sb_modification_time = 7,
      sb_block_size = 4096, sb_fragment_entry_count = 0, sb_compression_id = 1, sb_block_log = 12,
      sb_flags = 0, sb_id_count = 1, sb_version_major = 4, sb_version_minor = 0,
      sb_root_inode_ref = 0, sb_bytes_used = 207, sb_id_table_start = 199,
      sb_xattr_id_table_start = NO_TABLE, sb_inode_table_start = 100,
      sb_directory_table_start = 170, sb_fragment_table_start = NO_TABLE,
      sb_export_table_start = NO_TABLE\<rparr>"

definition root_header :: stored_header where
  "root_header = \<lparr>sh_permissions = 493, sh_uid_idx = 0, sh_gid_idx = 0, sh_mtime = 7, sh_number = 1\<rparr>"

definition root_body :: stored_body where "root_body = Basic_dir 0 2 24 0 3"

definition a_header :: stored_header where
  "a_header = \<lparr>sh_permissions = 420, sh_uid_idx = 0, sh_gid_idx = 0, sh_mtime = 7, sh_number = 2\<rparr>"

definition a_body :: stored_body where
  "a_body = Basic_file 96 SQUASHFS_INVALID_FRAG 0 4 [0x1000004]"

definition image_inodes :: bytes where
  "image_inodes = inode_bytes root_header root_body @ inode_bytes a_header a_body"

definition image_group :: stored_group where
  "image_group =
     \<lparr>sg_start = 0, sg_base = 1,
      sg_entries = [\<lparr>se_offset = 32, se_delta = 1, se_type = 2, se_name = [0x61]\<rparr>]\<rparr>"

definition image_ids :: bytes where "image_ids = to_le_bytes 4 (1000 :: u32)"

definition sample_image :: bytes where
  "sample_image =
     superblock_bytes image_superblock @ [1, 2, 3, 4] @ stored_block False image_inodes @
     stored_block False (listing_bytes [image_group]) @ stored_block False image_ids @
     to_le_bytes 8 (193 :: u64)"

definition sample_world ::
  "(nat \<times> (u64 \<times> cached_block) list, nat \<times> (data_key \<times> bytes) list) world" where
  "sample_world = \<lparr>w_codecs = no_codecs, w_meta_lru = list_lru, w_data_lru = list_lru,
     w_caching_device = (\<lambda>dev bs n. dev)\<rparr>"

definition sample_fs :: filesystem where
  "sample_fs = \<lparr>fs_dev = mem_device sample_image, fs_sb = image_superblock, fs_comp = Gzip,
     fs_id_table = [1000], fs_fragments = [], fs_xattr_ids = None, fs_exports = None,
     fs_dir_table_end = 193\<rparr>"

abbreviation fresh_caches ::
  "(nat \<times> (u64 \<times> cached_block) list, nat \<times> (data_key \<times> bytes) list) caches" where
  "fresh_caches \<equiv> \<lparr>ca_meta = mc_new list_lru 256, ca_data = dc_new list_lru 8\<rparr>"

lemma length_image_inodes [simp]: "length image_inodes = 68"
  by (simp add: image_inodes_def inode_bytes_def header_bytes_def root_body_def a_body_def sizes_bytes_def)

lemma length_image_listing [simp]: "length (listing_bytes [image_group]) = 21"
  by (simp add: listing_bytes_def group_bytes_def entry_bytes_def image_group_def)

lemma length_image_ids [simp]: "length image_ids = 4"
  by (simp add: image_ids_def)

lemma length_stored_block [simp]: "length (stored_block z p) = 2 + length p"
  by (simp add: stored_block_def)

lemma length_sample_image [simp]: "length sample_image = 207"
  by (simp add: sample_image_def SUPERBLOCK_SIZE_def)

lemma image_at:
  "drop 96 sample_image = [1, 2, 3, 4] @ stored_block False image_inodes @
     stored_block False (listing_bytes [image_group]) @ stored_block False image_ids @
     to_le_bytes 8 (193 :: u64)"
  "drop 100 sample_image = stored_block False image_inodes @
     stored_block False (listing_bytes [image_group]) @ stored_block False image_ids @
     to_le_bytes 8 (193 :: u64)"
  "drop 170 sample_image = stored_block False (listing_bytes [image_group]) @
     stored_block False image_ids @ to_le_bytes 8 (193 :: u64)"
  "drop 193 sample_image = stored_block False image_ids @ to_le_bytes 8 (193 :: u64)"
  "drop 199 sample_image = to_le_bytes 8 (193 :: u64)"
  unfolding sample_image_def drop_append by (simp_all add: SUPERBLOCK_SIZE_def)

lemma sample_env: "meta_env_on sample_world (mem_device sample_image) = plain_env sample_image"
  by (simp add: meta_env_on_def sample_world_def plain_env_def)

lemma image_read_superblock: "superblock_read (mem_device sample_image) = Ok image_superblock"
proof -
  have "read_at (mem_device sample_image) 0 SUPERBLOCK_SIZE = Ok (superblock_bytes image_superblock)"
    by (simp add: read_at_mem_device SUPERBLOCK_SIZE_def) (simp add: sample_image_def SUPERBLOCK_SIZE_def)
  moreover have "geometry_ok image_superblock" by (simp add: geometry_ok_def image_superblock_def)
  ultimately show ?thesis
    using parse_superblock_bytes [of image_superblock "[]"] by (simp add: superblock_read_def)
qed

lemma image_valid: "validate_against_device image_superblock (dev_size_bytes (mem_device sample_image)) = Ok ()"
  unfolding validate_iff
  by (simp add: well_laid_out_def later_tables_def image_superblock_def mem_device_def NO_TABLE_def)

lemma image_id_table: "read_id_table (plain_env sample_image) image_superblock = Ok [1000]"
proof (rule id_table_eq [where ptrs = "[193]" and slack = "[]" and blocks = "[image_ids]"])
  show "table_at (plain_env sample_image) image_superblock (sb_id_table_start image_superblock)
      (length [1000 :: u32] * 4) [193]"
    by (simp add: table_at_def table_room_def plain_env_def image_superblock_def div_ceil_nat_def
        METADATA_SIZE_def saturating_sub_def read_at_mem_device image_at)
      (simp add: mem_device_def)
  have "read_block_uncached (plain_env sample_image) image_superblock 193 =
      Ok (image_ids, 193 + 2 + of_nat (length image_ids))"
    by (rule plain_block_at) (simp_all add: image_at METADATA_SIZE_def)
  then show "list_all2 (block_bytes (plain_env sample_image) image_superblock) [193] [image_ids]"
    by (simp add: block_bytes_def)
qed (simp_all add: image_superblock_def image_ids_def)

lemma image_dir_end: "directory_table_end (mem_device sample_image) image_superblock = 193"
  by (simp add: directory_table_end_def directory_table_end_sb_def image_superblock_def NO_TABLE_def
      read_at_mem_device image_at)

lemma sample_open:
  "open_with_cache sample_world (mem_device sample_image) 0 = Ok (sample_fs, fresh_caches)"
  unfolding open_with_cache_def Let_def
  by (simp add: sample_env image_read_superblock image_valid image_id_table image_dir_end sample_fs_def)
    (simp add: image_superblock_def sb_compressor_def compressor_from_id_def is_supported_def
      read_fragment_table_def xattr_read_id_table_def read_export_table_def sample_world_def
      DEFAULT_META_CACHE_BLOCKS_def DEFAULT_DATA_CACHE_BLOCKS_def)

lemma plain_metadata_from:
  assumes "drop (unat a) img = stored_block False p @ rest" "unat a + 2 < 2 ^ 64"
    and "0 < length p" "length p \<le> METADATA_SIZE" "unat k \<le> length p" "drop (unat k) p = q"
  shows "metadata_at (plain_env img) sb lim a k (q @ [])"
  unfolding metadata_at_def
  by (intro exI conjI, rule plain_block_at [OF assms(1-4)], rule assms(5), rule run_none)
    (simp add: assms(6))

abbreviation root_node :: inode where "root_node \<equiv> inode_of root_header root_body"
abbreviation a_node :: inode where "a_node \<equiv> inode_of a_header a_body"

abbreviation a_entry :: dir_entry where
  "a_entry \<equiv> \<lparr>de_name = [0x61], de_inode_ref = 32, de_type_id = 2, de_inode_number = 2\<rparr>"

lemma image_env: "env sample_world sample_fs = plain_env sample_image"
  by (simp add: sample_fs_def sample_env)

lemma sample_fs_simps [simp]:
  "fs_sb sample_fs = image_superblock" "fs_dir_table_end sample_fs = 193"
  "fs_xattr_ids sample_fs = None" "fs_exports sample_fs = None" "fs_id_table sample_fs = [1000]"
  by (simp_all add: sample_fs_def)

lemma image_inodes_at:
  "metadata_at (plain_env sample_image) image_superblock None 100 0
     (inode_bytes root_header root_body @ inode_bytes a_header a_body)"
  "metadata_at (plain_env sample_image) image_superblock None 100 32 (inode_bytes a_header a_body @ [])"
proof -
  have "metadata_at (plain_env sample_image) image_superblock None 100 0
      ((inode_bytes root_header root_body @ inode_bytes a_header a_body) @ [])"
    by (rule plain_metadata_from [where p = image_inodes])
      (simp_all add: image_at METADATA_SIZE_def image_inodes_def [symmetric])
  then show "metadata_at (plain_env sample_image) image_superblock None 100 0
     (inode_bytes root_header root_body @ inode_bytes a_header a_body)" by simp
  show "metadata_at (plain_env sample_image) image_superblock None 100 32 (inode_bytes a_header a_body @ [])"
    by (rule plain_metadata_from [where p = image_inodes])
      (simp_all add: image_at METADATA_SIZE_def,
        simp add: image_inodes_def inode_bytes_def [of root_header] header_bytes_def root_body_def)
qed

lemma image_start: "start_abs (from_packed 0) (sb_inode_table_start image_superblock) = 100"
  "start_abs (from_packed 32) (sb_inode_table_start image_superblock) = 100"
  "mr_in_block (from_packed 0) = 0" "mr_in_block (from_packed 32) = 32"
  by (simp_all add: from_packed_def start_abs_def saturating_add_def image_superblock_def)

lemma image_bodies_ok: "body_ok image_superblock root_body" "body_ok image_superblock a_body"
  by (simp_all add: root_body_def a_body_def image_superblock_def data_blocks_def div_ceil_nat_def)

lemma image_read_inode:
  assumes "mc_sound (plain_env sample_image) image_superblock (Some (ca_meta s))"
  shows "fst (read_inode sample_world sample_fs 0 s) = Ok root_node"
    "fst (read_inode sample_world sample_fs 32 s) = Ok a_node"
  using inode_read_layout [OF image_bodies_ok(1) assms, of 0 root_header "inode_bytes a_header a_body"]
    inode_read_layout [OF image_bodies_ok(2) assms, of 32 a_header "[]"] image_inodes_at
  by (simp_all add: read_inode_def fst_on_meta image_env image_start)

lemma group_ok_image: "group_ok image_group"
  by (simp add: group_ok_def image_group_def name_ok_def)

lemma image_listing_at:
  "metadata_at (plain_env sample_image) image_superblock (Some (193, past_table))
    (dir_start sample_fs root_node) (in_dir_block_offset root_node) (listing_bytes [image_group] @ [])"
  by (rule plain_metadata_from [where p = "listing_bytes [image_group]"])
    (simp_all add: dir_start_def saturating_add_def image_at METADATA_SIZE_def image_superblock_def
      inode_of_def root_body_def headed_def)

lemma image_read_dir:
  assumes "mc_sound (plain_env sample_image) image_superblock (Some (ca_meta s))"
  shows "fst (read_dir sample_world sample_fs root_node s) = Ok [a_entry]"
proof -
  have "fst (read_dir sample_world sample_fs root_node s) =
      Ok (concat (map group_entries [image_group]))"
    by (rule read_dir_groups [where rest = "[]"])
      (use assms image_listing_at group_ok_image in
        \<open>simp_all add: image_env is_dir_def file_type_of_def inode_of_def root_body_def headed_def
          from_type_id_def type_ids\<close>)
  then show ?thesis by (simp add: group_entries_def image_group_def resolve_def)
qed

lemma fresh_sound: "mc_sound (plain_env sample_image) sb (Some (ca_meta fresh_caches))"
  using mc_sound_new [of "plain_env sample_image" sb 256] by (simp add: plain_env_def list_lru_contract)

section \<open>Properties\<close>

text \<open>C9. What opening promises: the superblock's geometry is the format's, every table lies inside
  the device and in order, the compressor is the one it names, both tables have the lengths it
  counts, the directory table ends at the nearest thing the image has past its start, and both caches
  are on, hold nothing and have counted nothing.\<close>

theorem open_establishes:
  assumes "open_with_cache W dev blocks = Ok (fs, s)"
  shows "geometry_ok (fs_sb fs) \<and>
    well_laid_out (fs_sb fs) (unat (dev_size_bytes (fs_dev fs))) \<and>
    sb_compressor (fs_sb fs) = Ok (fs_comp fs) \<and>
    length (fs_id_table fs) = unat (sb_id_count (fs_sb fs)) \<and>
    length (fs_fragments fs) = unat (sb_fragment_entry_count (fs_sb fs)) \<and>
    past_directories (fs_dev fs) (fs_sb fs) (fs_dir_table_end fs) \<and>
    (\<forall>p. past_directories (fs_dev fs) (fs_sb fs) p \<longrightarrow> fs_dir_table_end fs \<le> p) \<and>
    mc_lru (ca_meta s) \<noteq> None \<and> mc_hits (ca_meta s) = 0 \<and> mc_misses (ca_meta s) = 0 \<and>
    (lru_contract (w_meta_lru W) \<longrightarrow> (\<forall>at b. \<not> mc_holds (w_meta_lru W) (ca_meta s) at b)) \<and>
    dc_lru (ca_data s) \<noteq> None \<and> dc_hits (ca_data s) = 0 \<and> dc_misses (ca_data s) = 0 \<and>
    (lru_contract (w_data_lru W) \<longrightarrow> (\<forall>key b. \<not> dc_holds (w_data_lru W) (ca_data s) key b))"
proof -
  note o = open_parts [OF assms]
  have "sb_directory_table_start (fs_sb fs) < sb_bytes_used (fs_sb fs)"
    using o(2) by (simp add: well_laid_out_def)
  note e = directory_table_end_least [OF this, of "fs_dev fs", folded o(6)]
  have caches: "mc_lru (ca_meta s) \<noteq> None" "mc_hits (ca_meta s) = 0" "mc_misses (ca_meta s) = 0"
    "dc_lru (ca_data s) \<noteq> None" "dc_hits (ca_data s) = 0" "dc_misses (ca_data s) = 0"
    by (simp_all add: o(7) mc_new_def lru_of_capacity_def dc_new_def dc_lru_of_def
        DEFAULT_META_CACHE_BLOCKS_def DEFAULT_DATA_CACHE_BLOCKS_def)
  have "lru_contract (w_meta_lru W) \<longrightarrow> (\<forall>at b. \<not> mc_holds (w_meta_lru W) (ca_meta s) at b)"
    "lru_contract (w_data_lru W) \<longrightarrow> (\<forall>key b. \<not> dc_holds (w_data_lru W) (ca_data s) key b)"
    by (simp_all add: o(7) mc_new_holds dc_new_holds)
  with o(1-5) e caches show ?thesis by (intro conjI) simp_all
qed

lemma open_establishes_witness:
  "geometry_ok (fs_sb sample_fs) \<and> length (fs_id_table sample_fs) = 1 \<and>
   past_directories (mem_device sample_image) image_superblock 193 \<and>
   (\<forall>at b. \<not> mc_holds list_lru (ca_meta fresh_caches) at b)"
  using open_establishes [OF sample_open]
  by (auto simp: image_superblock_def sample_fs_def sample_world_def list_lru_contract)

text \<open>C10. Opening never panics and never runs on, whatever bytes the device holds.\<close>

theorem open_never_panics: "safe (open_with_cache W dev blocks)"
  by (rule safe_open)

text \<open>Where the directory table ends: the smallest of the end the superblock gives and the first
  metadata blocks of the later tables, and past the directory table's start if the first is.\<close>

theorem directory_end_exact:
  "directory_table_end dev sb =
     Min (set (directory_table_end_sb sb # List.map_filter (first_block dev sb)
       [(sb_fragment_table_start sb, 0 < sb_fragment_entry_count sb),
        (sb_export_table_start sb, True), (sb_id_table_start sb, 0 < sb_id_count sb),
        (sb_xattr_id_table_start sb, True)]))"
  unfolding directory_table_end_def by (rule nearest_table_Min)

text \<open>A directory whose listing is stored in the directory table as the format lays it out, in
  front of the table's end, is listed: every entry, in order, through any cache that is true.\<close>

theorem read_dir_of_layout:
  assumes "is_dir i" "unat (in_file_size i) = length (listing_bytes gs) + 3" "list_all group_ok gs"
    and "mc_sound (env W fs) (fs_sb fs) (Some (ca_meta s))"
    and "metadata_at (env W fs) (fs_sb fs) (Some (fs_dir_table_end fs, past_table)) (dir_start fs i)
      (in_dir_block_offset i) (listing_bytes gs @ rest)"
  shows "fst (read_dir W fs i s) = Ok (concat (map group_entries gs))"
  using assms by (intro read_dir_groups) (simp_all add: list_all_iff)

lemma read_dir_of_layout_witness:
  "fst (read_dir sample_world sample_fs root_node fresh_caches) =
     Ok (concat (map group_entries [image_group]))"
  by (rule read_dir_of_layout [where rest = "[]"])
    (use fresh_sound image_listing_at group_ok_image in
      \<open>simp_all add: image_env is_dir_def file_type_of_def inode_of_def root_body_def headed_def
        from_type_id_def type_ids\<close>)

lemma listed_resolves:
  assumes "read_dir W fs dir s = (Ok es, s')" "e \<in> set es"
  shows "walk W fs dir (components (de_name e)) s = lookup_in W fs dir (de_name e) s"
    "\<exists>e' \<in> set es. de_name e' = de_name e \<and>
      lookup_in W fs dir (de_name e) s = read_inode W fs (de_inode_ref e') s'"
  using walk_listed [OF assms] lookup_listed [OF assms] by blast+

text \<open>A name that a directory lists resolves when it is handed back, as a name and as a path: to
  the inode of an entry of that name.\<close>

theorem listed_names_resolve:
  assumes "read_dir W fs dir s = (Ok es, s')" "e \<in> set es"
  shows "walk W fs dir (components (de_name e)) s = lookup_in W fs dir (de_name e) s \<and>
    (\<exists>e'. e' \<in> set es \<and> de_name e' = de_name e \<and>
      lookup_in W fs dir (de_name e) s = read_inode W fs (de_inode_ref e') s')"
  using listed_resolves [OF assms] by blast

lemma listed_names_resolve_witness:
  "walk sample_world sample_fs root_node (components [0x61]) fresh_caches =
     lookup_in sample_world sample_fs root_node [0x61] fresh_caches"
proof -
  obtain s' where "read_dir sample_world sample_fs root_node fresh_caches = (Ok [a_entry], s')"
    using image_read_dir [OF fresh_sound] by (metis prod.collapse)
  from listed_names_resolve [OF this, of a_entry] show ?thesis by simp
qed

text \<open>Resolving a path resolves its front part and walks the rest from there.\<close>

theorem path_resolution_composes:
  "lookup_path_bytes W fs (p @ 0x2F # q) =
    bind_s (lookup_path_bytes W fs p) (\<lambda>n. walk W fs n (components q))"
  by (rule lookup_path_append)

lemma components_join_iff:
  "components (join_path cs) = cs \<longleftrightarrow> list_all (\<lambda>c. c \<noteq> [] \<and> 0x2F \<notin> set c) cs"
proof
  assume "components (join_path cs) = cs"
  then show "list_all (\<lambda>c. c \<noteq> [] \<and> 0x2F \<notin> set c) cs"
    using components_valid [of _ "join_path cs"] unfolding list_all_iff by simp
qed (simp add: components_join list_all_iff)

text \<open>Splitting a path is the inverse of joining components with slashes, exactly for the lists
  of non-empty components without a slash.\<close>

theorem path_join_components:
  "components (join_path cs) = cs \<longleftrightarrow> list_all (\<lambda>c. c \<noteq> [] \<and> 0x2F \<notin> set c) cs"
  by (rule components_join_iff)

text \<open>On an opened image an owner index resolves, to the id stored under it, exactly when it is
  below the superblock's id count; every other index is an error, for users and groups alike.\<close>

lemma owners_resolve:
  assumes "open_with_cache W dev blocks = Ok (fs, s)"
  shows "resolve_uid fs idx =
      (if idx < sb_id_count (fs_sb fs) then Ok (fs_id_table fs ! unat idx)
       else Fail (BadInode ''uid index past the image's id table'')) \<and>
    resolve_gid fs idx =
      (if idx < sb_id_count (fs_sb fs) then Ok (fs_id_table fs ! unat idx)
       else Fail (BadInode ''gid index past the image's id table''))"
  using open_parts(4) [OF assms]
  by (simp add: resolve_uid_def resolve_gid_def resolve_id_def get_def word_less_nat_alt)

lemma owners_resolve_witness:
  "resolve_uid sample_fs 0 = Ok 1000 \<and>
   resolve_gid sample_fs 1 = Fail (BadInode ''gid index past the image's id table'')"
  using owners_resolve [OF sample_open, of 0] owners_resolve [OF sample_open, of 1]
  by (simp add: image_superblock_def)

end
