(* ===== verification/File_Read.thy ===== *)
theory File_Read
  imports Filesystem
begin

text \<open>
  Reading a regular file, \<open>src/fs.rs\<close>: the block map, one logical block (a data block, a hole, or
  the tail in a fragment), the data cache in front of the codec, and the loop that fills the
  caller's buffer.  \<open>file_stored\<close> says what it is for an image to hold a file's bytes; reading any
  range of such a file gives exactly those bytes, whatever the cache holds, and no read reports
  fewer bytes than the file has there.
\<close>

section \<open>The block map\<close>

fun offsets_from :: "u64 \<Rightarrow> u32 list \<Rightarrow> u64 list" where
  "offsets_from cursor [] = []"
| "offsets_from cursor (sz # szs) =
     cursor # offsets_from (saturating_add cursor (ucast (data_on_disk_size sz))) szs"

definition block_offsets :: "inode \<Rightarrow> u64 list" where
  "block_offsets i = offsets_from (in_blocks_start i) (in_block_sizes i)"

section \<open>One block\<close>

definition decode_data_block ::
  "('c, 'd) world \<Rightarrow> filesystem \<Rightarrow> u64 \<Rightarrow> u32 \<Rightarrow> nat \<Rightarrow> bytes result" where
  "decode_data_block W fs abs_off size_word max_out =
     (let on_disk = unat (data_on_disk_size size_word) in
      if unat (sb_block_size (fs_sb fs)) < on_disk then
        Fail (BadInode ''data block's on-disk size exceeds the archive's block size'')
      else
        and_then (read_at (fs_dev fs) abs_off on_disk) (\<lambda>raw.
        if data_is_compressed size_word then decompress (w_codecs W) (fs_comp fs) raw max_out
        else if max_out < length raw then
          Fail (BadInode ''uncompressed data block exceeds block size'')
        else Ok raw))"

definition read_data_block ::
  "('c, 'd) world \<Rightarrow> filesystem \<Rightarrow> u64 \<Rightarrow> u32 \<Rightarrow> nat \<Rightarrow> (('c, 'd) caches, bytes) sm" where
  "read_data_block W fs abs_off size_word max_out s =
     (let key = (abs_off, size_word, max_out) in
      case dc_get (w_data_lru W) (ca_data s) key of
        (Some hit, g) \<Rightarrow> (Ok hit, s\<lparr>ca_data := g\<rparr>)
      | (None, g) \<Rightarrow>
          (case decode_data_block W fs abs_off size_word max_out of
             Inl e \<Rightarrow> (Inl e, s\<lparr>ca_data := g\<rparr>)
           | Inr block \<Rightarrow> (Ok block, s\<lparr>ca_data := dc_insert (w_data_lru W) g key block\<rparr>)))"

record logical_block =
  lb_bytes :: bytes
  lb_start :: nat
  lb_end :: nat

definition lb_slice :: "logical_block \<Rightarrow> bytes result" where
  "lb_slice b = slice (lb_bytes b) (lb_start b) (lb_end b)"

definition read_full_block ::
  "('c, 'd) world \<Rightarrow> filesystem \<Rightarrow> inode \<Rightarrow> nat \<Rightarrow> u64 list \<Rightarrow> (('c, 'd) caches, logical_block) sm" where
  "read_full_block W fs i block_idx offsets =
     (let bs = ucast (sb_block_size (fs_sb fs)) :: u64;
          logical_len = unat (min bs (in_file_size i - of_nat block_idx * bs))
      in
      bind_s (lift_s (index (in_block_sizes i) block_idx)) (\<lambda>size_word.
      if data_on_disk_size size_word = 0 then
        ret_s \<lparr>lb_bytes = replicate logical_len 0, lb_start = 0, lb_end = logical_len\<rparr>
      else
        bind_s (lift_s (index offsets block_idx)) (\<lambda>at.
        bind_s (read_data_block W fs at size_word logical_len) (\<lambda>block.
        if length block \<noteq> logical_len then
          fail_s (BadInode ''data block decoded to the wrong length'')
        else ret_s \<lparr>lb_bytes = block, lb_start = 0, lb_end = logical_len\<rparr>))))"

definition read_tail ::
  "('c, 'd) world \<Rightarrow> filesystem \<Rightarrow> inode \<Rightarrow> (('c, 'd) caches, logical_block) sm" where
  "read_tail W fs i =
     (let bs = ucast (sb_block_size (fs_sb fs)) :: u64;
          n_full = length (in_block_sizes i)
      in
      bind_s (lift_s (ok_or (get (fs_fragments fs) (unat (in_fragment_index i)))
          (BadInode ''fragment index out of range''))) (\<lambda>frag.
      bind_s (read_data_block W fs (fe_start frag) (fe_size frag)
          (unat (sb_block_size (fs_sb fs)))) (\<lambda>frag_block.
      let tail_len = unat (in_file_size i - of_nat n_full * bs);
          start = unat (in_fragment_offset i)
      in
      bind_s (lift_s (ok_or (checked_add_usize start tail_len)
          (BadInode ''fragment offset overflow''))) (\<lambda>end_at.
      if length frag_block < end_at then
        fail_s (BadInode ''fragment tail past fragment block end'')
      else ret_s \<lparr>lb_bytes = frag_block, lb_start = start, lb_end = end_at\<rparr>))))"

definition read_logical_block ::
  "('c, 'd) world \<Rightarrow> filesystem \<Rightarrow> inode \<Rightarrow> nat \<Rightarrow> u64 list \<Rightarrow> (('c, 'd) caches, logical_block) sm" where
  "read_logical_block W fs i block_idx offsets =
     (if block_idx < length (in_block_sizes i) then read_full_block W fs i block_idx offsets
      else if has_fragment i then read_tail W fs i
      else fail_s OutOfRange)"

section \<open>The read loop\<close>

text \<open>\<open>buf[at..at + n].copy_from_slice(bs)\<close>\<close>

definition copy_into :: "bytes \<Rightarrow> nat \<Rightarrow> bytes \<Rightarrow> bytes result" where
  "copy_into buf at bs =
     (if at + length bs \<le> length buf then Ok (take at buf @ bs @ drop (at + length bs) buf)
      else Panics)"

text \<open>One turn: the block under \<open>written\<close>, and the bytes of it that go into the buffer.\<close>

definition read_step ::
  "('c, 'd) world \<Rightarrow> filesystem \<Rightarrow> inode \<Rightarrow> u64 list \<Rightarrow> u64 \<Rightarrow> nat \<Rightarrow> nat \<Rightarrow> (('c, 'd) caches, bytes) sm" where
  "read_step W fs i offsets offset to_read written =
     (let bs = ucast (sb_block_size (fs_sb fs)) :: u64;
          abs_pos = offset + of_nat written
      in
      if bs = 0 then lift_s Panics
      else
        let block_idx = unat (abs_pos div bs);
            block_off = unat (abs_pos mod bs)
        in
        bind_s (read_logical_block W fs i block_idx offsets) (\<lambda>lb.
        bind_s (lift_s (lb_slice lb)) (\<lambda>block.
        if length block \<le> block_off then
          fail_s (BadInode ''data block shorter than the offset read from it'')
        else
          let tk = min (length block - block_off) (to_read - written) in
          lift_s (slice block block_off (block_off + tk)))))"

lemma read_step_length:
  "read_step W fs i offsets offset to_read written s = (Ok bs, s') \<Longrightarrow> written < to_read \<Longrightarrow>
    0 < length bs \<and> length bs \<le> to_read - written"
  by (auto simp: read_step_def Let_def bind_s_eq_Ok lift_s_def fail_s_def slice_def
      split: if_splits)

function read_loop ::
  "('c, 'd) world \<Rightarrow> filesystem \<Rightarrow> inode \<Rightarrow> u64 list \<Rightarrow> u64 \<Rightarrow> nat \<Rightarrow> nat \<Rightarrow> ('c, 'd) caches \<Rightarrow> bytes \<Rightarrow>
    nat result \<times> ('c, 'd) caches \<times> bytes" where
  "read_loop W fs i offsets offset to_read written s buf =
     (if written < to_read then
        (case read_step W fs i offsets offset to_read written s of
           (Inl e, s') \<Rightarrow> (Inl e, s', buf)
         | (Inr bs, s') \<Rightarrow>
             (case copy_into buf written bs of
                Inl e \<Rightarrow> (Inl e, s', buf)
              | Inr buf' \<Rightarrow>
                  read_loop W fs i offsets offset to_read (written + length bs) s' buf'))
      else (Ok written, s, buf))"
  by pat_completeness auto
termination
  by (relation "measure (\<lambda>(W, fs, i, offsets, offset, to_read, written, s, buf). to_read - written)")
    (auto dest!: sym [THEN read_step_length] simp flip: length_greater_0_conv)

declare read_loop.simps [simp del]

definition read_file_with_offsets ::
  "('c, 'd) world \<Rightarrow> filesystem \<Rightarrow> inode \<Rightarrow> u64 list \<Rightarrow> u64 \<Rightarrow> ('c, 'd) caches \<Rightarrow> bytes \<Rightarrow>
    nat result \<times> ('c, 'd) caches \<times> bytes" where
  "read_file_with_offsets W fs i offsets offset s buf =
     (if \<not> is_regular_file i then (Fail (BadInode ''read_file on non-file''), s, buf)
      else if in_file_size i \<le> offset \<or> buf = [] then (Ok 0, s, buf)
      else
        let to_read = min (length buf) (unat (in_file_size i - offset)) in
        read_loop W fs i offsets offset to_read 0 s buf)"

definition read_file ::
  "('c, 'd) world \<Rightarrow> filesystem \<Rightarrow> inode \<Rightarrow> u64 \<Rightarrow> ('c, 'd) caches \<Rightarrow> bytes \<Rightarrow>
    nat result \<times> ('c, 'd) caches \<times> bytes" where
  "read_file W fs i offset s buf = read_file_with_offsets W fs i (block_offsets i) offset s buf"

section \<open>The block map is a running sum\<close>

lemma length_offsets_from [simp]: "length (offsets_from c szs) = length szs"
  by (induction c szs rule: offsets_from.induct) simp_all

lemma length_block_offsets [simp]: "length (block_offsets i) = length (in_block_sizes i)"
  by (simp add: block_offsets_def)

lemma offsets_from_nth:
  "k < length szs \<Longrightarrow>
    unat (offsets_from c szs ! k) =
      min (unat c + sum_list (map (\<lambda>sz. unat (data_on_disk_size sz)) (take k szs))) (2 ^ 64 - 1)"
proof (induction c szs arbitrary: k rule: offsets_from.induct)
  case (1 cursor)
  then show ?case by simp
next
  case (2 c sz szs)
  have le: "unat c \<le> 2 ^ 64 - 1" using unsigned_less [of c, where 'a = nat] by simp
  show ?case
  proof (cases k)
    case 0
    with le show ?thesis by simp
  next
    case (Suc m)
    with 2 show ?thesis by (simp add: unat_saturating_add unat_ucast_up min_def)
  qed
qed

section \<open>What a read gives does not depend on the data cache\<close>

definition decode_key :: "('c, 'd) world \<Rightarrow> filesystem \<Rightarrow> data_key \<Rightarrow> bytes result" where
  "decode_key W fs key = (case key of (off, sw, max_out) \<Rightarrow> decode_data_block W fs off sw max_out)"

text \<open>Both caches of a mount tell the truth: every entry is what decoding its block gives.\<close>

definition caches_ok :: "('c, 'd) world \<Rightarrow> filesystem \<Rightarrow> ('c, 'd) caches \<Rightarrow> bool" where
  "caches_ok W fs s \<longleftrightarrow>
     mc_sound (env W fs) (fs_sb fs) (Some (ca_meta s)) \<and>
     lru_contract (w_data_lru W) \<and>
     memo_sound (dc_holds (w_data_lru W)) (decode_key W fs) (ca_data s)"

text \<open>\<open>answers P m r\<close>: wherever \<open>P\<close> holds, \<open>m\<close> answers \<open>r\<close> and keeps \<open>P\<close>.\<close>

definition answers :: "('s \<Rightarrow> bool) \<Rightarrow> ('s, 'a) sm \<Rightarrow> 'a result \<Rightarrow> bool" where
  "answers P m r \<longleftrightarrow> (\<forall>s. P s \<longrightarrow> fst (m s) = r \<and> P (snd (m s)))"

lemma answers_ret: "answers P (ret_s v) (Ok v)"
  by (simp add: answers_def ret_s_def)

lemma answers_lift: "answers P (lift_s r) r"
  by (simp add: answers_def lift_s_def)

lemma answers_fail: "answers P (fail_s e) (Fail e)"
  by (simp add: answers_def fail_s_def)

lemma answers_bind:
  assumes "answers P m r" and "\<And>v. r = Ok v \<Longrightarrow> answers P (f v) (g v)"
  shows "answers P (bind_s m f) (and_then r g)"
  unfolding answers_def
proof (intro allI impI)
  fix s assume "P s"
  obtain q t where m: "m s = (q, t)" by fastforce
  with assms(1) \<open>P s\<close> have "q = r" "P t" by (auto simp: answers_def)
  with m assms(2) show "fst (bind_s m f s) = and_then r g \<and> P (snd (bind_s m f s))"
    by (cases r) (auto simp: bind_s_def answers_def)
qed

lemma answers_agree: "answers P m r \<Longrightarrow> agree (\<lambda>s t. P s \<and> P t) m m"
  by (simp add: answers_def agree_def)

lemma read_data_block_memo:
  "read_data_block W fs off sw mo s =
    (case memo (dc_get (w_data_lru W)) (dc_insert (w_data_lru W)) (decode_key W fs) (off, sw, mo) (ca_data s) of
       (r, g) \<Rightarrow> (r, s\<lparr>ca_data := g\<rparr>))"
  by (auto simp: read_data_block_def memo_def decode_key_def Let_def
      split: prod.splits option.splits sum.splits)

lemma answers_data_block:
  "answers (caches_ok W fs) (read_data_block W fs off sw mo) (decode_data_block W fs off sw mo)"
  unfolding answers_def
proof (intro allI impI)
  fix s assume s: "caches_ok W fs s"
  then have "lru_contract (w_data_lru W)"
    "memo_sound (dc_holds (w_data_lru W)) (decode_key W fs) (ca_data s)"
    by (simp_all add: caches_ok_def)
  from data.memo_transparent [OF this, of "(off, sw, mo)"] s
  show "fst (read_data_block W fs off sw mo s) = decode_data_block W fs off sw mo \<and>
      caches_ok W fs (snd (read_data_block W fs off sw mo s))"
    unfolding read_data_block_memo
    by (cases "memo (dc_get (w_data_lru W)) (dc_insert (w_data_lru W)) (decode_key W fs) (off, sw, mo) (ca_data s)")
      (simp add: caches_ok_def decode_key_def)
qed

section \<open>What it is for an image to hold a file\<close>

definition bsize :: "filesystem \<Rightarrow> nat" where
  "bsize fs = unat (sb_block_size (fs_sb fs))"

definition chunk :: "filesystem \<Rightarrow> bytes \<Rightarrow> nat \<Rightarrow> bytes" where
  "chunk fs data k = take (bsize fs) (drop (k * bsize fs) data)"

text \<open>Block \<open>k\<close> of the file: a hole that is all zeros, or a data block where the map says that
  decodes to exactly the file's bytes there.\<close>

definition block_stored :: "('c, 'd) world \<Rightarrow> filesystem \<Rightarrow> inode \<Rightarrow> bytes \<Rightarrow> nat \<Rightarrow> bool" where
  "block_stored W fs i data k \<longleftrightarrow>
     (let sw = in_block_sizes i ! k; c = chunk fs data k in
      if data_on_disk_size sw = 0 then c = replicate (length c) 0
      else decode_data_block W fs (block_offsets i ! k) sw (length c) = Ok c)"

text \<open>The tail: a range of a fragment block.\<close>

definition tail_stored :: "('c, 'd) world \<Rightarrow> filesystem \<Rightarrow> inode \<Rightarrow> bytes \<Rightarrow> bool" where
  "tail_stored W fs i tl' \<longleftrightarrow>
     has_fragment i \<and>
     (\<exists>f fb. get (fs_fragments fs) (unat (in_fragment_index i)) = Some f \<and>
        decode_data_block W fs (fe_start f) (fe_size f) (bsize fs) = Ok fb \<and>
        unat (in_fragment_offset i) + length tl' \<le> length fb \<and>
        take (length tl') (drop (unat (in_fragment_offset i)) fb) = tl')"

definition file_stored :: "('c, 'd) world \<Rightarrow> filesystem \<Rightarrow> inode \<Rightarrow> bytes \<Rightarrow> bool" where
  "file_stored W fs i data \<longleftrightarrow>
     is_regular_file i \<and> 0 < bsize fs \<and> length data = unat (in_file_size i) \<and>
     (let n_full = length (in_block_sizes i); tl' = drop (n_full * bsize fs) data in
      (\<forall>k < n_full. k * bsize fs < length data \<longrightarrow> block_stored W fs i data k) \<and>
      (tl' \<noteq> [] \<longrightarrow> length tl' \<le> bsize fs \<and> tail_stored W fs i tl'))"

lemma unat_block_size: "unat (ucast (sb_block_size (fs_sb fs)) :: u64) = bsize fs"
  by (simp add: bsize_def unat_ucast_up)

lemma bsize_less: "bsize fs < 2 ^ 32"
  using unsigned_less [of "sb_block_size (fs_sb fs)", where 'a = nat] by (simp add: bsize_def)

lemma length_chunk: "length (chunk fs data k) = min (bsize fs) (length data - k * bsize fs)"
  by (simp add: chunk_def min.commute)

text \<open>The one subtraction of the block geometry, where it does not wrap.\<close>

lemma unat_rest:
  assumes "length data = unat (in_file_size i)" "k * bsize fs \<le> length data"
  shows "unat (in_file_size i - of_nat k * ucast (sb_block_size (fs_sb fs))) = length data - k * bsize fs"
proof -
  have "length data < 2 ^ 64" using assms(1) unsigned_less [of "in_file_size i", where 'a = nat] by simp
  with assms(2) have l: "k * bsize fs < 2 ^ 64" by simp
  have "(of_nat k * ucast (sb_block_size (fs_sb fs)) :: u64) = of_nat (k * bsize fs)"
    by (simp add: bsize_def)
  then have u: "unat (of_nat k * ucast (sb_block_size (fs_sb fs)) :: u64) = k * bsize fs"
    using l by (simp only: unat_of_nat) (simp add: take_bit_nat_eq_self)
  then have "(of_nat k * ucast (sb_block_size (fs_sb fs)) :: u64) \<le> in_file_size i"
    using assms by (simp add: word_le_nat_alt)
  with u assms(1) show ?thesis by (simp add: unat_sub)
qed

lemma logical_len_eq:
  assumes "length data = unat (in_file_size i)" "k * bsize fs \<le> length data"
  shows "unat (min (ucast (sb_block_size (fs_sb fs))) (in_file_size i - of_nat k * ucast (sb_block_size (fs_sb fs))) :: u64)
    = length (chunk fs data k)"
  using unat_rest [OF assms] unat_block_size [of fs]
  by (simp add: length_chunk min_def word_le_nat_alt)

definition block_bytes_of ::
  "('c, 'd) world \<Rightarrow> filesystem \<Rightarrow> inode \<Rightarrow> nat \<Rightarrow> (('c, 'd) caches, bytes) sm" where
  "block_bytes_of W fs i k =
     bind_s (read_logical_block W fs i k (block_offsets i)) (\<lambda>lb. lift_s (lb_slice lb))"

lemma answers_eq: "answers P m r \<Longrightarrow> r = q \<Longrightarrow> answers P m q"
  by simp

lemma answers_if: "(b \<Longrightarrow> answers P m r) \<Longrightarrow> (\<not> b \<Longrightarrow> answers P n r) \<Longrightarrow> answers P (if b then m else n) r"
  by simp

lemma answers_full_block:
  assumes "file_stored W fs i data" "k < length (in_block_sizes i)" "k * bsize fs < length data"
  shows "answers (caches_ok W fs) (block_bytes_of W fs i k) (Ok (chunk fs data k))"
proof -
  let ?c = "chunk fs data k" and ?sw = "in_block_sizes i ! k"
  from assms have len: "length data = unat (in_file_size i)"
    and st: "block_stored W fs i data k"
    by (auto simp: file_stored_def Let_def)
  note ll = logical_len_eq [OF len, of k fs]
  have c: "block_bytes_of W fs i k = bind_s (read_full_block W fs i k (block_offsets i)) (\<lambda>lb. lift_s (lb_slice lb))"
    using assms(2) by (simp add: block_bytes_of_def read_logical_block_def)
  show ?thesis
  proof (cases "data_on_disk_size ?sw = 0")
    case True
    with st have z: "?c = replicate (length ?c) 0" by (simp add: block_stored_def Let_def)
    have "block_bytes_of W fs i k s = (Ok ?c, s)" for s
      unfolding c using True assms(2,3) ll z
      by (simp add: read_full_block_def bind_s_def lift_s_def ret_s_def index_def lb_slice_def slice_def Let_def)
    then show ?thesis by (simp add: answers_def)
  next
    case False
    with st have d: "decode_data_block W fs (block_offsets i ! k) ?sw (length ?c) = Ok ?c"
      by (simp add: block_stored_def Let_def)
    have "block_bytes_of W fs i k =
        bind_s (read_data_block W fs (block_offsets i ! k) ?sw (length ?c)) (\<lambda>block.
          if length block \<noteq> length ?c then fail_s (BadInode ''data block decoded to the wrong length'')
          else lift_s (lb_slice \<lparr>lb_bytes = block, lb_start = 0, lb_end = length ?c\<rparr>))"
      unfolding c read_full_block_def Let_def using False assms(2,3) ll
      by (intro ext) (auto simp: bind_s_def lift_s_def ret_s_def fail_s_def index_def
          split: prod.splits sum.splits)
    moreover have "answers (caches_ok W fs) \<dots>
        (and_then (Ok ?c) (\<lambda>block. lb_slice \<lparr>lb_bytes = block, lb_start = 0, lb_end = length ?c\<rparr>))"
      by (rule answers_bind [OF answers_eq [OF answers_data_block d]]) (simp add: answers_lift)
    ultimately show ?thesis by (simp add: lb_slice_def slice_def)
  qed
qed

lemma answers_tail_block:
  assumes "file_stored W fs i data" "length (in_block_sizes i) * bsize fs < length data"
  shows "answers (caches_ok W fs) (block_bytes_of W fs i (length (in_block_sizes i)))
    (Ok (chunk fs data (length (in_block_sizes i))))"
proof -
  let ?n = "length (in_block_sizes i)" and ?fo = "unat (in_fragment_offset i)"
  let ?t = "drop (?n * bsize fs) data"
  from assms have len: "length data = unat (in_file_size i)"
    and st: "tail_stored W fs i ?t" and tl: "length ?t \<le> bsize fs"
    by (auto simp: file_stored_def Let_def)
  from st obtain f fb where f: "get (fs_fragments fs) (unat (in_fragment_index i)) = Some f"
    "decode_data_block W fs (fe_start f) (fe_size f) (bsize fs) = Ok fb"
    "?fo + length ?t \<le> length fb" "take (length ?t) (drop ?fo fb) = ?t" "has_fragment i"
    by (auto simp: tail_stored_def)
  have r: "unat (in_file_size i - of_nat ?n * ucast (sb_block_size (fs_sb fs))) = length ?t"
    using unat_rest [OF len, of ?n fs] assms(2) by simp
  have ch: "chunk fs data ?n = ?t" using tl by (simp add: chunk_def)
  have "?fo < 2 ^ 32" using unsigned_less [of "in_fragment_offset i", where 'a = nat] by simp
  with tl bsize_less [of fs] have add: "checked_add_usize ?fo (length ?t) = Some (?fo + length ?t)"
    by (simp add: checked_add_usize_def usize_limit_def)
  have g: "ok_or (get (fs_fragments fs) (unat (in_fragment_index i))) e = Ok f" for e
    by (simp only: f(1) ok_or_simps)
  have "block_bytes_of W fs i ?n =
      bind_s (read_data_block W fs (fe_start f) (fe_size f) (bsize fs)) (\<lambda>fb.
        if length fb < ?fo + length ?t then fail_s (BadInode ''fragment tail past fragment block end'')
        else lift_s (lb_slice \<lparr>lb_bytes = fb, lb_start = ?fo, lb_end = ?fo + length ?t\<rparr>))"
    unfolding block_bytes_of_def read_logical_block_def read_tail_def Let_def r
    using f(5) add
    by (intro ext) (auto simp: g bind_s_def lift_s_def ret_s_def fail_s_def bsize_def
        split: prod.splits sum.splits)
  moreover have "answers (caches_ok W fs) \<dots>
      (and_then (Ok fb) (\<lambda>fb. lb_slice \<lparr>lb_bytes = fb, lb_start = ?fo, lb_end = ?fo + length ?t\<rparr>))"
    by (rule answers_bind [OF answers_eq [OF answers_data_block f(2)]])
      (use f(3) in \<open>simp add: answers_lift\<close>)
  ultimately show ?thesis using f(3,4) ch by (simp add: lb_slice_def slice_def)
qed

lemma answers_block:
  assumes "file_stored W fs i data" "k * bsize fs < length data"
  shows "answers (caches_ok W fs) (block_bytes_of W fs i k) (Ok (chunk fs data k))"
proof (cases "k < length (in_block_sizes i)")
  case True
  with assms show ?thesis by (intro answers_full_block)
next
  case False
  let ?n = "length (in_block_sizes i)"
  from False assms(2) have n: "?n * bsize fs < length data"
    by (meson le_less_trans mult_le_mono1 not_less)
  with assms(1) have "length data \<le> (?n + 1) * bsize fs"
    by (auto simp: file_stored_def Let_def)
  with assms(2) have "k * bsize fs < (?n + 1) * bsize fs" by simp
  then have "k < ?n + 1" by (metis mult_less_cancel2)
  with False have "k = ?n" by simp
  with answers_tail_block [OF assms(1) n] show ?thesis by simp
qed

section \<open>The loop fills the buffer with the file's bytes\<close>

lemma position:
  fixes offset :: u64
  assumes "file_stored W fs i data" "unat offset + n < length data"
  shows "unat ((offset + of_nat n) div ucast (sb_block_size (fs_sb fs))) = (unat offset + n) div bsize fs"
    "unat ((offset + of_nat n) mod ucast (sb_block_size (fs_sb fs))) = (unat offset + n) mod bsize fs"
proof -
  have "length data < 2 ^ 64"
    using assms(1) unsigned_less [of "in_file_size i", where 'a = nat]
    by (simp add: file_stored_def)
  with assms(2) have l: "unat offset + n < 2 ^ 64" by simp
  have "offset + of_nat n = (of_nat (unat offset + n) :: u64)" by simp
  then have "unat (offset + of_nat n) = unat offset + n"
    using l by (simp only: unat_of_nat) (simp add: take_bit_nat_eq_self)
  then show "unat ((offset + of_nat n) div ucast (sb_block_size (fs_sb fs))) = (unat offset + n) div bsize fs"
    "unat ((offset + of_nat n) mod ucast (sb_block_size (fs_sb fs))) = (unat offset + n) mod bsize fs"
    by (simp_all add: unat_div unat_mod unat_block_size)
qed

lemma chunk_slice:
  assumes "0 < bsize fs" "p < length data" "n \<le> length (chunk fs data (p div bsize fs)) - p mod bsize fs"
  shows "take n (drop (p mod bsize fs) (chunk fs data (p div bsize fs))) = take n (drop p data)"
    "p mod bsize fs < length (chunk fs data (p div bsize fs))"
proof -
  let ?b = "bsize fs"
  have m: "p div ?b * ?b + p mod ?b = p" by simp
  moreover have "p mod ?b < ?b" using assms(1) by simp
  ultimately show lt: "p mod ?b < length (chunk fs data (p div ?b))"
    using assms(2) unfolding length_chunk by linarith
  have "drop (p mod ?b) (chunk fs data (p div ?b)) = take (?b - p mod ?b) (drop p data)"
    unfolding chunk_def by (simp only: drop_take drop_drop m add.commute [of "p mod ?b"])
  moreover have "n \<le> ?b - p mod ?b" using assms(3) unfolding length_chunk by linarith
  ultimately show "take n (drop (p mod ?b) (chunk fs data (p div ?b))) = take n (drop p data)"
    by (simp add: min_absorb1)
qed

text \<open>How much of the file one turn copies: up to the end of its block or of the request.\<close>

definition step_len :: "filesystem \<Rightarrow> bytes \<Rightarrow> nat \<Rightarrow> nat \<Rightarrow> nat" where
  "step_len fs data p n = min (length (chunk fs data (p div bsize fs)) - p mod bsize fs) n"

lemma answers_step:
  assumes st: "file_stored W fs i data" and p: "p = unat offset + written" "p < length data"
    and "written < to_read"
  shows "answers (caches_ok W fs) (read_step W fs i (block_offsets i) offset to_read written)
    (Ok (take (step_len fs data p (to_read - written)) (drop p data)))"
proof -
  let ?b = "bsize fs" and ?c = "chunk fs data (p div bsize fs)"
  have b: "0 < ?b" using st by (simp add: file_stored_def)
  then have nz: "(ucast (sb_block_size (fs_sb fs)) :: u64) \<noteq> 0"
    by (metis unat_block_size unsigned_0 less_irrefl)
  note pos = position [OF st, of offset written, folded p(1), OF p(2)]
  have k: "p div ?b * ?b < length data"
    using p(2) by (metis div_times_less_eq_dividend le_less_trans)
  have "read_step W fs i (block_offsets i) offset to_read written =
      bind_s (block_bytes_of W fs i (p div ?b)) (\<lambda>block.
        if length block \<le> p mod ?b then
          fail_s (BadInode ''data block shorter than the offset read from it'')
        else lift_s (slice block (p mod ?b) (p mod ?b + min (length block - p mod ?b) (to_read - written))))"
    unfolding read_step_def block_bytes_of_def Let_def pos using nz
    by (intro ext) (simp add: bind_s_assoc)
  moreover have "answers (caches_ok W fs) \<dots>
      (and_then (Ok ?c) (\<lambda>block. slice block (p mod ?b)
        (p mod ?b + min (length block - p mod ?b) (to_read - written))))"
    by (rule answers_bind [OF answers_block [OF st k]])
      (use chunk_slice(2) [OF b p(2), of 0] in \<open>simp add: answers_lift\<close>)
  moreover have "slice ?c (p mod ?b) (p mod ?b + min (length ?c - p mod ?b) (to_read - written)) =
      Ok (take (step_len fs data p (to_read - written)) (drop p data))"
    using chunk_slice [OF b p(2), of "step_len fs data p (to_read - written)"]
    by (simp add: slice_def step_len_def)
  ultimately show ?thesis by simp
qed

lemma step_len_bounds:
  assumes "0 < bsize fs" "p < length data" "0 < n"
  shows "0 < step_len fs data p n" "step_len fs data p n \<le> n" "p + step_len fs data p n \<le> length data"
proof -
  let ?b = "bsize fs"
  have m: "p div ?b * ?b + p mod ?b = p" by simp
  show "0 < step_len fs data p n" "step_len fs data p n \<le> n"
    using chunk_slice(2) [OF assms(1,2), of 0] assms(3) by (simp_all add: step_len_def)
  have "length (chunk fs data (p div ?b)) - p mod ?b \<le> length data - p"
    unfolding length_chunk using m by linarith
  then show "p + step_len fs data p n \<le> length data"
    using assms(2) unfolding step_len_def by linarith
qed

lemma read_loop_stored:
  assumes "file_stored W fs i data" "caches_ok W fs s"
    and "unat offset + to_read \<le> length data" "written \<le> to_read" "to_read \<le> length buf"
    and "take written buf = take written (drop (unat offset) data)"
  shows "\<exists>s' buf'. read_loop W fs i (block_offsets i) offset to_read written s buf = (Ok to_read, s', buf') \<and>
    caches_ok W fs s' \<and> buf' = take to_read (drop (unat offset) data) @ drop to_read buf"
  using assms(2,4-6)
proof (induction "to_read - written" arbitrary: written s buf rule: less_induct)
  case less
  show ?case
  proof (cases "written < to_read")
    case False
    with less.prems have "written = to_read" by simp
    with less.prems show ?thesis
      by (auto simp: read_loop.simps) (metis append_take_drop_id)
  next
    case True
    let ?p = "unat offset + written"
    let ?n = "step_len fs data ?p (to_read - written)"
    let ?bs = "take ?n (drop ?p data)"
    let ?buf = "take written buf @ ?bs @ drop (written + ?n) buf"
    have p: "?p < length data" using True assms(3) by simp
    have b: "0 < bsize fs" using assms(1) by (simp add: file_stored_def)
    note n = step_len_bounds [OF b p, of "to_read - written"]
    from answers_step [OF assms(1) refl p True] less.prems(1) obtain s' where
      st: "read_step W fs i (block_offsets i) offset to_read written s = (Ok ?bs, s')" "caches_ok W fs s'"
      by (auto simp: answers_def) (metis fst_conv prod.collapse snd_conv)
    have lb: "length ?bs = ?n" using n(3) True unfolding length_take length_drop by linarith
    with n(1,2) True less.prems have cp: "copy_into buf written ?bs = Ok ?buf"
      by (simp add: copy_into_def)
    have lw: "length (take written buf) = written" using True less.prems(3) by simp
    have t1: "take (written + ?n) ?buf = take (written + ?n) (drop (unat offset) data)"
      unfolding take_add [of written ?n "drop (unat offset) data"] drop_drop
      using lw lb less.prems(4) by (simp add: add.commute)
    have t2: "length ?buf = length buf" using lb lw n(2) True less.prems(3) by simp
    have t3: "drop to_read ?buf = drop to_read buf"
      using n(2) True less.prems(3) lb lw by (simp add: min_absorb1)
    have "to_read - (written + ?n) < to_read - written" using n(1) True by simp
    moreover have "written + ?n \<le> to_read" using n(2) True by simp
    moreover have "to_read \<le> length ?buf" unfolding t2 using less.prems(3) .
    ultimately obtain s'' where
      "read_loop W fs i (block_offsets i) offset to_read (written + ?n) s' ?buf =
        (Ok to_read, s'', take to_read (drop (unat offset) data) @ drop to_read buf)" "caches_ok W fs s''"
      using less.hyps [OF _ st(2) _ _ t1] unfolding t3 by blast
    with True st(1) cp lb show ?thesis
      by (simp add: read_loop.simps [of W fs i "block_offsets i" offset to_read written s buf])
  qed
qed

lemma read_file_stored:
  assumes "file_stored W fs i data" "caches_ok W fs s"
  shows "\<exists>s'. read_file W fs i offset s buf =
      (Ok (min (length buf) (length data - unat offset)), s',
       take (length buf) (drop (unat offset) data) @ drop (length data - unat offset) buf) \<and>
    caches_ok W fs s'"
proof -
  have len: "length data = unat (in_file_size i)" and reg: "is_regular_file i"
    using assms(1) by (auto simp: file_stored_def)
  show ?thesis
  proof (cases "in_file_size i \<le> offset \<or> buf = []")
    case True
    then have "length data \<le> unat offset \<or> buf = []" using len by (auto simp: word_le_nat_alt)
    with True reg assms(2) show ?thesis
      by (auto simp: read_file_def read_file_with_offsets_def)
  next
    case False
    then have o: "offset \<le> in_file_size i" "unat offset < length data"
      using len by (auto simp: word_le_nat_alt not_le)
    then have u: "unat (in_file_size i - offset) = length data - unat offset"
      using len by (simp add: unat_sub)
    let ?n = "min (length buf) (length data - unat offset)"
    have le: "unat offset + ?n \<le> length data" using o(2) by simp
    from read_loop_stored [OF assms le, of 0 buf] obtain s' where
      "read_loop W fs i (block_offsets i) offset ?n 0 s buf =
        (Ok ?n, s', take ?n (drop (unat offset) data) @ drop ?n buf)" "caches_ok W fs s'"
      by auto
    moreover have "take ?n (drop (unat offset) data) = take (length buf) (drop (unat offset) data)"
      by (simp add: min_def)
    moreover have "drop ?n buf = drop (length data - unat offset) buf" by (simp add: min_def)
    ultimately show ?thesis
      using False reg u by (simp add: read_file_def read_file_with_offsets_def Let_def)
  qed
qed

section \<open>What every read does, stored or not\<close>

lemma copy_into_frame:
  "copy_into buf at bs = Ok buf' \<Longrightarrow>
    length buf' = length buf \<and> (\<forall>n. at + length bs \<le> n \<longrightarrow> drop n buf' = drop n buf)"
  by (auto simp: copy_into_def min_absorb1 split: if_splits)

lemma read_loop_frame:
  "read_loop W fs i offsets offset to_read written s buf = (r, s', buf') \<Longrightarrow> written \<le> to_read \<Longrightarrow>
    length buf' = length buf \<and> drop to_read buf' = drop to_read buf \<and> (\<forall>n. r = Ok n \<longrightarrow> n = to_read)"
proof (induction W fs i offsets offset to_read written s buf rule: read_loop.induct)
  case (1 W fs i offsets offset to_read written s buf)
  show ?case
  proof (cases "written < to_read")
    case False
    with 1 show ?thesis by (auto simp: read_loop.simps)
  next
    case True
    obtain q s1 where q: "read_step W fs i offsets offset to_read written s = (q, s1)" by fastforce
    show ?thesis
    proof (cases q)
      case (Inl e)
      with 1 True q show ?thesis by (auto simp: read_loop.simps)
    next
      case (Inr bs)
      note len = read_step_length [OF q [unfolded Inr] True]
      show ?thesis
      proof (cases "copy_into buf written bs")
        case (Inl e)
        with 1 True q Inr show ?thesis by (auto simp: read_loop.simps)
      next
        case (Inr buf1)
        note ih = 1(1) [OF True, of q s1 bs buf1]
        have "read_loop W fs i offsets offset to_read (written + length bs) s1 buf1 = (r, s', buf')"
          using 1(2) True q \<open>q = Ok bs\<close> Inr
          by (simp add: read_loop.simps [of W fs i offsets offset to_read written s buf])
        with ih q \<open>q = Ok bs\<close> Inr len True copy_into_frame [OF Inr] show ?thesis
          by auto
      qed
    qed
  qed
qed

lemma read_file_frame:
  assumes "read_file W fs i offset s buf = (r, s', buf')"
  shows "length buf' = length buf"
    "drop (unat (in_file_size i) - unat offset) buf' = drop (unat (in_file_size i) - unat offset) buf"
    "r = Ok n \<Longrightarrow> n = min (length buf) (unat (in_file_size i) - unat offset)"
proof -
  have "length buf' = length buf \<and>
    drop (unat (in_file_size i) - unat offset) buf' = drop (unat (in_file_size i) - unat offset) buf \<and>
    (\<forall>n. r = Ok n \<longrightarrow> n = min (length buf) (unat (in_file_size i) - unat offset))"
  proof (cases "is_regular_file i \<and> \<not> in_file_size i \<le> offset \<and> buf \<noteq> []")
    case False
    with assms show ?thesis
      by (auto simp: read_file_def read_file_with_offsets_def word_le_nat_alt split: if_splits)
  next
    case True
    then have u: "unat (in_file_size i - offset) = unat (in_file_size i) - unat offset"
      by (intro unat_sub) (simp add: not_le less_imp_le)
    let ?n = "min (length buf) (unat (in_file_size i) - unat offset)"
    from True assms have
      "read_loop W fs i (block_offsets i) offset ?n 0 s buf = (r, s', buf')"
      by (simp add: read_file_def read_file_with_offsets_def Let_def u)
    from read_loop_frame [OF this] have f: "length buf' = length buf" "drop ?n buf' = drop ?n buf"
      "\<forall>n. r = Ok n \<longrightarrow> n = ?n" by auto
    then have "drop (unat (in_file_size i) - unat offset) buf' = drop (unat (in_file_size i) - unat offset) buf"
      by (cases "length buf \<le> unat (in_file_size i) - unat offset") (simp_all add: min_def)
    with f show ?thesis by blast
  qed
  then show "length buf' = length buf"
    "drop (unat (in_file_size i) - unat offset) buf' = drop (unat (in_file_size i) - unat offset) buf"
    "r = Ok n \<Longrightarrow> n = min (length buf) (unat (in_file_size i) - unat offset)" by auto
qed

section \<open>No read panics\<close>

abbreviation any :: "'s \<Rightarrow> bool" where "any \<equiv> \<lambda>_. True"

lemma safe_decode_data_block: "safe (decode_data_block W fs off sw mo)"
  by (auto simp: decode_data_block_def Let_def safe_decompress intro!: safe_and_then)

lemma triple_data_block: "triple any (read_data_block W fs off sw mo) any"
  using safe_decode_data_block [of W fs off sw mo]
  by (auto simp: triple_def read_data_block_def Let_def safe_def split: prod.split option.split sum.split)

definition lb_ok :: "logical_block \<Rightarrow> bool" where
  "lb_ok b \<longleftrightarrow> lb_start b \<le> lb_end b \<and> lb_end b \<le> length (lb_bytes b)"

lemma triple_full_block:
  assumes "k < length (in_block_sizes i)"
  shows "triple any (read_full_block W fs i k (block_offsets i)) lb_ok"
  unfolding read_full_block_def Let_def
  by (rule triple_bind [OF triple_lift [where Q = any]], use assms in \<open>simp add: index_def\<close>, simp,
      intro triple_if triple_ret, simp add: lb_ok_def,
      rule triple_bind [OF triple_lift [where Q = any]], use assms in \<open>simp add: index_def\<close>, simp,
      rule triple_bind [OF triple_data_block], intro triple_if triple_ret triple_fail)
    (simp add: lb_ok_def)

lemma triple_tail: "triple any (read_tail W fs i) lb_ok"
  unfolding read_tail_def Let_def
  by (rule triple_bind [OF triple_lift [where Q = any]], simp, simp,
      rule triple_bind [OF triple_data_block],
      rule triple_bind [OF triple_lift [where Q = "\<lambda>e. unat (in_fragment_offset i) \<le> e"]], simp,
      simp add: checked_add_usize_def split: if_splits,
      intro triple_if triple_ret triple_fail)
    (simp add: lb_ok_def)

lemma triple_logical_block: "triple any (read_logical_block W fs i k (block_offsets i)) lb_ok"
  unfolding read_logical_block_def
  by (intro triple_if triple_full_block triple_tail triple_fail)

lemma triple_step:
  assumes "0 < bsize fs"
  shows "triple any (read_step W fs i (block_offsets i) offset to_read written) any"
proof -
  have "(ucast (sb_block_size (fs_sb fs)) :: u64) \<noteq> 0"
    using assms by (metis unat_block_size unsigned_0 less_irrefl)
  moreover have "safe (lb_slice b)" if "lb_ok b" for b
    using that by (simp add: lb_slice_def slice_def lb_ok_def)
  ultimately show ?thesis
    unfolding read_step_def Let_def
    by (intro triple_if triple_bind [OF triple_logical_block] triple_bind [OF triple_lift [where Q = any]]
        triple_lift triple_fail)
      (auto simp: slice_def)
qed

lemma safe_read_loop:
  "0 < bsize fs \<Longrightarrow> offsets = block_offsets i \<Longrightarrow> written \<le> to_read \<Longrightarrow> to_read \<le> length buf \<Longrightarrow>
    safe (fst (read_loop W fs i offsets offset to_read written s buf))"
proof (induction W fs i offsets offset to_read written s buf rule: read_loop.induct)
  case (1 W fs i offsets offset to_read written s buf)
  show ?case
  proof (cases "written < to_read")
    case False
    then show ?thesis by (simp add: read_loop.simps)
  next
    case True
    obtain q s1 where q: "read_step W fs i offsets offset to_read written s = (q, s1)" by fastforce
    with 1(2,3) tripleD(1) [OF triple_step [of fs W i offset to_read written], of s] have sq: "safe q" by simp
    show ?thesis
    proof (cases q)
      case (Inl e)
      with True q sq show ?thesis by (simp add: read_loop.simps safe_def)
    next
      case (Inr bs)
      note len = read_step_length [OF q [unfolded Inr] True]
      then obtain buf1 where c: "copy_into buf written bs = Ok buf1"
        using True 1(5) unfolding copy_into_def by (metis (no_types) add.commute le_trans less_imp_le
          nat_add_left_cancel_le le_add_diff_inverse)
      have "written + length bs \<le> to_read" using len True by linarith
      then have "safe (fst (read_loop W fs i offsets offset to_read (written + length bs) s1 buf1))"
        using 1(1) [OF True q [symmetric] Inr c 1(2,3)] 1(5) copy_into_frame [OF c]
        by simp
      with True q Inr c show ?thesis
        by (simp add: read_loop.simps [of W fs i offsets offset to_read written s buf])
    qed
  qed
qed

lemma safe_read_file: "0 < bsize fs \<Longrightarrow> safe (fst (read_file W fs i offset s buf))"
  by (simp add: read_file_def read_file_with_offsets_def Let_def safe_read_loop)

section \<open>Any read, whatever the caches hold\<close>

definition both_ok :: "('c, 'd) world \<Rightarrow> filesystem \<Rightarrow> ('c, 'd) caches \<Rightarrow> ('c, 'd) caches \<Rightarrow> bool" where
  "both_ok W fs s t \<longleftrightarrow> caches_ok W fs s \<and> caches_ok W fs t"

lemma agree_data_block [agree_intros]:
  "agree (both_ok W fs) (read_data_block W fs off sw mo) (read_data_block W fs off sw mo)"
  using answers_agree [OF answers_data_block] unfolding both_ok_def .

lemma agree_step [agree_intros]:
  "agree (both_ok W fs) (read_step W fs i offsets offset to_read written)
    (read_step W fs i offsets offset to_read written)"
  unfolding read_step_def read_logical_block_def read_full_block_def read_tail_def Let_def
  by (intro agree_intros)

lemma read_loop_agree:
  "both_ok W fs s t \<Longrightarrow>
    fst (read_loop W fs i offsets offset to_read written s buf) =
      fst (read_loop W fs i offsets offset to_read written t buf) \<and>
    snd (snd (read_loop W fs i offsets offset to_read written s buf)) =
      snd (snd (read_loop W fs i offsets offset to_read written t buf)) \<and>
    both_ok W fs (fst (snd (read_loop W fs i offsets offset to_read written s buf)))
      (fst (snd (read_loop W fs i offsets offset to_read written t buf)))"
proof (induction W fs i offsets offset to_read written s buf arbitrary: t rule: read_loop.induct)
  case (1 W fs i offsets offset to_read written s buf)
  note unfold = read_loop.simps [of W fs i offsets offset to_read written s buf]
    read_loop.simps [of W fs i offsets offset to_read written t buf]
  show ?case
  proof (cases "written < to_read")
    case False
    with 1(2) show ?thesis by (simp add: unfold)
  next
    case True
    obtain q s1 p t1 where q: "read_step W fs i offsets offset to_read written s = (q, s1)"
      "read_step W fs i offsets offset to_read written t = (p, t1)" by fastforce
    with agreeD [OF agree_step 1(2), of i offsets offset to_read written]
    have eq: "p = q" and ok: "both_ok W fs s1 t1" by auto
    show ?thesis
    proof (cases q)
      case (Inl e)
      with True q eq ok show ?thesis by (simp add: unfold)
    next
      case (Inr bs)
      show ?thesis
      proof (cases "copy_into buf written bs")
        case (Inl e)
        with True q eq ok \<open>q = Ok bs\<close> show ?thesis by (simp add: unfold)
      next
        case (Inr buf1)
        from 1(1) [OF True q(1) [symmetric] \<open>q = Ok bs\<close> Inr ok] True q eq \<open>q = Ok bs\<close> Inr
        show ?thesis by (simp add: unfold)
      qed
    qed
  qed
qed

lemma read_file_agree:
  assumes "both_ok W fs s t"
  shows "fst (read_file W fs i offset s buf) = fst (read_file W fs i offset t buf)"
    "snd (snd (read_file W fs i offset s buf)) = snd (snd (read_file W fs i offset t buf))"
    "both_ok W fs (fst (snd (read_file W fs i offset s buf))) (fst (snd (read_file W fs i offset t buf)))"
  using read_loop_agree [OF assms] assms
  by (auto simp: read_file_def read_file_with_offsets_def Let_def)

section \<open>Properties\<close>

lemma sample_file_stored: "file_stored sample_world sample_fs a_node [1, 2, 3, 4]"
  by (simp add: file_stored_def sample_fs_def sample_world_def inode_of_def a_body_def headed_def
      is_regular_file_def file_type_of_def from_type_id_def type_ids bsize_def Let_def
      image_superblock_def block_stored_def chunk_def data_on_disk_size_def DATA_SIZE_MASK_def
      decode_data_block_def read_at_mem_device image_at data_is_compressed_def
      DATA_UNCOMPRESSED_BIT_def block_offsets_def)

lemma sample_caches_ok: "caches_ok sample_world sample_fs fresh_caches"
proof -
  have "w_data_lru sample_world = list_lru" by (simp add: sample_world_def)
  with fresh_sound [of image_superblock] show ?thesis
    by (simp add: caches_ok_def image_env memo_sound_def dc_new_holds list_lru_contract)
qed

text \<open>C1. Reading any range of a stored file, holes, data blocks and fragment tail alike, gives
  exactly the file's bytes there, reports how many, leaves the rest of the buffer alone, and keeps
  the caches true, whatever they held.\<close>

theorem read_file_exact:
  assumes "file_stored W fs i data" "caches_ok W fs s"
  shows "\<exists>s'. read_file W fs i offset s buf =
      (Ok (min (length buf) (length data - unat offset)), s',
       take (length buf) (drop (unat offset) data) @ drop (length data - unat offset) buf) \<and>
    caches_ok W fs s'"
  using assms by (rule read_file_stored)

lemma read_file_exact_witness:
  "\<exists>s'. read_file sample_world sample_fs a_node 1 fresh_caches [0, 0, 0, 0, 0] =
     (Ok 3, s', [2, 3, 4, 0, 0])"
  using read_file_exact [OF sample_file_stored sample_caches_ok, of 1 "[0, 0, 0, 0, 0]"] by auto

text \<open>A read that succeeds is short only at the end of the file, on any image: it reports the
  lesser of the buffer's length and what the file has left, and no read changes the buffer's length
  or a byte past that.\<close>

lemma short_reads_only_at_eof:
  assumes "read_file W fs i offset s buf = (Ok n, s', buf')"
  shows "n = min (length buf) (unat (in_file_size i) - unat offset) \<and> length buf' = length buf \<and>
    drop (unat (in_file_size i) - unat offset) buf' = drop (unat (in_file_size i) - unat offset) buf"
  using read_file_frame [OF assms] by simp

lemma short_reads_only_at_eof_witness:
  "\<exists>n s' buf'. read_file sample_world sample_fs a_node 3 fresh_caches [9, 9] = (Ok n, s', buf') \<and>
     n = 1 \<and> drop 1 buf' = [9]"
proof -
  obtain s' buf' where r: "read_file sample_world sample_fs a_node 3 fresh_caches [9, 9] = (Ok 1, s', buf')"
    using read_file_stored [OF sample_file_stored sample_caches_ok, of 3 "[9, 9]"] by auto
  from short_reads_only_at_eof [OF this] have "drop 1 buf' = [9]"
    by (simp add: inode_of_def a_body_def headed_def)
  with r show ?thesis by blast
qed

text \<open>The block map is the running sum of the blocks' stored sizes: block \<open>k\<close> starts where the
  file's blocks start, plus what the blocks before it occupy, clamped to the address space.\<close>

lemma block_map_prefix_sum:
  assumes "k < length (in_block_sizes i)"
  shows "unat (block_offsets i ! k) =
    min (unat (in_blocks_start i) +
        sum_list (map (\<lambda>sz. unat (data_on_disk_size sz)) (take k (in_block_sizes i))))
      (2 ^ 64 - 1)"
  using assms unfolding block_offsets_def by (rule offsets_from_nth)

lemma block_map_prefix_sum_witness:
  "unat (block_offsets (inode_default\<lparr>in_blocks_start := 96, in_block_sizes := [0x1000004, 5]\<rparr>) ! 1) = 100"
  by (subst block_map_prefix_sum) (simp_all add: data_on_disk_size_def DATA_SIZE_MASK_def)

end
