(* ===== verification/Mount.thy ===== *)
theory Mount
  imports File_Read
begin

text \<open>
  A mounted image under a sequence of calls.  The calls of \<open>src/fs.rs\<close> are the operations of a
  state machine whose state is the two caches; whatever calls, resizes and failures came before,
  an operation answers what it answers with caching switched off, and it never panics.
\<close>

section \<open>Calls through the metadata cache\<close>

lemma agree_on_meta [agree_intros]:
  assumes "agree (mc_rel (env W fs) (fs_sb fs)) m m"
  shows "agree (both_ok W fs) (on_meta m) (on_meta m)"
  unfolding agree_def
proof (intro allI impI)
  fix s t assume R: "both_ok W fs s t"
  then have "mc_rel (env W fs) (fs_sb fs) (Some (ca_meta s)) (Some (ca_meta t))"
    by (simp add: both_ok_def caches_ok_def mc_rel_def)
  note a = agreeD [OF assms this]
  obtain r c q d where m: "m (Some (ca_meta s)) = (r, c)" "m (Some (ca_meta t)) = (q, d)" by fastforce
  from R a m show "fst (on_meta m s) = fst (on_meta m t) \<and> both_ok W fs (snd (on_meta m s)) (snd (on_meta m t))"
    by (cases c; cases d) (auto simp: on_meta_def both_ok_def caches_ok_def mc_rel_def)
qed

lemma agree_read_inode [agree_intros]: "agree (both_ok W fs) (read_inode W fs r) (read_inode W fs r)"
  unfolding read_inode_def by (intro agree_intros)

lemma agree_inode_ref [agree_intros]:
  "agree (both_ok W fs) (inode_ref_for_number W fs n) (inode_ref_for_number W fs n)"
  unfolding inode_ref_for_number_def by (intro agree_intros)

lemma agree_by_number [agree_intros]:
  "agree (both_ok W fs) (read_inode_by_number W fs n) (read_inode_by_number W fs n)"
  unfolding read_inode_by_number_def by (intro agree_intros)

lemma agree_read_dir [agree_intros]: "agree (both_ok W fs) (read_dir W fs i) (read_dir W fs i)"
  unfolding read_dir_def Let_def by (intro agree_intros agree_with_cursor limiting_simps)

lemma agree_lookup_in [agree_intros]: "agree (both_ok W fs) (lookup_in W fs i n) (lookup_in W fs i n)"
  unfolding lookup_in_def by (intro agree_intros) (simp split: option.split add: agree_intros)

lemma agree_walk [agree_intros]: "agree (both_ok W fs) (walk W fs node cs) (walk W fs node cs)"
  by (induction cs arbitrary: node) (simp_all add: agree_intros)

lemma agree_lookup_path [agree_intros]:
  "agree (both_ok W fs) (lookup_path_bytes W fs p) (lookup_path_bytes W fs p)"
  unfolding lookup_path_bytes_def root_inode_def by (intro agree_intros)

lemma agree_list_xattrs [agree_intros]:
  "agree (both_ok W fs) (list_xattrs W fs i) (list_xattrs W fs i)"
  unfolding list_xattrs_def by (auto split: option.split intro!: agree_intros)

lemma agree_get_xattr [agree_intros]:
  "agree (both_ok W fs) (get_xattr W fs i n) (get_xattr W fs i n)"
  unfolding get_xattr_def by (intro agree_intros)

section \<open>The machine\<close>

datatype op =
    Read_inode u64
  | Ref_for_number u32
  | Inode_by_number u32
  | Root
  | Read_dir inode
  | Lookup inode bytes
  | Lookup_path bytes
  | List_xattrs inode
  | Get_xattr inode bytes
  | Read_file inode u64 bytes
  | Set_meta_capacity nat
  | Set_data_capacity nat

datatype answer =
    An_inode "inode result"
  | A_ref "u64 result"
  | Entries "dir_entry list result"
  | Attributes "xattr_entry list result"
  | Attribute "bytes option result"
  | Count "nat result" bytes
  | Done

fun perform :: "('c, 'd) world \<Rightarrow> filesystem \<Rightarrow> op \<Rightarrow> ('c, 'd) caches \<Rightarrow> answer \<times> ('c, 'd) caches" where
  "perform W fs (Read_inode r) s = map_prod An_inode id (read_inode W fs r s)"
| "perform W fs (Ref_for_number n) s = map_prod A_ref id (inode_ref_for_number W fs n s)"
| "perform W fs (Inode_by_number n) s = map_prod An_inode id (read_inode_by_number W fs n s)"
| "perform W fs Root s = map_prod An_inode id (root_inode W fs s)"
| "perform W fs (Read_dir i) s = map_prod Entries id (read_dir W fs i s)"
| "perform W fs (Lookup i n) s = map_prod An_inode id (lookup_in W fs i n s)"
| "perform W fs (Lookup_path p) s = map_prod An_inode id (lookup_path_bytes W fs p s)"
| "perform W fs (List_xattrs i) s = map_prod Attributes id (list_xattrs W fs i s)"
| "perform W fs (Get_xattr i n) s = map_prod Attribute id (get_xattr W fs i n s)"
| "perform W fs (Read_file i off buf) s =
     (case read_file W fs i off s buf of (r, s', buf') \<Rightarrow> (Count r buf', s'))"
| "perform W fs (Set_meta_capacity n) s = (Done, set_meta_cache_capacity W n s)"
| "perform W fs (Set_data_capacity n) s = (Done, set_data_cache_capacity W n s)"

text \<open>\<open>reachable W fs s0 s\<close>: some sequence of calls leads from the caches \<open>s0\<close> to \<open>s\<close>.\<close>

inductive reachable ::
  "('c, 'd) world \<Rightarrow> filesystem \<Rightarrow> ('c, 'd) caches \<Rightarrow> ('c, 'd) caches \<Rightarrow> bool"
  for W :: "('c, 'd) world" and fs :: filesystem and s0 :: "('c, 'd) caches" where
  reach_start: "reachable W fs s0 s0"
| reach_call: "reachable W fs s0 s \<Longrightarrow> perform W fs c s = (a, t) \<Longrightarrow> reachable W fs s0 t"

text \<open>The crate's contract with the \<open>lru\<close> crate, at both types it is used at.\<close>

definition lru_crate :: "('c, 'd) world \<Rightarrow> bool" where
  "lru_crate W \<longleftrightarrow> lru_contract (w_meta_lru W) \<and> lru_contract (w_data_lru W)"

lemma caches_ok_set_meta: "lru_crate W \<Longrightarrow> caches_ok W fs s \<Longrightarrow> caches_ok W fs (set_meta_cache_capacity W n s)"
  using mc_sound_set_capacity [of "env W fs" "fs_sb fs" n "ca_meta s"]
  by (simp add: caches_ok_def set_meta_cache_capacity_def lru_crate_def meta_env_on_def)

lemma caches_ok_set_data: "lru_crate W \<Longrightarrow> caches_ok W fs s \<Longrightarrow> caches_ok W fs (set_data_cache_capacity W n s)"
  by (simp add: caches_ok_def set_data_cache_capacity_def lru_crate_def memo_sound_def dc_set_capacity_holds)

lemma perform_agree:
  assumes "lru_crate W" "both_ok W fs s t"
  shows "fst (perform W fs c s) = fst (perform W fs c t) \<and>
    both_ok W fs (snd (perform W fs c s)) (snd (perform W fs c t))"
proof -
  have lift: "fst (map_prod A id (m s)) = fst (map_prod A id (m t)) \<and>
      both_ok W fs (snd (map_prod A id (m s))) (snd (map_prod A id (m t)))"
    if "agree (both_ok W fs) m m" for A :: "'x result \<Rightarrow> answer" and m :: "(('a, 'b) caches, 'x) sm"
    using agreeD [OF that assms(2)] by (cases "m s"; cases "m t") simp
  show ?thesis
  proof (cases c)
    case (Read_file i off buf)
    with read_file_agree [OF assms(2), of i off buf] show ?thesis
      by (auto split: prod.split)
  next
    case (Set_meta_capacity n)
    with assms show ?thesis by (simp add: both_ok_def caches_ok_set_meta)
  next
    case (Set_data_capacity n)
    with assms show ?thesis by (simp add: both_ok_def caches_ok_set_data)
  qed (simp_all only: perform.simps root_inode_def, (rule lift, intro agree_intros)+)
qed

lemma reachable_ok:
  assumes "reachable W fs s0 s" "lru_crate W" "caches_ok W fs s0"
  shows "caches_ok W fs s"
  using assms
proof (induction rule: reachable.induct)
  case reach_start
  then show ?case by simp
next
  case (reach_call s c a t)
  then have "both_ok W fs s s" by (simp add: both_ok_def)
  with perform_agree [of W fs s s c] reach_call show ?case by (simp add: both_ok_def)
qed

text \<open>The caches as opening leaves them, and with both switched off.\<close>

definition opened_caches :: "('c, 'd) world \<Rightarrow> nat \<Rightarrow> nat \<Rightarrow> ('c, 'd) caches" where
  "opened_caches W m d = \<lparr>ca_meta = mc_new (w_meta_lru W) m, ca_data = dc_new (w_data_lru W) d\<rparr>"

lemma caches_ok_opened: "lru_crate W \<Longrightarrow> caches_ok W fs (opened_caches W m d)"
  using mc_sound_new [of "env W fs" "fs_sb fs" m]
  by (simp add: caches_ok_def opened_caches_def lru_crate_def meta_env_on_def memo_sound_def dc_new_holds)

lemma reachable_transparent:
  assumes "lru_crate W" "reachable W fs (opened_caches W m d) s"
  shows "fst (perform W fs c s) = fst (perform W fs c (opened_caches W 0 0))"
proof -
  have "caches_ok W fs s" using reachable_ok assms caches_ok_opened by blast
  with caches_ok_opened [OF assms(1)] have "both_ok W fs s (opened_caches W 0 0)"
    by (simp add: both_ok_def)
  with perform_agree [OF assms(1)] show ?thesis by blast
qed

section \<open>No call panics, in any state\<close>

fun answer_safe :: "answer \<Rightarrow> bool" where
  "answer_safe (An_inode r) = safe r"
| "answer_safe (A_ref r) = safe r"
| "answer_safe (Entries r) = safe r"
| "answer_safe (Attributes r) = safe r"
| "answer_safe (Attribute r) = safe r"
| "answer_safe (Count r buf) = safe r"
| "answer_safe Done = True"

lemma perform_safe:
  assumes "mounted fs"
  shows "answer_safe (fst (perform W fs c s))"
proof -
  have b: "0 < bsize fs" using assms by (simp add: mounted_def bsize_def unat_gt_0)
  note triples =
    triple_read_inode [OF assms] triple_inode_ref triple_by_number [OF assms] triple_read_dir
    triple_lookup_in [OF assms] triple_lookup_path [OF assms] triple_list_xattrs triple_get_xattr
  show ?thesis
  proof (cases c)
    case (Read_file i off buf)
    with safe_read_file [OF b, of W i off s buf] show ?thesis
      by (cases "read_file W fs i off s buf") simp
  qed (simp_all add: root_inode_def triples [THEN tripleD(1), OF TrueI])
qed

text \<open>What a call may do to a handle's counters: a cache that is off counts nothing.\<close>

lemma set_capacity_zero:
  "mc_lru (ca_meta (set_meta_cache_capacity W 0 s)) = None"
  "dc_lru (ca_data (set_data_cache_capacity W 0 s)) = None"
  by (simp_all add: set_meta_cache_capacity_def set_data_cache_capacity_def mc_set_capacity_def
      dc_set_capacity_def lru_of_capacity_def dc_lru_of_def)

section \<open>Paths through a true handle\<close>

lemma resolution_same:
  "caches_ok W fs c \<Longrightarrow> caches_ok W fs d \<Longrightarrow>
    fst (lookup_path_bytes W fs path c) = fst (lookup_path_bytes W fs path d)"
  using agreeD(1) [OF agree_lookup_path, of W fs c d path] by (simp add: both_ok_def)

lemma lookup_keeps:
  "caches_ok W fs c \<Longrightarrow> caches_ok W fs (snd (lookup_path_bytes W fs path c))"
  using agreeD(2) [OF agree_lookup_path, of W fs c c path] by (simp add: both_ok_def)

text \<open>A path resolves to an inode, whatever the caches hold.\<close>

definition resolves :: "('c, 'd) world \<Rightarrow> filesystem \<Rightarrow> bytes \<Rightarrow> inode \<Rightarrow> bool" where
  "resolves W fs path i \<longleftrightarrow> (\<forall>c. caches_ok W fs c \<longrightarrow> fst (lookup_path_bytes W fs path c) = Ok i)"

lemma resolvesI:
  "fst (lookup_path_bytes W fs path c) = Ok i \<Longrightarrow> caches_ok W fs c \<Longrightarrow> resolves W fs path i"
  using resolution_same by (metis resolves_def)

text \<open>A path, a slash and a name of its listing resolve to the first entry of that name.\<close>

lemma lookup_first:
  assumes "resolves W fs p i" "caches_ok W fs c0" "fst (read_dir W fs i c0) = Ok es" "e \<in> set es"
  shows "\<exists>e'. find (\<lambda>x. de_name x = de_name e) es = Some e' \<and> (\<forall>c. caches_ok W fs c \<longrightarrow>
    fst (lookup_path_bytes W fs (p @ 0x2F # de_name e) c) = fst (read_inode W fs (de_inode_ref e') c))"
proof -
  from assms(4) obtain e' where e': "find (\<lambda>x. de_name x = de_name e) es = Some e'"
    by (cases "find (\<lambda>x. de_name x = de_name e) es") (auto simp: find_None_iff)
  have "fst (lookup_path_bytes W fs (p @ 0x2F # de_name e) c) = fst (read_inode W fs (de_inode_ref e') c)"
    if c: "caches_ok W fs c" for c
  proof -
    obtain r d where l: "lookup_path_bytes W fs p c = (r, d)" by fastforce
    with assms(1) c lookup_keeps [OF c, of p] have r: "r = Ok i" "caches_ok W fs d"
      by (auto simp: resolves_def)
    have "both_ok W fs c0 d" using assms(2) r(2) by (simp add: both_ok_def)
    from agreeD [OF agree_read_dir this, of i] assms(3) obtain f where
      f: "read_dir W fs i d = (Ok es, f)" "caches_ok W fs f"
      by (cases "read_dir W fs i d") (auto simp: both_ok_def)
    have "lookup_path_bytes W fs (p @ 0x2F # de_name e) c = read_inode W fs (de_inode_ref e') f"
      using l r(1) walk_listed [OF f(1) assms(4)] e' f(1)
      by (simp add: lookup_path_append bind_s_def lookup_in_def)
    moreover have "both_ok W fs f c" using f(2) c by (simp add: both_ok_def)
    ultimately show ?thesis using agreeD(1) [OF agree_read_inode] by metis
  qed
  with e' show ?thesis by blast
qed

text \<open>The small image: its root, its listing, and its file.\<close>

lemma sample_root: "resolves sample_world sample_fs [0x2F] root_node"
proof -
  have "fst (read_inode sample_world sample_fs 0 c) = Ok root_node" if "caches_ok sample_world sample_fs c" for c
    using that image_read_inode(1) [of c] by (simp add: caches_ok_def image_env)
  then show ?thesis
    by (auto simp: resolves_def lookup_path_bytes_def root_inode_def image_superblock_def components_def
        bind_s_def ret_s_def split: prod.split sum.split) (metis fst_conv sum.distinct(1) sum.inject(2))+
qed

lemma root_listing:
  "caches_ok sample_world sample_fs c \<Longrightarrow> fst (read_dir sample_world sample_fs root_node c) = Ok [a_entry]"
  using image_read_dir [of c] by (simp add: caches_ok_def image_env)

lemma sample_a: "resolves sample_world sample_fs [0x2F, 0x61] a_node"
proof -
  from lookup_first [OF sample_root sample_caches_ok root_listing [OF sample_caches_ok], of a_entry]
  have "fst (lookup_path_bytes sample_world sample_fs [0x2F, 0x2F, 0x61] c) =
      fst (read_inode sample_world sample_fs 32 c)" if "caches_ok sample_world sample_fs c" for c
    using that by auto
  moreover have "lookup_path_bytes sample_world sample_fs [0x2F, 0x2F, 0x61] =
      lookup_path_bytes sample_world sample_fs [0x2F, 0x61]"
    by (rule lookup_path_components) (simp add: components_def)
  ultimately show ?thesis
    using image_read_inode(2) by (auto simp: resolves_def caches_ok_def image_env)
qed

section \<open>Properties\<close>

lemma sample_lru_crate: "lru_crate sample_world"
  by (simp add: lru_crate_def sample_world_def list_lru_contract)

text \<open>C7. The caches are invisible: after any sequence of calls and resizes on a mount, every call
  answers, values and errors, what it answers with both caches switched off.\<close>

theorem calls_transparent:
  assumes "lru_crate W" "reachable W fs (opened_caches W m d) s"
  shows "fst (perform W fs c s) = fst (perform W fs c (opened_caches W 0 0))"
  using assms by (rule reachable_transparent)

lemma calls_transparent_witness:
  "fst (perform sample_world sample_fs Root (snd (perform sample_world sample_fs Root
      (opened_caches sample_world 4 2)))) =
   fst (perform sample_world sample_fs Root (opened_caches sample_world 0 0))"
proof (rule calls_transparent [OF sample_lru_crate])
  show "reachable sample_world sample_fs (opened_caches sample_world 4 2)
      (snd (perform sample_world sample_fs Root (opened_caches sample_world 4 2)))"
    by (rule reach_call [OF reach_start, where c = Root]) (rule prod.collapse [symmetric])
qed

text \<open>C8. No call on an opened image panics or runs on, whatever the device holds and whatever state
  the caches are in.\<close>

theorem calls_never_panic:
  assumes "open_with_cache W dev blocks = Ok (fs, s0)"
  shows "answer_safe (fst (perform W fs c s))"
  using open_mounted [OF assms] by (rule perform_safe)

lemma calls_never_panic_witness:
  "answer_safe (fst (perform sample_world sample_fs (Lookup_path [0x2F, 0x61]) fresh_caches))"
  by (rule calls_never_panic [OF sample_open])

lemma number_resolves:
  assumes "fs_exports fs = Some t" "export_map (env W fs) (fs_sb fs) t refs" "caches_ok W fs s"
    and "1 \<le> n" "n \<le> ex_inode_count t"
  shows "fst (read_inode_by_number W fs n s) = fst (read_inode W fs (refs ! (unat n - 1)) s)"
proof -
  have ms: "mc_sound (env W fs) (fs_sb fs) (Some (ca_meta s))" using assms(3) by (simp add: caches_ok_def)
  have "fst (inode_ref_for_number W fs n s) = Ok (refs ! (unat n - 1))"
    using export_lookup_eq [OF assms(2) ms assms(4,5)] assms(1)
    by (simp add: inode_ref_for_number_def fst_on_meta)
  then obtain s' where r: "inode_ref_for_number W fs n s = (Ok (refs ! (unat n - 1)), s')"
    by (metis prod.collapse)
  have b: "both_ok W fs s s" using assms(3) by (simp add: both_ok_def)
  from agreeD(2) [OF agree_inode_ref b, of n] r assms(3) have "both_ok W fs s' s"
    by (simp add: both_ok_def)
  from agreeD(1) [OF agree_read_inode this, of "refs ! (unat n - 1)"] r show ?thesis
    by (simp add: read_inode_by_number_def bind_s_def)
qed

text \<open>C34. An inode number resolves through the export table to the inode the table's entry for it
  refers to; number zero and numbers past the count are not found, and an image without the table
  says that it cannot tell.\<close>

theorem inode_by_number:
  assumes "caches_ok W fs s" "fs_exports fs = Some t" "export_map (env W fs) (fs_sb fs) t refs"
  shows "fst (read_inode_by_number W fs n s) =
      (if 1 \<le> n \<and> n \<le> ex_inode_count t then fst (read_inode W fs (refs ! (unat n - 1)) s)
       else Fail NotFound) \<and>
    fst (read_inode_by_number W (fs\<lparr>fs_exports := None\<rparr>) n s) = Fail NotExportable"
proof (intro conjI)
  show "fst (read_inode_by_number W (fs\<lparr>fs_exports := None\<rparr>) n s) = Fail NotExportable"
    by (simp add: read_inode_by_number_def inode_ref_for_number_def bind_s_def lift_s_def)
  show "fst (read_inode_by_number W fs n s) =
      (if 1 \<le> n \<and> n \<le> ex_inode_count t then fst (read_inode W fs (refs ! (unat n - 1)) s)
       else Fail NotFound)"
  proof (cases "1 \<le> n \<and> n \<le> ex_inode_count t")
    case True
    with number_resolves [OF assms(2,3,1)] show ?thesis by simp
  next
    case False
    then have "n = 0 \<or> ex_inode_count t < n"
      by (auto simp: not_le word_less_nat_alt unat_gt_0 unat_eq_zero)
    with assms(2) show ?thesis
      unfolding if_not_P [OF False]
      by (simp add: read_inode_by_number_def inode_ref_for_number_def bind_s_def lift_s_def
          on_meta_def export_lookup_def fail_s_def)
  qed
qed

text \<open>The small image with an export table: one block of two references, in front of nothing else.\<close>

definition export_image :: bytes where
  "export_image = stored_block False (image_inodes) @ stored_block False (concat (map (to_le_bytes 8) [0, 32 :: u64]))"

definition export_fs :: filesystem where
  "export_fs = sample_fs
     \<lparr>fs_dev := mem_device export_image, fs_sb := image_superblock\<lparr>sb_inode_table_start := 0\<rparr>,
      fs_exports := Some \<lparr>ex_block_starts = [70], ex_inode_count = 2\<rparr>\<rparr>"

lemma export_env: "env sample_world export_fs = plain_env export_image"
  by (simp add: export_fs_def meta_env_on_def sample_world_def plain_env_def)

lemma inode_by_number_witness:
  "fst (read_inode_by_number sample_world export_fs 2 fresh_caches) =
     fst (read_inode sample_world export_fs 32 fresh_caches) \<and>
   fst (read_inode_by_number sample_world export_fs 3 fresh_caches) = Fail NotFound"
proof -
  let ?t = "\<lparr>ex_block_starts = [70], ex_inode_count = 2\<rparr>" and ?sb = "fs_sb export_fs"
  let ?e = "concat (map (to_le_bytes 8) [0, 32 :: u64])"
  have "read_block_uncached (plain_env export_image) ?sb 70 = Ok (?e, 70 + 2 + of_nat (length ?e))"
    by (rule plain_block_at [where rest = "[]"]) (simp_all add: METADATA_SIZE_def export_image_def)
  then have m: "export_map (env sample_world export_fs) ?sb ?t [0, 32]"
    by (simp add: export_env export_map_def block_bytes_def div_ceil_nat_def METADATA_SIZE_def)
  have "w_data_lru sample_world = list_lru" by (simp add: sample_world_def)
  then have c: "caches_ok sample_world export_fs fresh_caches"
    using mc_sound_new [of "plain_env export_image" ?sb 256]
    by (simp add: caches_ok_def export_env memo_sound_def dc_new_holds list_lru_contract plain_env_def)
  have x: "fs_exports export_fs = Some ?t" by (simp add: export_fs_def)
  from inode_by_number [OF c x m, of 2] inode_by_number [OF c x m, of 3] show ?thesis
    by (simp add: numeral_2_eq_2 [symmetric])
qed

end
