(* ===== verification/Racing.thy ===== *)
theory Racing
  imports Mount
begin

text \<open>
  Readers racing for data blocks.  \<open>DataCache\<close> of \<open>src/fs.rs\<close> keeps its state behind a mutex, which
  \<open>get\<close> and \<open>insert\<close> each take, hold for one access and give back when they return, and
  \<open>read_data_block\<close> decodes between the two without it.  Threads that run it at once are a step relation
  over the acquisitions, the accesses, the releases and the decode: a thread that wants the mutex while
  a thread holds it, itself included, has no step.  \<open>solo_run\<close> says that a thread whose steps are not
  interrupted is \<open>read_data_block\<close>.  However the steps interleave, every reader gets what decoding its
  block gives, each lookup counts as one hit or one miss, and nothing can deadlock: the mutex is never
  held across a decode, so whoever holds it gives it back in at most two steps of its own.  Nothing done
  inside it panics, so it is never poisoned and the source's \<open>expect\<close> on it never fails.
\<close>

text \<open>Where a reader is: before \<open>get\<close>, in it with the mutex before and after the lookup, after a miss,
  after the decode, in \<open>insert\<close> with the mutex before and after the access, or done, with a hit or with
  its own decode.\<close>

datatype reader =
    Asking | Looking | Looked "bytes option" | Missed
  | Decoded bytes | Storing bytes | Stored bytes
  | Hit bytes | Own "bytes result"

record 'd race =
  ra_cache :: "'d data_cache"
  ra_lock :: "nat option"
  ra_readers :: "nat \<Rightarrow> reader"

definition move :: "'d race \<Rightarrow> nat \<Rightarrow> reader \<Rightarrow> 'd data_cache \<Rightarrow> 'd race" where
  "move r i pc g = r\<lparr>ra_cache := g, ra_readers := (ra_readers r)(i := pc)\<rparr>"

lemma move_simps [simp]:
  "ra_cache (move r i pc g) = g" "ra_lock (move r i pc g) = ra_lock r"
  "ra_readers (move r i pc g) j = (if j = i then pc else ra_readers r j)"
  by (simp_all add: move_def)

text \<open>\<open>Mutex::lock\<close> waits while the mutex is held; the guard gives it back where it is dropped.\<close>

definition acquire :: "'d race \<Rightarrow> nat \<Rightarrow> reader \<Rightarrow> 'd race option" where
  "acquire r i pc =
     (case ra_lock r of
        Some _ \<Rightarrow> None
      | None \<Rightarrow> Some ((move r i pc (ra_cache r))\<lparr>ra_lock := Some i\<rparr>))"

definition release :: "'d race \<Rightarrow> nat \<Rightarrow> reader \<Rightarrow> 'd race" where
  "release r i pc = (move r i pc (ra_cache r))\<lparr>ra_lock := None\<rparr>"

lemma release_simps [simp]:
  "ra_cache (release r i pc) = ra_cache r" "ra_lock (release r i pc) = None"
  "ra_readers (release r i pc) j = (if j = i then pc else ra_readers r j)"
  by (simp_all add: release_def)

lemma acquire_Some:
  "acquire r i pc = Some r' \<longleftrightarrow>
    ra_lock r = None \<and> r' = (move r i pc (ra_cache r))\<lparr>ra_lock := Some i\<rparr>"
  by (auto simp: acquire_def split: option.splits)

text \<open>The state after thread \<open>i\<close> runs its next step; \<open>None\<close> when it has none: it is done, or it waits for
  the mutex.\<close>

definition advance ::
  "('c, 'd) world \<Rightarrow> filesystem \<Rightarrow> (nat \<Rightarrow> data_key) \<Rightarrow> nat \<Rightarrow> 'd race \<Rightarrow> 'd race option" where
  "advance W fs req i r =
     (case ra_readers r i of
        Asking \<Rightarrow> acquire r i Looking
      | Looking \<Rightarrow>
          (case dc_get (w_data_lru W) (ra_cache r) (req i) of (h, g) \<Rightarrow> Some (move r i (Looked h) g))
      | Looked h \<Rightarrow> Some (release r i (case h of Some hit \<Rightarrow> Hit hit | None \<Rightarrow> Missed))
      | Missed \<Rightarrow>
          (case decode_key W fs (req i) of
             Inl e \<Rightarrow> Some (move r i (Own (Inl e)) (ra_cache r))
           | Inr b \<Rightarrow> Some (move r i (Decoded b) (ra_cache r)))
      | Decoded b \<Rightarrow> acquire r i (Storing b)
      | Storing b \<Rightarrow>
          Some (move r i (Stored b) (dc_insert (w_data_lru W) (ra_cache r) (req i) b))
      | Stored b \<Rightarrow> Some (release r i (Own (Ok b)))
      | Hit b \<Rightarrow> None
      | Own a \<Rightarrow> None)"

inductive race_run ::
  "('c, 'd) world \<Rightarrow> filesystem \<Rightarrow> (nat \<Rightarrow> data_key) \<Rightarrow> 'd race \<Rightarrow> nat list \<Rightarrow> 'd race \<Rightarrow> bool"
  for W :: "('c, 'd) world" and fs :: filesystem and req :: "nat \<Rightarrow> data_key" and r0 :: "'d race" where
  race_start: "race_run W fs req r0 [] r0"
| race_step: "race_run W fs req r0 sched r \<Longrightarrow> advance W fs req i r = Some r' \<Longrightarrow>
    race_run W fs req r0 (sched @ [i]) r'"

fun answer_of :: "reader \<Rightarrow> bytes result option" where
  "answer_of (Hit b) = Some (Ok b)"
| "answer_of (Own a) = Some a"
| "answer_of _ = None"

definition all_asking :: "'d data_cache \<Rightarrow> 'd race" where
  "all_asking g = \<lparr>ra_cache = g, ra_lock = None, ra_readers = (\<lambda>_. Asking)\<rparr>"

section \<open>Every reader gets its block\<close>

text \<open>The bytes a reader has in hand, found or decoded.\<close>

fun in_hand :: "reader \<Rightarrow> bytes option" where
  "in_hand (Looked h) = h"
| "in_hand (Decoded b) = Some b"
| "in_hand (Storing b) = Some b"
| "in_hand (Stored b) = Some b"
| "in_hand _ = None"

definition race_ok :: "('c, 'd) world \<Rightarrow> filesystem \<Rightarrow> (nat \<Rightarrow> data_key) \<Rightarrow> 'd race \<Rightarrow> bool" where
  "race_ok W fs req r \<longleftrightarrow>
     memo_sound (dc_holds (w_data_lru W)) (decode_key W fs) (ra_cache r) \<and>
     (\<forall>i. (\<forall>b. in_hand (ra_readers r i) = Some b \<longrightarrow> decode_key W fs (req i) = Ok b) \<and>
          (\<forall>a. answer_of (ra_readers r i) = Some a \<longrightarrow> a = decode_key W fs (req i)))"

lemma race_ok_update:
  assumes "race_ok W fs req r" "memo_sound (dc_holds (w_data_lru W)) (decode_key W fs) (ra_cache r')"
    and "\<And>j. ra_readers r' j = (if j = i then pc else ra_readers r j)"
    and "\<And>b. in_hand pc = Some b \<Longrightarrow> decode_key W fs (req i) = Ok b"
    and "\<And>a. answer_of pc = Some a \<Longrightarrow> a = decode_key W fs (req i)"
  shows "race_ok W fs req r'"
  using assms unfolding race_ok_def by simp

lemma advance_ok:
  assumes L: "lru_contract (w_data_lru W)" and ok: "race_ok W fs req r"
    and adv: "advance W fs req i r = Some r'"
  shows "race_ok W fs req r'"
proof -
  have ms: "memo_sound (dc_holds (w_data_lru W)) (decode_key W fs) (ra_cache r)"
    and hand: "\<And>b. in_hand (ra_readers r i) = Some b \<Longrightarrow> decode_key W fs (req i) = Ok b"
    using ok by (simp_all add: race_ok_def)
  note upd = race_ok_update [OF ok, of r' i]
  show ?thesis
  proof (cases "ra_readers r i")
    case Asking
    with adv ms show ?thesis by (intro upd [of Looking]) (auto simp: advance_def acquire_Some)
  next
    case Looking
    obtain h g where g: "dc_get (w_data_lru W) (ra_cache r) (req i) = (h, g)" by fastforce
    have gs: "memo_sound (dc_holds (w_data_lru W)) (decode_key W fs) g"
      using data.lookup_sound [OF L ms g] by simp
    have "decode_key W fs (req i) = Ok b" if "h = Some b" for b
      using data.lookup_hit [OF L] ms g that unfolding memo_sound_def by blast
    moreover have "r' = move r i (Looked h) g" using adv Looking g by (simp add: advance_def)
    ultimately show ?thesis using gs by (intro upd [of "Looked h"]) simp_all
  next
    case (Looked h)
    with adv have "r' = release r i (case h of Some hit \<Rightarrow> Hit hit | None \<Rightarrow> Missed)"
      by (simp add: advance_def)
    with hand Looked ms show ?thesis
      by (intro upd [of "case h of Some hit \<Rightarrow> Hit hit | None \<Rightarrow> Missed"]) (auto split: option.splits)
  next
    case Missed
    show ?thesis
    proof (cases "decode_key W fs (req i)")
      case (Inl e)
      with adv Missed ms show ?thesis by (intro upd [of "Own (Inl e)"]) (auto simp: advance_def)
    next
      case (Inr b)
      with adv Missed ms show ?thesis by (intro upd [of "Decoded b"]) (auto simp: advance_def)
    qed
  next
    case (Decoded b)
    with adv ms hand show ?thesis
      by (intro upd [of "Storing b"]) (auto simp: advance_def acquire_Some)
  next
    case (Storing b)
    with hand have d: "decode_key W fs (req i) = Ok b" by simp
    have "r' = move r i (Stored b) (dc_insert (w_data_lru W) (ra_cache r) (req i) b)"
      using adv Storing by (simp add: advance_def)
    with data.store_sound [OF L ms d] d show ?thesis by (intro upd [of "Stored b"]) simp_all
  next
    case (Stored b)
    with adv ms hand show ?thesis by (intro upd [of "Own (Ok b)"]) (auto simp: advance_def)
  qed (use adv in \<open>simp_all add: advance_def\<close>)
qed

lemma race_run_ok:
  "race_run W fs req r0 sched r \<Longrightarrow> lru_contract (w_data_lru W) \<Longrightarrow> race_ok W fs req r0 \<Longrightarrow>
    race_ok W fs req r"
  by (induction rule: race_run.induct) (auto intro: advance_ok)

lemma race_ok_start:
  "memo_sound (dc_holds (w_data_lru W)) (decode_key W fs) g \<Longrightarrow> race_ok W fs req (all_asking g)"
  by (simp add: race_ok_def all_asking_def)

section \<open>Every reader finishes\<close>

text \<open>How many steps a reader has left, and which readers are inside the mutex.\<close>

fun steps_left :: "reader \<Rightarrow> nat" where
  "steps_left Asking = 7"
| "steps_left Looking = 6"
| "steps_left (Looked h) = 5"
| "steps_left Missed = 4"
| "steps_left (Decoded b) = 3"
| "steps_left (Storing b) = 2"
| "steps_left (Stored b) = 1"
| "steps_left (Hit b) = 0"
| "steps_left (Own a) = 0"

fun inside :: "reader \<Rightarrow> bool" where
  "inside Looking \<longleftrightarrow> True"
| "inside (Looked h) \<longleftrightarrow> True"
| "inside (Storing b) \<longleftrightarrow> True"
| "inside (Stored b) \<longleftrightarrow> True"
| "inside _ \<longleftrightarrow> False"

text \<open>The mutex is held by the reader that is inside it, and by no other.\<close>

definition lock_ok :: "'d race \<Rightarrow> bool" where
  "lock_ok r \<longleftrightarrow> (\<forall>i. inside (ra_readers r i) \<longleftrightarrow> ra_lock r = Some i)"

lemma advance_readers:
  "advance W fs req i r = Some r' \<Longrightarrow> j \<noteq> i \<Longrightarrow> ra_readers r' j = ra_readers r j"
  by (cases "ra_readers r i")
    (auto simp: advance_def acquire_Some split: prod.splits option.splits sum.splits)

lemma advance_lock:
  assumes "lock_ok r" "advance W fs req i r = Some r'"
  shows "lock_ok r'"
proof -
  have i: "inside (ra_readers r i) \<longleftrightarrow> ra_lock r = Some i" using assms(1) by (simp add: lock_ok_def)
  have rest: "inside (ra_readers r' j) \<longleftrightarrow> ra_lock r = Some j" if "j \<noteq> i" for j
    using assms advance_readers [OF assms(2)] that by (simp add: lock_ok_def)
  have "inside (ra_readers r' j) \<longleftrightarrow> ra_lock r' = Some j" for j
    using i rest [of j] assms(2)
    by (cases "ra_readers r i"; cases "j = i")
      (auto simp: advance_def acquire_Some split: prod.splits option.splits sum.splits)
  then show ?thesis by (simp add: lock_ok_def)
qed

lemma race_run_lock: "race_run W fs req (all_asking g) sched r \<Longrightarrow> lock_ok r"
proof (induction rule: race_run.induct)
  case race_start
  then show ?case by (simp add: lock_ok_def all_asking_def)
qed (rule advance_lock)

text \<open>A reader that is not done has a step, unless another one is inside the mutex.\<close>

lemma advance_enabled:
  assumes "lock_ok r" "answer_of (ra_readers r i) = None" "ra_lock r \<in> {None, Some i}"
  shows "\<exists>r'. advance W fs req i r = Some r'"
proof (cases "ra_lock r")
  case None
  with assms(2) show ?thesis
    by (cases "ra_readers r i") (auto simp: advance_def acquire_def split: prod.split sum.split)
next
  case (Some j)
  with assms(1,3) have "inside (ra_readers r i)" by (simp add: lock_ok_def)
  then show ?thesis by (cases "ra_readers r i") (auto simp: advance_def split: prod.split)
qed

lemma advance_steps:
  "advance W fs req i r = Some r' \<Longrightarrow>
    steps_left (ra_readers r' i) < steps_left (ra_readers r i)"
  by (cases "ra_readers r i")
    (auto simp: advance_def acquire_Some split: prod.splits option.splits sum.splits)

lemma race_run_steps:
  "race_run W fs req r0 sched r \<Longrightarrow>
    count_list sched i + steps_left (ra_readers r i) \<le> steps_left (ra_readers r0 i)"
proof (induction rule: race_run.induct)
  case race_start
  then show ?case by simp
next
  case (race_step sched r j r')
  with advance_steps [OF race_step.hyps(2)] advance_readers [OF race_step.hyps(2), of i] show ?case
    by (cases "j = i") (auto simp: count_list_append)
qed

text \<open>A reader the mutex is free for can run to its answer alone.\<close>

lemma finishes_alone:
  assumes "race_run W fs req (all_asking g) sched r" "ra_lock r \<in> {None, Some i}"
  shows "\<exists>n r'. n \<le> steps_left (ra_readers r i) \<and>
    race_run W fs req (all_asking g) (sched @ replicate n i) r' \<and> answer_of (ra_readers r' i) \<noteq> None"
  using assms
proof (induction "steps_left (ra_readers r i)" arbitrary: sched r rule: less_induct)
  case less
  show ?case
  proof (cases "answer_of (ra_readers r i) = None")
    case False
    then show ?thesis using less.prems(1) by (intro exI [of _ 0] exI [of _ r]) simp
  next
    case True
    obtain r1 where r1: "advance W fs req i r = Some r1"
      using advance_enabled [OF race_run_lock [OF less.prems(1)] True less.prems(2)] by blast
    have run: "race_run W fs req (all_asking g) (sched @ [i]) r1"
      by (rule race_step [OF less.prems(1) r1])
    have "ra_lock r1 \<in> {None, Some i}"
      using r1 less.prems(2)
      by (cases "ra_readers r i") (auto simp: advance_def acquire_Some split: prod.splits sum.splits)
    from less.hyps [OF _ run this] advance_steps [OF r1] obtain n r' where
      "n \<le> steps_left (ra_readers r1 i)" "answer_of (ra_readers r' i) \<noteq> None"
      "race_run W fs req (all_asking g) ((sched @ [i]) @ replicate n i) r'" by blast
    with advance_steps [OF r1] show ?thesis
      by (intro exI [of _ "Suc n"] exI [of _ r']) simp
  qed
qed

text \<open>Whoever is inside the mutex leaves it in at most two steps of its own.\<close>

lemma holder_leaves:
  assumes run: "race_run W fs req (all_asking g) sched r" and j: "ra_lock r = Some j"
  shows "\<exists>n r'. n \<le> 2 \<and> race_run W fs req (all_asking g) (sched @ replicate n j) r' \<and>
    ra_lock r' = None \<and> (\<forall>i. i \<noteq> j \<longrightarrow> ra_readers r' i = ra_readers r i)"
proof -
  have leave: "\<exists>t'. advance W fs req j t = Some t' \<and> ra_lock t' = None \<and>
      (\<forall>i. i \<noteq> j \<longrightarrow> ra_readers t' i = ra_readers t i)"
    if "ra_readers t j \<in> range Looked \<union> range Stored" for t
    using that by (auto simp: advance_def)
  have "inside (ra_readers r j)" using race_run_lock [OF run] j by (simp add: lock_ok_def)
  then consider "ra_readers r j \<in> range Looked \<union> range Stored" | "ra_readers r j = Looking"
    | b where "ra_readers r j = Storing b"
    by (cases "ra_readers r j") auto
  then show ?thesis
  proof cases
    case 1
    with leave obtain t where "advance W fs req j r = Some t" "ra_lock t = None"
      "\<forall>i. i \<noteq> j \<longrightarrow> ra_readers t i = ra_readers r i" by blast
    with race_step [OF run] show ?thesis by (intro exI [of _ 1] exI [of _ t]) simp
  next
    case 2
    obtain h g' where "dc_get (w_data_lru W) (ra_cache r) (req j) = (h, g')" by fastforce
    with 2 have a: "advance W fs req j r = Some (move r j (Looked h) g')" by (simp add: advance_def)
    with leave [of "move r j (Looked h) g'"] obtain t where
      t: "advance W fs req j (move r j (Looked h) g') = Some t" "ra_lock t = None"
      "\<forall>i. i \<noteq> j \<longrightarrow> ra_readers t i = ra_readers r i" by auto
    with race_step [OF race_step [OF run a] t(1)] show ?thesis
      by (intro exI [of _ 2] exI [of _ t]) (simp add: numeral_2_eq_2)
  next
    case (3 b)
    let ?m = "move r j (Stored b) (dc_insert (w_data_lru W) (ra_cache r) (req j) b)"
    have a: "advance W fs req j r = Some ?m" using 3 by (simp add: advance_def)
    with leave [of ?m] obtain t where
      t: "advance W fs req j ?m = Some t" "ra_lock t = None"
      "\<forall>i. i \<noteq> j \<longrightarrow> ra_readers t i = ra_readers r i" by auto
    with race_step [OF race_step [OF run a] t(1)] show ?thesis
      by (intro exI [of _ 2] exI [of _ t]) (simp add: numeral_2_eq_2)
  qed
qed

lemma not_decoding_inside:
  "race_run W fs req (all_asking g) sched r \<Longrightarrow> ra_readers r i = Missed \<longrightarrow> ra_lock r \<noteq> Some i"
  using race_run_lock by (metis inside.simps(6) lock_ok_def)

lemma blocked_by_running:
  assumes "race_run W fs req (all_asking g) sched r"
  shows "advance W fs req i r = None \<longrightarrow> answer_of (ra_readers r i) = None \<longrightarrow>
      (\<exists>j r'. j \<noteq> i \<and> ra_lock r = Some j \<and> advance W fs req j r = Some r')"
proof (intro impI)
  note l = race_run_lock [OF assms]
  assume "advance W fs req i r = None" "answer_of (ra_readers r i) = None"
  then have "ra_lock r \<notin> {None, Some i}" using advance_enabled [OF l, of i W fs req] by (metis option.distinct(1))
  then obtain j where j: "ra_lock r = Some j" "j \<noteq> i" by auto
  with l have "inside (ra_readers r j)" by (simp add: lock_ok_def)
  then have "answer_of (ra_readers r j) = None" by (cases "ra_readers r j") simp_all
  with advance_enabled [OF l, of j] j show "\<exists>j r'. j \<noteq> i \<and> ra_lock r = Some j \<and> advance W fs req j r = Some r'" by blast
qed

lemma steps_left_le: "steps_left pc \<le> 7"
  by (cases pc) simp_all

lemma answered_after:
  assumes "race_run W fs req (all_asking g) sched r"
  shows "\<exists>j n m r'. (n = 0 \<or> n \<le> 2 \<and> ra_lock r = Some j \<and> j \<noteq> i) \<and> m \<le> 7 \<and>
      race_run W fs req (all_asking g) (sched @ replicate n j @ replicate m i) r' \<and>
      answer_of (ra_readers r' i) \<noteq> None"
proof (cases "ra_lock r \<in> {None, Some i}")
  case True
  from finishes_alone [OF assms this] obtain m r' where "m \<le> steps_left (ra_readers r i)"
    "race_run W fs req (all_asking g) (sched @ replicate m i) r'" "answer_of (ra_readers r' i) \<noteq> None" by blast
  with steps_left_le [of "ra_readers r i"] show ?thesis
    by (intro exI [of _ i] exI [of _ 0] exI [of _ m] exI [of _ r']) simp
next
  case False
  then obtain j where j: "ra_lock r = Some j" "j \<noteq> i" by auto
  from holder_leaves [OF assms j(1)] obtain n t where n: "n \<le> 2"
    "race_run W fs req (all_asking g) (sched @ replicate n j) t" "ra_lock t = None" by blast
  from finishes_alone [OF n(2), of i] n(3) obtain m r' where "m \<le> steps_left (ra_readers t i)"
    "race_run W fs req (all_asking g) ((sched @ replicate n j) @ replicate m i) r'"
    "answer_of (ra_readers r' i) \<noteq> None" by blast
  with n(1) j steps_left_le [of "ra_readers t i"] show ?thesis
    by (intro exI [of _ j] exI [of _ n] exI [of _ m] exI [of _ r']) simp
qed

section \<open>A reader left alone is \<open>read_data_block\<close>\<close>

fun advance_all ::
  "('c, 'd) world \<Rightarrow> filesystem \<Rightarrow> (nat \<Rightarrow> data_key) \<Rightarrow> nat \<Rightarrow> nat \<Rightarrow> 'd race \<Rightarrow> 'd race" where
  "advance_all W fs req i 0 r = r"
| "advance_all W fs req i (Suc n) r =
     (case advance W fs req i r of None \<Rightarrow> r | Some r' \<Rightarrow> advance_all W fs req i n r')"

lemma solo_run:
  assumes "ra_readers r i = Asking" "ra_lock r = None" "req i = (off, sw, mo)" "ra_cache r = ca_data s"
  shows "answer_of (ra_readers (advance_all W fs req i 7 r) i) = Some (fst (read_data_block W fs off sw mo s)) \<and>
    ra_cache (advance_all W fs req i 7 r) = ca_data (snd (read_data_block W fs off sw mo s)) \<and>
    ra_lock (advance_all W fs req i 7 r) = None"
proof -
  obtain h g where g: "dc_get (w_data_lru W) (ca_data s) (off, sw, mo) = (h, g)" by fastforce
  have k: "decode_key W fs (off, sw, mo) = decode_data_block W fs off sw mo"
    by (simp add: decode_key_def)
  show ?thesis
    using assms g k
    by (cases h; cases "decode_data_block W fs off sw mo")
      (simp_all add: eval_nat_numeral advance_def acquire_def read_data_block_def Let_def)
qed

section \<open>Each lookup counts once\<close>

fun was_hit :: "reader \<Rightarrow> bool" where
  "was_hit (Looked (Some b)) \<longleftrightarrow> True"
| "was_hit (Hit b) \<longleftrightarrow> True"
| "was_hit _ \<longleftrightarrow> False"

definition was_miss :: "reader \<Rightarrow> bool" where
  "was_miss pc \<longleftrightarrow> pc \<noteq> Asking \<and> pc \<noteq> Looking \<and> \<not> was_hit pc"

definition counted :: "nat set \<Rightarrow> 'd data_cache \<Rightarrow> 'd race \<Rightarrow> bool" where
  "counted T g0 r \<longleftrightarrow>
     dc_lru (ra_cache r) \<noteq> None \<and>
     dc_hits (ra_cache r) = dc_hits g0 + of_nat (card {i \<in> T. was_hit (ra_readers r i)}) \<and>
     dc_misses (ra_cache r) = dc_misses g0 + of_nat (card {i \<in> T. was_miss (ra_readers r i)})"

lemma card_insert_pred:
  assumes "finite T" "i \<in> T" "\<not> P i" "P' i" "\<And>j. j \<noteq> i \<Longrightarrow> P' j = P j"
  shows "card {j \<in> T. P' j} = card {j \<in> T. P j} + 1"
proof -
  have "j \<in> {j \<in> T. P' j} \<longleftrightarrow> j \<in> insert i {j \<in> T. P j}" for j
    using assms(2,4) assms(5) [of j] by (cases "j = i") simp_all
  then have "{j \<in> T. P' j} = insert i {j \<in> T. P j}" by (intro set_eqI)
  with assms(1,3) show ?thesis by simp
qed

lemma dc_insert_counts:
  "dc_hits (dc_insert L g k b) = dc_hits g \<and> dc_misses (dc_insert L g k b) = dc_misses g \<and>
    (dc_lru (dc_insert L g k b) = None \<longleftrightarrow> dc_lru g = None)"
  by (simp add: dc_insert_def split: option.split)

lemma dc_get_on: "dc_get L g k = (h, g') \<Longrightarrow> dc_lru g' = None \<longleftrightarrow> dc_lru g = None"
  by (auto simp: dc_get_def split: option.splits prod.splits)

lemma counted_same:
  assumes "counted T g0 r" "ra_cache r' = g"
    and "dc_lru g \<noteq> None" "dc_hits g = dc_hits (ra_cache r)" "dc_misses g = dc_misses (ra_cache r)"
    and "\<And>j. ra_readers r' j = (if j = i then pc else ra_readers r j)"
    and "was_hit pc = was_hit (ra_readers r i)" "was_miss pc = was_miss (ra_readers r i)"
  shows "counted T g0 r'"
proof -
  have "was_hit (ra_readers r' j) = was_hit (ra_readers r j)" "was_miss (ra_readers r' j) = was_miss (ra_readers r j)" for j
    using assms(6-8) by (cases "j = i"; simp)+
  with assms(1-5) show ?thesis by (simp add: counted_def)
qed

lemma counted_lookup:
  assumes c: "counted T g0 r" and T: "finite T" "i \<in> T"
    and pc: "ra_readers r i = Looking" and g: "dc_get L (ra_cache r) k = (h, g)"
  shows "counted T g0 (move r i (Looked h) g)"
proof -
  let ?r = "move r i (Looked h) g"
  have on: "dc_lru (ra_cache r) \<noteq> None" using c by (simp add: counted_def)
  note n = dc_get_counts [OF g] dc_get_on [OF g]
  show ?thesis
  proof (cases h)
    case None
    have "card {j \<in> T. was_miss (ra_readers ?r j)} = card {j \<in> T. was_miss (ra_readers r j)} + 1"
      by (rule card_insert_pred [OF T]) (simp_all add: None pc was_miss_def)
    moreover have "was_hit (ra_readers ?r j) = was_hit (ra_readers r j)" for j
      using pc None by simp
    ultimately show ?thesis using c n None on by (simp add: counted_def)
  next
    case (Some b)
    have "card {j \<in> T. was_hit (ra_readers ?r j)} = card {j \<in> T. was_hit (ra_readers r j)} + 1"
      by (rule card_insert_pred [OF T]) (simp_all add: Some pc)
    moreover have "was_miss (ra_readers ?r j) = was_miss (ra_readers r j)" for j
      using pc Some by (simp add: was_miss_def)
    ultimately show ?thesis using c n Some on by (simp add: counted_def)
  qed
qed

lemma counted_advance:
  assumes c: "counted T g0 r" and T: "finite T" "i \<in> T" and adv: "advance W fs req i r = Some r'"
  shows "counted T g0 r'"
proof (cases "ra_readers r i = Looking")
  case True
  obtain h g where g: "dc_get (w_data_lru W) (ra_cache r) (req i) = (h, g)" by fastforce
  with adv True have "r' = move r i (Looked h) g" by (simp add: advance_def)
  with counted_lookup [OF c T True g] show ?thesis by simp
next
  case False
  have on: "dc_lru (ra_cache r) \<noteq> None" using c by (simp add: counted_def)
  have "was_hit (ra_readers r' i) = was_hit (ra_readers r i)" "was_miss (ra_readers r' i) = was_miss (ra_readers r i)"
    using adv False
    by (cases "ra_readers r i";
        auto simp: advance_def acquire_Some was_miss_def split: option.splits sum.splits)+
  moreover have "ra_cache r' = ra_cache r \<or>
      (\<exists>b. ra_cache r' = dc_insert (w_data_lru W) (ra_cache r) (req i) b)"
    using adv False
    by (cases "ra_readers r i") (auto simp: advance_def acquire_Some split: option.splits sum.splits)
  then have "dc_lru (ra_cache r') \<noteq> None" "dc_hits (ra_cache r') = dc_hits (ra_cache r)"
    "dc_misses (ra_cache r') = dc_misses (ra_cache r)"
    using on dc_insert_counts by (metis (no_types))+
  ultimately show ?thesis
    using advance_readers [OF adv] by (intro counted_same [OF c refl, where i = i and pc = "ra_readers r' i"]) auto
qed

lemma race_run_counted:
  "race_run W fs req r0 sched r \<Longrightarrow> r0 = all_asking g0 \<Longrightarrow> dc_lru g0 \<noteq> None \<Longrightarrow> finite T \<Longrightarrow>
    set sched \<subseteq> T \<Longrightarrow> counted T g0 r"
proof (induction rule: race_run.induct)
  case race_start
  then show ?case by (simp add: counted_def all_asking_def was_miss_def)
next
  case (race_step sched r i r')
  then have "counted T g0 r" "i \<in> T" by simp_all
  with counted_advance [OF _ \<open>finite T\<close> _ race_step.hyps(2)] show ?case by blast
qed

section \<open>Properties\<close>

text \<open>C39. Readers that race for data blocks, in any interleaving of their lookups, decodes and
  inserts, each get what decoding the block they asked for gives.\<close>

theorem racing_readers_agree:
  assumes "lru_contract (w_data_lru W)"
    and "memo_sound (dc_holds (w_data_lru W)) (decode_key W fs) g"
    and "race_run W fs req (all_asking g) sched r"
    and "answer_of (ra_readers r i) = Some a"
  shows "a = decode_key W fs (req i)"
  using race_run_ok [OF assms(3,1) race_ok_start [OF assms(2)]] assms(4) by (simp add: race_ok_def)

text \<open>Two readers of the small image's data block, each looking it up before the other stores it.\<close>

definition race_req :: "nat \<Rightarrow> data_key" where
  "race_req i = (96, 0x1000004, 4)"

abbreviation race_cache ::
  "(data_key \<times> bytes) list \<Rightarrow> u64 \<Rightarrow> (nat \<times> (data_key \<times> bytes) list) data_cache" where
  "race_cache es n \<equiv> \<lparr>dc_lru = Some (8, es), dc_hits = 0, dc_misses = n\<rparr>"

definition race_middle :: "(nat \<times> (data_key \<times> bytes) list) race" where
  "race_middle =
     move (move (all_asking (race_cache [] 0)) 0 Missed (race_cache [] 1)) 1 Missed (race_cache [] 2)"

definition race_end :: "(nat \<times> (data_key \<times> bytes) list) race" where
  "race_end =
     move race_middle 0 (Own (Ok [1, 2, 3, 4])) (race_cache [(race_req 0, [1, 2, 3, 4])] 2)"

lemma race_decode: "decode_key sample_world sample_fs (race_req i) = Ok [1, 2, 3, 4]"
  by (simp add: decode_key_def race_req_def decode_data_block_def sample_fs_def sample_world_def
      image_superblock_def data_on_disk_size_def DATA_SIZE_MASK_def read_at_mem_device image_at
      data_is_compressed_def DATA_UNCOMPRESSED_BIT_def)

lemma race_cache_new: "dc_new list_lru 8 = race_cache [] 0"
  by (simp add: dc_new_def dc_lru_of_def list_lru_def)

lemma race_sound: "memo_sound (dc_holds (w_data_lru sample_world)) f (race_cache [] 0)"
  by (simp add: memo_sound_def dc_holds_def sample_world_def list_lru_holds)

lemma race_eqI:
  fixes r r' :: "'d race"
  assumes "ra_cache r = ra_cache r'" "ra_lock r = ra_lock r'" "ra_readers r = ra_readers r'"
  shows "r = r'"
  using assms by simp

lemma race_sample_misses:
  "race_run sample_world sample_fs race_req (all_asking (race_cache [] 0)) [0, 0, 0, 1, 1, 1] race_middle"
proof -
  let ?W = sample_world and ?r0 = "all_asking (race_cache [] 0)"
  have look: "\<exists>t u. advance ?W sample_fs race_req i r = Some t \<and> advance ?W sample_fs race_req i t = Some u \<and>
      advance ?W sample_fs race_req i u = Some (move r i Missed (race_cache [] (n + 1)))"
    if "ra_readers r i = Asking" "ra_lock r = None" "ra_cache r = race_cache [] n" for r i n
    using that
    by (simp add: advance_def acquire_def dc_get_def sample_world_def list_lru_def list_lru_get_def)
      (simp add: release_def move_def fun_eq_iff)
  let ?r1 = "move ?r0 0 Missed (race_cache [] 1)"
  obtain t u where a: "advance ?W sample_fs race_req 0 ?r0 = Some t" "advance ?W sample_fs race_req 0 t = Some u"
    "advance ?W sample_fs race_req 0 u = Some ?r1"
    using look [of ?r0 0 0] by (auto simp: all_asking_def)
  obtain v w where b: "advance ?W sample_fs race_req 1 ?r1 = Some v" "advance ?W sample_fs race_req 1 v = Some w"
    "advance ?W sample_fs race_req 1 w = Some race_middle"
    using look [of ?r1 1 1] by (auto simp: all_asking_def race_middle_def)
  have "race_run ?W sample_fs race_req ?r0 [0, 0, 0] ?r1"
    using race_step [OF race_step [OF race_step [OF race_start a(1)] a(2)] a(3)] by simp
  from race_step [OF race_step [OF race_step [OF this b(1)] b(2)] b(3)] show ?thesis by simp
qed

lemma race_sample:
  "race_run sample_world sample_fs race_req (all_asking (race_cache [] 0)) [0, 0, 0, 1, 1, 1, 0, 0, 0, 0] race_end"
proof -
  let ?W = sample_world
  note ev = advance_def race_decode acquire_def dc_insert_def sample_world_def list_lru_def list_lru_put_def
  have "\<exists>t u v. advance ?W sample_fs race_req 0 race_middle = Some t \<and> advance ?W sample_fs race_req 0 t = Some u \<and>
      advance ?W sample_fs race_req 0 u = Some v \<and> advance ?W sample_fs race_req 0 v = Some race_end"
    using race_decode
    by (simp add: advance_def acquire_def race_middle_def all_asking_def)
      (simp add: race_end_def race_middle_def all_asking_def release_def move_def fun_eq_iff dc_insert_def
        sample_world_def list_lru_def list_lru_put_def)
  then obtain t u v where a: "advance ?W sample_fs race_req 0 race_middle = Some t" "advance ?W sample_fs race_req 0 t = Some u"
    "advance ?W sample_fs race_req 0 u = Some v" "advance ?W sample_fs race_req 0 v = Some race_end" by blast
  from race_step [OF race_step [OF race_step [OF race_step [OF race_sample_misses a(1)] a(2)] a(3)] a(4)]
  show ?thesis by simp
qed

lemma racing_readers_agree_witness:
  "Ok [1, 2, 3, 4] = decode_key sample_world sample_fs (race_req 0)"
proof (rule racing_readers_agree [OF _ race_sound race_sample])
  show "lru_contract (w_data_lru sample_world)" by (simp add: sample_world_def list_lru_contract)
  show "answer_of (ra_readers race_end 0) = Some (Ok [1, 2, 3, 4])" by (simp add: race_end_def)
qed

text \<open>C40. No deadlock, and no reader waits for a decode.  A reader without a step has its answer or waits
  for another one, which is inside the mutex and can run; a reader that is decoding is not inside it.
  From every state of every run each reader without an answer gets it once the one inside, if any,
  takes at most two steps, whatever the rest do, and after at most seven steps of its own.\<close>

theorem racing_readers_finish:
  assumes "race_run W fs req (all_asking g) sched r"
  shows "count_list sched i \<le> 7 \<and>
    (ra_readers r i = Missed \<longrightarrow> ra_lock r \<noteq> Some i) \<and>
    (advance W fs req i r = None \<longrightarrow> answer_of (ra_readers r i) = None \<longrightarrow>
      (\<exists>j r'. j \<noteq> i \<and> ra_lock r = Some j \<and> advance W fs req j r = Some r')) \<and>
    (\<exists>j n m r'. (n = 0 \<or> n \<le> 2 \<and> ra_lock r = Some j \<and> j \<noteq> i) \<and> m \<le> 7 \<and>
      race_run W fs req (all_asking g) (sched @ replicate n j @ replicate m i) r' \<and>
      answer_of (ra_readers r' i) \<noteq> None)"
  using race_run_steps [OF assms, of i] not_decoding_inside [OF assms] blocked_by_running [OF assms]
    answered_after [OF assms]
  by (simp add: all_asking_def)

lemma racing_readers_finish_witness:
  "count_list [0, 0, 0, 1, 1, 1, 0, 0, 0, 0] (0 :: nat) \<le> 7 \<and>
   (\<exists>r'. answer_of (ra_readers race_end 1) = None \<and> advance sample_world sample_fs race_req 1 race_end = Some r')"
  using racing_readers_finish [OF race_sample, of 0] racing_readers_finish [OF race_sample, of 1]
  by (cases "advance sample_world sample_fs race_req 1 race_end")
    (auto simp: race_end_def race_middle_def all_asking_def)

text \<open>The statistics count every lookup once, under any interleaving: hits and misses grow by
  the readers that found their block and by those that did not.\<close>

theorem racing_lookups_counted:
  assumes "race_run W fs req (all_asking g) sched r" "dc_lru g \<noteq> None" "finite T" "set sched \<subseteq> T"
  shows "dc_hits (ra_cache r) = dc_hits g + of_nat (card {i \<in> T. was_hit (ra_readers r i)}) \<and>
    dc_misses (ra_cache r) = dc_misses g + of_nat (card {i \<in> T. was_miss (ra_readers r i)})"
  using race_run_counted [OF assms(1) refl assms(2-4)] by (simp add: counted_def)

lemma racing_lookups_counted_witness:
  "dc_misses (ra_cache race_end) = of_nat (card {i \<in> {0, 1}. was_miss (ra_readers race_end i)})"
  using racing_lookups_counted [OF race_sample, of "{0, 1}"] by simp

end
