(* ===== verification/Tree.thy ===== *)
theory Tree
  imports Mount
begin

text \<open>
  What a mount is for: presenting a tree.  \<open>tree\<close> is the file tree an image stands for, each node
  with its attributes; \<open>image_holds\<close> says, over the bytes of the image, that it stores one: every
  inode, every listing and every file laid out by the format.  The calls of \<open>src/fs.rs\<close> on such an
  image, at any point of any history, answer what the tree says.
\<close>

section \<open>Trees\<close>

datatype tree =
    File inode bytes
  | Link inode bytes
  | Special inode
  | Folder inode "(bytes \<times> tree) list"

fun node :: "tree \<Rightarrow> inode" where
  "node (File i data) = i"
| "node (Link i target) = i"
| "node (Special i) = i"
| "node (Folder i kids) = i"

text \<open>Walking down the tree by names.\<close>

fun descend :: "tree \<Rightarrow> bytes list \<Rightarrow> tree result" where
  "descend t [] = Ok t"
| "descend (Folder i kids) (c # cs) =
     (case map_of kids c of None \<Rightarrow> Fail NotFound | Some t \<Rightarrow> descend t cs)"
| "descend _ (c # cs) = Fail NotADirectory"

text \<open>What each node answers.\<close>

fun tree_entries :: "tree \<Rightarrow> bytes list result" where
  "tree_entries (Folder i kids) = Ok (map fst kids)"
| "tree_entries _ = Fail NotADirectory"

fun tree_target :: "tree \<Rightarrow> bytes result" where
  "tree_target (Link i target) = Ok target"
| "tree_target _ = Fail (BadInode ''read_symlink_target on non-symlink'')"

fun tree_read :: "tree \<Rightarrow> u64 \<Rightarrow> bytes \<Rightarrow> nat result \<times> bytes" where
  "tree_read (File i data) offset buf =
     (Ok (min (length buf) (length data - unat offset)),
      take (length buf) (drop (unat offset) data) @ drop (length data - unat offset) buf)"
| "tree_read _ offset buf = (Fail (BadInode ''read_file on non-file''), buf)"

section \<open>Images that hold a tree\<close>

text \<open>The inode at a reference, and the entries of a directory, as the format lays them out.\<close>

definition inode_stored :: "('c, 'd) world \<Rightarrow> filesystem \<Rightarrow> u64 \<Rightarrow> inode \<Rightarrow> bool" where
  "inode_stored W fs r i \<longleftrightarrow>
     (\<exists>h b rest. body_ok (fs_sb fs) b \<and> i = inode_of h b \<and>
        metadata_at (env W fs) (fs_sb fs) None
          (start_abs (from_packed r) (sb_inode_table_start (fs_sb fs)))
          (mr_in_block (from_packed r)) (inode_bytes h b @ rest))"

definition listing_stored :: "('c, 'd) world \<Rightarrow> filesystem \<Rightarrow> inode \<Rightarrow> dir_entry list \<Rightarrow> bool" where
  "listing_stored W fs i es \<longleftrightarrow>
     (\<exists>gs rest. unat (in_file_size i) = length (listing_bytes gs) + 3 \<and> list_all group_ok gs \<and>
        es = concat (map group_entries gs) \<and>
        (gs \<noteq> [] \<longrightarrow> metadata_at (env W fs) (fs_sb fs) (Some (fs_dir_table_end fs, past_table)) (dir_start fs i)
          (in_dir_block_offset i) (listing_bytes gs @ rest)))"

inductive tree_stored :: "('c, 'd) world \<Rightarrow> filesystem \<Rightarrow> tree \<Rightarrow> bool"
  for W :: "('c, 'd) world" and fs :: filesystem where
  stored_file: "file_stored W fs i data \<Longrightarrow> tree_stored W fs (File i data)"
| stored_link: "is_symlink i \<Longrightarrow> in_symlink_target i = target \<Longrightarrow> tree_stored W fs (Link i target)"
| stored_special:
    "\<not> is_regular_file i \<Longrightarrow> \<not> is_symlink i \<Longrightarrow> \<not> is_dir i \<Longrightarrow> tree_stored W fs (Special i)"
| stored_folder: "is_dir i \<Longrightarrow> listing_stored W fs i es \<Longrightarrow>
    list_all2 (\<lambda>e (name, t). de_name e = name \<and> inode_stored W fs (de_inode_ref e) (node t) \<and>
      tree_stored W fs t) es kids \<Longrightarrow>
    tree_stored W fs (Folder i kids)"

inductive_cases tree_stored_cases:
  "tree_stored W fs (File i data)" "tree_stored W fs (Link i target)"
  "tree_stored W fs (Special i)" "tree_stored W fs (Folder i kids)"

definition image_holds :: "('c, 'd) world \<Rightarrow> filesystem \<Rightarrow> tree \<Rightarrow> bool" where
  "image_holds W fs t \<longleftrightarrow>
     inode_stored W fs (sb_root_inode_ref (fs_sb fs)) (node t) \<and> tree_stored W fs t"

text \<open>A directory entry that stands for a child of the tree.\<close>

definition stands_for :: "('c, 'd) world \<Rightarrow> filesystem \<Rightarrow> dir_entry \<Rightarrow> bytes \<times> tree \<Rightarrow> bool" where
  "stands_for W fs e k \<longleftrightarrow> de_name e = fst k \<and> inode_stored W fs (de_inode_ref e) (node (snd k)) \<and>
     tree_stored W fs (snd k)"

lemma folder_parts:
  assumes "tree_stored W fs (Folder i kids)"
  obtains es where "is_dir i" "listing_stored W fs i es" "list_all2 (stands_for W fs) es kids"
  using assms by (rule tree_stored_cases(4)) (simp add: stands_for_def [abs_def] case_prod_unfold)

lemma leaf_types:
  "tree_stored W fs (File i data) \<Longrightarrow> is_regular_file i"
  "tree_stored W fs (Link i target) \<Longrightarrow> is_symlink i"
  "tree_stored W fs (Folder i kids) \<Longrightarrow> is_dir i"
  by (auto elim: tree_stored_cases simp: file_stored_def)

lemma one_type:
  "is_regular_file i \<Longrightarrow> \<not> is_dir i \<and> \<not> is_symlink i"
  "is_symlink i \<Longrightarrow> \<not> is_dir i \<and> \<not> is_regular_file i"
  "is_dir i \<Longrightarrow> \<not> is_regular_file i \<and> \<not> is_symlink i"
  by (simp_all add: is_regular_file_def is_dir_def is_symlink_def)

text \<open>A node is a directory when its inode is.\<close>

lemma stored_is_dir: "tree_stored W fs t \<Longrightarrow> is_dir (node t) \<longleftrightarrow> (\<exists>i kids. t = Folder i kids)"
  by (cases t) (auto dest: leaf_types one_type elim: tree_stored_cases)

section \<open>The calls on a stored tree\<close>

text \<open>\<open>gives W fs m r\<close>: from caches that are true, \<open>m\<close> answers \<open>r\<close> and leaves them true.\<close>

definition gives :: "('c, 'd) world \<Rightarrow> filesystem \<Rightarrow> (('c, 'd) caches, 'a) sm \<Rightarrow> 'a result \<Rightarrow> bool" where
  "gives W fs m r \<longleftrightarrow> (\<forall>s. caches_ok W fs s \<longrightarrow> (\<exists>s'. m s = (r, s') \<and> caches_ok W fs s'))"

lemma givesI:
  assumes "agree (both_ok W fs) m m" "\<And>s. caches_ok W fs s \<Longrightarrow> fst (m s) = r"
  shows "gives W fs m r"
  unfolding gives_def
proof (intro allI impI)
  fix s assume s: "caches_ok W fs s"
  then have "both_ok W fs s s" by (simp add: both_ok_def)
  from agreeD(2) [OF assms(1) this] assms(2) [OF s]
  show "\<exists>s'. m s = (r, s') \<and> caches_ok W fs s'"
    by (intro exI [of _ "snd (m s)"]) (simp add: both_ok_def prod_eq_iff)
qed

lemma givesD: "gives W fs m r \<Longrightarrow> caches_ok W fs s \<Longrightarrow> fst (m s) = r"
  unfolding gives_def by (metis fst_conv)

lemma gives_bind: "gives W fs m (Ok v) \<Longrightarrow> gives W fs (f v) r \<Longrightarrow> gives W fs (bind_s m f) r"
  unfolding gives_def bind_s_def by fastforce

lemma gives_bind_error: "gives W fs m (Inl e) \<Longrightarrow> gives W fs (bind_s m f) (Inl e)"
  unfolding gives_def bind_s_def by fastforce

lemma gives_ret: "gives W fs (ret_s v) (Ok v)" "gives W fs (fail_s e) (Fail e)"
  by (simp_all add: gives_def ret_s_def fail_s_def)

lemma gives_read_inode:
  assumes "inode_stored W fs r i"
  shows "gives W fs (read_inode W fs r) (Ok i)"
proof (rule givesI [OF agree_read_inode])
  fix s assume "caches_ok W fs s"
  then show "fst (read_inode W fs r s) = Ok i"
    using assms inode_read_layout
    by (auto simp: inode_stored_def read_inode_def fst_on_meta caches_ok_def)
qed

lemma gives_read_dir:
  assumes "is_dir i" "listing_stored W fs i es"
  shows "gives W fs (read_dir W fs i) (Ok es)"
proof (rule givesI [OF agree_read_dir])
  fix s assume s: "caches_ok W fs s"
  from assms(2) obtain gs rest where g: "unat (in_file_size i) = length (listing_bytes gs) + 3" "list_all group_ok gs"
      "es = concat (map group_entries gs)"
      "gs \<noteq> [] \<longrightarrow> metadata_at (env W fs) (fs_sb fs) (Some (fs_dir_table_end fs, past_table)) (dir_start fs i)
          (in_dir_block_offset i) (listing_bytes gs @ rest)"
    by (auto simp: listing_stored_def)
  show "fst (read_dir W fs i s) = Ok es"
  proof (cases "gs = []")
    case True
    with g(1,3) assms(1) show ?thesis
      by (simp add: read_dir_def dir_listing_len_def listing_bytes_def ret_s_def Let_def)
  next
    case False
    with s g assms(1) show ?thesis by (auto simp: caches_ok_def list_all_iff intro: read_dir_groups)
  qed
qed

lemma find_child:
  assumes "list_all2 (stands_for W fs) es kids"
  shows "case map_of kids c of
      None \<Rightarrow> find (\<lambda>e. de_name e = c) es = None
    | Some t \<Rightarrow> \<exists>e. find (\<lambda>e. de_name e = c) es = Some e \<and> stands_for W fs e (c, t)"
  using assms
proof (induction es kids rule: list_all2_induct)
  case Nil
  then show ?case by simp
next
  case (Cons e es k kids)
  then show ?case by (cases k) (auto simp: stands_for_def split: option.splits)
qed

lemma gives_lookup_in:
  assumes "tree_stored W fs (Folder i kids)"
  shows "case map_of kids c of
      None \<Rightarrow> gives W fs (lookup_in W fs i c) (Fail NotFound)
    | Some t \<Rightarrow> gives W fs (lookup_in W fs i c) (Ok (node t)) \<and> tree_stored W fs t"
proof -
  from assms obtain es where es: "is_dir i" "listing_stored W fs i es" "list_all2 (stands_for W fs) es kids"
    by (rule folder_parts)
  note rd = gives_bind [OF gives_read_dir [OF es(1,2)]]
  show ?thesis
  proof (cases "map_of kids c")
    case None
    with find_child [OF es(3), of c] show ?thesis
      by (simp add: lookup_in_def rd gives_ret)
  next
    case (Some t)
    with find_child [OF es(3), of c] show ?thesis
      by (auto simp: lookup_in_def stands_for_def intro!: rd gives_read_inode)
  qed
qed

text \<open>The walk over the image is the descent in the tree.\<close>

lemma gives_walk:
  assumes "tree_stored W fs t"
  shows "gives W fs (walk W fs (node t) cs) (and_then (descend t cs) (\<lambda>u. Ok (node u)))"
  using assms
proof (induction cs arbitrary: t)
  case Nil
  then show ?case by (simp add: gives_ret)
next
  case (Cons c cs)
  show ?case
  proof (cases "\<exists>i kids. t = Folder i kids")
    case True
    then obtain i kids where t: "t = Folder i kids" by blast
    note look = gives_lookup_in [OF Cons.prems [unfolded t], of c]
    have i: "is_dir i" using leaf_types(3) Cons.prems t by blast
    show ?thesis
    proof (cases "map_of kids c")
      case None
      with look i t show ?thesis by (simp add: gives_bind_error)
    next
      case (Some u)
      with look have "gives W fs (lookup_in W fs i c) (Ok (node u))" "tree_stored W fs u" by simp_all
      from gives_bind [where f = "\<lambda>n. walk W fs n cs", OF this(1) Cons.IH [OF this(2)]] Some i t
      show ?thesis by simp
    qed
  next
    case False
    then have "descend t (c # cs) = Fail NotADirectory" by (cases t) simp_all
    with False stored_is_dir [OF Cons.prems] show ?thesis by (simp add: gives_ret)
  qed
qed

lemma descend_stored: "tree_stored W fs t \<Longrightarrow> descend t cs = Ok u \<Longrightarrow> tree_stored W fs u"
proof (induction t cs rule: descend.induct)
  case (2 i kids c cs)
  then show ?case using gives_lookup_in [OF 2(2), of c] by (auto split: option.splits)
qed simp_all

text \<open>The descent fails only with the two errors it names.\<close>

lemma descend_errors: "descend t cs = Inl f \<Longrightarrow> f = Err NotFound \<or> f = Err NotADirectory"
  by (induction t cs rule: descend.induct) (auto split: option.splits)

lemma gives_lookup_path:
  assumes "image_holds W fs t"
  shows "gives W fs (lookup_path_bytes W fs p) (and_then (descend t (components p)) (\<lambda>u. Ok (node u)))"
  using assms unfolding lookup_path_bytes_def root_inode_def image_holds_def
  by (blast intro: gives_bind gives_read_inode gives_walk)

lemma holds_resolves: "image_holds W fs t \<Longrightarrow> descend t (components p) = Ok u \<Longrightarrow> resolves W fs p (node u)"
  using gives_lookup_path [of W fs t p] by (simp add: resolves_def givesD)

lemma holds_fails: "image_holds W fs t \<Longrightarrow> descend t (components p) = Inl e \<Longrightarrow>
    gives W fs (lookup_path_bytes W fs p) (Inl e)"
  using gives_lookup_path [of W fs t p] by simp

lemma gives_entries:
  assumes "tree_stored W fs u"
  shows "gives W fs (bind_s (read_dir W fs (node u)) (\<lambda>es. ret_s (map de_name es))) (tree_entries u)"
proof (cases "\<exists>i kids. u = Folder i kids")
  case True
  then obtain i kids where u: "u = Folder i kids" by blast
  from assms [unfolded u] obtain es where
    es: "is_dir i" "listing_stored W fs i es" "list_all2 (stands_for W fs) es kids"
    by (rule folder_parts)
  have "map de_name es = map fst kids"
    using es(3) by (induction es kids rule: list_all2_induct) (auto simp: stands_for_def)
  with gives_bind [OF gives_read_dir [OF es(1,2)] gives_ret(1), of "map de_name"] u
  show ?thesis by simp
next
  case False
  then have "tree_entries u = Fail NotADirectory" by (cases u) simp_all
  moreover from False stored_is_dir [OF assms] have "read_dir W fs (node u) = fail_s NotADirectory"
    by (auto simp: read_dir_def)
  ultimately show ?thesis by (simp add: gives_bind_error gives_ret)
qed

lemma stored_target: "tree_stored W fs u \<Longrightarrow> read_symlink_target (node u) = tree_target u"
  by (cases u)
    (auto simp: read_symlink_target_def dest: leaf_types one_type elim: tree_stored_cases)

lemma stored_read:
  assumes "tree_stored W fs u" "caches_ok W fs s"
  shows "\<exists>s'. read_file W fs (node u) offset s buf =
      (fst (tree_read u offset buf), s', snd (tree_read u offset buf)) \<and> caches_ok W fs s'"
proof (cases "\<exists>i data. u = File i data")
  case True
  then obtain i data where u: "u = File i data" by blast
  with assms(1) have "file_stored W fs i data" by (auto elim: tree_stored_cases)
  from read_file_stored [OF this assms(2), of offset buf] u show ?thesis by simp
next
  case False
  with assms(1) have "\<not> is_regular_file (node u)"
    by (cases u) (auto dest: leaf_types one_type elim: tree_stored_cases)
  moreover from False have "tree_read u offset buf = (Fail (BadInode ''read_file on non-file''), buf)"
    by (cases u) simp_all
  ultimately show ?thesis using assms(2)
    by (simp add: read_file_def read_file_with_offsets_def)
qed

section \<open>The small image holds a tree\<close>

abbreviation sample_tree :: tree where
  "sample_tree \<equiv> Folder root_node [([0x61], File a_node [1, 2, 3, 4])]"

lemma sample_inodes_stored:
  "inode_stored sample_world sample_fs 0 root_node" "inode_stored sample_world sample_fs 32 a_node"
  unfolding inode_stored_def image_env
  by (rule exI [of _ root_header], rule exI [of _ root_body], rule exI [of _ "inode_bytes a_header a_body"],
      use image_inodes_at(1) image_bodies_ok(1) in \<open>simp add: image_start\<close>)
    (rule exI [of _ a_header], rule exI [of _ a_body], rule exI [of _ "[]"],
      use image_inodes_at(2) image_bodies_ok(2) in \<open>simp add: image_start\<close>)

lemma root_is_dir: "is_dir root_node"
  by (simp add: is_dir_def file_type_of_def inode_of_def root_body_def headed_def from_type_id_def type_ids)

lemma sample_holds: "image_holds sample_world sample_fs sample_tree"
proof -
  have "concat (map group_entries [image_group]) = [a_entry]"
    by (simp add: group_entries_def image_group_def resolve_def)
  moreover have "unat (in_file_size root_node) = length (listing_bytes [image_group]) + 3"
    by (simp add: inode_of_def root_body_def headed_def)
  ultimately have "listing_stored sample_world sample_fs root_node [a_entry]"
    unfolding listing_stored_def image_env
    using image_listing_at group_ok_image by (intro exI [of _ "[image_group]"] exI [of _ "[]"]) simp
  then have "tree_stored sample_world sample_fs sample_tree"
    by (rule stored_folder [OF root_is_dir])
      (simp add: sample_inodes_stored stored_file [OF sample_file_stored])
  then show ?thesis by (simp add: image_holds_def sample_inodes_stored image_superblock_def)
qed

lemma mount_tree_calls:
  assumes "lru_crate W" "image_holds W fs t" "reachable W fs (opened_caches W m d) s"
  shows "fst (perform W fs (Lookup_path p) s) =
      An_inode (and_then (descend t (components p)) (\<lambda>u. Ok (node u))) \<and>
    (\<forall>u. descend t (components p) = Ok u \<longrightarrow>
      (\<exists>r. fst (perform W fs (Read_dir (node u)) s) = Entries r \<and>
        and_then r (\<lambda>es. Ok (map de_name es)) = tree_entries u) \<and>
      fst (perform W fs (Read_file (node u) offset buf) s) =
        Count (fst (tree_read u offset buf)) (snd (tree_read u offset buf)) \<and>
      read_symlink_target (node u) = tree_target u)"
proof -
  have c: "caches_ok W fs s" using reachable_ok [OF assms(3,1)] caches_ok_opened [OF assms(1)] .
  have st: "tree_stored W fs t" using assms(2) by (simp add: image_holds_def)
  have "and_then (fst (read_dir W fs (node u) s)) (\<lambda>es. Ok (map de_name es)) = tree_entries u"
    if "tree_stored W fs u" for u
    using givesD [OF gives_entries [OF that] c]
    by (cases "read_dir W fs (node u) s"; cases "fst (read_dir W fs (node u) s)")
      (auto simp: bind_s_def ret_s_def)
  moreover have "fst (perform W fs (Read_file (node u) offset buf) s) =
      Count (fst (tree_read u offset buf)) (snd (tree_read u offset buf))" if "tree_stored W fs u" for u
    using stored_read [OF that c, of offset buf] by auto
  ultimately show ?thesis
    using givesD [OF gives_lookup_path [OF assms(2)] c, of p] descend_stored [OF st]
      stored_target [of W fs] by auto
qed

section \<open>Properties\<close>

text \<open>C3. A mount of an image that holds a tree is that tree: after any sequence of calls and resizes, a
  path resolves to the node the tree has there or fails as the tree does; and at every node, listing
  gives the tree's names in order, reading gives the file's bytes in the range and touches nothing
  else of the buffer, a link gives its target, and each refuses a node of another kind.\<close>

theorem mount_presents_tree:
  assumes "lru_crate W" "image_holds W fs t" "reachable W fs (opened_caches W m d) s"
  shows "fst (perform W fs (Lookup_path p) s) =
      An_inode (and_then (descend t (components p)) (\<lambda>u. Ok (node u))) \<and>
    (\<forall>u. descend t (components p) = Ok u \<longrightarrow>
      (\<exists>r. fst (perform W fs (Read_dir (node u)) s) = Entries r \<and>
        and_then r (\<lambda>es. Ok (map de_name es)) = tree_entries u) \<and>
      fst (perform W fs (Read_file (node u) offset buf) s) =
        Count (fst (tree_read u offset buf)) (snd (tree_read u offset buf)) \<and>
      read_symlink_target (node u) = tree_target u)"
  using assms by (rule mount_tree_calls)

lemma mount_presents_tree_witness:
  "fst (perform sample_world sample_fs (Lookup_path [0x2F, 0x61]) (opened_caches sample_world 4 2)) =
     An_inode (Ok a_node) \<and>
   fst (perform sample_world sample_fs (Lookup_path [0x62]) (opened_caches sample_world 4 2)) =
     An_inode (Fail NotFound) \<and>
   fst (perform sample_world sample_fs (Read_file a_node 2 [9, 9, 9]) (opened_caches sample_world 4 2)) =
     Count (Ok 2) [3, 4, 9]"
proof -
  note p = mount_presents_tree [OF sample_lru_crate sample_holds reach_start, where offset = 2 and
      buf = "[9, 9, 9]" and m = 4 and d = 2]
  from p [of "[0x2F, 0x61]"] p [of "[0x62]"] show ?thesis by (simp add: components_def)
qed

end
