(* ===== verification/Utf8.thy ===== *)
theory Utf8
  imports Outcome
begin

text \<open>
  \<open>String::from_utf8_lossy\<close> and \<open>str::from_utf8\<close> of Rust's standard library, which the C ABI and the
  command line show names with: one step of the decoder says whether the bytes start with a well
  formed sequence and how many bytes that, or the ill formed prefix, takes.  Text is its UTF-8 bytes.
\<close>

type_synonym utf8 = bytes

definition text_of :: "string \<Rightarrow> utf8" where
  "text_of s = map of_char s"

definition byte_at :: "bytes \<Rightarrow> nat \<Rightarrow> u8" where
  "byte_at xs i = (if i < length xs then xs ! i else 0)"

definition continuation :: "u8 \<Rightarrow> bool" where
  "continuation b \<longleftrightarrow> 0x80 \<le> b \<and> b \<le> 0xBF"

text \<open>Which second bytes may follow a first byte of a three or four byte sequence: no overlong
  form, no surrogate, nothing past U+10FFFF.\<close>

definition second_of_three :: "u8 \<Rightarrow> u8 \<Rightarrow> bool" where
  "second_of_three b c \<longleftrightarrow>
     (if b = 0xE0 then 0xA0 \<le> c \<and> c \<le> 0xBF
      else if b = 0xED then 0x80 \<le> c \<and> c \<le> 0x9F
      else continuation c)"

definition second_of_four :: "u8 \<Rightarrow> u8 \<Rightarrow> bool" where
  "second_of_four b c \<longleftrightarrow>
     (if b = 0xF0 then 0x90 \<le> c \<and> c \<le> 0xBF
      else if b = 0xF4 then 0x80 \<le> c \<and> c \<le> 0x8F
      else continuation c)"

definition utf8_seq :: "bytes \<Rightarrow> bool \<times> nat" where
  "utf8_seq xs =
     (let b = byte_at xs 0 in
      if b < 0x80 then (True, 1)
      else if 0xC2 \<le> b \<and> b \<le> 0xDF then
        (if continuation (byte_at xs 1) then (True, 2) else (False, 1))
      else if 0xE0 \<le> b \<and> b \<le> 0xEF then
        (if \<not> second_of_three b (byte_at xs 1) then (False, 1)
         else if \<not> continuation (byte_at xs 2) then (False, 2)
         else (True, 3))
      else if 0xF0 \<le> b \<and> b \<le> 0xF4 then
        (if \<not> second_of_four b (byte_at xs 1) then (False, 1)
         else if \<not> continuation (byte_at xs 2) then (False, 2)
         else if \<not> continuation (byte_at xs 3) then (False, 3)
         else (True, 4))
      else (False, 1))"

lemma utf8_seq_length: "1 \<le> snd (utf8_seq xs) \<and> snd (utf8_seq xs) \<le> 4"
  by (simp add: utf8_seq_def Let_def)

lemma drop_seq_less:
  assumes "xs \<noteq> []" "(ok, n) = utf8_seq xs"
  shows "length (drop n xs) < length xs"
proof -
  have "1 \<le> n" using utf8_seq_length [of xs] unfolding assms(2) [symmetric] by simp
  with assms(1) show ?thesis by (cases xs) simp_all
qed

definition REPLACEMENT :: utf8 where
  "REPLACEMENT = [0xEF, 0xBF, 0xBD]"

function lossy :: "bytes \<Rightarrow> utf8" where
  "lossy xs =
     (if xs = [] then []
      else
        (case utf8_seq xs of
           (True, n) \<Rightarrow> take n xs @ lossy (drop n xs)
         | (False, n) \<Rightarrow> REPLACEMENT @ lossy (drop n xs)))"
  by pat_completeness auto
termination
  by (relation "measure length") (rule wf_measure, (simp only: in_measure, erule (1) drop_seq_less)+)

function is_utf8 :: "bytes \<Rightarrow> bool" where
  "is_utf8 xs \<longleftrightarrow>
     (if xs = [] then True
      else (case utf8_seq xs of (True, n) \<Rightarrow> is_utf8 (drop n xs) | (False, n) \<Rightarrow> False))"
  by pat_completeness auto
termination
  by (relation "measure length") (rule wf_measure, (simp only: in_measure, erule (1) drop_seq_less)+)

declare lossy.simps [simp del] is_utf8.simps [simp del]

lemma lossy_Nil [simp]: "lossy [] = []"
  by (simp add: lossy.simps)

lemma is_utf8_Nil [simp]: "is_utf8 []"
  by (simp add: is_utf8.simps)

section \<open>Showing well formed text changes nothing, and what is shown is well formed\<close>

lemma byte_at_append: "i < length xs \<Longrightarrow> byte_at (xs @ ys) i = byte_at xs i"
  by (simp add: byte_at_def nth_append)

lemma byte_at_take: "i < n \<Longrightarrow> byte_at (take n xs) i = byte_at xs i"
  by (simp add: byte_at_def)

lemma continuation_zero [simp]: "\<not> continuation 0" "\<not> second_of_three b 0" "\<not> second_of_four b 0"
  by (simp_all add: continuation_def second_of_three_def second_of_four_def)

lemma byte_at_nonzero: "byte_at xs i \<noteq> 0 \<Longrightarrow> i < length xs"
  by (auto simp: byte_at_def split: if_splits)

lemma utf8_seq_within:
  assumes "utf8_seq xs = (True, n)" "xs \<noteq> []"
  shows "n \<le> length xs"
proof -
  have c: "continuation (byte_at xs i) \<Longrightarrow> i < length xs" for i
    using byte_at_nonzero continuation_zero(1) by metis
  show ?thesis
    using assms c [of 1] c [of 2] c [of 3]
    by (auto simp: utf8_seq_def Let_def split: if_splits simp flip: length_greater_0_conv)
qed

lemma utf8_seq_prefix:
  assumes "utf8_seq xs = (True, n)" "n \<le> length xs"
  shows "utf8_seq (take n xs @ ys) = (True, n)"
proof -
  have "byte_at (take n xs @ ys) i = byte_at xs i" if "i < n" for i
    using that assms(2) by (simp add: byte_at_append byte_at_take)
  then show ?thesis
    using assms(1) by (auto simp: utf8_seq_def Let_def split: if_splits)
qed

lemma lossy_id: "is_utf8 xs \<Longrightarrow> lossy xs = xs"
proof (induction xs rule: lossy.induct)
  case (1 xs)
  then show ?case
    by (subst lossy.simps) (auto simp: is_utf8.simps [of xs] split: prod.splits bool.splits)
qed

lemma is_utf8_seq:
  assumes "utf8_seq xs = (True, n)" "n \<le> length xs" "0 < length xs" "is_utf8 ys"
  shows "is_utf8 (take n xs @ ys)"
proof -
  have "1 \<le> n" using utf8_seq_length [of xs] assms(1) by simp
  then have "take n xs @ ys \<noteq> []" using assms(2,3) by auto
  moreover have "drop n (take n xs @ ys) = ys" using assms(2) by simp
  ultimately show ?thesis
    using utf8_seq_prefix [OF assms(1,2), of ys] assms(4) by (subst is_utf8.simps) simp
qed

lemma is_utf8_lossy: "is_utf8 (lossy xs)"
proof (induction xs rule: lossy.induct)
  case (1 xs)
  show ?case
  proof (cases "xs = []")
    case False
    obtain ok n where u: "utf8_seq xs = (ok, n)" by fastforce
    have ih: "is_utf8 (lossy (drop n xs))" using 1 [OF False u [symmetric]] by (cases ok) auto
    show ?thesis
    proof (cases ok)
      case True
      with u have t: "utf8_seq xs = (True, n)" by simp
      have "is_utf8 (take n xs @ lossy (drop n xs))"
        by (rule is_utf8_seq [OF t utf8_seq_within [OF t False] _ ih]) (use False in simp)
      with t False show ?thesis by (subst lossy.simps) simp
    next
      case False
      have "utf8_seq REPLACEMENT = (True, 3)"
        by (simp add: utf8_seq_def REPLACEMENT_def byte_at_def continuation_def second_of_three_def)
      from is_utf8_seq [OF this _ _ ih] have "is_utf8 (REPLACEMENT @ lossy (drop n xs))"
        by (simp add: REPLACEMENT_def)
      with u False \<open>xs \<noteq> []\<close> show ?thesis by (subst lossy.simps) simp
    qed
  qed simp
qed

lemma lossy_eq_iff: "lossy xs = xs \<longleftrightarrow> is_utf8 xs"
  using lossy_id is_utf8_lossy by metis

text \<open>A NUL is in what is shown only when it was in the bytes.\<close>

lemma lossy_no_nul: "0 \<notin> set xs \<Longrightarrow> 0 \<notin> set (lossy xs)"
proof (induction xs rule: lossy.induct)
  case (1 xs)
  show ?case
  proof (cases "xs = []")
    case False
    obtain ok n where u: "utf8_seq xs = (ok, n)" by fastforce
    from 1(3) have "0 \<notin> set (take n xs)" "0 \<notin> set (drop n xs)"
      by (meson in_set_takeD in_set_dropD)+
    moreover from this(2) have "0 \<notin> set (lossy (drop n xs))"
      using 1(1,2) [OF False u [symmetric]] by (cases ok) auto
    ultimately show ?thesis
      using u False by (subst lossy.simps) (cases ok, auto simp: REPLACEMENT_def)
  qed simp
qed

end
