(* ===== verification/Capi.thy ===== *)
theory Capi
  imports Mount Utf8
begin

text \<open>
  The C ABI, \<open>src/capi.rs\<close>: the thread's error slot, the panic guard, the handle with the path it
  read last, and the exported calls.  A pointer argument is an option (\<open>None\<close> is NULL) or a flag
  that says it is NULL; what it points at for writing is the field \<open>ab_out\<close> of the call's state, so
  that every exit of a call says what it left there.
\<close>

section \<open>The error slot and the guard\<close>

record slot =
  sl_msg :: utf8
  sl_errno :: int

record ('h, 'o) abi =
  ab_slot :: slot
  ab_handle :: 'h
  ab_out :: 'o

definition set_last_error :: "utf8 \<Rightarrow> ('h, 'o) abi \<Rightarrow> ('h, 'o) abi" where
  "set_last_error msg s =
     s\<lparr>ab_slot := (ab_slot s)\<lparr>sl_msg := if 0 \<in> set msg then text_of ''unknown error'' else msg\<rparr>\<rparr>"

definition set_errno :: "int \<Rightarrow> ('h, 'o) abi \<Rightarrow> ('h, 'o) abi" where
  "set_errno e s = s\<lparr>ab_slot := (ab_slot s)\<lparr>sl_errno := e\<rparr>\<rparr>"

definition set_err_from :: "error \<Rightarrow> utf8 \<Rightarrow> ('h, 'o) abi \<Rightarrow> ('h, 'o) abi" where
  "set_err_from err context s =
     set_errno (to_errno err) (set_last_error (context @ text_of '': '' @ text_of (display_error err)) s)"

definition set_err_msg :: "utf8 \<Rightarrow> int \<Rightarrow> ('h, 'o) abi \<Rightarrow> ('h, 'o) abi" where
  "set_err_msg msg e s = set_errno e (set_last_error msg s)"

definition clear_last_error :: "('h, 'o) abi \<Rightarrow> ('h, 'o) abi" where
  "clear_last_error s = s\<lparr>ab_slot := \<lparr>sl_msg = [], sl_errno = 0\<rparr>\<rparr>"

definition reject_if_null :: "bool \<Rightarrow> string \<Rightarrow> 'a \<Rightarrow> ('h, 'o) abi \<Rightarrow> 'a option \<times> ('h, 'o) abi" where
  "reject_if_null any_null what failed s =
     (if any_null then (Some failed, set_err_msg (text_of (''null '' @ what)) EINVAL s)
      else (None, s))"

text \<open>\<open>catch_unwind\<close>: a panic of the body becomes the failure value, with the panic's message (any
  text, or the one for a payload that is not a string).\<close>

definition ffi_guard :: "utf8 \<Rightarrow> 'a \<Rightarrow> (('h, 'o) abi, 'a) sm \<Rightarrow> (('h, 'o) abi, 'a) sm" where
  "ffi_guard payload failed body s =
     (case body s of
        (Inl Panic, s') \<Rightarrow> (Ok failed, set_err_msg (text_of ''panic: '' @ payload) EIO s')
      | (r, s') \<Rightarrow> (r, s'))"

definition fs_squashfs_last_error :: "('h, 'o) abi \<Rightarrow> utf8" where
  "fs_squashfs_last_error s = sl_msg (ab_slot s)"

definition fs_squashfs_last_errno :: "('h, 'o) abi \<Rightarrow> int" where
  "fs_squashfs_last_errno s = sl_errno (ab_slot s)"

text \<open>\<open>CStr::from_ptr\<close>: the bytes in front of the NUL.\<close>

definition c_string :: "bytes \<Rightarrow> bytes" where
  "c_string m = takeWhile (\<lambda>b. b \<noteq> 0) m"

definition shown :: "bytes \<Rightarrow> utf8" where
  "shown path = lossy path"

definition cstr_to_bytes :: "bytes option \<Rightarrow> string \<Rightarrow> ('h, 'o) abi \<Rightarrow> bytes option \<times> ('h, 'o) abi" where
  "cstr_to_bytes p what s =
     (case p of
        None \<Rightarrow> (None, set_err_msg (text_of (''null '' @ what)) EINVAL s)
      | Some m \<Rightarrow> (Some (c_string m), s))"

text \<open>\<open>debug_text\<close> is how \<open>{:?}\<close> renders a string.\<close>

definition cstr_to_path ::
  "(utf8 \<Rightarrow> utf8) \<Rightarrow> bytes option \<Rightarrow> string \<Rightarrow> ('h, 'o) abi \<Rightarrow> utf8 option \<times> ('h, 'o) abi" where
  "cstr_to_path debug_text p what s =
     (case p of
        None \<Rightarrow> (None, set_err_msg (text_of (''null '' @ what)) EINVAL s)
      | Some m \<Rightarrow>
          let raw = c_string m in
          if is_utf8 raw then (Some raw, s)
          else
            (None,
             set_err_msg (text_of (what @ '' is not valid UTF-8: '') @ debug_text (lossy raw)) EINVAL s))"

section \<open>Calling into the crate\<close>

text \<open>\<open>{ set_err_msg(..); return rc; }\<close>\<close>

definition reject :: "utf8 \<Rightarrow> int \<Rightarrow> 'a \<Rightarrow> (('h, 'o) abi, 'a) sm" where
  "reject msg e rc s = (Ok rc, set_err_msg msg e s)"

definition refuse :: "error \<Rightarrow> utf8 \<Rightarrow> 'a \<Rightarrow> (('h, 'o) abi, 'a) sm" where
  "refuse err context rc s = (Ok rc, set_err_from err context s)"

text \<open>\<open>match m { Ok(v) => v, Err(e) => { set_err_from(&e, context); return rc; } }\<close>\<close>

definition try_or ::
  "(('h, 'o) abi, 'a) sm \<Rightarrow> utf8 \<Rightarrow> 'b \<Rightarrow> ('a \<Rightarrow> (('h, 'o) abi, 'b) sm) \<Rightarrow> (('h, 'o) abi, 'b) sm" where
  "try_or m context rc k =
     bind_s (attempt m) (\<lambda>r. case r of Inl e \<Rightarrow> refuse e context rc | Inr v \<Rightarrow> k v)"

text \<open>The preamble: clear the slot, refuse NULL.\<close>

definition entering ::
  "bool \<Rightarrow> string \<Rightarrow> 'a \<Rightarrow> (('h, 'o) abi, 'a) sm \<Rightarrow> (('h, 'o) abi, 'a) sm" where
  "entering any_null what failed body =
     bind_s (change clear_last_error) (\<lambda>_ s.
       case reject_if_null any_null what failed s of
         (Some rc, s') \<Rightarrow> (Ok rc, s')
       | (None, s') \<Rightarrow> body s')"

definition with_bytes ::
  "bytes option \<Rightarrow> string \<Rightarrow> 'a \<Rightarrow> (bytes \<Rightarrow> (('h, 'o) abi, 'a) sm) \<Rightarrow> (('h, 'o) abi, 'a) sm" where
  "with_bytes p what failed body s =
     (case cstr_to_bytes p what s of (None, s') \<Rightarrow> (Ok failed, s') | (Some b, s') \<Rightarrow> body b s')"

section \<open>The handle\<close>

record resolved_file =
  rs_path :: bytes
  rs_inode :: inode
  rs_offsets :: "u64 list"

text \<open>What of a handle a call may change: the caches of its filesystem and the last path read.\<close>

record ('c, 'd) live =
  lv_caches :: "('c, 'd) caches"
  lv_last :: "resolved_file option"

definition handle_new :: "('c, 'd) caches \<Rightarrow> ('c, 'd) live" where
  "handle_new c = \<lparr>lv_caches = c, lv_last = None\<rparr>"

definition on_fs :: "(('c, 'd) caches, 'a) sm \<Rightarrow> ((('c, 'd) live, 'o) abi, 'a) sm" where
  "on_fs m s =
     (case m (lv_caches (ab_handle s)) of
        (r, c) \<Rightarrow> (r, s\<lparr>ab_handle := (ab_handle s)\<lparr>lv_caches := c\<rparr>\<rparr>))"

definition remember :: "resolved_file \<Rightarrow> (('c, 'd) live, 'o) abi \<Rightarrow> (('c, 'd) live, 'o) abi" where
  "remember r s = s\<lparr>ab_handle := (ab_handle s)\<lparr>lv_last := Some r\<rparr>\<rparr>"

definition resolve_for_read ::
  "('c, 'd) world \<Rightarrow> filesystem \<Rightarrow> bytes \<Rightarrow> ((('c, 'd) live, 'o) abi, resolved_file) sm" where
  "resolve_for_read W fs path s =
     (case lv_last (ab_handle s) of
        Some cached \<Rightarrow>
          if rs_path cached = path then (Ok cached, s)
          else
            bind_s (on_fs (lookup_path_bytes W fs path)) (\<lambda>i.
              let resolved = \<lparr>rs_path = path, rs_inode = i,
                    rs_offsets = if is_regular_file i then block_offsets i else []\<rparr>
              in bind_s (change (remember resolved)) (\<lambda>_. ret_s resolved)) s
      | None \<Rightarrow>
          bind_s (on_fs (lookup_path_bytes W fs path)) (\<lambda>i.
            let resolved = \<lparr>rs_path = path, rs_inode = i,
                  rs_offsets = if is_regular_file i then block_offsets i else []\<rparr>
            in bind_s (change (remember resolved)) (\<lambda>_. ret_s resolved)) s)"

definition SQFS_NAME_CAP :: nat where "SQFS_NAME_CAP = SQUASHFS_NAME_LEN + 1"
definition SQFS_COMPRESSION_NAME_CAP :: nat where "SQFS_COMPRESSION_NAME_CAP = 16"

record attr =
  at_inode :: u32
  at_mode :: u16
  at_uid :: u32
  at_gid :: u32
  at_size :: u64
  at_mtime :: u32
  at_link_count :: u32
  at_file_type :: u32
  at_rdev :: u32

record dirent =
  dn_inode :: u32
  dn_file_type :: u8
  dn_name_len :: u16
  dn_name :: bytes

record volume_info =
  vi_block_size :: u32
  vi_compression_id :: u16
  vi_compression_name :: bytes
  vi_inode_count :: u32
  vi_fragment_count :: u32
  vi_id_count :: u16
  vi_bytes_used :: u64
  vi_mkfs_time :: u32
  vi_version_major :: u16
  vi_version_minor :: u16
  vi_flags :: u16

record dir_iter =
  it_entries :: "dirent list"
  it_position :: nat
  it_current :: dirent

section \<open>Helpers\<close>

definition fill_attr :: "filesystem \<Rightarrow> inode \<Rightarrow> ((('c, 'd) live, attr) abi, unit) sm" where
  "fill_attr fs i =
     bind_s (lift_s (resolve_uid fs (in_uid_idx i))) (\<lambda>uid.
     bind_s (lift_s (resolve_gid fs (in_gid_idx i))) (\<lambda>gid.
       change (\<lambda>s. s\<lparr>ab_out :=
         \<lparr>at_inode = in_number i, at_mode = in_permissions i AND 0xFFF, at_uid = uid, at_gid = gid,
          at_size = in_file_size i, at_mtime = in_mtime i, at_link_count = in_nlink i,
          at_file_type = ucast (to_abi (file_type_of i)), at_rdev = in_rdev i\<rparr>\<rparr>)))"

definition dir_entry_to_abi :: "dir_entry \<Rightarrow> dirent" where
  "dir_entry_to_abi e =
     (let copy = min (length (de_name e)) (SQFS_NAME_CAP - 1) in
      \<lparr>dn_inode = de_inode_number e,
       dn_file_type = to_abi (from_type_id (de_type_id e)),
       dn_name_len = of_nat copy,
       dn_name = fill_slice (replicate SQFS_NAME_CAP 0) (take copy (de_name e) @ [0])\<rparr>)"

definition zeroed_dirent :: dirent where
  "zeroed_dirent =
     \<lparr>dn_inode = 0, dn_file_type = 0, dn_name_len = 0, dn_name = replicate SQFS_NAME_CAP 0\<rparr>"

definition mount_from_device ::
  "('c, 'd) world \<Rightarrow> device \<Rightarrow> utf8 \<Rightarrow> (('h, 'o) abi, (filesystem \<times> ('c, 'd) live) option) sm" where
  "mount_from_device W dev context =
     try_or (lift_s (open_image W dev)) context None (\<lambda>(fs, c). ret_s (Some (fs, handle_new c)))"

section \<open>Mounting\<close>

text \<open>\<open>host_open\<close> stands for \<open>fs_core::FileDevice::open\<close>: a device, or the error's text.\<close>

definition fs_squashfs_mount ::
  "('c, 'd) world \<Rightarrow> utf8 \<Rightarrow> (utf8 \<Rightarrow> utf8) \<Rightarrow> (utf8 \<Rightarrow> utf8 + device) \<Rightarrow> bytes option \<Rightarrow>
    (('h, 'o) abi, (filesystem \<times> ('c, 'd) live) option) sm" where
  "fs_squashfs_mount W payload debug_text host_open device_path =
     ffi_guard payload None
       (bind_s (change clear_last_error) (\<lambda>_ s.
         case cstr_to_path debug_text device_path ''path'' s of
           (None, s') \<Rightarrow> (Ok None, s')
         | (Some path, s') \<Rightarrow>
             if path = [] then reject (text_of ''null or empty device_path'') EINVAL None s'
             else
               (case host_open path of
                  Inl e \<Rightarrow> reject (text_of ''open '' @ path @ text_of '': '' @ e) EIO None s'
                | Inr dev \<Rightarrow> mount_from_device W dev (text_of ''mount '' @ path) s')))"

text \<open>\<open>read_fn\<close>: what the callback returns and the bytes it leaves in the buffer;
  \<open>callback_device\<close> stands for \<open>fs_core\<close>'s device over such a closure.\<close>

record callback_cfg =
  cfg_read :: "(u64 \<Rightarrow> nat \<Rightarrow> int \<times> bytes) option"
  cfg_size_bytes :: u64

definition callback_read :: "(u64 \<Rightarrow> nat \<Rightarrow> int \<times> bytes) \<Rightarrow> u64 \<Rightarrow> nat \<Rightarrow> utf8 + bytes" where
  "callback_read read_fn offset n =
     (case read_fn offset n of
        (rc, bs) \<Rightarrow>
          if rc = 0 then Inr bs
          else
            Inl (text_of (''read callback returned '' @
              (if rc < 0 then ''-'' else []) @ dec_digits (nat \<bar>rc\<bar>))))"

definition fs_squashfs_mount_with_callbacks ::
  "('c, 'd) world \<Rightarrow> utf8 \<Rightarrow> (u64 \<Rightarrow> (u64 \<Rightarrow> nat \<Rightarrow> utf8 + bytes) \<Rightarrow> device) \<Rightarrow> callback_cfg option \<Rightarrow>
    (('h, 'o) abi, (filesystem \<times> ('c, 'd) live) option) sm" where
  "fs_squashfs_mount_with_callbacks W payload callback_device cfg =
     ffi_guard payload None
       (entering (cfg = None) ''cfg'' None
         (case cfg_read (the cfg) of
            None \<Rightarrow> reject (text_of ''cfg.read is null'') EINVAL None
          | Some read_fn \<Rightarrow>
              mount_from_device W (callback_device (cfg_size_bytes (the cfg)) (callback_read read_fn))
                (text_of ''mount (callback)'')))"

definition fs_squashfs_mount_with_fs_core_device ::
  "('c, 'd) world \<Rightarrow> utf8 \<Rightarrow> device option \<Rightarrow>
    (('h, 'o) abi, (filesystem \<times> ('c, 'd) live) option) sm" where
  "fs_squashfs_mount_with_fs_core_device W payload h =
     ffi_guard payload None
       (entering (h = None) ''fs_core handle'' None
         (mount_from_device W (the h) (text_of ''mount via fs_core handle'')))"

section \<open>Volume information and attributes\<close>

definition fs_squashfs_get_volume_info ::
  "utf8 \<Rightarrow> filesystem option \<Rightarrow> bool \<Rightarrow> ((('c, 'd) live, volume_info) abi, int) sm" where
  "fs_squashfs_get_volume_info payload h info_null =
     ffi_guard payload (- 1)
       (entering (h = None \<or> info_null) ''fs or info'' (- 1)
         (let fs = the h; sb = fs_sb fs;
              cname = map of_char (compressor_name (fs_comp fs));
              n = min (length cname) (SQFS_COMPRESSION_NAME_CAP - 1)
          in
          bind_s (change (\<lambda>s. s\<lparr>ab_out :=
            \<lparr>vi_block_size = sb_block_size sb, vi_compression_id = sb_compression_id sb,
             vi_compression_name =
               fill_slice (replicate SQFS_COMPRESSION_NAME_CAP 0) (take n cname @ [0]),
             vi_inode_count = sb_inode_count sb, vi_fragment_count = sb_fragment_entry_count sb,
             vi_id_count = sb_id_count sb, vi_bytes_used = sb_bytes_used sb,
             vi_mkfs_time = sb_modification_time sb, vi_version_major = sb_version_major sb,
             vi_version_minor = sb_version_minor sb, vi_flags = sb_flags sb\<rparr>\<rparr>)) (\<lambda>_. ret_s 0)))"

definition fs_squashfs_stat ::
  "('c, 'd) world \<Rightarrow> utf8 \<Rightarrow> filesystem option \<Rightarrow> bytes option \<Rightarrow> bool \<Rightarrow>
    ((('c, 'd) live, attr) abi, int) sm" where
  "fs_squashfs_stat W payload h path attr_null =
     ffi_guard payload (- 1)
       (entering (h = None \<or> path = None \<or> attr_null) ''fs, path, or attr'' (- 1)
         (with_bytes path ''path'' (- 1) (\<lambda>path.
           try_or (bind_s (on_fs (lookup_path_bytes W (the h) path)) (fill_attr (the h)))
             (text_of ''stat '' @ shown path) (- 1) (\<lambda>_. ret_s 0))))"

definition fs_squashfs_stat_ino ::
  "('c, 'd) world \<Rightarrow> utf8 \<Rightarrow> filesystem option \<Rightarrow> u32 \<Rightarrow> bool \<Rightarrow>
    ((('c, 'd) live, attr) abi, int) sm" where
  "fs_squashfs_stat_ino W payload h inode_number attr_null =
     ffi_guard payload (- 1)
       (entering (h = None \<or> attr_null) ''fs or attr'' (- 1)
         (try_or (bind_s (on_fs (read_inode_by_number W (the h) inode_number)) (fill_attr (the h)))
           (text_of (''stat inode '' @ dec_digits (unat inode_number))) (- 1) (\<lambda>_. ret_s 0)))"

definition fs_squashfs_is_exportable ::
  "utf8 \<Rightarrow> filesystem option \<Rightarrow> ((('c, 'd) live, 'o) abi, int) sm" where
  "fs_squashfs_is_exportable payload h =
     ffi_guard payload (- 1)
       (entering (h = None) ''fs'' (- 1) (ret_s (if is_exportable (the h) then 1 else 0)))"

section \<open>Directories\<close>

definition fs_squashfs_dir_open ::
  "('c, 'd) world \<Rightarrow> utf8 \<Rightarrow> filesystem option \<Rightarrow> bytes option \<Rightarrow>
    ((('c, 'd) live, 'o) abi, dir_iter option) sm" where
  "fs_squashfs_dir_open W payload h path =
     ffi_guard payload None
       (entering (h = None \<or> path = None) ''fs or path'' None
         (with_bytes path ''path'' None (\<lambda>path.
           try_or (on_fs (lookup_path_bytes W (the h) path)) (text_of ''dir_open '' @ shown path) None (\<lambda>i.
           if \<not> is_dir i then
             reject (text_of ''dir_open '' @ shown path @ text_of '': not a directory'') ENOTDIR None
           else
             try_or (on_fs (read_dir W (the h) i)) (text_of ''read directory '' @ shown path) None (\<lambda>es.
               ret_s (Some \<lparr>it_entries = map dir_entry_to_abi es, it_position = 0,
                            it_current = zeroed_dirent\<rparr>))))))"

text \<open>The iterator is what the call writes to; the entry it returns is \<open>it_current\<close>.\<close>

definition fs_squashfs_dir_next :: "utf8 \<Rightarrow> bool \<Rightarrow> (('h, dir_iter) abi, dirent option) sm" where
  "fs_squashfs_dir_next payload iter_null =
     ffi_guard payload None (\<lambda>s.
       if iter_null then (Ok None, s)
       else
         let it = ab_out s in
         if length (it_entries it) \<le> it_position it then (Ok None, s)
         else
           bind_s (lift_s (index (it_entries it) (it_position it))) (\<lambda>e.
           bind_s (change (\<lambda>s. s\<lparr>ab_out := it\<lparr>it_current := e, it_position := it_position it + 1\<rparr>\<rparr>)) (\<lambda>_.
             ret_s (Some e))) s)"

section \<open>Files and links\<close>

text \<open>\<open>ab_out\<close> is the caller's buffer; the call sees its first \<open>length\<close> bytes.\<close>

definition read_into ::
  "('c, 'd) world \<Rightarrow> filesystem \<Rightarrow> inode \<Rightarrow> u64 list \<Rightarrow> u64 \<Rightarrow> nat \<Rightarrow>
    ((('c, 'd) live, bytes) abi, nat) sm" where
  "read_into W fs i offsets offset len s =
     (case read_file_with_offsets W fs i offsets offset (lv_caches (ab_handle s)) (take len (ab_out s)) of
        (r, c, buf) \<Rightarrow>
          (r, s\<lparr>ab_handle := (ab_handle s)\<lparr>lv_caches := c\<rparr>, ab_out := buf @ drop len (ab_out s)\<rparr>))"

definition fs_squashfs_read_file ::
  "('c, 'd) world \<Rightarrow> utf8 \<Rightarrow> filesystem option \<Rightarrow> bytes option \<Rightarrow> bool \<Rightarrow> u64 \<Rightarrow> u64 \<Rightarrow>
    ((('c, 'd) live, bytes) abi, int) sm" where
  "fs_squashfs_read_file W payload h path buf_null offset len =
     ffi_guard payload (- 1)
       (entering (h = None \<or> path = None \<or> buf_null) ''fs, path, or buf'' (- 1)
         (with_bytes path ''path'' (- 1) (\<lambda>path.
           try_or (resolve_for_read W (the h) path) (text_of ''read_file '' @ shown path) (- 1) (\<lambda>resolved.
           let i = rs_inode resolved in
           if \<not> is_regular_file i then
             reject (text_of ''read_file '' @ shown path @ text_of '': not a regular file'') EINVAL (- 1)
           else
             try_or (read_into W (the h) i (rs_offsets resolved) offset (unat (min len (in_file_size i))))
               (text_of ''read_file '' @ shown path) (- 1) (\<lambda>n. ret_s (int n))))))"

definition fs_squashfs_readlink ::
  "('c, 'd) world \<Rightarrow> utf8 \<Rightarrow> filesystem option \<Rightarrow> bytes option \<Rightarrow> bool \<Rightarrow> nat \<Rightarrow>
    ((('c, 'd) live, bytes) abi, int) sm" where
  "fs_squashfs_readlink W payload h path buf_null bufsize =
     ffi_guard payload (- 1)
       (entering (h = None \<or> path = None \<or> buf_null) ''fs/path/buf'' (- 1)
         (with_bytes path ''path'' (- 1) (\<lambda>path.
           try_or (on_fs (lookup_path_bytes W (the h) path)) (text_of ''readlink '' @ shown path) (- 1) (\<lambda>i.
           if \<not> is_symlink i then
             reject (text_of ''readlink '' @ shown path @ text_of '': not a symlink'') EINVAL (- 1)
           else
             let target = in_symlink_target i; needed = length target + 1 in
             if 2 ^ 31 \<le> length target then
               reject (text_of ''readlink '' @ shown path @ text_of '': target of '' @
                 text_of (dec_digits (length target)) @ text_of '' bytes'') ERANGE (- 1)
             else if bufsize < needed then
               reject (text_of ''readlink '' @ shown path @ text_of '': buffer of '' @
                 text_of (dec_digits bufsize) @ text_of '' bytes, '' @ text_of (dec_digits needed) @
                 text_of '' needed'') ERANGE (- 1)
             else
               bind_s (change (\<lambda>s. s\<lparr>ab_out := target @ [0] @ drop needed (ab_out s)\<rparr>)) (\<lambda>_.
                 ret_s (int (length target)))))))"

section \<open>Extended attributes\<close>

text \<open>The loop that writes whole names while they fit.\<close>

fun write_names :: "nat \<Rightarrow> nat \<Rightarrow> xattr_entry list \<Rightarrow> bytes \<Rightarrow> bytes" where
  "write_names bufsize pos [] out = out"
| "write_names bufsize pos (e # es) out =
     (let needed = length (xe_name e) + 1 in
      if bufsize < pos + needed then out
      else
        write_names bufsize (pos + needed) es
          (take pos out @ xe_name e @ [0] @ drop (pos + needed) out))"

definition fs_squashfs_listxattr ::
  "('c, 'd) world \<Rightarrow> utf8 \<Rightarrow> filesystem option \<Rightarrow> bytes option \<Rightarrow> bool \<Rightarrow> nat \<Rightarrow>
    ((('c, 'd) live, bytes) abi, int) sm" where
  "fs_squashfs_listxattr W payload h path buf_null bufsize =
     ffi_guard payload (- 1)
       (entering (h = None \<or> path = None) ''fs or path'' (- 1)
         (with_bytes path ''path'' (- 1) (\<lambda>path.
           try_or (on_fs (lookup_path_bytes W (the h) path)) (text_of ''listxattr '' @ shown path) (- 1) (\<lambda>i.
           try_or (on_fs (list_xattrs W (the h) i)) (text_of ''listxattr '' @ shown path) (- 1) (\<lambda>es.
           let required = sum_list (map (\<lambda>e. length (xe_name e) + 1) es) in
           bind_s
             (change (\<lambda>s.
               if \<not> buf_null \<and> 0 < bufsize then s\<lparr>ab_out := write_names bufsize 0 es (ab_out s)\<rparr>
               else s)) (\<lambda>_.
             ret_s (int required)))))))"

definition fs_squashfs_getxattr ::
  "('c, 'd) world \<Rightarrow> utf8 \<Rightarrow> filesystem option \<Rightarrow> bytes option \<Rightarrow> bytes option \<Rightarrow> bool \<Rightarrow> nat \<Rightarrow>
    ((('c, 'd) live, bytes) abi, int) sm" where
  "fs_squashfs_getxattr W payload h path name buf_null bufsize =
     ffi_guard payload (- 1)
       (entering (h = None \<or> path = None \<or> name = None) ''fs, path or name'' (- 1)
         (with_bytes path ''path'' (- 1) (\<lambda>path.
         with_bytes name ''xattr name'' (- 1) (\<lambda>name.
           try_or (on_fs (lookup_path_bytes W (the h) path)) (text_of ''getxattr '' @ shown path) (- 1) (\<lambda>i.
           try_or (on_fs (get_xattr W (the h) i name))
             (text_of ''getxattr '' @ shown path @ text_of '' '' @ shown name) (- 1) (\<lambda>v.
           case v of
             None \<Rightarrow>
               reject (text_of ''getxattr '' @ shown path @ text_of '': '' @ shown name @
                 text_of '' is not set'') ENOENT (- 1)
           | Some val \<Rightarrow>
               bind_s
                 (change (\<lambda>s.
                   if \<not> buf_null \<and> 0 < bufsize then
                     s\<lparr>ab_out := fill_slice (ab_out s) (take (min (length val) bufsize) val)\<rparr>
                   else s)) (\<lambda>_.
                 ret_s (int (length val)))))))))"

end
