(* ===== verification/Capi_Calls.thy ===== *)
theory Capi_Calls
  imports Capi
begin

text \<open>
  What the calls of the C ABI promise their callers: an answer that depends on the call and not on
  the handle's history, a failure value exactly when the error slot is set, and what each call
  leaves in the caller's memory.
\<close>

section \<open>A handle whose memory is true\<close>

text \<open>A remembered path is what resolving it gives, with the block map of what it names.\<close>

definition offsets_of :: "inode \<Rightarrow> u64 list" where
  "offsets_of i = (if is_regular_file i then block_offsets i else [])"

definition resolved_ok :: "('c, 'd) world \<Rightarrow> filesystem \<Rightarrow> resolved_file \<Rightarrow> bool" where
  "resolved_ok W fs r \<longleftrightarrow>
     (\<forall>c. caches_ok W fs c \<longrightarrow> fst (lookup_path_bytes W fs (rs_path r) c) = Ok (rs_inode r)) \<and>
     rs_offsets r = offsets_of (rs_inode r)"

definition handle_ok :: "('c, 'd) world \<Rightarrow> filesystem \<Rightarrow> ('c, 'd) live \<Rightarrow> bool" where
  "handle_ok W fs h \<longleftrightarrow>
     caches_ok W fs (lv_caches h) \<and> (\<forall>r. lv_last h = Some r \<longrightarrow> resolved_ok W fs r)"

text \<open>Two states of a call that a caller cannot tell apart: slots and memory are equal, and both
  handles are true.\<close>

definition alike ::
  "('c, 'd) world \<Rightarrow> filesystem \<Rightarrow> (('c, 'd) live, 'o) abi \<Rightarrow> (('c, 'd) live, 'o) abi \<Rightarrow> bool" where
  "alike W fs s t \<longleftrightarrow>
     ab_slot s = ab_slot t \<and> ab_out s = ab_out t \<and>
     handle_ok W fs (ab_handle s) \<and> handle_ok W fs (ab_handle t)"

lemma alikeI:
  "ab_slot s = ab_slot t \<Longrightarrow> ab_out s = ab_out t \<Longrightarrow> handle_ok W fs (ab_handle s) \<Longrightarrow>
    handle_ok W fs (ab_handle t) \<Longrightarrow> alike W fs s t"
  by (simp add: alike_def)

lemma alike_set_err [simp]:
  "alike W fs s t \<Longrightarrow> alike W fs (set_err_msg msg e s) (set_err_msg msg e t)"
  "alike W fs s t \<Longrightarrow> alike W fs (set_err_from err ctx s) (set_err_from err ctx t)"
  by (simp_all add: alike_def set_err_msg_def set_err_from_def set_errno_def set_last_error_def)

lemma agree_reject [agree_intros]: "agree (alike W fs) (reject msg e rc) (reject msg e rc)"
  by (simp add: agree_def reject_def)

lemma agree_refuse [agree_intros]: "agree (alike W fs) (refuse e ctx rc) (refuse e ctx rc)"
  by (simp add: agree_def refuse_def)

lemma agree_try_or [agree_intros]:
  "agree (alike W fs) m m \<Longrightarrow> (\<And>v. agree (alike W fs) (k v) (k v)) \<Longrightarrow>
    agree (alike W fs) (try_or m ctx rc k) (try_or m ctx rc k)"
  unfolding try_or_def by (intro agree_bind agree_attempt) (auto intro: agree_intros split: sum.split)

lemma agree_with_bytes [agree_intros]:
  "(\<And>b. agree (alike W fs) (k b) (k b)) \<Longrightarrow>
    agree (alike W fs) (with_bytes p what rc k) (with_bytes p what rc k)"
  by (cases p) (simp_all add: agree_def with_bytes_def cstr_to_bytes_def)

lemma agree_on_fs [agree_intros]:
  assumes "agree (both_ok W fs) m m"
  shows "agree (alike W fs) (on_fs m) (on_fs m)"
  unfolding agree_def
proof (intro allI impI)
  fix s t :: "(('a, 'b) live, 'd) abi" assume a: "alike W fs s t"
  obtain r c q d where m: "m (lv_caches (ab_handle s)) = (r, c)" "m (lv_caches (ab_handle t)) = (q, d)"
    by fastforce
  from a have "both_ok W fs (lv_caches (ab_handle s)) (lv_caches (ab_handle t))"
    by (simp add: alike_def handle_ok_def both_ok_def)
  from agreeD [OF assms this] m a
  show "fst (on_fs m s) = fst (on_fs m t) \<and> alike W fs (snd (on_fs m s)) (snd (on_fs m t))"
    by (auto simp: on_fs_def alike_def handle_ok_def both_ok_def)
qed

lemma agree_fill_attr [agree_intros]: "agree (alike W fs) (fill_attr fs i) (fill_attr fs i)"
  unfolding fill_attr_def by (intro agree_intros agree_change) (auto simp: alike_def)

lemma read_with_offsets_agree:
  assumes "both_ok W fs s t"
    and "read_file_with_offsets W fs i offsets offset s buf = (r, s', b)"
    and "read_file_with_offsets W fs i offsets offset t buf = (q, t', d)"
  shows "r = q \<and> b = d \<and> both_ok W fs s' t'"
proof -
  let ?n = "min (length buf) (unat (in_file_size i - offset))"
  from read_loop_agree [OF assms(1), of i offsets offset ?n 0 buf] assms show ?thesis
    by (auto simp: read_file_with_offsets_def Let_def split: if_splits)
qed

lemma agree_read_into [agree_intros]:
  "agree (alike W fs) (read_into W fs i offsets offset n) (read_into W fs i offsets offset n)"
  unfolding agree_def
proof (intro allI impI)
  fix s t :: "(('a, 'b) live, bytes) abi" assume a: "alike W fs s t"
  then have b: "both_ok W fs (lv_caches (ab_handle s)) (lv_caches (ab_handle t))"
    by (simp add: alike_def handle_ok_def both_ok_def)
  let ?run = "\<lambda>x. read_file_with_offsets W fs i offsets offset (lv_caches (ab_handle x)) (take n (ab_out s))"
  obtain r c u q d v where r: "?run s = (r, c, u)" "?run t = (q, d, v)"
    by (metis prod_cases3)
  from read_with_offsets_agree [OF b r] a r
  show "fst (read_into W fs i offsets offset n s) = fst (read_into W fs i offsets offset n t) \<and>
    alike W fs (snd (read_into W fs i offsets offset n s)) (snd (read_into W fs i offsets offset n t))"
    by (auto simp: read_into_def alike_def handle_ok_def both_ok_def)
qed

text \<open>Resolving through the remembered path is resolving afresh, and what is remembered is true.\<close>

definition fresh_resolution ::
  "('c, 'd) world \<Rightarrow> filesystem \<Rightarrow> bytes \<Rightarrow> ('c, 'd) caches \<Rightarrow> resolved_file result" where
  "fresh_resolution W fs path c =
     and_then (fst (lookup_path_bytes W fs path c)) (\<lambda>i.
       Ok \<lparr>rs_path = path, rs_inode = i, rs_offsets = offsets_of i\<rparr>)"

lemma resolve_miss:
  assumes "handle_ok W fs (ab_handle s)"
    and "\<And>r. lv_last (ab_handle s) = Some r \<Longrightarrow> rs_path r \<noteq> path"
  shows "\<exists>t. resolve_for_read W fs path s = (fresh_resolution W fs path (lv_caches (ab_handle s)), t) \<and>
    ab_slot t = ab_slot s \<and> ab_out t = ab_out s \<and> handle_ok W fs (ab_handle t)"
proof -
  let ?c = "lv_caches (ab_handle s)"
  have c: "caches_ok W fs ?c" using assms(1) by (simp add: handle_ok_def)
  obtain q d where l: "lookup_path_bytes W fs path ?c = (q, d)" by fastforce
  with lookup_keeps [OF c, of path] have d: "caches_ok W fs d" by simp
  let ?fresh = "bind_s (on_fs (lookup_path_bytes W fs path)) (\<lambda>i.
      let resolved = \<lparr>rs_path = path, rs_inode = i,
            rs_offsets = if is_regular_file i then block_offsets i else []\<rparr>
      in bind_s (change (remember resolved)) (\<lambda>_. ret_s resolved)) s"
  have e: "resolve_for_read W fs path s = ?fresh"
    using assms(2) by (auto simp: resolve_for_read_def split: option.split)
  show ?thesis
  proof (cases q)
    case (Inl x)
    with e l assms(1) d show ?thesis
      by (simp add: bind_s_def on_fs_def fresh_resolution_def handle_ok_def)
  next
    case (Inr i)
    have "resolved_ok W fs \<lparr>rs_path = path, rs_inode = i, rs_offsets = offsets_of i\<rparr>"
      using resolution_same [OF _ c, of _ path] l Inr by (simp add: resolved_ok_def)
    with e l Inr d show ?thesis
      by (simp add: bind_s_def on_fs_def fresh_resolution_def handle_ok_def change_def ret_s_def
          remember_def offsets_of_def Let_def)
  qed
qed

lemma resolve_ok:
  assumes "handle_ok W fs (ab_handle s)"
  shows "\<exists>t. resolve_for_read W fs path s = (fresh_resolution W fs path (lv_caches (ab_handle s)), t) \<and>
    ab_slot t = ab_slot s \<and> ab_out t = ab_out s \<and> handle_ok W fs (ab_handle t)"
proof (cases "\<exists>r. lv_last (ab_handle s) = Some r \<and> rs_path r = path")
  case True
  then obtain r where r: "lv_last (ab_handle s) = Some r" "rs_path r = path" by blast
  with assms have "resolved_ok W fs r" "caches_ok W fs (lv_caches (ab_handle s))"
    by (simp_all add: handle_ok_def)
  with r have "fresh_resolution W fs path (lv_caches (ab_handle s)) = Ok r"
    by (simp add: fresh_resolution_def resolved_ok_def)
  with r assms show ?thesis by (simp add: resolve_for_read_def)
next
  case False
  with resolve_miss [OF assms] show ?thesis by blast
qed

lemma agree_resolve [agree_intros]:
  "agree (alike W fs) (resolve_for_read W fs path) (resolve_for_read W fs path)"
  unfolding agree_def
proof (intro allI impI)
  fix s t :: "(('a, 'b) live, 'd) abi" assume a: "alike W fs s t"
  then have h: "handle_ok W fs (ab_handle s)" "handle_ok W fs (ab_handle t)" by (simp_all add: alike_def)
  then have "fresh_resolution W fs path (lv_caches (ab_handle s)) =
      fresh_resolution W fs path (lv_caches (ab_handle t))"
    using resolution_same [of W fs "lv_caches (ab_handle s)" "lv_caches (ab_handle t)" path]
    by (simp add: fresh_resolution_def handle_ok_def)
  with resolve_ok [OF h(1), of path] resolve_ok [OF h(2), of path] a
  show "fst (resolve_for_read W fs path s) = fst (resolve_for_read W fs path t) \<and>
    alike W fs (snd (resolve_for_read W fs path s)) (snd (resolve_for_read W fs path t))"
    by (auto simp: alike_def)
qed

text \<open>The preamble and the guard: the slot as the call finds it does not matter.\<close>

definition history_free :: "('c, 'd) world \<Rightarrow> filesystem \<Rightarrow> ((('c, 'd) live, 'o) abi, 'a) sm \<Rightarrow> bool" where
  "history_free W fs call \<longleftrightarrow>
     (\<forall>s t. handle_ok W fs (ab_handle s) \<and> handle_ok W fs (ab_handle t) \<and> ab_out s = ab_out t \<longrightarrow>
        fst (call s) = fst (call t) \<and> alike W fs (snd (call s)) (snd (call t)))"

lemma history_freeI:
  assumes "agree (alike W fs) body body"
  shows "history_free W fs (ffi_guard payload failed (entering b what failed body))"
  unfolding history_free_def
proof (intro allI impI)
  fix s t :: "(('a, 'b) live, 'c) abi"
  assume h: "handle_ok W fs (ab_handle s) \<and> handle_ok W fs (ab_handle t) \<and> ab_out s = ab_out t"
  then have c: "alike W fs (clear_last_error s) (clear_last_error t)"
    by (simp add: alike_def clear_last_error_def)
  have "fst (entering b what failed body s) = fst (entering b what failed body t) \<and>
    alike W fs (snd (entering b what failed body s)) (snd (entering b what failed body t))"
    using agreeD [OF assms c] c
    by (simp add: entering_def bind_s_def change_def reject_if_null_def)
  then show "fst (ffi_guard payload failed (entering b what failed body) s) =
      fst (ffi_guard payload failed (entering b what failed body) t) \<and>
    alike W fs (snd (ffi_guard payload failed (entering b what failed body) s))
      (snd (ffi_guard payload failed (entering b what failed body) t))"
    by (auto simp: ffi_guard_def split: prod.splits sum.splits fault.splits)
qed

lemma history_free_calls:
  "history_free W fs (fs_squashfs_get_volume_info payload h null)"
  "history_free W fs (fs_squashfs_is_exportable payload h :: ((('c, 'd) live, 'o) abi, int) sm)"
  "h = Some fs \<Longrightarrow> history_free W fs (fs_squashfs_stat W payload h path null)"
  "h = Some fs \<Longrightarrow> history_free W fs (fs_squashfs_stat_ino W payload h n null)"
  "h = Some fs \<Longrightarrow>
    history_free W fs (fs_squashfs_dir_open W payload h path :: ((('c, 'd) live, 'o) abi, dir_iter option) sm)"
  "h = Some fs \<Longrightarrow> history_free W fs (fs_squashfs_read_file W payload h path null offset len)"
  "h = Some fs \<Longrightarrow> history_free W fs (fs_squashfs_readlink W payload h path null sz)"
  "h = Some fs \<Longrightarrow> history_free W fs (fs_squashfs_listxattr W payload h path null sz)"
  "h = Some fs \<Longrightarrow> history_free W fs (fs_squashfs_getxattr W payload h path name null sz)"
  unfolding fs_squashfs_get_volume_info_def fs_squashfs_is_exportable_def fs_squashfs_stat_def
    fs_squashfs_stat_ino_def fs_squashfs_dir_open_def fs_squashfs_read_file_def
    fs_squashfs_readlink_def fs_squashfs_listxattr_def fs_squashfs_getxattr_def Let_def
  by (simp_all only: option.sel, (rule history_freeI,
      (intro agree_intros agree_change; auto simp: alike_def intro!: agree_intros agree_change split: option.split))+)

section \<open>The failure value and the error slot\<close>

abbreviation clean :: slot where "clean \<equiv> \<lparr>sl_msg = [], sl_errno = 0\<rparr>"

text \<open>What a mounted handle needs for its calls not to panic: a remembered file has its own block map.\<close>

definition tidy :: "('c, 'd) live \<Rightarrow> bool" where
  "tidy h \<longleftrightarrow> (\<forall>r. lv_last h = Some r \<longrightarrow> rs_offsets r = offsets_of (rs_inode r))"

definition quiet :: "(('c, 'd) live, 'o) abi \<Rightarrow> bool" where
  "quiet s \<longleftrightarrow> ab_slot s = clean \<and> tidy (ab_handle s)"

text \<open>\<open>reports failed m\<close>: started with a clean slot, \<open>m\<close> returns; what it returns is the failure
  value exactly when it has left an error in the slot, with a message and an errno.\<close>

definition told :: "'a \<Rightarrow> 'a \<Rightarrow> slot \<Rightarrow> bool" where
  "told failed v sl \<longleftrightarrow> (if v = failed then sl_msg sl \<noteq> [] \<and> 0 < sl_errno sl else sl = clean)"

definition reports :: "'a \<Rightarrow> ((('c, 'd) live, 'o) abi, 'a) sm \<Rightarrow> bool" where
  "reports failed m \<longleftrightarrow>
     (\<forall>s. quiet s \<longrightarrow> (\<exists>v t. m s = (Ok v, t) \<and> told failed v (ab_slot t) \<and> tidy (ab_handle t)))"

lemma told_set_err [simp]:
  "msg \<noteq> [] \<Longrightarrow> 0 < e \<Longrightarrow> told v v (ab_slot (set_err_msg msg e s))"
  "told v v (ab_slot (set_err_from err ctx s))"
  by (simp_all add: told_def set_err_msg_def set_err_from_def set_errno_def set_last_error_def
      to_errno_pos text_of_def)

lemma tidy_set_err [simp]:
  "ab_handle (set_err_msg msg e s) = ab_handle s"
  "ab_handle (set_err_from err ctx s) = ab_handle s"
  "ab_handle (clear_last_error s) = ab_handle s"
  by (simp_all add: set_err_msg_def set_err_from_def set_errno_def set_last_error_def clear_last_error_def)

lemma reports_reject: "msg \<noteq> [] \<Longrightarrow> 0 < e \<Longrightarrow> reports rc (reject msg e rc)"
  by (simp add: reports_def reject_def quiet_def)

lemma reports_refuse: "reports rc (refuse e ctx rc)"
  by (simp add: reports_def refuse_def quiet_def)

lemma reports_ret: "v \<noteq> failed \<Longrightarrow> reports failed (ret_s v)"
  by (simp add: reports_def ret_s_def quiet_def told_def)

lemma reports_if:
  "(b \<Longrightarrow> reports failed m) \<Longrightarrow> (\<not> b \<Longrightarrow> reports failed n) \<Longrightarrow> reports failed (if b then m else n)"
  by simp


lemma reports_change:
  "(\<And>s. ab_slot (g s) = ab_slot s \<and> ab_handle (g s) = ab_handle s) \<Longrightarrow> reports failed (f ()) \<Longrightarrow>
    reports failed (bind_s (change g) f)"
  by (simp add: reports_def bind_s_def change_def quiet_def)

lemma reports_try_or:
  assumes "triple quiet m Q" "\<And>v. Q v \<Longrightarrow> reports rc (k v)"
  shows "reports rc (try_or m ctx rc k)"
  unfolding reports_def
proof (intro allI impI)
  fix s :: "(('a, 'b) live, 'c) abi" assume q: "quiet s"
  obtain r t where m: "m s = (r, t)" by fastforce
  note t = tripleD(4,5) [OF assms(1) q m]
  show "\<exists>v u. try_or m ctx rc k s = (Ok v, u) \<and> told rc v (ab_slot u) \<and> tidy (ab_handle u)"
  proof (cases r)
    case (Inl f)
    with t(2) obtain e where "f = Err e" by (cases f) (auto simp: safe_def)
    with m Inl t(1) show ?thesis
      by (simp add: try_or_def attempt_def bind_s_def refuse_def quiet_def)
  next
    case (Inr v)
    with tripleD(3) [OF assms(1) q] m have "Q v" by blast
    with assms(2) t(1) m Inr show ?thesis
      by (simp add: try_or_def attempt_def bind_s_def reports_def)
  qed
qed

lemma reports_with_bytes:
  "p \<noteq> None \<Longrightarrow> (\<And>b. reports rc (k b)) \<Longrightarrow> reports rc (with_bytes p what rc k)"
  by (auto simp: reports_def with_bytes_def cstr_to_bytes_def)

lemma triple_quiet_on_fs:
  assumes "triple any m Q"
  shows "triple quiet (on_fs m) Q"
  unfolding triple_def
proof (intro allI impI)
  fix s :: "(('a, 'b) live, 'd) abi" assume q: "quiet s"
  obtain r c where m: "m (lv_caches (ab_handle s)) = (r, c)" by fastforce
  with tripleD [OF assms TrueI] q
  show "safe (fst (on_fs m s)) \<and> quiet (snd (on_fs m s)) \<and> (\<forall>v. fst (on_fs m s) = Ok v \<longrightarrow> Q v)"
    by (auto simp: on_fs_def quiet_def tidy_def)
qed

lemma triple_fill_attr: "triple quiet (fill_attr fs i) any"
  unfolding fill_attr_def resolve_uid_def resolve_gid_def resolve_id_def
  by (intro triple_bind [OF triple_lift [where Q = any]]) (auto simp: triple_def change_def quiet_def)

lemma triple_resolve:
  assumes "mounted fs"
  shows "triple quiet (resolve_for_read W fs path) (\<lambda>r. rs_offsets r = offsets_of (rs_inode r))"
  unfolding triple_def
proof (intro allI impI)
  fix s :: "(('a, 'b) live, 'c) abi" assume q: "quiet s"
  obtain r c where l: "lookup_path_bytes W fs path (lv_caches (ab_handle s)) = (r, c)" by fastforce
  have "safe r" using tripleD(1) [OF triple_lookup_path [OF assms] TrueI] l by (metis fst_conv)
  with l q show "safe (fst (resolve_for_read W fs path s)) \<and> quiet (snd (resolve_for_read W fs path s)) \<and>
    (\<forall>v. fst (resolve_for_read W fs path s) = Ok v \<longrightarrow> rs_offsets v = offsets_of (rs_inode v))"
    by (cases r) (auto simp: resolve_for_read_def bind_s_def on_fs_def change_def remember_def
        ret_s_def Let_def offsets_of_def quiet_def tidy_def safe_def split: option.split)
qed

lemma triple_read_into:
  assumes "mounted fs" "offsets = offsets_of i" "is_regular_file i"
  shows "triple quiet (read_into W fs i offsets offset n) any"
  unfolding triple_def
proof (intro allI impI)
  fix s :: "(('a, 'b) live, bytes) abi" assume q: "quiet s"
  obtain r c b where l:
    "read_file_with_offsets W fs i offsets offset (lv_caches (ab_handle s)) (take n (ab_out s)) = (r, c, b)"
    by (metis prod_cases3)
  have "0 < bsize fs" using assms(1) by (simp add: mounted_def bsize_def unat_gt_0)
  from safe_read_file [OF this, of W i offset "lv_caches (ab_handle s)" "take n (ab_out s)"] l assms(2,3)
  have "safe r" by (simp add: read_file_def offsets_of_def)
  with l q show "safe (fst (read_into W fs i offsets offset n s)) \<and>
    quiet (snd (read_into W fs i offsets offset n s)) \<and>
    (\<forall>v. fst (read_into W fs i offsets offset n s) = Ok v \<longrightarrow> True)"
    by (simp add: read_into_def quiet_def tidy_def)
qed

text \<open>An exported call is total: it returns, whatever the slot held.\<close>

definition answers_caller :: "'a \<Rightarrow> ((('c, 'd) live, 'o) abi, 'a) sm \<Rightarrow> bool" where
  "answers_caller failed call \<longleftrightarrow>
     (\<forall>s. tidy (ab_handle s) \<longrightarrow>
        (\<exists>v t. call s = (Ok v, t) \<and> told failed v (ab_slot t) \<and> tidy (ab_handle t)))"

lemma answers_callerI:
  assumes "\<not> b \<Longrightarrow> reports failed body"
  shows "answers_caller failed (ffi_guard payload failed (entering b what failed body))"
  unfolding answers_caller_def
proof (intro allI impI)
  fix s :: "(('b, 'c) live, 'd) abi" assume h: "tidy (ab_handle s)"
  show "\<exists>v t. ffi_guard payload failed (entering b what failed body) s = (Ok v, t) \<and>
    told failed v (ab_slot t) \<and> tidy (ab_handle t)"
  proof (cases b)
    case True
    with h show ?thesis
      by (simp add: ffi_guard_def entering_def bind_s_def change_def reject_if_null_def EINVAL_def text_of_def)
  next
    case False
    have "quiet (clear_last_error s)" using h by (simp add: quiet_def clear_last_error_def)
    with assms [OF False] obtain v t where "body (clear_last_error s) = (Ok v, t)"
      "told failed v (ab_slot t)" "tidy (ab_handle t)" by (auto simp: reports_def)
    with False show ?thesis
      by (simp add: ffi_guard_def entering_def bind_s_def change_def reject_if_null_def)
  qed
qed

lemmas quiet_triples =
  triple_bind [OF triple_quiet_on_fs [OF triple_lookup_path] triple_fill_attr]
  triple_bind [OF triple_quiet_on_fs [OF triple_by_number] triple_fill_attr]
  triple_quiet_on_fs [OF triple_lookup_path] triple_quiet_on_fs [OF triple_read_dir]
  triple_quiet_on_fs [OF triple_list_xattrs] triple_quiet_on_fs [OF triple_get_xattr]
  triple_resolve

lemmas report_rules = reports_if reports_with_bytes reports_try_or reports_change

lemma text_of_Cons [simp]: "text_of (c # cs) @ x \<noteq> []" "text_of (c # cs) \<noteq> []"
  by (simp_all add: text_of_def)

lemma answering_calls:
  assumes "mounted fs"
  shows "answers_caller (- 1) (fs_squashfs_stat W payload (Some fs) path null)"
    "answers_caller (- 1) (fs_squashfs_stat_ino W payload (Some fs) n null)"
    "answers_caller (- 1) (fs_squashfs_get_volume_info payload (Some fs) null)"
    "answers_caller (- 1) (fs_squashfs_is_exportable payload (Some fs) :: ((('c, 'd) live, 'o) abi, int) sm)"
  unfolding fs_squashfs_stat_def fs_squashfs_stat_ino_def fs_squashfs_get_volume_info_def
    fs_squashfs_is_exportable_def Let_def option.sel
  using assms by (auto intro!: answers_callerI report_rules quiet_triples reports_ret split: if_splits)

lemma answering_reads:
  assumes "mounted fs"
  shows "answers_caller (- 1) (fs_squashfs_read_file W payload (Some fs) path null offset len)"
  unfolding fs_squashfs_read_file_def Let_def option.sel
  using assms
  by (auto intro!: answers_callerI report_rules quiet_triples reports_ret reports_reject triple_read_into
      simp: EINVAL_def split del: if_split)

lemma out_only [simp]:
  "ab_slot (if b then s\<lparr>ab_out := x\<rparr> else s) = ab_slot s"
  "ab_handle (if b then s\<lparr>ab_out := x\<rparr> else s) = ab_handle s"
  by simp_all

lemma answering_lists:
  assumes "mounted fs"
  shows "answers_caller None (fs_squashfs_dir_open W payload (Some fs) path ::
      ((('c, 'd) live, 'o) abi, dir_iter option) sm)"
    "answers_caller (- 1) (fs_squashfs_readlink W payload (Some fs) path null sz)"
    "answers_caller (- 1) (fs_squashfs_listxattr W payload (Some fs) path null sz)"
    "answers_caller (- 1) (fs_squashfs_getxattr W payload (Some fs) path name null sz)"
  unfolding fs_squashfs_dir_open_def fs_squashfs_readlink_def fs_squashfs_listxattr_def
    fs_squashfs_getxattr_def Let_def option.sel
  using assms
  by (auto intro!: answers_callerI report_rules quiet_triples reports_ret reports_reject 
      simp: ENOTDIR_def EINVAL_def ERANGE_def ENOENT_def split: option.split split del: if_split)

section \<open>Mounting\<close>

text \<open>What a mount hands out: nothing, with the error in the slot, or a handle all calls may be made on.\<close>

definition mount_answer ::
  "('c, 'd) world \<Rightarrow> (filesystem \<times> ('c, 'd) live) option result \<times> ('h, 'o) abi \<Rightarrow> bool" where
  "mount_answer W a \<longleftrightarrow>
     (\<exists>v. fst a = Ok v \<and> told None v (ab_slot (snd a)) \<and>
        (\<forall>fs h. v = Some (fs, h) \<longrightarrow>
           mounted fs \<and> tidy h \<and> (lru_crate W \<longrightarrow> handle_ok W fs h)))"

lemma opened_caches_ok:
  assumes "open_with_cache W dev blocks = Ok (fs, c)" "lru_crate W"
  shows "caches_ok W fs c"
  using open_parts(7) [OF assms(1)] caches_ok_opened [OF assms(2)] by (simp add: opened_caches_def)

lemma mount_from_device_answer:
  assumes "ab_slot s = clean"
  shows "mount_answer W (mount_from_device W dev ctx s)"
proof (cases "open_image W dev")
  case (Inl f)
  have "safe (open_image W dev)" unfolding open_image_def by (rule safe_open)
  with Inl obtain e where "f = Err e" by (cases f) (auto simp: safe_def)
  with Inl show ?thesis
    by (simp add: mount_answer_def mount_from_device_def try_or_def attempt_def bind_s_def lift_s_def refuse_def)
next
  case (Inr p)
  obtain fs c where p: "p = (fs, c)" by fastforce
  from Inr p have o: "open_with_cache W dev DEFAULT_CACHE_BLOCKS = Ok (fs, c)" by (simp add: open_image_def)
  with Inr p assms open_mounted [OF o] opened_caches_ok [OF o] show ?thesis
    by (simp add: mount_answer_def mount_from_device_def try_or_def attempt_def bind_s_def lift_s_def
        ret_s_def told_def handle_new_def tidy_def handle_ok_def)
qed

lemma mount_answer_reject [simp]:
  "msg \<noteq> [] \<Longrightarrow> 0 < e \<Longrightarrow> mount_answer W (Ok None, set_err_msg msg e s)"
  by (simp add: mount_answer_def)

lemma mount_answer_guard:
  "mount_answer W (body s) \<Longrightarrow> mount_answer W (ffi_guard payload None body s)"
  by (cases "body s") (auto simp: mount_answer_def ffi_guard_def)

lemma slot_cleared [simp]: "ab_slot (clear_last_error s) = clean"
  by (simp add: clear_last_error_def)

lemma mount_answers:
  "mount_answer W (fs_squashfs_mount W payload debug_text host_open path s)"
  "mount_answer W (fs_squashfs_mount_with_callbacks W payload callback_device cfg s)"
  "mount_answer W (fs_squashfs_mount_with_fs_core_device W payload dev s)"
  unfolding fs_squashfs_mount_def fs_squashfs_mount_with_callbacks_def
    fs_squashfs_mount_with_fs_core_device_def entering_def
  by (rule mount_answer_guard,
      auto simp: bind_s_def change_def cstr_to_path_def reject_if_null_def reject_def EINVAL_def EIO_def Let_def
        intro!: mount_from_device_answer split: option.split sum.split prod.split)+

section \<open>Names through the ABI\<close>

text \<open>Calling \<open>dir_next\<close> until it gives NULL, at most \<open>n\<close> times.\<close>

fun drain :: "utf8 \<Rightarrow> nat \<Rightarrow> ('h, dir_iter) abi \<Rightarrow> dirent list result" where
  "drain payload 0 s = Ok []"
| "drain payload (Suc n) s =
     (case fs_squashfs_dir_next payload False s of
        (Inl e, _) \<Rightarrow> Inl e
      | (Inr None, _) \<Rightarrow> Ok []
      | (Inr (Some d), t) \<Rightarrow> and_then (drain payload n t) (\<lambda>ds. Ok (d # ds)))"

lemma dir_next_step:
  "fs_squashfs_dir_next payload False s =
    (if it_position (ab_out s) < length (it_entries (ab_out s)) then
       (Ok (Some (it_entries (ab_out s) ! it_position (ab_out s))),
        s\<lparr>ab_out := (ab_out s)\<lparr>it_current := it_entries (ab_out s) ! it_position (ab_out s),
                             it_position := it_position (ab_out s) + 1\<rparr>\<rparr>)
     else (Ok None, s))"
  by (simp add: fs_squashfs_dir_next_def ffi_guard_def Let_def index_def bind_s_def lift_s_def
      change_def ret_s_def)

lemma drain_entries:
  "length (it_entries (ab_out s)) - it_position (ab_out s) \<le> n \<Longrightarrow>
    drain payload n s = Ok (drop (it_position (ab_out s)) (it_entries (ab_out s)))"
proof (induction n arbitrary: s)
  case 0
  then show ?case by simp
next
  case (Suc n)
  show ?case
  proof (cases "it_position (ab_out s) < length (it_entries (ab_out s))")
    case True
    have "length (it_entries (ab_out s)) - Suc (it_position (ab_out s)) \<le> n" using Suc.prems by simp
    with True Suc.IH show ?thesis by (simp add: dir_next_step Cons_nth_drop_Suc)
  next
    case False
    then show ?thesis by (simp add: dir_next_step)
  qed
qed

text \<open>The entry a caller sees carries the name whole: as a C string, and with its length.\<close>

lemma takeWhile_nul: "0 \<notin> set name \<Longrightarrow> takeWhile (\<lambda>b. b \<noteq> 0) (name @ 0 # rest) = name"
  by (induction name) auto

lemma abi_name:
  assumes "name_ok (de_name e)"
  shows "c_string (dn_name (dir_entry_to_abi e)) = de_name e"
    "unat (dn_name_len (dir_entry_to_abi e)) = length (de_name e)"
    "length (dn_name (dir_entry_to_abi e)) = SQFS_NAME_CAP"
proof -
  have n: "length (de_name e) \<le> 256" "0 \<notin> set (de_name e)" using assms by (auto simp: name_ok_def)
  let ?pad = "replicate (256 - length (de_name e)) 0"
  have "dn_name (dir_entry_to_abi e) = de_name e @ 0 # ?pad"
    using n(1) by (simp add: dir_entry_to_abi_def Let_def SQFS_NAME_CAP_def SQUASHFS_NAME_LEN_def fill_slice_def)
  with n show "c_string (dn_name (dir_entry_to_abi e)) = de_name e"
    "length (dn_name (dir_entry_to_abi e)) = SQFS_NAME_CAP"
    by (simp_all add: c_string_def takeWhile_nul SQFS_NAME_CAP_def SQUASHFS_NAME_LEN_def)
  have "length (de_name e) < 2 ^ 16" using n(1) by simp
  with n(1) show "unat (dn_name_len (dir_entry_to_abi e)) = length (de_name e)"
    by (simp add: dir_entry_to_abi_def Let_def SQFS_NAME_CAP_def SQUASHFS_NAME_LEN_def
        unat_of_nat take_bit_nat_eq_self)
qed

text \<open>Once past the preamble and the path, a call runs its body on a clean slot.\<close>

definition at_body :: "('h, 'o) abi \<Rightarrow> ('h, 'o) abi" where
  "at_body s = s\<lparr>ab_slot := clean\<rparr>"

lemma at_body_simps [simp]:
  "ab_slot (at_body s) = clean" "ab_handle (at_body s) = ab_handle s" "ab_out (at_body s) = ab_out s"
  "clear_last_error s = at_body s"
  by (simp_all add: at_body_def clear_last_error_def)

lemma entered:
  "\<not> b \<Longrightarrow> body (at_body s) = (Ok v, t) \<Longrightarrow> ffi_guard payload failed (entering b what failed body) s = (Ok v, t)"
  by (simp add: ffi_guard_def entering_def bind_s_def change_def reject_if_null_def)

lemma try_or_run:
  "try_or m ctx rc k s =
    (case m s of
       (Inl (Err e), t) \<Rightarrow> refuse e ctx rc t
     | (Inl f, t) \<Rightarrow> (Inl f, t)
     | (Inr v, t) \<Rightarrow> k v t)"
  by (auto simp: try_or_def attempt_def bind_s_def split: prod.split sum.split fault.split)

lemma with_bytes_Some [simp]: "with_bytes (Some m) what rc k s = k (c_string m) s"
  by (simp add: with_bytes_def cstr_to_bytes_def)

lemma on_fs_resolves:
  assumes "resolves W fs path i" "handle_ok W fs (ab_handle s)"
  shows "\<exists>c. on_fs (lookup_path_bytes W fs path) s = (Ok i, s\<lparr>ab_handle := (ab_handle s)\<lparr>lv_caches := c\<rparr>\<rparr>) \<and>
    caches_ok W fs c"
proof -
  have c: "caches_ok W fs (lv_caches (ab_handle s))" using assms(2) by (simp add: handle_ok_def)
  obtain r d where l: "lookup_path_bytes W fs path (lv_caches (ab_handle s)) = (r, d)" by fastforce
  with assms(1) c lookup_keeps [OF c, of path] have "r = Ok i" "caches_ok W fs d"
    by (auto simp: resolves_def)
  with l show ?thesis by (auto simp: on_fs_def)
qed

lemma resolve_resolves:
  assumes "resolves W fs path i" "handle_ok W fs (ab_handle s)"
  shows "\<exists>t. resolve_for_read W fs path s =
      (Ok \<lparr>rs_path = path, rs_inode = i, rs_offsets = offsets_of i\<rparr>, t) \<and>
    ab_slot t = ab_slot s \<and> ab_out t = ab_out s \<and> handle_ok W fs (ab_handle t)"
  using resolve_ok [OF assms(2), of path] assms by (auto simp: fresh_resolution_def resolves_def handle_ok_def)

section \<open>Reading a file\<close>

lemma read_into_stored:
  assumes "file_stored W fs i data" "handle_ok W fs (ab_handle s)" "n \<le> length (ab_out s)"
  shows "\<exists>t. read_into W fs i (offsets_of i) offset n s = (Ok (min n (length data - unat offset)), t) \<and>
    ab_out t = take n (drop (unat offset) data) @ drop (min n (length data - unat offset)) (ab_out s) \<and>
    handle_ok W fs (ab_handle t) \<and> ab_slot t = ab_slot s"
proof -
  have c: "caches_ok W fs (lv_caches (ab_handle s))" using assms(2) by (simp add: handle_ok_def)
  have "is_regular_file i" using assms(1) by (simp add: file_stored_def)
  then have off: "offsets_of i = block_offsets i" by (simp add: offsets_of_def)
  let ?m = "length data - unat offset"
  from read_file_stored [OF assms(1) c, of offset "take n (ab_out s)"] assms(3) obtain c' where r:
    "read_file_with_offsets W fs i (block_offsets i) offset (lv_caches (ab_handle s)) (take n (ab_out s)) =
      (Ok (min n ?m), c', take n (drop (unat offset) data) @ drop ?m (take n (ab_out s)))"
    "caches_ok W fs c'"
    by (auto simp: read_file_def min_absorb2)
  have "drop ?m (take n (ab_out s)) @ drop n (ab_out s) = drop (min n ?m) (ab_out s)"
  proof (cases "n \<le> ?m")
    case True
    then show ?thesis by simp
  next
    case False
    then have "drop ?m (take n (ab_out s) @ drop n (ab_out s)) = drop ?m (take n (ab_out s)) @ drop n (ab_out s)"
      using assms(3) by (simp only: drop_append) simp
    with False show ?thesis by simp
  qed
  with r assms(2) off show ?thesis by (simp add: read_into_def handle_ok_def)
qed

lemma abi_read_stored:
  assumes "file_stored W fs i data" "resolves W fs (c_string p) i" "handle_ok W fs (ab_handle s)"
    and "min (unat len) (length data) \<le> length (ab_out s)"
  shows "\<exists>t. fs_squashfs_read_file W payload (Some fs) (Some p) False offset len s =
      (Ok (int (min (unat len) (length data - unat offset))), t) \<and>
    ab_out t = take (unat len) (drop (unat offset) data) @
      drop (min (unat len) (length data - unat offset)) (ab_out s) \<and>
    ab_slot t = clean \<and> handle_ok W fs (ab_handle t)"
proof -
  have reg: "is_regular_file i" "length data = unat (in_file_size i)"
    using assms(1) by (auto simp: file_stored_def)
  let ?n = "unat (min len (in_file_size i))"
  have n: "?n = min (unat len) (length data)"
    by (simp add: reg(2) min_def word_le_nat_alt)
  from resolve_resolves [OF assms(2), of "at_body s"] assms(3) obtain t where t:
    "resolve_for_read W fs (c_string p) (at_body s) =
      (Ok \<lparr>rs_path = c_string p, rs_inode = i, rs_offsets = offsets_of i\<rparr>, t)"
    "ab_slot t = clean" "ab_out t = ab_out s" "handle_ok W fs (ab_handle t)" by auto
  from read_into_stored [OF assms(1) t(4), of ?n offset] t assms(4) obtain u where u:
    "read_into W fs i (offsets_of i) offset ?n t = (Ok (min ?n (length data - unat offset)), u)"
    "ab_out u = take ?n (drop (unat offset) data) @ drop (min ?n (length data - unat offset)) (ab_out s)"
    "handle_ok W fs (ab_handle u)" "ab_slot u = clean" by (auto simp: n)
  have e: "min ?n (length data - unat offset) = min (unat len) (length data - unat offset)"
    "take ?n (drop (unat offset) data) = take (unat len) (drop (unat offset) data)"
    unfolding n by (simp add: min.assoc min_absorb2, simp add: min_def)
  show ?thesis
    unfolding fs_squashfs_read_file_def
    by (rule exI [of _ u], intro conjI, rule entered)
      (simp_all add: try_or_run t(1) u(1) reg(1) ret_s_def u(2-4) e Let_def)
qed

section \<open>Links and attributes\<close>

lemma abi_readlink:
  assumes "resolves W fs (c_string p) i" "handle_ok W fs (ab_handle s)" "is_symlink i"
    and "length (in_symlink_target i) < 2 ^ 31"
  shows "\<exists>v t. fs_squashfs_readlink W payload (Some fs) (Some p) False bufsize s = (Ok v, t) \<and>
    (if length (in_symlink_target i) < bufsize
     then v = int (length (in_symlink_target i)) \<and>
       ab_out t = in_symlink_target i @ [0] @
         drop (length (in_symlink_target i) + 1) (ab_out s) \<and> ab_slot t = clean
     else v = - 1 \<and> ab_out t = ab_out s \<and> sl_errno (ab_slot t) = ERANGE)"
proof -
  from on_fs_resolves [OF assms(1), of "at_body s"] assms(2) obtain c where
    o: "on_fs (lookup_path_bytes W fs (c_string p)) (at_body s) =
      (Ok i, (at_body s)\<lparr>ab_handle := (ab_handle s)\<lparr>lv_caches := c\<rparr>\<rparr>)" by auto
  show ?thesis
  proof (cases "length (in_symlink_target i) < bufsize")
    case True
    then show ?thesis
      unfolding fs_squashfs_readlink_def
      using assms(3,4)
      by (intro exI conjI, intro entered)
        (simp add: try_or_run o Let_def bind_s_def change_def ret_s_def)+
  next
    case False
    then show ?thesis
      unfolding fs_squashfs_readlink_def
      using assms(3,4)
      by (intro exI conjI, intro entered)
        (simp add: try_or_run o Let_def reject_def set_err_msg_def set_errno_def set_last_error_def)+
  qed
qed

text \<open>The names of a listing as the caller's buffer holds them.\<close>

definition name_list :: "xattr_entry list \<Rightarrow> bytes" where
  "name_list es = concat (map (\<lambda>e. xe_name e @ [0]) es)"

lemma name_list_simps [simp]:
  "name_list [] = []" "name_list (e # es) = xe_name e @ 0 # name_list es"
  by (simp_all add: name_list_def)

lemma length_name_list: "length (name_list es) = sum_list (map (\<lambda>e. length (xe_name e) + 1) es)"
  by (induction es) simp_all

text \<open>\<open>whole n k es\<close>: the first \<open>k\<close> names, and no more, fit a buffer of \<open>n\<close> bytes.\<close>

definition whole :: "nat \<Rightarrow> nat \<Rightarrow> xattr_entry list \<Rightarrow> bool" where
  "whole n k es \<longleftrightarrow>
     k \<le> length es \<and> length (name_list (take k es)) \<le> n \<and>
     (k < length es \<longrightarrow> n < length (name_list (take (Suc k) es)))"

lemma write_names_whole:
  "pos \<le> bufsize \<Longrightarrow> bufsize \<le> length out \<Longrightarrow>
    \<exists>k. whole (bufsize - pos) k es \<and>
      write_names bufsize pos es out =
        take pos out @ name_list (take k es) @ drop (pos + length (name_list (take k es))) out"
proof (induction es arbitrary: pos out)
  case Nil
  then show ?case by (intro exI [of _ 0]) (simp add: whole_def)
next
  case (Cons e es)
  let ?need = "length (xe_name e) + 1"
  show ?case
  proof (cases "bufsize < pos + ?need")
    case True
    with Cons.prems show ?thesis
      by (intro exI [of _ 0]) (auto simp: whole_def)
  next
    case False
    let ?out = "take pos out @ xe_name e @ [0] @ drop (pos + ?need) out"
    have len: "pos + ?need \<le> bufsize" "bufsize \<le> length ?out" "length ?out = length out"
      using False Cons.prems by auto
    from Cons.IH [OF len(1,2)] obtain k where k: "whole (bufsize - (pos + ?need)) k es"
      "write_names bufsize (pos + ?need) es ?out =
        take (pos + ?need) ?out @ name_list (take k es) @
        drop (pos + ?need + length (name_list (take k es))) ?out" by blast
    have t: "take (pos + ?need) ?out = take pos out @ xe_name e @ [0]"
      using len Cons.prems by simp
    have d: "drop (pos + ?need + m) ?out = drop (pos + ?need + m) out" for m
      using len Cons.prems by (simp add: ac_simps)
    have p: "pos \<le> length out" using Cons.prems by simp
    have "whole (bufsize - pos) (Suc k) (e # es)"
      using k(1) len(1) by (auto simp: whole_def)
    moreover have "write_names bufsize pos (e # es) out =
        take pos out @ name_list (take (Suc k) (e # es)) @
        drop (pos + length (name_list (take (Suc k) (e # es)))) out"
      using False k(2) [unfolded t d] by (simp add: Let_def add.assoc)
    ultimately show ?thesis by blast
  qed
qed

lemma on_fs_xattrs:
  assumes "fst (list_xattrs W fs i (lv_caches (ab_handle s))) = Ok es"
  shows "\<exists>c. on_fs (list_xattrs W fs i) s = (Ok es, s\<lparr>ab_handle := (ab_handle s)\<lparr>lv_caches := c\<rparr>\<rparr>)"
  using assms by (cases "list_xattrs W fs i (lv_caches (ab_handle s))") (auto simp: on_fs_def)

text \<open>A file whose attributes are the set \<open>es\<close>, through whatever true caches.\<close>

definition has_set :: "('c, 'd) world \<Rightarrow> filesystem \<Rightarrow> inode \<Rightarrow> xattr_entry list \<Rightarrow> bool" where
  "has_set W fs i es \<longleftrightarrow> (\<forall>c. caches_ok W fs c \<longrightarrow> fst (list_xattrs W fs i c) = Ok es)"

lemma abi_listxattr:
  assumes "resolves W fs (c_string p) i" "has_set W fs i es" "handle_ok W fs (ab_handle s)"
    and "bufsize \<le> length (ab_out s)"
  shows "\<exists>t k. fs_squashfs_listxattr W payload (Some fs) (Some p) False bufsize s =
      (Ok (int (length (name_list es))), t) \<and> whole bufsize k es \<and>
    ab_out t = name_list (take k es) @ drop (length (name_list (take k es))) (ab_out s)"
proof -
  from on_fs_resolves [OF assms(1), of "at_body s"] assms(3) obtain c where
    o: "on_fs (lookup_path_bytes W fs (c_string p)) (at_body s) =
      (Ok i, (at_body s)\<lparr>ab_handle := (ab_handle s)\<lparr>lv_caches := c\<rparr>\<rparr>)" "caches_ok W fs c" by auto
  let ?s = "(at_body s)\<lparr>ab_handle := (ab_handle s)\<lparr>lv_caches := c\<rparr>\<rparr>"
  from on_fs_xattrs [of W fs i ?s es] assms(2) o(2) obtain d where
    x: "on_fs (list_xattrs W fs i) ?s = (Ok es, ?s\<lparr>ab_handle := (ab_handle ?s)\<lparr>lv_caches := d\<rparr>\<rparr>)"
    by (auto simp: has_set_def)
  from write_names_whole [of 0 bufsize "ab_out s" es] assms(4) obtain k where
    k: "whole bufsize k es"
      "write_names bufsize 0 es (ab_out s) = name_list (take k es) @ drop (length (name_list (take k es))) (ab_out s)"
    by auto
  moreover have "bufsize = 0 \<Longrightarrow> name_list (take k es) = []" using k(1) by (simp add: whole_def)
  moreover have "bufsize = 0 \<Longrightarrow> (\<Sum>e\<leftarrow>take k es. Suc (length (xe_name e))) = 0"
    using k(1) length_name_list [of "take k es"] by (simp add: whole_def)
  ultimately show ?thesis
    unfolding fs_squashfs_listxattr_def
    by (intro exI conjI, intro entered)
      ((simp add: try_or_run o(1) x Let_def bind_s_def change_def ret_s_def length_name_list)+, auto)
qed

lemma abi_getxattr:
  assumes "resolves W fs (c_string p) i" "has_set W fs i es" "handle_ok W fs (ab_handle s)"
  shows "\<exists>v t. fs_squashfs_getxattr W payload (Some fs) (Some p) (Some q) False bufsize s = (Ok v, t) \<and>
    (case find (\<lambda>e. xe_name e = c_string q) es of
       None \<Rightarrow> v = - 1 \<and> ab_out t = ab_out s \<and> sl_errno (ab_slot t) = ENOENT
     | Some e \<Rightarrow> v = int (length (xe_value e)) \<and> ab_slot t = clean \<and>
         ab_out t = fill_slice (ab_out s) (take bufsize (xe_value e)))"
proof -
  from on_fs_resolves [OF assms(1), of "at_body s"] assms(3) obtain c where
    o: "on_fs (lookup_path_bytes W fs (c_string p)) (at_body s) =
      (Ok i, (at_body s)\<lparr>ab_handle := (ab_handle s)\<lparr>lv_caches := c\<rparr>\<rparr>)" "caches_ok W fs c" by auto
  let ?s = "(at_body s)\<lparr>ab_handle := (ab_handle s)\<lparr>lv_caches := c\<rparr>\<rparr>"
  let ?v = "map_option xe_value (find (\<lambda>e. xe_name e = c_string q) es)"
  obtain r d where "list_xattrs W fs i c = (r, d)" by fastforce
  with assms(2) o(2) have l: "list_xattrs W fs i c = (Ok es, d)" by (auto simp: has_set_def)
  then have x: "on_fs (get_xattr W fs i (c_string q)) ?s = (Ok ?v, ?s\<lparr>ab_handle := (ab_handle ?s)\<lparr>lv_caches := d\<rparr>\<rparr>)"
    by (simp add: on_fs_def get_xattr_def bind_s_def ret_s_def)
  show ?thesis
  proof (cases "find (\<lambda>e. xe_name e = c_string q) es")
    case None
    with x show ?thesis
      unfolding fs_squashfs_getxattr_def
      by (intro exI conjI, intro entered)
        (simp add: try_or_run o(1)
          reject_def set_err_msg_def set_errno_def set_last_error_def)+
  next
    case (Some e)
    with x show ?thesis
      unfolding fs_squashfs_getxattr_def
      by (intro exI conjI, intro entered)
        (simp add: try_or_run o(1)
          bind_s_def change_def ret_s_def fill_slice_def min_def)+
  qed
qed

section \<open>Properties\<close>

text \<open>The small image through the ABI.\<close>

abbreviation a_path :: bytes where "a_path \<equiv> [0x2F, 0x61, 0]"

abbreviation sample_state :: "'o \<Rightarrow>
    ((nat \<times> (u64 \<times> cached_block) list, nat \<times> (data_key \<times> bytes) list) live, 'o) abi" where
  "sample_state out \<equiv>
     \<lparr>ab_slot = \<lparr>sl_msg = [0x21], sl_errno = 5\<rparr>, ab_handle = handle_new fresh_caches, ab_out = out\<rparr>"

lemma fresh_handle_ok: "caches_ok W fs c \<Longrightarrow> handle_ok W fs (handle_new c)"
  by (simp add: handle_ok_def handle_new_def)

lemma sample_handle_ok: "handle_ok sample_world sample_fs (handle_new fresh_caches)"
  by (rule fresh_handle_ok [OF sample_caches_ok])

text \<open>An image whose root is a symbolic link with one attribute: two metadata blocks.\<close>

definition link_body :: stored_body where "link_body = Ext_symlink 1 [0x62, 0x63] 0"

definition link_image :: bytes where
  "link_image = stored_block False (inode_bytes root_header link_body) @
     stored_block False (pair_bytes sample_xattr)"

definition link_fs :: filesystem where
  "link_fs = sample_fs
     \<lparr>fs_dev := mem_device link_image, fs_sb := image_superblock\<lparr>sb_inode_table_start := 0\<rparr>,
      fs_xattr_ids := Some \<lparr>xt_table_start = 32, xt_ids = [\<lparr>xi_ref = 0, xi_count = 1, xi_size = 9\<rparr>]\<rparr>\<rparr>"

abbreviation link_node :: inode where "link_node \<equiv> inode_of root_header link_body"

lemma link_env: "env sample_world link_fs = plain_env link_image"
  by (simp add: link_fs_def meta_env_on_def sample_world_def plain_env_def)

lemma link_fs_simps [simp]:
  "fs_sb link_fs = image_superblock\<lparr>sb_inode_table_start := 0\<rparr>"
  "fs_xattr_ids link_fs = Some \<lparr>xt_table_start = 32, xt_ids = [\<lparr>xi_ref = 0, xi_count = 1, xi_size = 9\<rparr>]\<rparr>"
  by (simp_all add: link_fs_def)

lemma length_link_inode: "length (inode_bytes root_header link_body) = 30"
  by (simp add: inode_bytes_def header_bytes_def link_body_def)

lemma link_caches_ok: "caches_ok sample_world link_fs fresh_caches"
proof -
  have "w_data_lru sample_world = list_lru" by (simp add: sample_world_def)
  then show ?thesis
    using mc_sound_new [of "plain_env link_image" "fs_sb link_fs" 256]
    by (simp add: caches_ok_def link_env memo_sound_def dc_new_holds list_lru_contract plain_env_def)
qed

lemma link_resolves: "resolves sample_world link_fs [0x2F] link_node"
proof -
  have "fst (read_inode sample_world link_fs 0 c) = Ok link_node"
    if c: "caches_ok sample_world link_fs c" for c
  proof -
    have "metadata_at (plain_env link_image) (fs_sb link_fs) None 0 0
        (inode_bytes root_header link_body @ [])"
      by (rule plain_metadata_at [where rest = "stored_block False (pair_bytes sample_xattr)"])
        (simp_all add: link_image_def length_link_inode METADATA_SIZE_def flip: length_greater_0_conv)
    then have "fst (inode_read (plain_env link_image) (fs_sb link_fs) 0 (Some (ca_meta c))) = Ok link_node"
      by (intro inode_read_layout [where rest = "[]"])
        (use c in \<open>simp_all add: caches_ok_def link_env link_body_def from_packed_def start_abs_def
          saturating_add_def\<close>)
    then show ?thesis by (simp add: read_inode_def fst_on_meta link_env)
  qed
  then show ?thesis
    by (auto simp: resolves_def lookup_path_bytes_def root_inode_def image_superblock_def
        components_def bind_s_def ret_s_def split: prod.split sum.split)
      (metis fst_conv sum.distinct(1) sum.inject(2))+
qed

lemma link_attributes: "has_set sample_world link_fs link_node [entry_of sample_xattr]"
proof -
  have "fst (read_set (plain_env link_image) (fs_sb link_fs)
      \<lparr>xt_table_start = 32, xt_ids = [\<lparr>xi_ref = 0, xi_count = 1, xi_size = 9\<rparr>]\<rparr> 0 (Some (ca_meta c))) =
      Ok (map entry_of [sample_xattr])"
    if c: "caches_ok sample_world link_fs c" for c
  proof -
    have "metadata_at (plain_env link_image) (fs_sb link_fs) None 32 0 (pair_bytes sample_xattr @ [])"
      by (rule plain_metadata_at [where rest = "[]"])
        (simp_all add: link_image_def length_link_inode METADATA_SIZE_def pair_bytes_def sample_xattr_def)
    with c show ?thesis
      by (intro read_set_layout [where xid = "\<lparr>xi_ref = 0, xi_count = 1, xi_size = 9\<rparr>" and rest = "[]"])
        (simp_all add: pair_ok_def entry_of_def sample_xattr_def PREFIXES_def caches_ok_def link_env
          MAX_NAME_LEN_def MAX_VALUE_LEN_def MAX_XATTRS_PER_INODE_def set_size_def from_packed_def
          start_abs_def saturating_add_def)
  qed
  moreover have "has_xattrs link_node" "in_xattr_index link_node = 0"
    by (simp_all add: has_xattrs_def SQUASHFS_INVALID_XATTR_def inode_of_def link_body_def headed_def)
  ultimately show ?thesis
    by (simp add: has_set_def list_xattrs_def fst_on_meta link_env)
qed

text \<open>C13. A call on a mounted handle answers what a call on a fresh one would: neither what earlier
  calls left in the caches, nor the path remembered from the last read, nor the error slot as the
  call finds it changes what it returns, what it writes, or what it reports; and it leaves the
  handle true.\<close>

theorem abi_history_free:
  "history_free W fs (fs_squashfs_get_volume_info payload (Some fs) null) \<and>
   history_free W fs (fs_squashfs_is_exportable payload (Some fs) :: ((('c, 'd) live, 'o) abi, int) sm) \<and>
   history_free W fs (fs_squashfs_stat W payload (Some fs) path null) \<and>
   history_free W fs (fs_squashfs_stat_ino W payload (Some fs) n null) \<and>
   history_free W fs
     (fs_squashfs_dir_open W payload (Some fs) path :: ((('c, 'd) live, 'o) abi, dir_iter option) sm) \<and>
   history_free W fs (fs_squashfs_read_file W payload (Some fs) path null offset len) \<and>
   history_free W fs (fs_squashfs_readlink W payload (Some fs) path null sz) \<and>
   history_free W fs (fs_squashfs_listxattr W payload (Some fs) path null sz) \<and>
   history_free W fs (fs_squashfs_getxattr W payload (Some fs) path name null sz)"
  by (intro conjI history_free_calls refl)

text \<open>C12. A call on a handle that opening gave returns, and returns its failure value exactly when it
  leaves a message and an errno in the error slot; otherwise it leaves the slot clear, whatever the
  slot held before and whatever NULLs it was passed.\<close>

theorem abi_calls_report:
  assumes "open_with_cache W dev blocks = Ok (fs, c0)"
  shows "answers_caller (- 1) (fs_squashfs_get_volume_info payload (Some fs) null) \<and>
    answers_caller (- 1)
      (fs_squashfs_is_exportable payload (Some fs) :: ((('c, 'd) live, 'o) abi, int) sm) \<and>
    answers_caller (- 1) (fs_squashfs_stat W payload (Some fs) path null) \<and>
    answers_caller (- 1) (fs_squashfs_stat_ino W payload (Some fs) n null) \<and>
    answers_caller None
      (fs_squashfs_dir_open W payload (Some fs) path :: ((('c, 'd) live, 'o) abi, dir_iter option) sm) \<and>
    answers_caller (- 1) (fs_squashfs_read_file W payload (Some fs) path null offset len) \<and>
    answers_caller (- 1) (fs_squashfs_readlink W payload (Some fs) path null sz) \<and>
    answers_caller (- 1) (fs_squashfs_listxattr W payload (Some fs) path null sz) \<and>
    answers_caller (- 1) (fs_squashfs_getxattr W payload (Some fs) path name null sz)"
  by (intro conjI answering_calls answering_reads answering_lists open_mounted [OF assms])

lemma abi_calls_report_witness:
  "\<exists>v t. fs_squashfs_stat sample_world [] (Some sample_fs) (Some [0x2F, 0x62, 0]) False
      (sample_state undefined) = (Ok v, t) \<and> told (- 1) v (ab_slot t)"
proof -
  have "answers_caller (- 1)
      (fs_squashfs_stat sample_world [] (Some sample_fs) (Some [0x2F, 0x62, 0]) False)"
    using abi_calls_report [OF sample_open, where payload = "[]" and path = "Some [0x2F, 0x62, 0]"
        and null = False, THEN conjunct2, THEN conjunct2, THEN conjunct1] .
  from this [unfolded answers_caller_def, rule_format, of "sample_state undefined"] show ?thesis
    by (auto simp: tidy_def handle_new_def)
qed

text \<open>C16. Mounting, by path, by callback or on a device, returns in every case: NULL with an error in the
  slot, or a handle whose image is well formed and whose caches are true, on which every call is
  answered, and then the slot is clear.\<close>

theorem mounting_answers:
  "mount_answer W (fs_squashfs_mount W payload debug_text host_open path s) \<and>
   mount_answer W (fs_squashfs_mount_with_callbacks W payload callback_device cfg s) \<and>
   mount_answer W (fs_squashfs_mount_with_fs_core_device W payload dev s)"
  by (intro conjI mount_answers)

text \<open>C14. \<open>fs_squashfs_read_file\<close> on the path of a stored file gives the caller exactly the file's bytes
  in the range, says how many, writes nothing else of the buffer, and reports no error, whether the
  path is the one read last or not.\<close>

theorem abi_read_exact:
  assumes "file_stored W fs i data" "resolves W fs (c_string p) i" "handle_ok W fs (ab_handle s)"
    and "min (unat len) (length data) \<le> length (ab_out s)"
  shows "\<exists>t. fs_squashfs_read_file W payload (Some fs) (Some p) False offset len s =
      (Ok (int (min (unat len) (length data - unat offset))), t) \<and>
    ab_out t = take (unat len) (drop (unat offset) data) @
      drop (min (unat len) (length data - unat offset)) (ab_out s) \<and>
    ab_slot t = clean \<and> handle_ok W fs (ab_handle t)"
  using assms by (rule abi_read_stored)

lemma abi_read_exact_witness:
  "\<exists>t. fs_squashfs_read_file sample_world [] (Some sample_fs) (Some a_path) False 1 9
      (sample_state [0, 0, 0, 0, 0]) = (Ok 3, t) \<and> ab_out t = [2, 3, 4, 0, 0]"
  using abi_read_exact [OF sample_file_stored, of a_path "sample_state [0, 0, 0, 0, 0]" 9 "[]" 1]
    sample_a sample_handle_ok by (auto simp: c_string_def)

text \<open>C23. \<open>fs_squashfs_readlink\<close> writes a link's target and its NUL, or nothing: a buffer one byte short
  gets the range error and stays as it was.\<close>

theorem readlink_all_or_nothing:
  assumes "resolves W fs (c_string p) i" "handle_ok W fs (ab_handle s)" "is_symlink i"
    and "length (in_symlink_target i) < 2 ^ 31"
  shows "\<exists>v t. fs_squashfs_readlink W payload (Some fs) (Some p) False bufsize s = (Ok v, t) \<and>
    (if length (in_symlink_target i) < bufsize
     then v = int (length (in_symlink_target i)) \<and>
       ab_out t = in_symlink_target i @ [0] @
         drop (length (in_symlink_target i) + 1) (ab_out s) \<and> ab_slot t = clean
     else v = - 1 \<and> ab_out t = ab_out s \<and> sl_errno (ab_slot t) = ERANGE)"
  using assms by (rule abi_readlink)

lemma readlink_all_or_nothing_witness:
  "\<exists>v t. fs_squashfs_readlink sample_world [] (Some link_fs) (Some [0x2F, 0]) False 3
      (sample_state [9, 9, 9, 9]) = (Ok v, t) \<and> v = 2 \<and> ab_out t = [0x62, 0x63, 0, 9]"
proof -
  have "is_symlink link_node" "in_symlink_target link_node = [0x62, 0x63]"
    by (simp_all add: is_symlink_def file_type_of_def inode_of_def link_body_def headed_def
        from_type_id_def type_ids)
  with readlink_all_or_nothing [of sample_world link_fs "[0x2F, 0]" link_node
      "sample_state [9, 9, 9, 9]" "[]" 3] link_resolves fresh_handle_ok [OF link_caches_ok]
  show ?thesis by (auto simp: c_string_def)
qed

text \<open>C17. \<open>fs_squashfs_listxattr\<close> returns what all the names need, whatever the buffer, and writes the
  longest prefix of the list that fits, each name whole with its NUL; \<open>fs_squashfs_getxattr\<close> tells an
  attribute that is empty (0) from one that is not set (-1 and ENOENT).\<close>

theorem xattr_calls_exact:
  assumes "resolves W fs (c_string p) i" "has_set W fs i es" "handle_ok W fs (ab_handle s)"
    and "bufsize \<le> length (ab_out s)"
  shows "(\<exists>t k. fs_squashfs_listxattr W payload (Some fs) (Some p) False bufsize s =
        (Ok (int (length (name_list es))), t) \<and> whole bufsize k es \<and>
      ab_out t = name_list (take k es) @ drop (length (name_list (take k es))) (ab_out s)) \<and>
    (\<exists>v t. fs_squashfs_getxattr W payload (Some fs) (Some p) (Some q) False bufsize s = (Ok v, t) \<and>
      (case find (\<lambda>e. xe_name e = c_string q) es of
         None \<Rightarrow> v = - 1 \<and> ab_out t = ab_out s \<and> sl_errno (ab_slot t) = ENOENT
       | Some e \<Rightarrow> v = int (length (xe_value e)) \<and> ab_slot t = clean \<and>
           ab_out t = fill_slice (ab_out s) (take bufsize (xe_value e))))"
  using abi_listxattr [OF assms] abi_getxattr [OF assms(1-3)] by blast

lemma xattr_calls_exact_witness:
  "\<exists>v t. fs_squashfs_getxattr sample_world [] (Some link_fs) (Some [0x2F, 0])
      (Some [0x75, 0x73, 0x65, 0x72, 0x2E, 0x61, 0]) False 4 (sample_state [9, 9, 9, 9]) = (Ok v, t) \<and>
    v = 2 \<and> ab_out t = [1, 2, 9, 9]"
proof -
  have "resolves sample_world link_fs (c_string [0x2F, 0]) link_node"
    using link_resolves by (simp add: c_string_def)
  from xattr_calls_exact [OF this link_attributes, of "sample_state [9, 9, 9, 9]" 4 "[]"
      "[0x75, 0x73, 0x65, 0x72, 0x2E, 0x61, 0]"] fresh_handle_ok [OF link_caches_ok]
  show ?thesis
    by (auto simp: c_string_def entry_of_def sample_xattr_def PREFIXES_def fill_slice_def)
qed

end
