(* ===== verification/Tree_Calls.thy ===== *)
theory Tree_Calls
  imports Tree Capi_Calls
begin

text \<open>
  A stored tree through the C ABI of \<open>src/capi.rs\<close>: each exported call that takes a path answers what
  the tree says of the path, and refuses what the tree has not with the errno the tree gives.
\<close>

text \<open>A call refused: its failure value, the errno, a message, and the caller's memory as it was.\<close>

definition declines :: "'a \<Rightarrow> int \<Rightarrow> (('h, 'o) abi, 'a) sm \<Rightarrow> ('h, 'o) abi \<Rightarrow> bool" where
  "declines failed e call s \<longleftrightarrow>
     (\<exists>t. call s = (Ok failed, t) \<and> sl_errno (ab_slot t) = e \<and> sl_msg (ab_slot t) \<noteq> [] \<and>
        ab_out t = ab_out s)"

lemma set_err_out [simp]:
  "ab_out (set_err_msg msg e s) = ab_out s" "ab_out (set_err_from err ctx s) = ab_out s"
  "sl_errno (ab_slot (set_err_msg msg e s)) = e"
  "sl_errno (ab_slot (set_err_from err ctx s)) = to_errno err"
  "sl_msg (ab_slot (set_err_from err ctx s)) \<noteq> []"
  "msg \<noteq> [] \<Longrightarrow> sl_msg (ab_slot (set_err_msg msg e s)) \<noteq> []"
  by (simp_all add: set_err_msg_def set_err_from_def set_errno_def set_last_error_def text_of_def)

lemma declines_entered:
  "\<not> b \<Longrightarrow> declines failed e body (at_body s) \<Longrightarrow>
    declines failed e (ffi_guard payload failed (entering b what failed body)) s"
  unfolding declines_def using entered by fastforce

text \<open>A path that the tree does not have.\<close>

lemma on_fs_fails:
  assumes "gives W fs m (Fail e)" "handle_ok W fs (ab_handle s)"
  shows "\<exists>t. on_fs m s = (Fail e, t) \<and> ab_out t = ab_out s \<and> ab_slot t = ab_slot s"
  using assms by (auto simp: gives_def on_fs_def handle_ok_def)

lemma resolve_fails:
  assumes "gives W fs (lookup_path_bytes W fs p) (Fail e)" "handle_ok W fs (ab_handle s)"
  shows "\<exists>t. resolve_for_read W fs p s = (Fail e, t) \<and> ab_out t = ab_out s \<and> ab_slot t = ab_slot s"
  using resolve_ok [OF assms(2), of p] givesD [OF assms(1), of "lv_caches (ab_handle s)"] assms(2)
  by (auto simp: fresh_resolution_def handle_ok_def)

lemma try_or_declines:
  "m s = (Fail e, t) \<Longrightarrow> ab_out t = ab_out s \<Longrightarrow> declines rc (to_errno e) (try_or m ctx rc k) s"
  by (simp add: declines_def try_or_run refuse_def)

lemma missing_path:
  assumes "gives W fs (lookup_path_bytes W fs (c_string p)) (Fail e)" "handle_ok W fs (ab_handle s)"
  shows "declines (- 1) (to_errno e) (fs_squashfs_read_file W payload (Some fs) (Some p) False offset len) s"
    "declines (- 1) (to_errno e) (fs_squashfs_readlink W payload (Some fs) (Some p) False bufsize) s"
proof -
  from resolve_fails [OF assms(1), of "at_body s"] assms(2)
  show "declines (- 1) (to_errno e) (fs_squashfs_read_file W payload (Some fs) (Some p) False offset len) s"
    unfolding fs_squashfs_read_file_def
    by (intro declines_entered) (auto simp: declines_def try_or_run refuse_def)
  from on_fs_fails [OF assms(1), of "at_body s"] assms(2)
  show "declines (- 1) (to_errno e) (fs_squashfs_readlink W payload (Some fs) (Some p) False bufsize) s"
    unfolding fs_squashfs_readlink_def
    by (intro declines_entered) (auto simp: declines_def try_or_run refuse_def)
qed

lemma missing_path_attr:
  assumes "gives W fs (lookup_path_bytes W fs (c_string p)) (Fail e)" "handle_ok W fs (ab_handle s)"
  shows "declines (- 1) (to_errno e) (fs_squashfs_stat W payload (Some fs) (Some p) False) s"
  using on_fs_fails [OF assms(1), of "at_body s"] assms(2)
  unfolding fs_squashfs_stat_def
  by (intro declines_entered) (auto simp: declines_def try_or_run refuse_def bind_s_def)

lemma missing_path_dir:
  assumes "gives W fs (lookup_path_bytes W fs (c_string p)) (Fail e)" "handle_ok W fs (ab_handle s)"
  shows "declines None (to_errno e) (fs_squashfs_dir_open W payload (Some fs) (Some p)) s"
  using on_fs_fails [OF assms(1), of "at_body s"] assms(2)
  unfolding fs_squashfs_dir_open_def
  by (intro declines_entered) (auto simp: declines_def try_or_run refuse_def)

text \<open>A node of another kind.\<close>

lemma wrong_kind:
  assumes "resolves W fs (c_string p) i" "handle_ok W fs (ab_handle s)"
  shows "\<not> is_regular_file i \<Longrightarrow>
      declines (- 1) EINVAL (fs_squashfs_read_file W payload (Some fs) (Some p) False offset len) s"
    "\<not> is_symlink i \<Longrightarrow>
      declines (- 1) EINVAL (fs_squashfs_readlink W payload (Some fs) (Some p) False bufsize) s"
proof -
  show "declines (- 1) EINVAL (fs_squashfs_read_file W payload (Some fs) (Some p) False offset len) s"
    if "\<not> is_regular_file i"
    using resolve_resolves [OF assms(1), of "at_body s"] assms(2) that
    unfolding fs_squashfs_read_file_def
    by (intro declines_entered) (auto simp: declines_def try_or_run reject_def Let_def text_of_def)
  show "declines (- 1) EINVAL (fs_squashfs_readlink W payload (Some fs) (Some p) False bufsize) s"
    if "\<not> is_symlink i"
    using on_fs_resolves [OF assms(1), of "at_body s"] assms(2) that
    unfolding fs_squashfs_readlink_def
    by (intro declines_entered) (auto simp: declines_def try_or_run reject_def text_of_def)
qed

lemma not_a_directory:
  assumes "resolves W fs (c_string p) i" "handle_ok W fs (ab_handle s)" "\<not> is_dir i"
  shows "declines None ENOTDIR (fs_squashfs_dir_open W payload (Some fs) (Some p)) s"
  using on_fs_resolves [OF assms(1), of "at_body s"] assms(2,3)
  unfolding fs_squashfs_dir_open_def
  by (intro declines_entered) (auto simp: declines_def try_or_run reject_def text_of_def)

text \<open>A directory: the iterator gives its names, once and in order, and then NULL.\<close>

definition iterates :: "dir_iter \<Rightarrow> bytes list \<Rightarrow> bool" where
  "iterates it names \<longleftrightarrow>
     (\<forall>payload (x :: (unit, dir_iter) abi). ab_out x = it \<longrightarrow>
        (\<exists>ds. drain payload (Suc (length names)) x = Ok ds \<and>
           map (\<lambda>d. c_string (dn_name d)) ds = names))"

lemma opened_iterates:
  assumes "names_ok es"
  shows "iterates \<lparr>it_entries = map dir_entry_to_abi es, it_position = 0, it_current = c\<rparr> (map de_name es)"
  unfolding iterates_def
proof (intro allI impI)
  fix payload and x :: "(unit, dir_iter) abi"
  assume x: "ab_out x = \<lparr>it_entries = map dir_entry_to_abi es, it_position = 0, it_current = c\<rparr>"
  have "drain payload (Suc (length (map de_name es))) x = Ok (map dir_entry_to_abi es)"
    using drain_entries [of x "Suc (length es)"] x by simp
  moreover have "map (\<lambda>d. c_string (dn_name d)) (map dir_entry_to_abi es) = map de_name es"
    using assms abi_name(1) by (simp add: names_ok_def)
  ultimately show "\<exists>ds. drain payload (Suc (length (map de_name es))) x = Ok ds \<and>
      map (\<lambda>d. c_string (dn_name d)) ds = map de_name es" by blast
qed

lemma dir_opens:
  assumes "resolves W fs (c_string p) i" "handle_ok W fs (ab_handle s)"
    and "is_dir i" "gives W fs (read_dir W fs i) (Ok es)"
  shows "\<exists>t. fs_squashfs_dir_open W payload (Some fs) (Some p) s =
      (Ok (Some \<lparr>it_entries = map dir_entry_to_abi es, it_position = 0, it_current = zeroed_dirent\<rparr>), t) \<and>
    ab_slot t = clean \<and> ab_out t = ab_out s \<and> names_ok es"
proof -
  from on_fs_resolves [OF assms(1), of "at_body s"] assms(2) obtain c where
    o: "on_fs (lookup_path_bytes W fs (c_string p)) (at_body s) =
      (Ok i, (at_body s)\<lparr>ab_handle := (ab_handle s)\<lparr>lv_caches := c\<rparr>\<rparr>)" "caches_ok W fs c" by auto
  from assms(4) o(2) obtain d where d: "read_dir W fs i c = (Ok es, d)" by (auto simp: gives_def)
  then have n: "names_ok es" using tripleD(3) [OF triple_read_dir TrueI d] by simp
  let ?it = "\<lparr>it_entries = map dir_entry_to_abi es, it_position = 0, it_current = zeroed_dirent\<rparr>"
  let ?t = "(at_body s)\<lparr>ab_handle := (ab_handle s)\<lparr>lv_caches := d\<rparr>\<rparr>"
  have "fs_squashfs_dir_open W payload (Some fs) (Some p) s = (Ok (Some ?it), ?t)"
    unfolding fs_squashfs_dir_open_def
    by (rule entered)
      (use o(1) d assms(3) in \<open>simp_all add: try_or_run on_fs_def ret_s_def\<close>)
  with n show ?thesis by (intro exI [of _ ?t]) simp
qed

text \<open>What reading, reading a link and opening a directory answer for the node of the tree.\<close>

definition read_presents ::
  "('c, 'd) world \<Rightarrow> filesystem \<Rightarrow> utf8 \<Rightarrow> bytes \<Rightarrow> u64 \<Rightarrow> u64 \<Rightarrow> tree \<Rightarrow> (('c, 'd) live, bytes) abi \<Rightarrow> bool" where
  "read_presents W fs payload p offset len u s \<longleftrightarrow>
     (let call = fs_squashfs_read_file W payload (Some fs) (Some p) False offset len in
      case u of
        File i data \<Rightarrow>
          min (unat len) (length data) \<le> length (ab_out s) \<longrightarrow>
          (let n = min (unat len) (length data - unat offset) in
           \<exists>t. call s = (Ok (int n), t) \<and> ab_slot t = clean \<and>
             ab_out t = take (unat len) (drop (unat offset) data) @ drop n (ab_out s))
      | _ \<Rightarrow> declines (- 1) EINVAL call s)"

definition link_presents ::
  "('c, 'd) world \<Rightarrow> filesystem \<Rightarrow> utf8 \<Rightarrow> bytes \<Rightarrow> nat \<Rightarrow> tree \<Rightarrow> (('c, 'd) live, bytes) abi \<Rightarrow> bool" where
  "link_presents W fs payload p bufsize u s \<longleftrightarrow>
     (let call = fs_squashfs_readlink W payload (Some fs) (Some p) False bufsize in
      case u of
        Link i target \<Rightarrow>
          length target < 2 ^ 31 \<longrightarrow>
          (if length target < bufsize then
             (\<exists>t. call s = (Ok (int (length target)), t) \<and> ab_slot t = clean \<and>
               ab_out t = target @ [0] @ drop (length target + 1) (ab_out s))
           else declines (- 1) ERANGE call s)
      | _ \<Rightarrow> declines (- 1) EINVAL call s)"

definition dir_presents ::
  "('c, 'd) world \<Rightarrow> filesystem \<Rightarrow> utf8 \<Rightarrow> bytes \<Rightarrow> tree \<Rightarrow> (('c, 'd) live, 'o) abi \<Rightarrow> bool" where
  "dir_presents W fs payload p u s \<longleftrightarrow>
     (let call = fs_squashfs_dir_open W payload (Some fs) (Some p) in
      case u of
        Folder i kids \<Rightarrow>
          (\<exists>it t. call s = (Ok (Some it), t) \<and> iterates it (map fst kids) \<and> ab_slot t = clean)
      | _ \<Rightarrow> declines None ENOTDIR call s)"

text \<open>The attributes of a node, with its owners looked up in the image's id table.\<close>

definition node_attr :: "filesystem \<Rightarrow> inode \<Rightarrow> attr result" where
  "node_attr fs i =
     and_then (resolve_uid fs (in_uid_idx i)) (\<lambda>uid.
     and_then (resolve_gid fs (in_gid_idx i)) (\<lambda>gid.
       Ok \<lparr>at_inode = in_number i, at_mode = in_permissions i AND 0xFFF, at_uid = uid, at_gid = gid,
           at_size = in_file_size i, at_mtime = in_mtime i, at_link_count = in_nlink i,
           at_file_type = ucast (to_abi (file_type_of i)), at_rdev = in_rdev i\<rparr>))"

definition stat_presents ::
  "('c, 'd) world \<Rightarrow> filesystem \<Rightarrow> utf8 \<Rightarrow> bytes \<Rightarrow> tree \<Rightarrow> (('c, 'd) live, attr) abi \<Rightarrow> bool" where
  "stat_presents W fs payload p u s \<longleftrightarrow>
     (let call = fs_squashfs_stat W payload (Some fs) (Some p) False in
      case node_attr fs (node u) of
        Inl f \<Rightarrow> \<exists>e. f = Err e \<and> declines (- 1) (to_errno e) call s
      | Inr a \<Rightarrow> \<exists>t. call s = (Ok 0, t) \<and> ab_slot t = clean \<and> ab_out t = a)"

lemma fill_attr_run:
  "fill_attr fs i s = (case node_attr fs i of Inl f \<Rightarrow> (Inl f, s) | Inr a \<Rightarrow> (Ok (), s\<lparr>ab_out := a\<rparr>))"
  by (cases "resolve_uid fs (in_uid_idx i)"; cases "resolve_gid fs (in_gid_idx i)")
    (simp_all add: fill_attr_def node_attr_def bind_s_def lift_s_def change_def)

lemma node_attr_error: "node_attr fs i = Inl f \<Longrightarrow> \<exists>e. f = Err e"
  by (cases "get (fs_id_table fs) (unat (in_uid_idx i))"; cases "get (fs_id_table fs) (unat (in_gid_idx i))")
    (auto simp: node_attr_def resolve_uid_def resolve_gid_def resolve_id_def)

lemma abi_presents_stat:
  assumes "resolves W fs (c_string p) (node u)" "handle_ok W fs (ab_handle s)"
  shows "stat_presents W fs payload p u s"
proof -
  from on_fs_resolves [OF assms(1), of "at_body s"] assms(2) obtain c where
    o: "on_fs (lookup_path_bytes W fs (c_string p)) (at_body s) =
      (Ok (node u), (at_body s)\<lparr>ab_handle := (ab_handle s)\<lparr>lv_caches := c\<rparr>\<rparr>)" by auto
  show ?thesis
  proof (cases "node_attr fs (node u)")
    case (Inl f)
    then obtain e where "f = Err e" using node_attr_error by blast
    with Inl o have "declines (- 1) (to_errno e) (fs_squashfs_stat W payload (Some fs) (Some p) False) s"
      unfolding fs_squashfs_stat_def
      by (intro declines_entered)
        (simp_all add: declines_def try_or_run refuse_def bind_s_def fill_attr_run)
    with Inl \<open>f = Err e\<close> show ?thesis by (simp add: stat_presents_def)
  next
    case (Inr a)
    with o show ?thesis
      unfolding stat_presents_def fs_squashfs_stat_def
      by (simp, intro exI conjI, intro entered)
        (simp add: try_or_run bind_s_def fill_attr_run ret_s_def)+
  qed
qed

lemma abi_readlink_declines:
  assumes "resolves W fs (c_string p) i" "handle_ok W fs (ab_handle s)" "is_symlink i"
    and "length (in_symlink_target i) < 2 ^ 31" "\<not> length (in_symlink_target i) < bufsize"
  shows "declines (- 1) ERANGE (fs_squashfs_readlink W payload (Some fs) (Some p) False bufsize) s"
  using on_fs_resolves [OF assms(1), of "at_body s"] assms(2-)
  unfolding fs_squashfs_readlink_def
  by (intro declines_entered)
    (auto simp: declines_def try_or_run reject_def Let_def text_of_def)

lemma abi_presents_read:
  assumes "tree_stored W fs u" "resolves W fs (c_string p) (node u)" "handle_ok W fs (ab_handle s)"
  shows "read_presents W fs payload p offset len u s"
proof (cases "\<exists>i data. u = File i data")
  case True
  then obtain i data where u: "u = File i data" by blast
  with assms(1) have "file_stored W fs i data" by (auto elim: tree_stored_cases)
  from abi_read_stored [OF this _ assms(3), of p len payload offset] assms(2) u show ?thesis
    by (auto simp: read_presents_def Let_def)
next
  case False
  with assms(1) have "\<not> is_regular_file (node u)"
    by (cases u) (auto dest: leaf_types one_type elim: tree_stored_cases)
  from wrong_kind(1) [OF assms(2,3) this] False show ?thesis
    by (cases u) (auto simp: read_presents_def)
qed

lemma abi_presents_link:
  assumes "tree_stored W fs u" "resolves W fs (c_string p) (node u)" "handle_ok W fs (ab_handle s)"
  shows "link_presents W fs payload p bufsize u s"
proof (cases "\<exists>i target. u = Link i target")
  case True
  then obtain i target where u: "u = Link i target" by blast
  with assms(1) have "is_symlink i" "in_symlink_target i = target" by (auto elim: tree_stored_cases)
  with abi_readlink [of W fs p i s payload bufsize] abi_readlink_declines [of W fs p i s bufsize payload]
    assms(2,3) u show ?thesis
    by (auto simp: link_presents_def Let_def)
next
  case False
  with assms(1) have "\<not> is_symlink (node u)"
    by (cases u) (auto dest: leaf_types one_type elim: tree_stored_cases)
  from wrong_kind(2) [OF assms(2,3) this] False show ?thesis
    by (cases u) (auto simp: link_presents_def)
qed

lemma abi_presents_dir:
  assumes "tree_stored W fs u" "resolves W fs (c_string p) (node u)" "handle_ok W fs (ab_handle s)"
  shows "dir_presents W fs payload p u s"
proof (cases "\<exists>i kids. u = Folder i kids")
  case True
  then obtain i kids where u: "u = Folder i kids" by blast
  from assms(1) [unfolded u] obtain es where
    es: "is_dir i" "listing_stored W fs i es" "list_all2 (stands_for W fs) es kids"
    by (rule folder_parts)
  have "map de_name es = map fst kids"
    using es(3) by (induction es kids rule: list_all2_induct) (auto simp: stands_for_def)
  with dir_opens [OF _ assms(3) es(1) gives_read_dir [OF es(1,2)], of p payload] opened_iterates [of es] assms(2) u
  show ?thesis by (auto simp: dir_presents_def)
next
  case False
  with stored_is_dir [OF assms(1)] have "\<not> is_dir (node u)" by blast
  from not_a_directory [OF assms(2,3) this] False show ?thesis
    by (cases u) (auto simp: dir_presents_def)
qed

section \<open>Names through the ABI and back\<close>

text \<open>A record handed out for an entry of a listing: the entry's number, type and whole name, which the
  directory's path, a slash and the record's name bring back: they resolve to the inode of the first
  entry of the listing that has the name.\<close>

definition handed_out ::
  "('c, 'd) world \<Rightarrow> filesystem \<Rightarrow> bytes \<Rightarrow> dir_entry list \<Rightarrow> dir_entry \<Rightarrow> dirent \<Rightarrow> bool" where
  "handed_out W fs p es e d \<longleftrightarrow>
     dn_inode d = de_inode_number e \<and> dn_file_type d = to_abi (from_type_id (de_type_id e)) \<and>
     length (dn_name d) = SQFS_NAME_CAP \<and> unat (dn_name_len d) = length (de_name e) \<and>
     c_string (dn_name d) = de_name e \<and>
     (\<exists>e'. find (\<lambda>x. de_name x = de_name e) es = Some e' \<and> (\<forall>c. caches_ok W fs c \<longrightarrow>
       fst (lookup_path_bytes W fs (p @ 0x2F # c_string (dn_name d)) c) =
         fst (read_inode W fs (de_inode_ref e') c)))"

lemma entries_handed_out:
  assumes "resolves W fs p i" "is_dir i" "gives W fs (read_dir W fs i) (Ok es)" "caches_ok W fs c"
  shows "list_all2 (handed_out W fs p es) es (map dir_entry_to_abi es)"
proof -
  obtain c' where "read_dir W fs i c = (Ok es, c')" using assms(3,4) by (auto simp: gives_def)
  then have "names_ok es" using tripleD(3) [OF triple_read_dir TrueI] by blast
  then have n: "name_ok (de_name e)" if "e \<in> set es" for e using that by (simp add: names_ok_def)
  have "handed_out W fs p es e (dir_entry_to_abi e)" if "e \<in> set es" for e
    using lookup_first [OF assms(1,4) givesD [OF assms(3,4)] that] abi_name [OF n [OF that]]
    by (simp add: handed_out_def) (simp add: dir_entry_to_abi_def Let_def)
  then show ?thesis by (simp add: list_all2_conv_all_nth)
qed

section \<open>Properties\<close>

text \<open>C4. The C ABI on an image that holds a tree is that tree: a path that the tree has not is declined by
  every call with the errno of the tree's error, a message, and the caller's memory untouched; at a
  node, \<open>read_file\<close> gives a file's bytes in the range, \<open>readlink\<close> a link's target, \<open>dir_open\<close> an
  iterator over a directory's names and then NULL, \<open>stat\<close> the attributes; and each declines a node of
  another kind.\<close>

theorem abi_presents_tree:
  assumes "image_holds W fs t" "handle_ok W fs (ab_handle s)" "handle_ok W fs (ab_handle x)"
    and "handle_ok W fs (ab_handle y)"
  shows "case descend t (components (c_string p)) of
      Inl f \<Rightarrow> \<exists>e \<in> {NotFound, NotADirectory}. f = Err e \<and>
        declines (- 1) (to_errno e)
          (fs_squashfs_read_file W payload (Some fs) (Some p) False offset len) s \<and>
        declines (- 1) (to_errno e)
          (fs_squashfs_readlink W payload (Some fs) (Some p) False bufsize) s \<and>
        declines None (to_errno e) (fs_squashfs_dir_open W payload (Some fs) (Some p)) x \<and>
        declines (- 1) (to_errno e) (fs_squashfs_stat W payload (Some fs) (Some p) False) y
    | Inr u \<Rightarrow> read_presents W fs payload p offset len u s \<and>
        link_presents W fs payload p bufsize u s \<and> dir_presents W fs payload p u x \<and>
        stat_presents W fs payload p u y"
proof (cases "descend t (components (c_string p))")
  case (Inl f)
  then obtain e where e: "e \<in> {NotFound, NotADirectory}" "f = Err e" using descend_errors by blast
  with holds_fails [OF assms(1) Inl] missing_path [OF _ assms(2)] missing_path_dir [OF _ assms(3)]
    missing_path_attr [OF _ assms(4)]
  show ?thesis unfolding Inl by (auto intro!: bexI [of _ e])
next
  case (Inr u)
  have st: "tree_stored W fs u"
    using assms(1) descend_stored [OF _ Inr, of W fs] by (simp add: image_holds_def)
  from abi_presents_read [OF st _ assms(2)] abi_presents_link [OF st _ assms(2)]
    abi_presents_dir [OF st _ assms(3)]
    abi_presents_stat [OF _ assms(4)] holds_resolves [OF assms(1) Inr]
  show ?thesis by (simp add: Inr)
qed

lemma abi_presents_tree_witness:
  "read_presents sample_world sample_fs [] a_path 1 9 (File a_node [1, 2, 3, 4]) (sample_state [0, 0, 0, 0, 0]) \<and>
   declines (- 1) ENOENT (fs_squashfs_readlink sample_world [] (Some sample_fs) (Some [0x62, 0]) False 3)
     (sample_state [9])"
proof -
  note p = abi_presents_tree [OF sample_holds, where payload = "[]" and offset = 1 and len = 9 and
      bufsize = 3 and x = "sample_state ()" and y = "sample_state undefined"]
  from p [of "sample_state [0, 0, 0, 0, 0]" a_path] p [of "sample_state [9]" "[0x62, 0]"] sample_handle_ok
  show ?thesis by (simp add: c_string_def components_def)
qed

text \<open>C15. Listing a stored directory through the ABI: opening it succeeds with the slot clear, and
  iterating it to the NULL that ends it gives one record per entry, in the listing's order, each with
  the entry's number, type and whole name, whatever bytes the name is made of; and a name handed out
  is accepted back: the directory's path, a slash and the name resolve to the inode of the first entry
  of that name.\<close>

theorem abi_listing_round_trip:
  assumes "resolves W fs (c_string p) i" "is_dir i" "listing_stored W fs i es"
    and "handle_ok W fs (ab_handle s)"
  shows "\<exists>it t. fs_squashfs_dir_open W payload (Some fs) (Some p) s = (Ok (Some it), t) \<and>
    ab_slot t = clean \<and> ab_out t = ab_out s \<and>
    (\<forall>x :: ('h, dir_iter) abi. ab_out x = it \<longrightarrow>
      (\<exists>ds. drain payload' (Suc (length es)) x = Ok ds \<and>
        list_all2 (handed_out W fs (c_string p) es) es ds))"
proof -
  note rd = gives_read_dir [OF assms(2,3)]
  have c: "caches_ok W fs (lv_caches (ab_handle s))" using assms(4) by (simp add: handle_ok_def)
  have "drain payload' (Suc (length es)) x = Ok (map dir_entry_to_abi es)"
    if "ab_out x = \<lparr>it_entries = map dir_entry_to_abi es, it_position = 0, it_current = zeroed_dirent\<rparr>"
    for x :: "('h, dir_iter) abi"
    using drain_entries [of x "Suc (length es)"] that by simp
  with dir_opens [OF assms(1,4,2) rd] entries_handed_out [OF assms(1,2) rd c] show ?thesis by blast
qed

lemma abi_listing_round_trip_witness:
  "\<exists>it t. fs_squashfs_dir_open sample_world [] (Some sample_fs) (Some [0x2F, 0]) (sample_state ()) =
      (Ok (Some it), t) \<and>
    (\<forall>x :: (unit, dir_iter) abi. ab_out x = it \<longrightarrow>
      (\<exists>d. drain [] 2 x = Ok [d] \<and> dn_inode d = 2 \<and> c_string (dn_name d) = [0x61]))"
proof -
  have "tree_stored sample_world sample_fs sample_tree" using sample_holds by (simp add: image_holds_def)
  then obtain es where es: "listing_stored sample_world sample_fs root_node es"
    by (blast elim: folder_parts)
  have "es = [a_entry]"
    using givesD [OF gives_read_dir [OF root_is_dir es] sample_caches_ok] root_listing [OF sample_caches_ok] by simp
  moreover have "resolves sample_world sample_fs (c_string [0x2F, 0]) root_node"
    using sample_root by (simp add: c_string_def)
  ultimately show ?thesis
    using abi_listing_round_trip [of sample_world sample_fs "[0x2F, 0]" root_node "[a_entry]" "sample_state ()" "[]"]
      root_is_dir es sample_handle_ok
    by (fastforce simp: list_all2_Cons1 handed_out_def numeral_2_eq_2)
qed

end
