(* ===== verification/Cli.thy ===== *)
theory Cli
  imports Mount Utf8 "HOL-Library.List_Lexorder"
begin

text \<open>
  The command line's verbs, \<open>src/cli/squashfs/fs.rs\<close>.  What \<open>fs_core::cli\<close> and the host supply is the
  record \<open>tool\<close>; its errors, reports and JSON values are the terms the source builds them with.  A verb
  is a step of \<open>proc\<close>: the caches of the image, standard output and the local files.
\<close>

section \<open>What the shared tool and the host supply\<close>

datatype json = Null | Bool bool | Num int | Str utf8 | Arr "json list" | Obj "(utf8 \<times> json) list"

text \<open>\<open>Json::from\<close> of an option.\<close>

definition json_option :: "json option \<Rightarrow> json" where
  "json_option x = (case x of None \<Rightarrow> Null | Some v \<Rightarrow> v)"

datatype cli_error = Failed utf8 | Not_found utf8 | Refused utf8 | Usage utf8 | Bound_reached string u64 utf8

datatype outcome = Report json "utf8 option" | Finished

text \<open>\<open>Json::get\<close>, \<open>Json::to_text\<close>, the renderer, \<open>{:?}\<close>, \<open>FileDevice::open\<close> and \<open>OwnedSlice::new\<close>; then
  which calls on a sink or a file fail: a write says how much it wrote before it failed.\<close>

record tool =
  tl_get :: "json \<Rightarrow> utf8 \<Rightarrow> json option"
  tl_text :: "json \<Rightarrow> utf8"
  tl_render :: "outcome \<Rightarrow> utf8"
  tl_debug :: "utf8 \<Rightarrow> utf8"
  tl_open :: "bytes \<Rightarrow> utf8 + device"
  tl_slice :: "device \<Rightarrow> u64 \<Rightarrow> u64 \<Rightarrow> device"
  tl_write :: "bytes \<Rightarrow> bytes \<Rightarrow> (nat \<times> utf8) option"
  tl_flush :: "bytes \<Rightarrow> utf8 option"
  tl_create :: "bytes \<Rightarrow> utf8 option"
  tl_rename :: "bytes \<Rightarrow> bytes \<Rightarrow> utf8 option"
  tl_remove :: "bytes \<Rightarrow> bool"

record ('c, 'd) proc =
  pr_caches :: "('c, 'd) caches"
  pr_stdout :: bytes
  pr_files :: "bytes \<rightharpoonup> bytes"

section \<open>Results with the tool's errors\<close>

type_synonym ('s, 'a) cli = "('s, cli_error + 'a) sm"

definition ok_cli :: "'a \<Rightarrow> ('s, 'a) cli" where "ok_cli v = ret_s (Inr v)"
definition err_cli :: "cli_error \<Rightarrow> ('s, 'a) cli" where "err_cli e = ret_s (Inl e)"

definition bind_c :: "('s, 'a) cli \<Rightarrow> ('a \<Rightarrow> ('s, 'b) cli) \<Rightarrow> ('s, 'b) cli" where
  "bind_c m k = bind_s m (\<lambda>r. case r of Inl e \<Rightarrow> err_cli e | Inr v \<Rightarrow> k v)"

definition show_bytes :: "bytes \<Rightarrow> utf8" where
  "show_bytes b = lossy b"

definition squashfs_error :: "bytes \<Rightarrow> error \<Rightarrow> cli_error" where
  "squashfs_error what e =
     (let message = show_bytes what @ text_of '': '' @ text_of (display_error e) in
      case e of NotFound \<Rightarrow> Not_found message | _ \<Rightarrow> Failed message)"

text \<open>\<open>m.map_err(|e| squashfs_error(what, e))\<close>\<close>

definition within :: "bytes \<Rightarrow> ('s, 'a) sm \<Rightarrow> ('s, 'a) cli" where
  "within what m =
     bind_s (attempt m) (\<lambda>r. case r of Inl e \<Rightarrow> err_cli (squashfs_error what e) | Inr v \<Rightarrow> ok_cli v)"

definition on_caches :: "(('c, 'd) caches, 'a) sm \<Rightarrow> (('c, 'd) proc, 'a) sm" where
  "on_caches m s = (case m (pr_caches s) of (r, c) \<Rightarrow> (r, s\<lparr>pr_caches := c\<rparr>))"

section \<open>Text\<close>

fun type_name :: "file_type \<Rightarrow> string" where
  "type_name RegFile = ''file''"
| "type_name Dir = ''dir''"
| "type_name Symlink = ''symlink''"
| "type_name CharDev = ''char''"
| "type_name BlockDev = ''block''"
| "type_name Fifo = ''fifo''"
| "type_name Socket = ''socket''"
| "type_name Unknown = ''unknown''"

definition type_char :: "utf8 \<Rightarrow> utf8" where
  "type_char t =
     (if t = text_of ''file'' then text_of ''-''
      else if t = text_of ''dir'' then text_of ''d''
      else if t = text_of ''symlink'' then text_of ''l''
      else if t = text_of ''char'' then text_of ''c''
      else if t = text_of ''block'' then text_of ''b''
      else if t = text_of ''fifo'' then text_of ''p''
      else if t = text_of ''socket'' then text_of ''s''
      else text_of ''?'')"

definition hex_digit :: "nat \<Rightarrow> u8" where
  "hex_digit d = of_nat (if d < 10 then 48 + d else 87 + d)"

text \<open>\<open>{b:02x}\<close>, over all the bytes.\<close>

definition hex :: "bytes \<Rightarrow> utf8" where
  "hex bs = concat (map (\<lambda>b. [hex_digit (unat b div 16), hex_digit (unat b mod 16)]) bs)"

fun oct_digits :: "nat \<Rightarrow> utf8" where
  "oct_digits n = (if n < 8 then [of_nat (48 + n)] else oct_digits (n div 8) @ [of_nat (48 + n mod 8)])"

declare oct_digits.simps [simp del]

text \<open>\<open>{:04o}\<close>\<close>

definition octal4 :: "nat \<Rightarrow> utf8" where
  "octal4 n = replicate (4 - length (oct_digits n)) 48 @ oct_digits n"

text \<open>\<open>{:>12}\<close>: padding counts characters, that is bytes that do not continue one.\<close>

definition pad_left12 :: "utf8 \<Rightarrow> utf8" where
  "pad_left12 t = replicate (12 - length (filter (\<lambda>b. \<not> continuation b) t)) 0x20 @ t"

fun join_lines :: "utf8 list \<Rightarrow> utf8" where
  "join_lines [] = []"
| "join_lines [l] = l"
| "join_lines (l # ls) = l @ 0x0A # join_lines ls"

text \<open>The last component a path names, and a child's path.\<close>

definition last_name :: "bytes \<Rightarrow> bytes" where
  "last_name path = (case find (\<lambda>s. s \<noteq> []) (rev (split_slash path)) of None \<Rightarrow> path | Some s \<Rightarrow> s)"

definition child_path :: "bytes \<Rightarrow> bytes \<Rightarrow> bytes" where
  "child_path parent name =
     (if parent \<noteq> [] \<and> last parent = 0x2F then parent else parent @ [0x2F]) @ name"

section \<open>Entries\<close>

text \<open>A byte string under a key, with its exact bytes beside it when it is not UTF-8.\<close>

definition named :: "string \<Rightarrow> bytes \<Rightarrow> (utf8 \<times> json) list" where
  "named key b =
     (text_of key, Str (show_bytes b)) #
     (if is_utf8 b then [] else [(text_of (key @ ''_hex''), Str (hex b))])"

definition kind_fields :: "inode \<Rightarrow> (utf8 \<times> json) list" where
  "kind_fields i =
     (case file_type_of i of
        Symlink \<Rightarrow> [(text_of ''target'', Str (show_bytes (in_symlink_target i)))]
      | CharDev \<Rightarrow> [(text_of ''major'', Num (uint (rdev_major i))), (text_of ''minor'', Num (uint (rdev_minor i)))]
      | BlockDev \<Rightarrow> [(text_of ''major'', Num (uint (rdev_major i))), (text_of ''minor'', Num (uint (rdev_minor i)))]
      | _ \<Rightarrow> [])"

definition mode_json :: "inode \<Rightarrow> json" where
  "mode_json i = Str (octal4 (unat (in_permissions i AND 0xFFF)))"

definition entry_fields :: "bytes \<Rightarrow> inode \<Rightarrow> (utf8 \<times> json) list" where
  "entry_fields name i =
     named ''name'' name @
     [(text_of ''type'', Str (text_of (type_name (file_type_of i)))),
      (text_of ''size'', Num (uint (in_file_size i))),
      (text_of ''mode'', mode_json i),
      (text_of ''mtime'', Num (uint (in_mtime i))),
      (text_of ''inode'', Num (uint (in_number i)))] @
     kind_fields i"

definition entry :: "bytes \<Rightarrow> inode \<Rightarrow> json" where
  "entry name i = Obj (entry_fields name i)"

definition entry_text :: "tool \<Rightarrow> json \<Rightarrow> utf8" where
  "entry_text T e =
     (let field = (\<lambda>k. case tl_get T e (text_of k) of None \<Rightarrow> [] | Some v \<Rightarrow> tl_text T v) in
      type_char (field ''type'') @ field ''mode'' @ [0x20] @ pad_left12 (field ''size'') @ [0x20] @
      (case tl_get T e (text_of ''path'') of None \<Rightarrow> field ''name'' | Some v \<Rightarrow> tl_text T v) @
      (case tl_get T e (text_of ''target'') of
         None \<Rightarrow> []
       | Some v \<Rightarrow> text_of '' -> '' @ tl_text T v) @
      (if tl_get T e (text_of ''revisited'') = Some (Bool True) then text_of '' [revisited]'' else []))"

definition listing_report :: "tool \<Rightarrow> json list \<Rightarrow> outcome" where
  "listing_report T es = Report (Arr es) (Some (join_lines (map (entry_text T) es)))"

section \<open>\<open>ls\<close>\<close>

fun list_children ::
  "('c, 'd) world \<Rightarrow> filesystem \<Rightarrow> bytes \<Rightarrow> dir_entry list \<Rightarrow> (('c, 'd) caches, json list) cli" where
  "list_children W fs path [] = ok_cli []"
| "list_children W fs path (d # ds) =
     bind_c (within (child_path path (de_name d)) (read_inode W fs (de_inode_ref d))) (\<lambda>child.
     bind_c (list_children W fs path ds) (\<lambda>es.
       ok_cli (entry (de_name d) child # es)))"

definition ls :: "('c, 'd) world \<Rightarrow> tool \<Rightarrow> filesystem \<Rightarrow> bytes \<Rightarrow> (('c, 'd) caches, outcome) cli" where
  "ls W T fs path =
     bind_c (within path (lookup_path_bytes W fs path)) (\<lambda>i.
     bind_c
       (if is_dir i then
          bind_c (within path (read_dir W fs i)) (\<lambda>ds. list_children W fs path ds)
        else ok_cli [entry (last_name path) i]) (\<lambda>es.
       ok_cli (listing_report T es)))"

section \<open>\<open>ls --recursive\<close>\<close>

definition recursive_entry :: "bytes \<Rightarrow> u64 \<Rightarrow> inode \<Rightarrow> bool \<Rightarrow> json" where
  "recursive_entry path depth i revisited =
     Obj (entry_fields (last (split_slash path)) i @ named ''path'' path @
       [(text_of ''depth'', Num (uint depth))] @
       (if revisited then [(text_of ''revisited'', Bool True)] else []))"

text \<open>The path with single slashes, from the root.\<close>

definition full_path :: "bytes \<Rightarrow> bytes" where
  "full_path path =
     (let full = concat (map (\<lambda>c. 0x2F # c) (components path)) in if full = [] then [0x2F] else full)"

definition children ::
  "('c, 'd) world \<Rightarrow> filesystem \<Rightarrow> inode \<Rightarrow> bytes \<Rightarrow> (('c, 'd) caches, dir_entry list) cli" where
  "children W fs node at = bind_c (within at (read_dir W fs node)) (\<lambda>es. ok_cli (sort_key de_name es))"

text \<open>The walk's state: the directories entered, the iterators on the stack (top first), and the
  entries so far.\<close>

record tour =
  to_visited :: "u32 set"
  to_stack :: "(bytes \<times> u64 \<times> dir_entry list) list"
  to_entries :: "json list"

definition on_left :: "('s, 'a) sm \<Rightarrow> ('s \<times> 't, 'a) sm" where
  "on_left m st = (case m (fst st) of (r, s) \<Rightarrow> (r, (s, snd st)))"

definition on_right :: "('t \<Rightarrow> 't) \<Rightarrow> ('s \<times> 't, unit) sm" where
  "on_right f st = (Ok (), (fst st, f (snd st)))"

text \<open>One turn of the loop that takes \<open>child\<close> off the iterator of \<open>parent\<close>.\<close>

definition tour_child ::
  "('c, 'd) world \<Rightarrow> filesystem \<Rightarrow> u64 \<Rightarrow> u64 \<Rightarrow> bytes \<Rightarrow> u64 \<Rightarrow> dir_entry \<Rightarrow>
    (('c, 'd) caches \<times> tour, unit) cli" where
  "tour_child W fs max_depth limit parent parent_depth child =
     (let full = child_path parent (de_name child); depth = parent_depth + 1 in
      bind_s (read_s (\<lambda>st. limit \<le> of_nat (length (to_entries (snd st))))) (\<lambda>at_limit.
      if at_limit then err_cli (Bound_reached ''--limit'' limit (show_bytes full))
      else if max_depth < depth then err_cli (Bound_reached ''--max-depth'' max_depth (show_bytes full))
      else
        bind_c (on_left (within full (read_inode W fs (de_inode_ref child)))) (\<lambda>i.
        bind_s (read_s (\<lambda>st. is_dir i \<and> in_number i \<in> to_visited (snd st))) (\<lambda>revisited.
        bind_s (on_right (\<lambda>t. t
          \<lparr>to_visited := (if is_dir i then insert (in_number i) (to_visited t) else to_visited t),
           to_entries := to_entries t @ [recursive_entry full depth i revisited]\<rparr>)) (\<lambda>_.
        if is_dir i \<and> \<not> revisited then
          bind_c (on_left (children W fs i full)) (\<lambda>next.
          bind_s (on_right (\<lambda>t. t\<lparr>to_stack := (full, depth, next) # to_stack t\<rparr>)) (\<lambda>_. ok_cli ()))
        else ok_cli ())))))"

definition tour_step ::
  "('c, 'd) world \<Rightarrow> filesystem \<Rightarrow> u64 \<Rightarrow> u64 \<Rightarrow> (('c, 'd) caches \<times> tour, unit) cli" where
  "tour_step W fs max_depth limit st =
     (case to_stack (snd st) of
        [] \<Rightarrow> ok_cli () st
      | (parent, parent_depth, []) # rest \<Rightarrow>
          bind_s (on_right (\<lambda>t. t\<lparr>to_stack := rest\<rparr>)) (\<lambda>_. ok_cli ()) st
      | (parent, parent_depth, child # later) # rest \<Rightarrow>
          bind_s (on_right (\<lambda>t. t\<lparr>to_stack := (parent, parent_depth, later) # rest\<rparr>)) (\<lambda>_.
            tour_child W fs max_depth limit parent parent_depth child) st)"

text \<open>The walk ends: a turn enters an inode number not entered before, or leaves fewer children and
  iterators behind.\<close>

definition tour_size :: "tour \<Rightarrow> nat" where
  "tour_size t = sum_list (map (\<lambda>f. Suc (length (snd (snd f)))) (to_stack t))"

lemma on_left_snd: "snd (snd (on_left m st)) = snd st"
  by (simp add: on_left_def split: prod.split)

lemma tour_child_moves:
  assumes "tour_child W fs md lim parent pd child st = (Ok (Inr u), st')"
  shows "(to_stack (snd st') = to_stack (snd st) \<and> to_visited (snd st) \<subseteq> to_visited (snd st')) \<or>
    (\<exists>n. n \<notin> to_visited (snd st) \<and> to_visited (snd st') = insert n (to_visited (snd st)))"
proof -
  let ?full = "child_path parent (de_name child)"
  obtain r c where i: "within ?full (read_inode W fs (de_inode_ref child)) (fst st) = (r, c)" by fastforce
  from assms i obtain i where r: "r = Ok (Inr i)"
    by (cases r; cases "projr r")
      (auto simp: tour_child_def Let_def bind_c_def bind_s_def read_s_def on_left_def err_cli_def ret_s_def
        split: if_splits)
  obtain q d where ch: "children W fs i ?full c = (q, d)" by fastforce
  show ?thesis
  proof (cases "is_dir i \<and> in_number i \<notin> to_visited (snd st)")
    case True
    with assms i r ch have "to_visited (snd st') = insert (in_number i) (to_visited (snd st))"
      by (cases q; cases "projr q")
        (auto simp: tour_child_def Let_def bind_c_def bind_s_def read_s_def on_left_def on_right_def
          err_cli_def ok_cli_def ret_s_def split: if_splits)
    with True show ?thesis by blast
  next
    case False
    with assms i r show ?thesis
      by (auto simp: tour_child_def Let_def bind_c_def bind_s_def read_s_def on_left_def on_right_def
          err_cli_def ok_cli_def ret_s_def split: if_splits)
  qed
qed

definition unvisited :: "tour \<Rightarrow> nat" where
  "unvisited t = card (UNIV - to_visited t)"

lemma tour_step_less:
  assumes "tour_step W fs md lim st = (Ok (Inr u), st')" "to_stack (snd st) \<noteq> []"
  shows "unvisited (snd st') < unvisited (snd st) \<or>
    unvisited (snd st') \<le> unvisited (snd st) \<and> tour_size (snd st') < tour_size (snd st)"
proof -
  obtain parent pd cs rest where st: "to_stack (snd st) = (parent, pd, cs) # rest"
    using assms(2) by (cases "to_stack (snd st)") auto
  show ?thesis
  proof (cases cs)
    case Nil
    with assms(1) st show ?thesis
      by (auto simp: tour_step_def bind_s_def on_right_def ok_cli_def ret_s_def unvisited_def tour_size_def)
  next
    case (Cons child later)
    let ?st = "(fst st, (snd st)\<lparr>to_stack := (parent, pd, later) # rest\<rparr>)"
    from assms(1) st Cons have "tour_child W fs md lim parent pd child ?st = (Ok (Inr u), st')"
      by (simp add: tour_step_def bind_s_def on_right_def)
    from tour_child_moves [OF this] consider
      "to_stack (snd st') = (parent, pd, later) # rest" "to_visited (snd st) \<subseteq> to_visited (snd st')"
      | n where "n \<notin> to_visited (snd st)" "to_visited (snd st') = insert n (to_visited (snd st))" by auto
    then show ?thesis
    proof cases
      case 1
      then have "unvisited (snd st') \<le> unvisited (snd st)"
        unfolding unvisited_def by (intro card_mono) auto
      with 1 st Cons show ?thesis by (simp add: tour_size_def)
    next
      case 2
      then have "UNIV - to_visited (snd st') \<subset> UNIV - to_visited (snd st)" by auto
      then show ?thesis unfolding unvisited_def by (intro disjI1 psubset_card_mono) auto
    qed
  qed
qed

function tour_loop ::
  "('c, 'd) world \<Rightarrow> filesystem \<Rightarrow> u64 \<Rightarrow> u64 \<Rightarrow> (('c, 'd) caches \<times> tour, unit) cli" where
  "tour_loop W fs max_depth limit st =
     (if to_stack (snd st) = [] then ok_cli () st
      else
        (case tour_step W fs max_depth limit st of
           (Inl f, st') \<Rightarrow> (Inl f, st')
         | (Inr (Inl e), st') \<Rightarrow> err_cli e st'
         | (Inr (Inr _), st') \<Rightarrow> tour_loop W fs max_depth limit st'))"
  by pat_completeness auto
termination
  by (relation "measures [\<lambda>(W, fs, md, lim, st). unvisited (snd st), \<lambda>(W, fs, md, lim, st). tour_size (snd st)]")
    (auto dest!: sym [THEN tour_step_less])

declare tour_loop.simps [simp del]

text \<open>The closure: what it collects, and the error it stops with.\<close>

definition survey ::
  "('c, 'd) world \<Rightarrow> filesystem \<Rightarrow> u64 \<Rightarrow> u64 \<Rightarrow> bytes \<Rightarrow> inode \<Rightarrow>
    (('c, 'd) caches, json list \<times> cli_error option) sm" where
  "survey W fs max_depth limit full i c =
     (if \<not> is_dir i then
        (if limit = 0 then (Ok ([], Some (Bound_reached ''--limit'' limit (show_bytes full))), c)
         else (Ok ([recursive_entry full 0 i False], None), c))
      else
        (case children W fs i full c of
           (Inl f, c) \<Rightarrow> (Inl f, c)
         | (Inr (Inl e), c) \<Rightarrow> (Ok ([], Some e), c)
         | (Inr (Inr first), c) \<Rightarrow>
             (case tour_loop W fs max_depth limit
                 (c, \<lparr>to_visited = {in_number i}, to_stack = [(full, 0, first)], to_entries = []\<rparr>) of
                (Inl f, c, t) \<Rightarrow> (Inl f, c)
              | (Inr r, c, t) \<Rightarrow>
                  (Ok (to_entries t, case r of Inl e \<Rightarrow> Some e | Inr _ \<Rightarrow> None), c))))"

section \<open>Sinks\<close>

text \<open>Where bytes go: standard output or a local file.\<close>

datatype sink = Stdout | Into bytes

fun sunk :: "sink \<Rightarrow> ('c, 'd) proc \<Rightarrow> bytes" where
  "sunk Stdout s = pr_stdout s"
| "sunk (Into file) s = (case pr_files s file of None \<Rightarrow> [] | Some b \<Rightarrow> b)"

fun sink_put :: "sink \<Rightarrow> bytes \<Rightarrow> ('c, 'd) proc \<Rightarrow> ('c, 'd) proc" where
  "sink_put Stdout b s = s\<lparr>pr_stdout := b\<rparr>"
| "sink_put (Into file) b s = s\<lparr>pr_files := (pr_files s)(file \<mapsto> b)\<rparr>"

text \<open>\<open>write_all\<close> and \<open>flush\<close>; a write that fails has written some prefix.\<close>

definition write_all :: "tool \<Rightarrow> sink \<Rightarrow> bytes \<Rightarrow> (('c, 'd) proc, utf8 option) sm" where
  "write_all T k bs s =
     (case tl_write T (sunk k s) bs of
        None \<Rightarrow> (Ok None, sink_put k (sunk k s @ bs) s)
      | Some (n, e) \<Rightarrow> (Ok (Some e), sink_put k (sunk k s @ take n bs) s))"

definition flush :: "tool \<Rightarrow> sink \<Rightarrow> (('c, 'd) proc, utf8 option) sm" where
  "flush T k s = (Ok (tl_flush T (sunk k s)), s)"

text \<open>\<open>.map_err(|e| CliError::failed(format!("{what}: {e}")))?\<close>\<close>

definition or_failed :: "utf8 \<Rightarrow> ('s, utf8 option) sm \<Rightarrow> ('s, unit) cli" where
  "or_failed what m =
     bind_s m (\<lambda>e. case e of None \<Rightarrow> ok_cli () | Some e \<Rightarrow> err_cli (Failed (what @ text_of '': '' @ e)))"

text \<open>\<open>File::create\<close>, \<open>fs::rename\<close> and \<open>fs::remove_file\<close>.\<close>

definition file_create :: "tool \<Rightarrow> bytes \<Rightarrow> (('c, 'd) proc, utf8 option) sm" where
  "file_create T file s =
     (case tl_create T file of
        Some e \<Rightarrow> (Ok (Some e), s)
      | None \<Rightarrow> (Ok None, s\<lparr>pr_files := (pr_files s)(file \<mapsto> [])\<rparr>))"

definition file_rename :: "tool \<Rightarrow> bytes \<Rightarrow> bytes \<Rightarrow> (('c, 'd) proc, utf8 option) sm" where
  "file_rename T from dest s =
     (case tl_rename T from dest of
        Some e \<Rightarrow> (Ok (Some e), s)
      | None \<Rightarrow> (Ok None, s\<lparr>pr_files := (pr_files s)(dest := pr_files s from, from := None)\<rparr>))"

definition file_remove :: "tool \<Rightarrow> bytes \<Rightarrow> (('c, 'd) proc, unit) sm" where
  "file_remove T file = change (\<lambda>s. if tl_remove T file then s\<lparr>pr_files := (pr_files s)(file := None)\<rparr> else s)"

definition ls_recursive ::
  "('c, 'd) world \<Rightarrow> tool \<Rightarrow> filesystem \<Rightarrow> bytes \<Rightarrow> u64 \<Rightarrow> u64 \<Rightarrow> (('c, 'd) proc, outcome) cli" where
  "ls_recursive W T fs path max_depth limit =
     bind_c (on_caches (within path (lookup_path_bytes W fs path))) (\<lambda>i.
     bind_s (on_caches (survey W fs max_depth limit (full_path path) i)) (\<lambda>(es, res).
     let report = listing_report T es in
     case res of
       None \<Rightarrow> ok_cli report
     | Some e \<Rightarrow>
         bind_c (or_failed (text_of ''write'') (write_all T Stdout (tl_render T report))) (\<lambda>_. err_cli e)))"

section \<open>\<open>stat\<close>\<close>

definition stat_fields :: "bytes \<Rightarrow> inode \<Rightarrow> u32 \<Rightarrow> u32 \<Rightarrow> (utf8 \<times> json) list" where
  "stat_fields path i uid gid =
     named ''path'' path @
     [(text_of ''inode'', Num (uint (in_number i))),
      (text_of ''type'', Str (text_of (type_name (file_type_of i)))),
      (text_of ''mode'', mode_json i),
      (text_of ''uid'', Num (uint uid)),
      (text_of ''gid'', Num (uint gid)),
      (text_of ''nlink'', Num (uint (in_nlink i))),
      (text_of ''size'', Num (uint (in_file_size i))),
      (text_of ''allocated_bytes'', Null),
      (text_of ''atime'', Null), (text_of ''atime_nsec'', Null),
      (text_of ''mtime'', Num (uint (in_mtime i))), (text_of ''mtime_nsec'', Null),
      (text_of ''ctime'', Null), (text_of ''ctime_nsec'', Null),
      (text_of ''btime'', Null), (text_of ''btime_nsec'', Null)] @
     kind_fields i @
     [(text_of ''squashfs'', Obj
       [(text_of ''inode_type'', Num (uint (in_type i))),
        (text_of ''fragment_index'',
          json_option (if has_fragment i then Some (Num (uint (in_fragment_index i))) else None)),
        (text_of ''fragment_offset'',
          json_option (if has_fragment i then Some (Num (uint (in_fragment_offset i))) else None)),
        (text_of ''block_count'',
          json_option (if is_regular_file i then Some (Num (int (length (in_block_sizes i)))) else None)),
        (text_of ''xattr_index'',
          json_option (if has_xattrs i then Some (Num (uint (in_xattr_index i))) else None))])]"

definition stat_verb :: "('c, 'd) world \<Rightarrow> filesystem \<Rightarrow> bytes \<Rightarrow> (('c, 'd) caches, outcome) cli" where
  "stat_verb W fs path =
     bind_c (within path (lookup_path_bytes W fs path)) (\<lambda>i.
     bind_c (within path (lift_s (resolve_uid fs (in_uid_idx i)))) (\<lambda>uid.
     bind_c (within path (lift_s (resolve_gid fs (in_gid_idx i)))) (\<lambda>gid.
       ok_cli (Report (Obj (stat_fields path i uid gid)) None))))"

section \<open>\<open>read\<close>\<close>

definition CHUNK :: nat where "CHUNK = 2 ^ 20"

text \<open>The copy loop: a chunk is read, then written, then the offset moves on.\<close>

function copy_loop ::
  "('c, 'd) world \<Rightarrow> tool \<Rightarrow> filesystem \<Rightarrow> inode \<Rightarrow> bytes \<Rightarrow> sink \<Rightarrow> u64 \<Rightarrow> bytes \<Rightarrow> (('c, 'd) proc, unit) cli" where
  "copy_loop W T fs i path k offset buf s =
     (if offset < in_file_size i then
        let want = min (length buf) (unat (in_file_size i - offset)) in
        (case read_file W fs i offset (pr_caches s) (take want buf) of
           (Inl (Err e), c, _) \<Rightarrow> err_cli (squashfs_error path e) (s\<lparr>pr_caches := c\<rparr>)
         | (Inl f, c, _) \<Rightarrow> (Inl f, s\<lparr>pr_caches := c\<rparr>)
         | (Inr got, c, b) \<Rightarrow>
             let buf = b @ drop want buf; s = s\<lparr>pr_caches := c\<rparr> in
             if got = 0 then
               err_cli (Failed (show_bytes path @ text_of '': short read at byte '' @
                 text_of (dec_digits (unat offset)) @ text_of '' of '' @
                 text_of (dec_digits (unat (in_file_size i))))) s
             else
               (case slice_to buf got of
                  Inl f \<Rightarrow> (Inl f, s)
                | Inr bs \<Rightarrow>
                    (case or_failed (text_of ''write'') (write_all T k bs) s of
                       (Inl f, s) \<Rightarrow> (Inl f, s)
                     | (Inr (Inl e), s) \<Rightarrow> err_cli e s
                     | (Inr (Inr _), s) \<Rightarrow> copy_loop W T fs i path k (offset + of_nat got) buf s)))
      else or_failed (text_of ''write'') (flush T k) s)"
  by pat_completeness auto

lemma copy_position:
  assumes "read_file W fs i offset c b = (Ok got, c', b')" "offset < in_file_size i"
  shows "unat (offset + of_nat got) = unat offset + got" "unat offset + got \<le> unat (in_file_size i)"
proof -
  from read_file_frame(3) [OF assms(1)] have "got \<le> unat (in_file_size i) - unat offset" by simp
  moreover have lt: "unat offset < unat (in_file_size i)" using assms(2) by (simp add: word_less_nat_alt)
  ultimately show le: "unat offset + got \<le> unat (in_file_size i)" by simp
  have "unat (in_file_size i) < 2 ^ 64" by (rule unat_u64_less)
  with le have "unat offset + got < 2 ^ 64" "got < 2 ^ 64" by simp_all
  then show "unat (offset + of_nat got) = unat offset + got"
    by (simp add: unat_add_no_wrap unat_of_nat take_bit_nat_eq_self)
qed

lemma copy_progress:
  assumes "(Ok got, y) = read_file W fs i offset c b" "offset < in_file_size i" "got \<noteq> 0"
  shows "unat (in_file_size i) - unat (offset + of_nat got) < unat (in_file_size i) - unat offset"
proof -
  obtain c' b' where "y = (c', b')" by fastforce
  with copy_position [of W fs i offset c b got c' b'] assms show ?thesis
    by (simp add: word_less_nat_alt)
qed

termination copy_loop
proof (relation "measure (\<lambda>(W, T, fs, i, path, k, offset, buf, s). unat (in_file_size i) - unat offset)", goal_cases)
  case 1
  then show ?case by simp
next
  case 2
  then show ?case by (simp only: in_measure case_prod_conv) (erule copy_progress)
qed

declare copy_loop.simps [simp del]

definition copy :: "('c, 'd) world \<Rightarrow> tool \<Rightarrow> filesystem \<Rightarrow> inode \<Rightarrow> bytes \<Rightarrow> sink \<Rightarrow> (('c, 'd) proc, unit) cli" where
  "copy W T fs i path k = copy_loop W T fs i path k 0 (replicate (min CHUNK (unat (in_file_size i))) 0)"

definition partial_name :: "bytes \<Rightarrow> bytes" where
  "partial_name file = file @ text_of ''.partial''"

definition read_verb ::
  "('c, 'd) world \<Rightarrow> tool \<Rightarrow> filesystem \<Rightarrow> bytes \<Rightarrow> bytes option \<Rightarrow> (('c, 'd) proc, outcome) cli" where
  "read_verb W T fs path output =
     bind_c (on_caches (within path (lookup_path_bytes W fs path))) (\<lambda>i.
     case file_type_of i of
       RegFile \<Rightarrow>
         (case output of
            None \<Rightarrow> bind_c (copy W T fs i path Stdout) (\<lambda>_. ok_cli Finished)
          | Some file \<Rightarrow>
              let partial = partial_name file in
              bind_c (or_failed (text_of ''create '' @ show_bytes partial) (file_create T partial)) (\<lambda>_.
              bind_s (copy W T fs i path (Into partial)) (\<lambda>r.
              case r of
                Inl e \<Rightarrow> bind_s (file_remove T partial) (\<lambda>_. err_cli e)
              | Inr _ \<Rightarrow>
                  bind_c (or_failed (text_of ''rename to '' @ show_bytes file) (file_rename T partial file))
                    (\<lambda>_. ok_cli Finished))))
     | Dir \<Rightarrow> err_cli (Failed (show_bytes path @ text_of '': is a directory''))
     | Symlink \<Rightarrow>
         err_cli (Failed (show_bytes path @ text_of '': is a symlink to '' @
           show_bytes (in_symlink_target i) @ text_of ''; read the target instead''))
     | _ \<Rightarrow> err_cli (Failed (show_bytes path @ text_of '': not a regular file'')))"

section \<open>\<open>export\<close>\<close>

text \<open>What the shared transfer reads a file through, and a tree.\<close>

type_synonym ('s) positioned_read = "u64 \<Rightarrow> bytes \<Rightarrow> 's \<Rightarrow> (cli_error + nat) result \<times> 's \<times> bytes"

definition source_read_at ::
  "('c, 'd) world \<Rightarrow> filesystem \<Rightarrow> inode \<Rightarrow> bytes \<Rightarrow> ('c, 'd) caches positioned_read" where
  "source_read_at W fs i path offset buf c =
     (case read_file W fs i offset c buf of
        (Inl (Err e), c, b) \<Rightarrow> (Ok (Inl (squashfs_error path e)), c, b)
      | (Inl f, c, b) \<Rightarrow> (Inl f, c, b)
      | (Inr n, c, b) \<Rightarrow> (Ok (Inr n), c, b))"

datatype tree_kind = File_kind | Directory_kind | Other_kind

record tree_metadata =
  tm_kind :: tree_kind
  tm_size :: u64
  tm_inode :: u64
  tm_accessed :: "u64 option"
  tm_modified :: "u64 option"

definition metadata_for :: "inode \<Rightarrow> tree_metadata" where
  "metadata_for i =
     \<lparr>tm_kind =
        (case file_type_of i of RegFile \<Rightarrow> File_kind | Dir \<Rightarrow> Directory_kind | _ \<Rightarrow> Other_kind),
      tm_size = (if is_regular_file i then in_file_size i else 0),
      tm_inode = ucast (in_number i),
      tm_accessed = None,
      tm_modified = Some (ucast (in_mtime i))\<rparr>"

definition tree_resolve ::
  "('c, 'd) world \<Rightarrow> filesystem \<Rightarrow> bytes \<Rightarrow> (('c, 'd) caches, inode) cli" where
  "tree_resolve W fs path = within path (lookup_path_bytes W fs path)"

definition tree_symbolic_link ::
  "('c, 'd) world \<Rightarrow> filesystem \<Rightarrow> bytes \<Rightarrow> (('c, 'd) caches, (bytes \<times> bool) option) cli" where
  "tree_symbolic_link W fs path =
     bind_c (tree_resolve W fs path) (\<lambda>i.
     if \<not> is_symlink i then ok_cli None
     else
       bind_c (within path (lift_s (read_symlink_target i))) (\<lambda>target. ok_cli (Some (target, False))))"

definition tree_metadata_at ::
  "('c, 'd) world \<Rightarrow> filesystem \<Rightarrow> bytes \<Rightarrow> (('c, 'd) caches, tree_metadata) cli" where
  "tree_metadata_at W fs path = bind_c (tree_resolve W fs path) (\<lambda>i. ok_cli (metadata_for i))"

fun tree_children ::
  "('c, 'd) world \<Rightarrow> filesystem \<Rightarrow> bytes \<Rightarrow> dir_entry list \<Rightarrow>
    (('c, 'd) caches, (bytes \<times> tree_metadata) list) cli" where
  "tree_children W fs path [] = ok_cli []"
| "tree_children W fs path (d # ds) =
     bind_c (within (child_path path (de_name d)) (read_inode W fs (de_inode_ref d))) (\<lambda>child.
     bind_c (tree_children W fs path ds) (\<lambda>es.
       ok_cli ((de_name d, metadata_for child) # es)))"

definition tree_read_dir ::
  "('c, 'd) world \<Rightarrow> filesystem \<Rightarrow> bytes \<Rightarrow> (('c, 'd) caches, (bytes \<times> tree_metadata) list) cli" where
  "tree_read_dir W fs path =
     bind_c (tree_resolve W fs path) (\<lambda>i.
     bind_c (within path (read_dir W fs i)) (\<lambda>ds. tree_children W fs path ds))"

text \<open>\<open>Path\<close> equality is that of the components: slashes that repeat or trail do not count, nor do
  dots, but for one in front of a relative path.\<close>

definition path_key :: "bytes \<Rightarrow> bool \<times> bytes list" where
  "path_key p =
     (p \<noteq> [] \<and> hd p = 0x2F,
      (if split_slash p \<noteq> [] \<and> hd (split_slash p) = [0x2E] then [[0x2E]] else []) @
      filter (\<lambda>c. c \<noteq> [] \<and> c \<noteq> [0x2E]) (split_slash p))"

text \<open>The file read last: its path, the same in bytes, and its inode.\<close>

type_synonym last_file = "(bytes \<times> bytes \<times> inode) option"

definition tree_read_last ::
  "('c, 'd) world \<Rightarrow> filesystem \<Rightarrow> (('c, 'd) caches \<times> last_file) positioned_read" where
  "tree_read_last W fs offset buf st =
     (case snd st of
        None \<Rightarrow> (Panics, st, buf)
      | Some (_, path, i) \<Rightarrow>
          (case source_read_at W fs i path offset buf (fst st) of (r, c, b) \<Rightarrow> (r, (c, snd st), b)))"

definition tree_read_file_at ::
  "('c, 'd) world \<Rightarrow> filesystem \<Rightarrow> bytes \<Rightarrow> (('c, 'd) caches \<times> last_file) positioned_read" where
  "tree_read_file_at W fs path offset buf st =
     (if (case snd st of Some (p, _) \<Rightarrow> path_key p = path_key path | None \<Rightarrow> False) then
        tree_read_last W fs offset buf st
      else
        (case tree_resolve W fs path (fst st) of
           (Inl f, c) \<Rightarrow> (Inl f, (c, snd st), buf)
         | (Inr (Inl e), c) \<Rightarrow> (Ok (Inl e), (c, snd st), buf)
         | (Inr (Inr i), c) \<Rightarrow>
             if \<not> is_regular_file i then
               (Ok (Inl (Failed (show_bytes path @ text_of '': not a regular file''))), (c, snd st), buf)
             else tree_read_last W fs offset buf (c, Some (path, path, i))))"

text \<open>The arguments \<open>export\<close> parses with \<open>fs_core\<close>, any of which may be refused, and the two transfers.\<close>

record ('c, 'd) tree_source =
  ts_image :: bytes
  ts_symbolic_link :: "bytes \<Rightarrow> (('c, 'd) caches, (bytes \<times> bool) option) cli"
  ts_metadata :: "bytes \<Rightarrow> (('c, 'd) caches, tree_metadata) cli"
  ts_read_dir :: "bytes \<Rightarrow> (('c, 'd) caches, (bytes \<times> tree_metadata) list) cli"
  ts_read_file_at :: "bytes \<Rightarrow> (('c, 'd) caches \<times> last_file) positioned_read"

record ('c, 'd) exporter =
  ex_request :: "cli_error + bytes"
  ex_recursive :: "cli_error + bool"
  ex_options :: "cli_error + unit"
  ex_links :: "cli_error + unit"
  ex_times :: "cli_error + unit"
  ex_file :: "u64 \<Rightarrow> ('c, 'd) caches positioned_read \<Rightarrow> (('c, 'd) proc, outcome) cli"
  ex_tree :: "('c, 'd) tree_source \<Rightarrow> (('c, 'd) proc, outcome) cli"

definition tree_export :: "('c, 'd) world \<Rightarrow> filesystem \<Rightarrow> bytes \<Rightarrow> ('c, 'd) tree_source" where
  "tree_export W fs img =
     \<lparr>ts_image = img, ts_symbolic_link = tree_symbolic_link W fs, ts_metadata = tree_metadata_at W fs,
      ts_read_dir = tree_read_dir W fs, ts_read_file_at = tree_read_file_at W fs\<rparr>"

definition export_file ::
  "('c, 'd) world \<Rightarrow> ('c, 'd) exporter \<Rightarrow> filesystem \<Rightarrow> bytes \<Rightarrow> (('c, 'd) proc, outcome) cli" where
  "export_file W X fs path =
     bind_c (on_caches (within path (lookup_path_bytes W fs path))) (\<lambda>i.
     if \<not> is_regular_file i then
       err_cli (Failed (show_bytes path @ text_of '': not a regular file; directories, symlinks and special files cannot be exported without --recursive''))
     else ex_file X (in_file_size i) (source_read_at W fs i path))"

section \<open>\<open>xattr\<close>\<close>

definition xattr_entry_json :: "xattr_entry \<Rightarrow> json" where
  "xattr_entry_json a = Obj (named ''name'' (xe_name a) @ [(text_of ''size'', Num (int (length (xe_value a))))])"

definition xattr_line :: "xattr_entry \<Rightarrow> utf8" where
  "xattr_line a = text_of (dec_digits (length (xe_value a))) @ 0x09 # show_bytes (xe_name a)"

text \<open>The steps of \<open>std::fs::write(..).and_then(rename)\<close> and \<open>write_all(..).and_then(flush)\<close>: the first
  that fails is the error.\<close>

definition and_next :: "('s, utf8 option) sm \<Rightarrow> ('s, utf8 option) sm \<Rightarrow> ('s, utf8 option) sm" where
  "and_next m n = bind_s m (\<lambda>e. case e of None \<Rightarrow> n | Some e \<Rightarrow> ret_s (Some e))"

definition xattr_verb ::
  "('c, 'd) world \<Rightarrow> tool \<Rightarrow> filesystem \<Rightarrow> bytes \<Rightarrow> bytes option \<Rightarrow> bytes option \<Rightarrow>
    (('c, 'd) proc, outcome) cli" where
  "xattr_verb W T fs path name output =
     bind_c (on_caches (within path (lookup_path_bytes W fs path))) (\<lambda>i.
     case name of
       Some name \<Rightarrow>
         bind_c (on_caches (within path (get_xattr W fs i name))) (\<lambda>v.
         case v of
           None \<Rightarrow> err_cli (Failed (show_bytes path @ text_of '': no attribute '' @ show_bytes name))
         | Some val \<Rightarrow>
             (case output of
                None \<Rightarrow>
                  bind_c (or_failed (text_of ''write'') (and_next (write_all T Stdout val) (flush T Stdout)))
                    (\<lambda>_. ok_cli Finished)
              | Some file \<Rightarrow>
                  let partial = partial_name file in
                  bind_s
                    (and_next (file_create T partial)
                      (and_next (write_all T (Into partial) val) (file_rename T partial file))) (\<lambda>r.
                  case r of
                    None \<Rightarrow> ok_cli Finished
                  | Some e \<Rightarrow>
                      bind_s (file_remove T partial) (\<lambda>_.
                        err_cli (Failed (text_of ''write '' @ show_bytes file @ text_of '': '' @ e))))))
     | None \<Rightarrow>
         bind_c (on_caches (within path (list_xattrs W fs i))) (\<lambda>attrs.
           let attrs = sort_key xe_name attrs in
           ok_cli (Report (Arr (map xattr_entry_json attrs)) (Some (join_lines (map xattr_line attrs))))))"

section \<open>\<open>get\<close>\<close>

definition FLAGS :: "(u16 \<times> string) list" where
  "FLAGS =
     [(0x0001, ''uncompressed_inodes''), (0x0002, ''uncompressed_data''), (0x0004, ''check''),
      (0x0008, ''uncompressed_fragments''), (0x0010, ''no_fragments''), (0x0020, ''always_fragments''),
      (0x0040, ''duplicates''), (0x0080, ''exportable''), (0x0100, ''uncompressed_xattrs''),
      (0x0200, ''no_xattrs''), (0x0400, ''compressor_options''), (0x0800, ''uncompressed_ids'')]"

definition hex_fixed :: "nat \<Rightarrow> nat \<Rightarrow> utf8" where
  "hex_fixed w n = map (\<lambda>k. hex_digit (n div 16 ^ (w - 1 - k) mod 16)) [0..<w]"

definition flag_names :: "u16 \<Rightarrow> json" where
  "flag_names bits =
     (let names = map (\<lambda>(b, n). Str (text_of n)) (filter (\<lambda>(b, n). bits AND b \<noteq> 0) FLAGS);
          unknown = foldl (\<lambda>rest (b, n). rest AND NOT b) bits FLAGS
      in Arr (names @ (if unknown \<noteq> 0 then [Str (text_of ''0x'' @ hex_fixed 4 (unat unknown))] else [])))"

definition KEYS :: "string list" where
  "KEYS = [''fs'', ''label'', ''total_bytes'', ''free_bytes'', ''block_size'', ''dirty'', ''squashfs'']"

definition envelope :: "filesystem \<Rightarrow> json" where
  "envelope fs =
     (let sb = fs_sb fs in
      Obj
       [(text_of ''fs'', Str (text_of ''squashfs'')),
        (text_of ''label'', Null),
        (text_of ''total_bytes'', Num (uint (sb_bytes_used sb))),
        (text_of ''free_bytes'', Num 0),
        (text_of ''block_size'', Num (uint (sb_block_size sb))),
        (text_of ''dirty'', Bool False),
        (text_of ''squashfs'', Obj
          [(text_of ''compression'', Str (text_of (compressor_name (fs_comp fs)))),
           (text_of ''version'', Str (text_of (dec_digits (unat (sb_version_major sb)) @ ''.'' @
              dec_digits (unat (sb_version_minor sb))))),
           (text_of ''inode_count'', Num (uint (sb_inode_count sb))),
           (text_of ''fragment_count'', Num (uint (sb_fragment_entry_count sb))),
           (text_of ''id_count'', Num (uint (sb_id_count sb))),
           (text_of ''bytes_used'', Num (uint (sb_bytes_used sb))),
           (text_of ''mkfs_time'', Num (uint (sb_modification_time sb))),
           (text_of ''flags'', flag_names (sb_flags sb)),
           (text_of ''exportable'', Bool (is_exportable fs))])])"

fun split_dot :: "utf8 \<Rightarrow> utf8 list" where
  "split_dot [] = [[]]"
| "split_dot (b # bs) =
     (if b = 0x2E then [] # split_dot bs
      else (case split_dot bs of [] \<Rightarrow> [[b]] | c # cs \<Rightarrow> (b # c) # cs))"

definition value_at :: "tool \<Rightarrow> json \<Rightarrow> utf8 \<Rightarrow> json option" where
  "value_at T v key =
     foldl (\<lambda>v part. case v of None \<Rightarrow> None | Some v \<Rightarrow> tl_get T v part) (Some v) (split_dot key)"

definition keys_text :: utf8 where
  "keys_text = text_of (concat (hd KEYS # map (\<lambda>k. '', '' @ k) (tl KEYS)))"

definition get_verb :: "tool \<Rightarrow> filesystem \<Rightarrow> utf8 option \<Rightarrow> cli_error + outcome" where
  "get_verb T fs key =
     (let whole_report = envelope fs in
      case key of
        None \<Rightarrow> Inr (Report whole_report None)
      | Some key \<Rightarrow>
          (case value_at T whole_report key of
             None \<Rightarrow>
               Inl (Usage (text_of ''no key '' @ tl_debug T key @ text_of ''; the keys are '' @ keys_text @
                 text_of '' (and squashfs.<field>)''))
           | Some v \<Rightarrow> Inr (Report (Obj [(key, v)]) (Some (tl_text T v)))))"

section \<open>Dispatch\<close>

text \<open>\<open>open\<close>: the target, or the part of it from \<open>offset\<close> on.\<close>

definition open_target ::
  "('c, 'd) world \<Rightarrow> tool \<Rightarrow> bytes \<Rightarrow> u64 \<Rightarrow> (('c, 'd) proc, filesystem) cli" where
  "open_target W T target offset s =
     (let name = show_bytes target in
      case tl_open T target of
        Inl e \<Rightarrow> err_cli (Failed (text_of ''open '' @ name @ text_of '': '' @ e)) s
      | Inr file \<Rightarrow>
          let sz = dev_size_bytes file in
          if offset \<noteq> 0 \<and> sz \<le> offset then
            err_cli (Failed (text_of ''--offset '' @ text_of (dec_digits (unat offset)) @
              text_of '' is past the end of '' @ name @ text_of '' ('' @ text_of (dec_digits (unat sz)) @
              text_of '' bytes)'')) s
          else
            (case open_image W (if offset = 0 then file else tl_slice T file offset (sz - offset)) of
               Inr (fs, c) \<Rightarrow> ok_cli fs (s\<lparr>pr_caches := c\<rparr>)
             | Inl (Err e) \<Rightarrow>
                 err_cli (Failed (name @ text_of '' is not a readable SquashFS image: '' @
                   text_of (display_error e))) s
             | Inl f \<Rightarrow> (Inl f, s)))"

record args =
  ar_target :: bytes
  ar_verb :: string
  ar_offset_sub :: "u64 option"
  ar_offset_main :: "u64 option"
  ar_recursive :: bool
  ar_max_depth :: u64
  ar_limit :: u64
  ar_path :: bytes
  ar_output :: "bytes option"
  ar_name :: "bytes option"
  ar_key :: "utf8 option"

definition READ_ONLY :: string where "READ_ONLY = ''SquashFS is read-only''"

definition MUTATIONS :: "string list" where
  "MUTATIONS = [''import'', ''write'', ''mkdir'', ''rm'', ''rmdir'', ''mv'', ''ln'', ''truncate'', ''set'', ''resize'']"

definition effective_offset :: "args \<Rightarrow> u64" where
  "effective_offset a =
     (case ar_offset_sub a of
        Some n \<Rightarrow> n
      | None \<Rightarrow> (case ar_offset_main a of Some n \<Rightarrow> n | None \<Rightarrow> 0))"

definition from_matches :: "cli_error + 'a \<Rightarrow> ('s, 'a) cli" where
  "from_matches r = ret_s r"

definition run_export ::
  "('c, 'd) world \<Rightarrow> tool \<Rightarrow> ('c, 'd) exporter \<Rightarrow> bytes \<Rightarrow> u64 \<Rightarrow> (('c, 'd) proc, outcome) cli" where
  "run_export W T X target offset =
     bind_c (from_matches (ex_request X)) (\<lambda>path.
     bind_c (from_matches (ex_recursive X)) (\<lambda>recursive.
     bind_c (open_target W T target offset) (\<lambda>fs.
     bind_s (on_caches (change (set_data_cache_capacity W 0))) (\<lambda>_.
     if recursive then
       bind_c (from_matches (ex_links X)) (\<lambda>_.
       bind_c (from_matches (ex_times X)) (\<lambda>_. ex_tree X (tree_export W fs target)))
     else bind_c (from_matches (ex_options X)) (\<lambda>_. export_file W X fs path)))))"

text \<open>A verb \<open>clap\<close> does not know is unreachable: a panic.\<close>

definition run ::
  "('c, 'd) world \<Rightarrow> tool \<Rightarrow> ('c, 'd) exporter \<Rightarrow> args \<Rightarrow> (('c, 'd) proc, outcome) cli" where
  "run W T X a =
     (let target = ar_target a; offset = effective_offset a; verb = ar_verb a;
          opened = bind_c (open_target W T target offset)
      in
      if verb = ''ls'' \<and> ar_recursive a then
        opened (\<lambda>fs. ls_recursive W T fs (ar_path a) (ar_max_depth a) (ar_limit a))
      else if verb = ''ls'' then opened (\<lambda>fs. on_caches (ls W T fs (ar_path a)))
      else if verb = ''stat'' then opened (\<lambda>fs. on_caches (stat_verb W fs (ar_path a)))
      else if verb = ''read'' then opened (\<lambda>fs. read_verb W T fs (ar_path a) (ar_output a))
      else if verb = ''export'' then run_export W T X target offset
      else if verb = ''xattr'' then
        opened (\<lambda>fs. xattr_verb W T fs (ar_path a) (ar_name a) (ar_output a))
      else if verb = ''get'' \<or> verb = ''info'' then opened (\<lambda>fs. ret_s (get_verb T fs (ar_key a)))
      else if verb \<in> set MUTATIONS then
        err_cli (Refused (text_of (verb @ '': '' @ READ_ONLY @ ''; rebuild the image with mksquashfs instead'')))
      else lift_s Panics)"

end
