(* ===== verification/Cli_Verbs.thy ===== *)
theory Cli_Verbs
  imports Cli
begin

text \<open>
  What the command line's verbs promise: no crash on any image, exact copies and never half a file,
  recursive listings that end, stay inside their bounds and enter a directory once, and reports that
  say what the superblock says.
\<close>

section \<open>No verb crashes\<close>

abbreviation good :: "('a \<Rightarrow> bool) \<Rightarrow> cli_error + 'a \<Rightarrow> bool" where
  "good Q \<equiv> \<lambda>r. \<forall>v. r = Inr v \<longrightarrow> Q v"

lemma triple_ok [safe_intros]: "Q v \<Longrightarrow> triple P (ok_cli v) (good Q)"
  by (simp add: ok_cli_def triple_ret)

lemma triple_err [safe_intros]: "triple P (err_cli e) (good Q)"
  by (simp add: err_cli_def triple_ret)

lemma triple_cli_any [safe_intros]: "triple P (ok_cli v) any" "triple P (err_cli e) any"
  by (simp_all add: ok_cli_def err_cli_def triple_ret)

lemma triple_bind_c:
  assumes "triple P m (good R)" "\<And>v. R v \<Longrightarrow> triple P (k v) (good Q)"
  shows "triple P (bind_c m k) (good Q)"
  unfolding bind_c_def
  by (rule triple_bind [OF assms(1)]) (auto split: sum.split intro: triple_err assms(2))

lemma triple_within:
  assumes "triple P m Q"
  shows "triple P (within what m) (good Q)"
  unfolding within_def
  by (rule triple_bind [OF triple_attempt [OF assms]]) (auto split: sum.split intro: triple_err triple_ok)

lemma triple_on_caches:
  assumes "triple any m Q"
  shows "triple any (on_caches m) Q"
  unfolding triple_def
proof (intro allI impI)
  fix s :: "('a, 'b) proc"
  obtain r c where m: "m (pr_caches s) = (r, c)" by fastforce
  with tripleD [OF assms TrueI] show "safe (fst (on_caches m s)) \<and> True \<and>
      (\<forall>v. fst (on_caches m s) = Ok v \<longrightarrow> Q v)"
    by (auto simp: on_caches_def)
qed

lemma triple_always: "(\<And>s. safe (fst (m s))) \<Longrightarrow> triple any m any"
  by (simp add: triple_def)

lemma triple_or_failed: "triple P m any \<Longrightarrow> triple P (or_failed what m) (good any)"
  unfolding or_failed_def by (erule triple_bind) (auto split: option.split intro: triple_cli_any)

lemma triple_io:
  "triple any (write_all T k bs) any" "triple any (flush T k) any" "triple any (file_create T file) any"
  "triple any (file_rename T from dest) any" "triple any (file_remove T file) any"
  by (auto simp: triple_def write_all_def flush_def file_create_def file_rename_def file_remove_def
      change_def split: option.split)

lemma triple_list_children: "mounted fs \<Longrightarrow> triple any (list_children W fs path ds) (good any)"
proof (induction ds)
  case Nil
  then show ?case by (simp add: triple_cli_any)
next
  case (Cons d ds)
  then show ?case
    by (simp only: list_children.simps)
      (intro triple_bind_c [OF triple_within [OF triple_read_inode]] triple_bind_c [OF Cons.IH] triple_ok, auto)
qed

lemma triple_ls: "mounted fs \<Longrightarrow> triple any (ls W T fs path) (good any)"
  unfolding ls_def
  by (intro triple_bind_c [OF triple_within [OF triple_lookup_path]]
      triple_bind_c [where R = any] triple_ok triple_if
      triple_bind_c [OF triple_within [OF triple_read_dir]] triple_list_children) auto

lemma triple_owner: "triple any (lift_s (resolve_uid fs u)) any" "triple any (lift_s (resolve_gid fs u)) any"
  by (simp_all add: triple_def lift_s_def resolve_uid_def resolve_gid_def resolve_id_def)

lemma triple_stat: "mounted fs \<Longrightarrow> triple any (stat_verb W fs path) (good any)"
  unfolding stat_verb_def
  by (intro triple_bind_c [OF triple_within [OF triple_lookup_path]]
      triple_bind_c [OF triple_within [OF triple_owner(1)]]
      triple_bind_c [OF triple_within [OF triple_owner(2)]] triple_ok) auto

lemma triple_children: "triple any (children W fs node at) (good any)"
  unfolding children_def by (intro triple_bind_c [OF triple_within [OF triple_read_dir]] triple_ok) auto

lemma triple_on_left:
  assumes "triple any m Q"
  shows "triple any (on_left m) Q"
  unfolding triple_def
proof (intro allI impI)
  fix s :: "'a \<times> 'c"
  obtain r c where m: "m (fst s) = (r, c)" by fastforce
  with tripleD [OF assms TrueI] show "safe (fst (on_left m s)) \<and> True \<and>
      (\<forall>v. fst (on_left m s) = Ok v \<longrightarrow> Q v)"
    by (auto simp: on_left_def)
qed

lemma triple_on_right: "triple any (on_right f) any"
  by (simp add: triple_def on_right_def)

lemma triple_tour_child:
  assumes "mounted fs"
  shows "triple any (tour_child W fs md lim parent pd child) (good any)"
  unfolding tour_child_def Let_def
  by (intro triple_bind [where R = any] triple_read triple_if triple_err
      triple_bind_c [OF triple_on_left [OF triple_within [OF triple_read_inode [OF assms]]]]
      triple_on_right triple_bind_c [OF triple_on_left [OF triple_children]] triple_ok) auto

lemma safe_tour_step: "mounted fs \<Longrightarrow> safe (fst (tour_step W fs md lim st))"
  using tripleD(1) [OF triple_tour_child TrueI, of fs W md lim]
  by (auto simp: tour_step_def bind_s_def on_right_def ok_cli_def ret_s_def split: list.split)

lemma safe_tour_loop:
  assumes "mounted fs"
  shows "safe (fst (tour_loop W fs md lim st))"
  using assms
proof (induction W fs md lim st rule: tour_loop.induct)
  case (1 W fs md lim st)
  show ?case
  proof (cases "to_stack (snd st) = []")
    case True
    then show ?thesis by (simp add: tour_loop.simps ok_cli_def ret_s_def)
  next
    case False
    obtain r st' where s: "tour_step W fs md lim st = (r, st')" by (rule prod.exhaust)
    with safe_tour_step [OF 1(2), of W md lim st] have r: "safe r" by simp
    show ?thesis
    proof (cases r)
      case (Inl f)
      with s r False show ?thesis by (simp add: tour_loop.simps [of W fs md lim st])
    next
      case (Inr v)
      with 1(1) [OF False] s 1(2) False show ?thesis
        by (cases v) (auto simp: tour_loop.simps [of W fs md lim st] err_cli_def ret_s_def)
    qed
  qed
qed

lemma triple_survey:
  assumes "mounted fs"
  shows "triple any (survey W fs md lim full i) any"
proof (rule triple_always)
  fix c
  obtain r d where ch: "children W fs i full c = (r, d)" by (rule prod.exhaust)
  with tripleD(1) [OF triple_children TrueI, of W fs i full c] have r: "safe r" by simp
  show "safe (fst (survey W fs md lim full i c))"
  proof (cases "is_dir i \<and> (\<exists>first. r = Ok (Inr first))")
    case False
    with r ch show ?thesis
      by (cases r; cases "projr r") (auto simp: survey_def safe_def)
  next
    case True
    then obtain first where f: "is_dir i" "r = Ok (Inr first)" by blast
    obtain q c' t where t: "tour_loop W fs md lim
        (d, \<lparr>to_visited = {in_number i}, to_stack = [(full, 0, first)], to_entries = []\<rparr>) = (q, c', t)"
      by (metis prod_cases3)
    with safe_tour_loop [OF assms, of W md lim
        "(d, \<lparr>to_visited = {in_number i}, to_stack = [(full, 0, first)], to_entries = []\<rparr>)"]
    have "safe q" by simp
    with t f ch show ?thesis by (cases q) (simp_all add: survey_def safe_def)
  qed
qed

lemma triple_ls_recursive:
  assumes "mounted fs"
  shows "triple any (ls_recursive W T fs path md lim) (good any)"
proof -
  have "triple any (case r of (es, res) \<Rightarrow>
      let report = listing_report T es in
      case res of
        None \<Rightarrow> ok_cli report
      | Some e \<Rightarrow>
          bind_c (or_failed (text_of ''write'') (write_all T Stdout (tl_render T report))) (\<lambda>_. err_cli e))
      (good any)" for r
    by (cases r) (auto simp: Let_def split: option.split
        intro: triple_cli_any triple_bind_c [OF triple_or_failed [OF triple_io(1)], where Q = any, simplified])
  then show ?thesis
    unfolding ls_recursive_def
    by (intro triple_bind_c [OF triple_on_caches [OF triple_within [OF triple_lookup_path [OF assms]]]]
        triple_bind [OF triple_on_caches [OF triple_survey [OF assms]]])
qed

text \<open>The copy loop: what it reads it can slice.\<close>

lemma safe_copy_loop:
  assumes "mounted fs"
  shows "safe (fst (copy_loop W T fs i path k offset buf s))"
  using assms
proof (induction W T fs i path k offset buf s rule: copy_loop.induct)
  case (1 W T fs i path k offset buf s)
  note unfold = copy_loop.simps [of W T fs i path k offset buf s]
  have b: "0 < bsize fs" using 1(2) by (simp add: mounted_def bsize_def unat_gt_0)
  show ?case
  proof (cases "offset < in_file_size i")
    case False
    then show ?thesis
      using tripleD(1) [OF triple_or_failed [OF triple_io(2)] TrueI] by (simp add: unfold)
  next
    case True
    let ?want = "min (length buf) (unat (in_file_size i - offset))"
    obtain r c b' where rd: "read_file W fs i offset (pr_caches s) (take ?want buf) = (r, c, b')"
      by (metis prod_cases3)
    with safe_read_file [OF b, of W i offset "pr_caches s" "take ?want buf"] have r: "safe r" by simp
    show ?thesis
    proof (cases "\<exists>got. r = Ok got \<and> got \<noteq> 0")
      case False
      with r rd True show ?thesis
        by (cases r) (auto simp: unfold Let_def err_cli_def ret_s_def safe_def split: fault.splits)
    next
      case True
      then obtain got where got: "r = Ok got" "got \<noteq> 0" by blast
      let ?buf = "b' @ drop ?want buf" and ?s = "s\<lparr>pr_caches := c\<rparr>"
      have "got \<le> length ?buf" using read_file_frame(1,3) [OF rd] got(1) by simp
      then have sl: "slice_to ?buf got = Ok (take got ?buf)" by (simp add: slice_to_def)
      obtain w s' where w: "or_failed (text_of ''write'') (write_all T k (take got ?buf)) ?s = (w, s')"
        by (rule prod.exhaust)
      with tripleD(1) [OF triple_or_failed [OF triple_io(1)] TrueI, of "text_of ''write''" T k "take got ?buf" ?s]
      have "safe w" by simp
      with 1(1) [OF \<open>offset < in_file_size i\<close> refl rd [symmetric] got(1) refl refl refl got(2) sl w [symmetric] _ _ 1(2)]
        \<open>offset < in_file_size i\<close> rd got sl w show ?thesis
        by (cases w; cases "projr w") (auto simp: unfold Let_def err_cli_def ret_s_def safe_def)
    qed
  qed
qed

lemma triple_then:
  assumes "triple P m (good R)" "\<And>v. R v \<Longrightarrow> triple P (k v) any"
  shows "triple P (bind_c m k) any"
proof -
  have "triple P (bind_c m k) (good any)" by (rule triple_bind_c [OF assms(1)]) (simp add: assms(2))
  then show ?thesis by simp
qed

lemma triple_then_any: "triple P m any \<Longrightarrow> (\<And>v. triple P (k v) any) \<Longrightarrow> triple P (bind_c m k) any"
  by (rule triple_then [where R = any]) simp_all

lemma triple_copy: "mounted fs \<Longrightarrow> triple any (copy W T fs i path k) any"
  unfolding copy_def by (rule triple_always) (rule safe_copy_loop)

lemma triple_finish: "triple any (bind_c (or_failed what m) (\<lambda>_. ok_cli v)) any" if "triple any m any"
  by (rule triple_then [OF triple_or_failed [OF that]]) (rule triple_cli_any)

lemma triple_cleanup: "triple any (bind_s (file_remove T partial) (\<lambda>_. err_cli e)) any"
  by (rule triple_bind [OF triple_io(5)]) (rule triple_cli_any)

lemma triple_read_verb:
  assumes "mounted fs"
  shows "triple any (read_verb W T fs path output) any"
proof -
  have out: "triple any (bind_c (copy W T fs i path Stdout) (\<lambda>_. ok_cli Finished)) any" for i
    by (rule triple_then_any [OF triple_copy [OF assms]]) (rule triple_cli_any)
  have inner: "triple any (bind_s (copy W T fs i path (Into partial)) (\<lambda>r.
      case r of
        Inl e \<Rightarrow> bind_s (file_remove T partial) (\<lambda>_. err_cli e)
      | Inr _ \<Rightarrow> bind_c (or_failed what (file_rename T partial dest)) (\<lambda>_. ok_cli Finished))) any"
    for i partial what and dest :: bytes
    by (rule triple_bind [OF triple_copy [OF assms]])
      (auto split: sum.split intro: triple_cleanup triple_finish triple_io)
  have into: "triple any (bind_c (or_failed what' (file_create T partial)) (\<lambda>_.
      bind_s (copy W T fs i path (Into partial)) (\<lambda>r.
      case r of
        Inl e \<Rightarrow> bind_s (file_remove T partial) (\<lambda>_. err_cli e)
      | Inr _ \<Rightarrow> bind_c (or_failed what (file_rename T partial dest)) (\<lambda>_. ok_cli Finished)))) any"
    for i partial what what' and dest :: bytes
    by (rule triple_then [OF triple_or_failed [OF triple_io(3)]]) (rule inner)
  have "triple any (read_verb W T fs path output) (good any)"
    unfolding read_verb_def Let_def
    by (rule triple_bind_c [OF triple_on_caches [OF triple_within [OF triple_lookup_path [OF assms]]]])
      (auto split: file_type.split option.split intro: out into triple_cli_any)
  then show ?thesis by simp
qed

lemma triple_and_next: "triple P m any \<Longrightarrow> triple P n any \<Longrightarrow> triple P (and_next m n) any"
  unfolding and_next_def by (erule triple_bind) (auto split: option.split intro: triple_ret)

lemma triple_xattr_verb:
  assumes "mounted fs"
  shows "triple any (xattr_verb W T fs path name output) any"
proof -
  have saved: "triple any (bind_s (and_next (file_create T partial)
        (and_next (write_all T (Into partial) val) (file_rename T partial dest))) (\<lambda>r.
      case r of
        None \<Rightarrow> ok_cli Finished
      | Some e \<Rightarrow> bind_s (file_remove T partial) (\<lambda>_. err_cli (er e)))) any" for partial val er and dest :: bytes
    by (rule triple_bind [OF triple_and_next [OF triple_io(3) triple_and_next [OF triple_io(1,4)]]])
      (auto split: option.split intro: triple_cli_any triple_cleanup)
  have get: "triple any (bind_c (on_caches (within path (get_xattr W fs i name))) k) any"
    if "\<And>v. triple any (k v) any" for i name and k :: "bytes option \<Rightarrow> (('a, 'b) proc, outcome) cli"
    by (rule triple_then [OF triple_on_caches [OF triple_within [OF triple_get_xattr]]]) (rule that)
  have lst: "triple any (bind_c (on_caches (within path (list_xattrs W fs i))) k) any"
    if "\<And>v. triple any (k v) any" for i and k :: "xattr_entry list \<Rightarrow> (('a, 'b) proc, outcome) cli"
    by (rule triple_then [OF triple_on_caches [OF triple_within [OF triple_list_xattrs]]]) (rule that)
  have "triple any (xattr_verb W T fs path name output) (good any)"
    unfolding xattr_verb_def Let_def
    by (rule triple_bind_c [OF triple_on_caches [OF triple_within [OF triple_lookup_path [OF assms]]]])
      (auto split: option.split intro!: get lst saved triple_finish triple_and_next triple_io triple_cli_any)
  then show ?thesis by simp
qed

lemma triple_open_target: "triple any (open_target W T target offset) (good mounted)"
  unfolding triple_def
proof (intro allI impI)
  fix s :: "('a, 'b) proc"
  have o: "safe (open_image W dev)" "open_image W dev = Ok (fs, c) \<Longrightarrow> mounted fs" for dev fs c
    using safe_open open_mounted by (auto simp: open_image_def)
  show "safe (fst (open_target W T target offset s)) \<and> True \<and>
      (\<forall>v. fst (open_target W T target offset s) = Ok v \<longrightarrow> good mounted v)"
    unfolding open_target_def Let_def
    using o(1) [unfolded safe_def] o(2)
    by (auto simp: err_cli_def ok_cli_def ret_s_def safe_def split: sum.split fault.split prod.split)
qed

text \<open>\<open>ls\<close>, \<open>stat\<close>, \<open>read\<close>, \<open>xattr\<close>, \<open>get\<close> and the verbs refused: what \<open>export\<close> does is \<open>fs_core\<close>'s.\<close>

definition verbs :: "string list" where
  "verbs = [''ls'', ''stat'', ''read'', ''xattr'', ''get'', ''info''] @ MUTATIONS"

lemma triple_run:
  assumes "ar_verb a \<in> set verbs"
  shows "triple any (run W T X a) any"
proof -
  have opened: "triple any (bind_c (open_target W T target offset) k) any"
    if "\<And>fs. mounted fs \<Longrightarrow> triple any (k fs) any" for target offset
      and k :: "filesystem \<Rightarrow> (('a, 'b) proc, outcome) cli"
    by (rule triple_then [OF triple_open_target]) (rule that)
  have any: "triple any m (good any) \<Longrightarrow> triple any m any" for m :: "(('a, 'b) proc, outcome) cli" by simp
  show ?thesis
    unfolding run_def Let_def
    using assms
    by (intro triple_if opened triple_on_caches triple_ret triple_read_verb triple_xattr_verb triple_cli_any
        any [OF triple_ls_recursive] triple_ls [simplified] triple_stat [simplified])
      (auto simp: verbs_def MUTATIONS_def)
qed

text \<open>The adapters \<open>export\<close> hands to the shared transfer.\<close>

lemma safe_source_read_at: "mounted fs \<Longrightarrow> safe (fst (source_read_at W fs i path offset buf c))"
  using safe_read_file [of fs W i offset c buf]
  by (auto simp: source_read_at_def safe_def mounted_def bsize_def unat_gt_0 split: prod.split sum.split fault.split)

section \<open>Copies\<close>

text \<open>Everything but the sink is as it was; a file that was there is there.\<close>

fun outside_same :: "sink \<Rightarrow> ('c, 'd) proc \<Rightarrow> ('c, 'd) proc \<Rightarrow> bool" where
  "outside_same Stdout s t \<longleftrightarrow> pr_files t = pr_files s"
| "outside_same (Into f) s t \<longleftrightarrow>
     pr_stdout t = pr_stdout s \<and> (\<forall>g. g \<noteq> f \<longrightarrow> pr_files t g = pr_files s g) \<and>
     (pr_files s f \<noteq> None \<longrightarrow> pr_files t f \<noteq> None)"

lemma outside_same_simps [simp]:
  "outside_same k s s" "outside_same k s (s\<lparr>pr_caches := c\<rparr>)" "outside_same k s t \<Longrightarrow> outside_same k s (sink_put k b t)"
  "outside_same k (s\<lparr>pr_caches := c\<rparr>) t = outside_same k s t"
  "outside_same k s t \<Longrightarrow> outside_same k t u \<Longrightarrow> outside_same k s u"
  by (cases k; simp)+

lemma sunk_simps [simp]:
  "sunk k (s\<lparr>pr_caches := c\<rparr>) = sunk k s" "sunk k (sink_put k b s) = b"
  "pr_caches (sink_put k b s) = pr_caches s"
  by (cases k; simp)+

lemma write_all_effect:
  assumes "or_failed what (write_all T k bs) s = (r, t)"
  shows "\<exists>v n. r = Ok v \<and> t = sink_put k (sunk k s @ take n bs) s \<and>
    (v = Inr () \<longrightarrow> length bs \<le> n) \<and> (tl_write T (sunk k s) bs = None \<longrightarrow> v = Inr ())"
proof (cases "tl_write T (sunk k s) bs")
  case None
  with assms show ?thesis
    by (intro exI [of _ "Inr ()"] exI [of _ "length bs"])
      (auto simp: or_failed_def write_all_def bind_s_def ok_cli_def ret_s_def)
next
  case (Some p)
  with assms show ?thesis
    by (cases p) (auto simp: or_failed_def write_all_def bind_s_def err_cli_def ret_s_def)
qed

lemma flush_effect:
  "or_failed what (flush T k) s = (Ok (case tl_flush T (sunk k s) of
     None \<Rightarrow> Inr () | Some e \<Rightarrow> Inl (Failed (what @ text_of '': '' @ e))), s)"
  by (simp add: or_failed_def flush_def bind_s_def ok_cli_def err_cli_def ret_s_def split: option.split)

text \<open>Only the sink is written, on any image.\<close>

lemma copy_loop_outside:
  "copy_loop W T fs i path k offset buf s = (r, t) \<Longrightarrow> outside_same k s t"
proof (induction W T fs i path k offset buf s arbitrary: r t rule: copy_loop.induct)
  case (1 W T fs i path k offset buf s)
  note unfold = copy_loop.simps [of W T fs i path k offset buf s]
  show ?case
  proof (cases "offset < in_file_size i")
    case False
    with 1(2) show ?thesis by (auto simp: unfold flush_effect)
  next
    case True
    let ?want = "min (length buf) (unat (in_file_size i - offset))"
    obtain q c b' where rd: "read_file W fs i offset (pr_caches s) (take ?want buf) = (q, c, b')"
      by (metis prod_cases3)
    show ?thesis
    proof (cases "\<exists>got bs. q = Ok got \<and> got \<noteq> 0 \<and> slice_to (b' @ drop ?want buf) got = Ok bs")
      case False
      with rd True 1(2) show ?thesis
        by (cases q) (auto simp: unfold Let_def err_cli_def ret_s_def split: fault.splits if_splits sum.splits)
    next
      case True
      then obtain got bs where got: "q = Ok got" "got \<noteq> 0" "slice_to (b' @ drop ?want buf) got = Ok bs"
        by blast
      obtain w s' where w: "or_failed (text_of ''write'') (write_all T k bs) (s\<lparr>pr_caches := c\<rparr>) = (w, s')"
        by (rule prod.exhaust)
      from write_all_effect [OF w] obtain v n where v: "w = Ok v"
        "s' = sink_put k (sunk k s @ take n bs) (s\<lparr>pr_caches := c\<rparr>)" by auto
      have o: "outside_same k s s'" using v(2) by simp
      show ?thesis
      proof (cases v)
        case (Inl e)
        with 1(2) \<open>offset < in_file_size i\<close> rd got w v o show ?thesis
          by (simp add: unfold Let_def err_cli_def ret_s_def)
      next
        case (Inr u)
        with 1(2) \<open>offset < in_file_size i\<close> rd got w v(1)
        have "copy_loop W T fs i path k (offset + of_nat got) (b' @ drop ?want buf) s' = (r, t)"
          by (simp add: unfold Let_def)
        from 1(1) [OF \<open>offset < in_file_size i\<close> refl rd [symmetric] got(1) refl refl refl got(2,3)
            w [symmetric] v(1) Inr this] o
        show ?thesis by (rule outside_same_simps(5) [rotated])
      qed
    qed
  qed
qed

text \<open>A stored file's copy is a prefix of it; all of it when the copy succeeds, which it does when the
  sink takes what it is given.\<close>

definition sink_works :: "tool \<Rightarrow> bool" where
  "sink_works T \<longleftrightarrow> (\<forall>c b. tl_write T c b = None) \<and> (\<forall>c. tl_flush T c = None)"

lemma take_drop_join: "take a xs @ take b (drop a xs) = take (a + b) xs"
  by (simp add: take_add)

lemma copy_loop_stored:
  assumes "file_stored W fs i data"
  shows "caches_ok W fs (pr_caches s) \<Longrightarrow> unat offset \<le> length data \<Longrightarrow>
    (offset < in_file_size i \<Longrightarrow> buf \<noteq> []) \<Longrightarrow>
    \<exists>v n t. copy_loop W T fs i path k offset buf s = (Ok v, t) \<and>
      sunk k t = sunk k s @ take n (drop (unat offset) data) \<and> caches_ok W fs (pr_caches t) \<and>
      (v = Inr () \<longrightarrow> length data \<le> unat offset + n) \<and> (sink_works T \<longrightarrow> v = Inr ())"
  using assms
proof (induction W T fs i path k offset buf s rule: copy_loop.induct)
  case (1 W T fs i path k offset buf s)
  note unfold = copy_loop.simps [of W T fs i path k offset buf s]
  have len: "length data = unat (in_file_size i)" using 1(5) by (simp add: file_stored_def)
  show ?case
  proof (cases "offset < in_file_size i")
    case False
    then have "length data \<le> unat offset" using len by (simp add: word_less_nat_alt)
    with False 1(2) show ?thesis
      by (intro exI [of _ "case tl_flush T (sunk k s) of None \<Rightarrow> Inr () | Some e \<Rightarrow> Inl (Failed (text_of ''write'' @ text_of '': '' @ e))"] exI [of _ 0] exI [of _ s])
        (auto simp: unfold flush_effect sink_works_def)
  next
    case True
    then have lt: "unat offset < length data" using len by (simp add: word_less_nat_alt)
    have rest: "unat (in_file_size i - offset) = length data - unat offset"
      using True len by (simp add: unat_sub less_imp_le)
    define want where "want = min (length buf) (unat (in_file_size i - offset))"
    have want: "0 < want" "want \<le> length data - unat offset" "want \<le> length buf"
      using 1(4) [OF True] lt rest by (auto simp: want_def)
    let ?bs = "take want (drop (unat offset) data)"
    have l: "length (take want buf) = want" using want(3) by simp
    have m: "min want (length data - unat offset) = want" using want(2) by simp
    have e: "drop (length data - unat offset) (take want buf) = []" using want by simp
    from read_file_stored [OF 1(5,2), of offset "take want buf", unfolded l m e append_Nil2] obtain c where
      rd: "read_file W fs i offset (pr_caches s) (take want buf) = (Ok want, c, ?bs)" "caches_ok W fs c"
      by blast
    have lb: "length ?bs = want" using want(2) by simp
    then have sl: "slice_to (?bs @ drop want buf) want = Ok ?bs" by (simp add: slice_to_def)
    obtain w s' where w: "or_failed (text_of ''write'') (write_all T k ?bs) (s\<lparr>pr_caches := c\<rparr>) = (w, s')"
      by (rule prod.exhaust)
    from write_all_effect [OF w, unfolded sunk_simps(1)] obtain v n where v: "w = Ok v"
      "s' = sink_put k (sunk k s @ take n ?bs) (s\<lparr>pr_caches := c\<rparr>)" "v = Inr () \<longrightarrow> length ?bs \<le> n"
      and wr: "tl_write T (sunk k s) ?bs = None \<longrightarrow> v = Inr ()"
      by (elim exE conjE) (rule that)
    have works: "sink_works T \<longrightarrow> v = Inr ()" using wr by (simp add: sink_works_def)
    show ?thesis
    proof (cases v)
      case (Inl e)
      have "copy_loop W T fs i path k offset buf s = (Ok (Inl e), s')"
        using True rd(1) want(1) sl w v(1) Inl
        by (simp add: unfold Let_def err_cli_def ret_s_def flip: want_def)
      then show ?thesis
        using v rd(2) Inl works by (intro exI [of _ "Inl e"] exI [of _ "min n want"] exI [of _ s']) simp
    next
      case (Inr u)
      note pos = copy_position [OF rd(1) True]
      have s': "sunk k s' = sunk k s @ ?bs" "caches_ok W fs (pr_caches s')"
        using v(2,3) Inr rd(2) lb by (simp_all add: min_absorb2)
      have ih: "\<exists>v n t. copy_loop W T fs i path k (offset + of_nat want) (?bs @ drop want buf) s' = (Ok v, t) \<and>
          sunk k t = sunk k s' @ take n (drop (unat (offset + of_nat want)) data) \<and> caches_ok W fs (pr_caches t) \<and>
          (v = Inr () \<longrightarrow> length data \<le> unat (offset + of_nat want) + n) \<and> (sink_works T \<longrightarrow> v = Inr ())"
      proof (rule 1(1) [OF True want_def rd(1) [symmetric] refl refl refl refl _ sl w [symmetric] v(1) Inr s'(2) _ _ 1(5)])
        show "want \<noteq> 0" using want(1) by simp
        show "unat (offset + of_nat want) \<le> length data" using pos len by simp
        show "?bs @ drop want buf \<noteq> []" using lb want(1) by (metis append_is_Nil_conv length_0_conv less_irrefl)
      qed
      then obtain v2 n2 t where t:
        "copy_loop W T fs i path k (offset + of_nat want) (?bs @ drop want buf) s' = (Ok v2, t)"
        "sunk k t = sunk k s' @ take n2 (drop (unat offset + want) data)" "caches_ok W fs (pr_caches t)"
        "v2 = Inr () \<longrightarrow> length data \<le> unat offset + want + n2" "sink_works T \<longrightarrow> v2 = Inr ()"
        unfolding pos(1) by blast
      have "copy_loop W T fs i path k offset buf s = (Ok v2, t)"
        using True rd(1) want(1) sl w v(1) Inr t(1) by (simp add: unfold Let_def flip: want_def)
      moreover have "sunk k t = sunk k s @ take (want + n2) (drop (unat offset) data)"
        unfolding t(2) s'(1) by (simp only: take_add drop_drop append_assoc add.commute [of "unat offset" want])
      ultimately show ?thesis
        using t(3-5) by (intro exI [of _ v2] exI [of _ "want + n2"] exI [of _ t]) (simp add: add.assoc)
    qed
  qed
qed

lemma bind_c_run:
  "bind_c m k s =
    (case m s of
       (Inl f, t) \<Rightarrow> (Inl f, t)
     | (Inr (Inl e), t) \<Rightarrow> (Ok (Inl e), t)
     | (Inr (Inr v), t) \<Rightarrow> k v t)"
  by (auto simp: bind_c_def bind_s_def err_cli_def ret_s_def split: prod.split sum.split)

lemma lookup_verb:
  assumes "resolves W fs path i" "caches_ok W fs (pr_caches s)"
  shows "\<exists>c. on_caches (within path (lookup_path_bytes W fs path)) s = (Ok (Inr i), s\<lparr>pr_caches := c\<rparr>) \<and>
    caches_ok W fs c"
proof -
  obtain r c where l: "lookup_path_bytes W fs path (pr_caches s) = (r, c)" by (rule prod.exhaust)
  with assms lookup_keeps [OF assms(2), of path] have "r = Ok i" "caches_ok W fs c"
    by (auto simp: resolves_def)
  with l show ?thesis
    by (auto simp: on_caches_def within_def attempt_def bind_s_def ok_cli_def ret_s_def)
qed

lemma copy_stored:
  assumes "file_stored W fs i data" "caches_ok W fs (pr_caches s)"
  shows "\<exists>v n t. copy W T fs i path k s = (Ok v, t) \<and> sunk k t = sunk k s @ take n data \<and>
    caches_ok W fs (pr_caches t) \<and> (v = Inr () \<longrightarrow> length data \<le> n) \<and> (sink_works T \<longrightarrow> v = Inr ())"
proof -
  let ?buf = "replicate (min CHUNK (unat (in_file_size i))) 0 :: bytes"
  have "0 < in_file_size i \<Longrightarrow> ?buf \<noteq> []" by (simp add: CHUNK_def unat_gt_0)
  from copy_loop_stored [OF assms(1,2), of 0 ?buf T path k] this show ?thesis
    unfolding copy_def by (simp only: unsigned_0 drop_0 add_0 le0 simp_thms)
qed

lemma copy_outside: "copy W T fs i path k s = (r, t) \<Longrightarrow> outside_same k s t"
  unfolding copy_def by (rule copy_loop_outside)

lemma read_to_stdout:
  assumes "file_stored W fs i data" "resolves W fs path i" "caches_ok W fs (pr_caches s)"
  shows "\<exists>r n t. read_verb W T fs path None s = (Ok r, t) \<and> pr_files t = pr_files s \<and>
    pr_stdout t = pr_stdout s @ take n data \<and> (r = Inr Finished \<longrightarrow> length data \<le> n) \<and>
    (sink_works T \<longrightarrow> r = Inr Finished)"
proof -
  have reg: "file_type_of i = RegFile" using assms(1) by (simp add: file_stored_def is_regular_file_def)
  from lookup_verb [OF assms(2,3)] obtain c where
    l: "on_caches (within path (lookup_path_bytes W fs path)) s = (Ok (Inr i), s\<lparr>pr_caches := c\<rparr>)"
    "caches_ok W fs c" by blast
  from copy_stored [OF assms(1), of "s\<lparr>pr_caches := c\<rparr>" T path Stdout] l(2) obtain v n t where
    cp: "copy W T fs i path Stdout (s\<lparr>pr_caches := c\<rparr>) = (Ok v, t)" "pr_stdout t = pr_stdout s @ take n data"
    "v = Inr () \<longrightarrow> length data \<le> n" "sink_works T \<longrightarrow> v = Inr ()" by auto
  have out: "pr_files t = pr_files s" using copy_outside [OF cp(1)] by simp
  show ?thesis
  proof (cases v)
    case (Inl e)
    with l(1) reg cp out show ?thesis
      by (intro exI [of _ "Inl e"] exI [of _ n] exI [of _ t]) (simp add: read_verb_def bind_c_run)
  next
    case (Inr u)
    with l(1) reg cp out show ?thesis
      by (intro exI [of _ "Inr Finished"] exI [of _ n] exI [of _ t])
        (simp add: read_verb_def bind_c_run ok_cli_def ret_s_def)
  qed
qed

text \<open>The steps of a copy to a file, and what each leaves of the other files.\<close>

lemma create_effect:
  "or_failed what (file_create T f) s =
    (case tl_create T f of
       Some e \<Rightarrow> (Ok (Inl (Failed (what @ text_of '': '' @ e))), s)
     | None \<Rightarrow> (Ok (Inr ()), s\<lparr>pr_files := (pr_files s)(f \<mapsto> [])\<rparr>))"
  by (simp add: or_failed_def file_create_def bind_s_def ok_cli_def err_cli_def ret_s_def split: option.split)

lemma rename_effect:
  "or_failed what (file_rename T from to_file) s =
    (case tl_rename T from to_file of
       Some e \<Rightarrow> (Ok (Inl (Failed (what @ text_of '': '' @ e))), s)
     | None \<Rightarrow> (Ok (Inr ()), s\<lparr>pr_files := (pr_files s)(to_file := pr_files s from, from := None)\<rparr>))"
  by (simp add: or_failed_def file_rename_def bind_s_def ok_cli_def err_cli_def ret_s_def split: option.split)

lemma partial_differs [simp]: "partial_name f \<noteq> f" "f \<noteq> partial_name f"
  by (simp_all add: partial_name_def text_of_def)

text \<open>A destination is untouched until the rename, and the rename is the last step.\<close>

definition untouched :: "bytes \<Rightarrow> ('c, 'd) proc \<Rightarrow> ('c, 'd) proc \<Rightarrow> bool" where
  "untouched to_file s t \<longleftrightarrow>
     pr_stdout t = pr_stdout s \<and> (\<forall>g. g \<noteq> partial_name to_file \<longrightarrow> pr_files t g = pr_files s g)"

definition replaced :: "bytes \<Rightarrow> ('c, 'd) proc \<Rightarrow> ('c, 'd) proc \<Rightarrow> bool" where
  "replaced to_file s t \<longleftrightarrow>
     pr_stdout t = pr_stdout s \<and> pr_files t (partial_name to_file) = None \<and>
     (\<forall>g. g \<noteq> partial_name to_file \<and> g \<noteq> to_file \<longrightarrow> pr_files t g = pr_files s g)"

lemma read_to_file:
  assumes "read_verb W T fs path (Some to_file) s = (r, t)"
  shows "case r of Inr (Inr _) \<Rightarrow> replaced to_file s t | _ \<Rightarrow> untouched to_file s t"
proof -
  let ?p = "partial_name to_file"
  obtain q s1 where l: "on_caches (within path (lookup_path_bytes W fs path)) s = (q, s1)" by (rule prod.exhaust)
  then have s1: "s1 = s\<lparr>pr_caches := pr_caches s1\<rparr>" by (auto simp: on_caches_def split: prod.splits)
  have u1: "untouched to_file s s1" by (subst s1) (simp add: untouched_def)
  show ?thesis
  proof (cases "\<exists>i. q = Ok (Inr i) \<and> file_type_of i = RegFile \<and> tl_create T ?p = None")
    case False
    have "t = s1 \<and> (\<forall>v. r \<noteq> Ok (Inr v))"
    proof (cases "\<exists>i. q = Ok (Inr i)")
      case True
      then obtain i where "q = Ok (Inr i)" by blast
      with assms l \<open>\<not> (\<exists>i. _ i)\<close> show ?thesis
        by (cases "file_type_of i")
          (auto simp: read_verb_def bind_c_run err_cli_def ret_s_def Let_def create_effect split: option.splits)
    next
      case False
      with assms l show ?thesis
        by (cases q; cases "projr q") (auto simp: read_verb_def bind_c_run)
    qed
    with u1 show ?thesis by (auto split: sum.split)
  next
    case True
    then obtain i where i: "q = Ok (Inr i)" "file_type_of i = RegFile" "tl_create T ?p = None" by blast
    let ?s2 = "s1\<lparr>pr_files := (pr_files s1)(?p \<mapsto> [])\<rparr>"
    obtain v s3 where cp: "copy W T fs i path (Into ?p) ?s2 = (v, s3)" by (rule prod.exhaust)
    from copy_outside [OF cp] u1 have u3: "untouched to_file s s3" by (simp add: untouched_def)
    have run: "read_verb W T fs path (Some to_file) s =
      (case v of
         Inl f \<Rightarrow> (Inl f, s3)
       | Inr (Inl e) \<Rightarrow> bind_s (file_remove T ?p) (\<lambda>_. err_cli e) s3
       | Inr (Inr _) \<Rightarrow>
           bind_c (or_failed (text_of ''rename to '' @ show_bytes to_file) (file_rename T ?p to_file))
             (\<lambda>_. ok_cli Finished) s3)"
      using i l cp by (simp add: read_verb_def bind_c_run Let_def create_effect bind_s_def split: sum.split)
    show ?thesis
    proof (cases v)
      case (Inl f)
      with run assms u3 show ?thesis by simp
    next
      case (Inr w)
      show ?thesis
      proof (cases w)
        case (Inl e)
        with Inr run assms u3 show ?thesis
          by (auto simp: file_remove_def change_def bind_s_def err_cli_def ret_s_def untouched_def)
      next
        case (Inr x)
        with \<open>v = Ok w\<close> run assms u3 show ?thesis
          by (cases "tl_rename T ?p to_file")
            (auto simp: bind_c_run rename_effect ok_cli_def ret_s_def untouched_def replaced_def)
      qed
    qed
  qed
qed

lemma read_to_file_stored:
  assumes "file_stored W fs i data" "resolves W fs path i" "caches_ok W fs (pr_caches s)"
    and "read_verb W T fs path (Some to_file) s = (Ok (Inr v), t)"
  shows "pr_files t to_file = Some data"
proof -
  let ?p = "partial_name to_file"
  have reg: "file_type_of i = RegFile" using assms(1) by (simp add: file_stored_def is_regular_file_def)
  from lookup_verb [OF assms(2,3)] obtain c where
    l: "on_caches (within path (lookup_path_bytes W fs path)) s = (Ok (Inr i), s\<lparr>pr_caches := c\<rparr>)"
    "caches_ok W fs c" by blast
  let ?s2 = "s\<lparr>pr_caches := c, pr_files := (pr_files s)(?p \<mapsto> [])\<rparr>"
  from assms(4) l(1) reg have cr: "tl_create T ?p = None"
    by (cases "tl_create T ?p") (auto simp: read_verb_def bind_c_run Let_def create_effect)
  from copy_stored [OF assms(1), of ?s2 T path "Into ?p"] l(2) obtain w n s3 where
    cp: "copy W T fs i path (Into ?p) ?s2 = (Ok w, s3)" "sunk (Into ?p) s3 = take n data"
    "w = Inr () \<longrightarrow> length data \<le> n" by auto
  have run: "read_verb W T fs path (Some to_file) s =
    (case w of
       Inl e \<Rightarrow> bind_s (file_remove T ?p) (\<lambda>_. err_cli e) s3
     | Inr _ \<Rightarrow>
         bind_c (or_failed (text_of ''rename to '' @ show_bytes to_file) (file_rename T ?p to_file))
           (\<lambda>_. ok_cli Finished) s3)"
    using l(1) reg cr cp(1)
    by (simp add: read_verb_def bind_c_run Let_def create_effect bind_s_def split: sum.split)
  have w: "w = Inr ()"
    using assms(4) run by (cases w) (auto simp: bind_s_def file_remove_def change_def err_cli_def ret_s_def)
  with assms(4) run have "pr_files t to_file = pr_files s3 ?p"
    by (auto simp: bind_c_run rename_effect ok_cli_def ret_s_def split: option.splits)
  moreover have "sunk (Into ?p) s3 = data" using cp(2,3) w by simp
  moreover have "pr_files s3 ?p \<noteq> None" using copy_outside [OF cp(1)] by simp
  ultimately show ?thesis by (auto split: option.splits)
qed

section \<open>Recursive listings\<close>

lemma text_of_inject [simp]: "text_of a = text_of b \<longleftrightarrow> a = b"
proof -
  have "unat (of_char c :: u8) = of_char c" for c :: char
  proof -
    have "(of_char c :: nat) mod 256 = of_char c" by (rule of_char_mod_256)
    then have "take_bit 8 (of_char c :: nat) = of_char c" by (simp add: take_bit_eq_mod)
    then show ?thesis by (simp add: unat_of_nat flip: of_nat_of_char [where 'a = u8])
  qed
  then have "inj (of_char :: char \<Rightarrow> u8)" by (intro injI) (metis of_char_eq_iff)
  then show ?thesis by (simp add: text_of_def inj_map_eq_map)
qed

definition json_field :: "string \<Rightarrow> json \<Rightarrow> json option" where
  "json_field k e = (case e of Obj fs \<Rightarrow> map_of fs (text_of k) | _ \<Rightarrow> None)"

lemma recursive_entry_fields [simp]:
  "json_field ''type'' (recursive_entry p d i r) = Some (Str (text_of (type_name (file_type_of i))))"
  "json_field ''inode'' (recursive_entry p d i r) = Some (Num (uint (in_number i)))"
  "json_field ''depth'' (recursive_entry p d i r) = Some (Num (uint d))"
  "json_field ''path'' (recursive_entry p d i r) = Some (Str (show_bytes p))"
  "json_field ''revisited'' (recursive_entry p d i r) = (if r then Some (Bool True) else None)"
  by (simp_all add: json_field_def recursive_entry_def entry_fields_def named_def kind_fields_def
      split: file_type.split)

text \<open>The directory an entry says was entered, by inode number.\<close>

definition entered :: "json \<Rightarrow> int list" where
  "entered e =
     (if json_field ''type'' e = Some (Str (text_of ''dir'')) \<and> json_field ''revisited'' e = None
      then (case json_field ''inode'' e of Some (Num n) \<Rightarrow> [n] | _ \<Rightarrow> []) else [])"

lemma entered_recursive:
  "entered (recursive_entry p d i r) = (if is_dir i \<and> \<not> r then [uint (in_number i)] else [])"
  by (cases "file_type_of i") (simp_all add: entered_def is_dir_def text_of_def)

text \<open>An entry's depth is inside the bound.\<close>

definition within_depth :: "u64 \<Rightarrow> json \<Rightarrow> bool" where
  "within_depth md e \<longleftrightarrow> (case json_field ''depth'' e of Some (Num d) \<Rightarrow> d \<le> uint md | _ \<Rightarrow> False)"

text \<open>What one child does to the walk: nothing, or an entry inside both bounds.\<close>

lemma tour_child_effect:
  assumes "tour_child W fs md lim parent pd child st = (r, st')"
  shows "snd st' = snd st \<or>
    (\<exists>full depth i stack. \<not> lim \<le> of_nat (length (to_entries (snd st))) \<and> depth \<le> md \<and>
      snd st' = (snd st)
        \<lparr>to_visited := (if is_dir i then insert (in_number i) (to_visited (snd st)) else to_visited (snd st)),
         to_entries := to_entries (snd st) @
           [recursive_entry full depth i (is_dir i \<and> in_number i \<in> to_visited (snd st))],
         to_stack := stack\<rparr>)"
proof -
  let ?full = "child_path parent (de_name child)"
  obtain q c where i: "within ?full (read_inode W fs (de_inode_ref child)) (fst st) = (q, c)"
    by (rule prod.exhaust)
  show ?thesis
  proof (cases "lim \<le> of_nat (length (to_entries (snd st))) \<or> md < pd + 1 \<or> \<not> (\<exists>i. q = Ok (Inr i))")
    case True
    with assms i have "snd st' = snd st"
      by (cases q; cases "projr q")
        (auto simp: tour_child_def Let_def bind_c_run bind_s_def read_s_def on_left_def err_cli_def ret_s_def
          split: if_splits)
    then show ?thesis ..
  next
    case False
    then obtain i where q: "q = Ok (Inr i)" by blast
    let ?t = "(snd st)
        \<lparr>to_visited := (if is_dir i then insert (in_number i) (to_visited (snd st)) else to_visited (snd st)),
         to_entries := to_entries (snd st) @
           [recursive_entry ?full (pd + 1) i (is_dir i \<and> in_number i \<in> to_visited (snd st))]\<rparr>"
    obtain w d where ch: "children W fs i ?full c = (w, d)" by (rule prod.exhaust)
    have "\<exists>stack. snd st' = ?t\<lparr>to_stack := stack\<rparr>"
    proof (cases "is_dir i \<and> in_number i \<notin> to_visited (snd st) \<and> (\<exists>cs. w = Ok (Inr cs))")
      case True
      then obtain cs where "w = Ok (Inr cs)" by blast
      with assms i q False ch True show ?thesis
        by (intro exI [of _ "(?full, pd + 1, cs) # to_stack (snd st)"])
          (auto simp: tour_child_def Let_def bind_c_run bind_s_def read_s_def on_left_def on_right_def
            ok_cli_def ret_s_def)
    next
      case other: False
      have "snd st' = ?t"
        using assms i q False ch other
        by (cases w; cases "projr w")
          (auto simp: tour_child_def Let_def bind_c_run bind_s_def read_s_def on_left_def on_right_def
            ok_cli_def ret_s_def split: if_splits)
      then show ?thesis by (intro exI [of _ "to_stack (snd st)"]) simp
    qed
    with False show ?thesis by (intro disjI2) (fastforce simp: not_less)
  qed
qed

text \<open>The walk's invariant, over the directory it starts from.\<close>

definition tour_ok :: "u64 \<Rightarrow> u64 \<Rightarrow> u32 \<Rightarrow> tour \<Rightarrow> bool" where
  "tour_ok md lim start t \<longleftrightarrow>
     length (to_entries t) \<le> unat lim \<and>
     (\<forall>e \<in> set (to_entries t). within_depth md e) \<and>
     start \<in> to_visited t \<and> distinct (uint start # concat (map entered (to_entries t))) \<and>
     set (concat (map entered (to_entries t))) \<subseteq> uint ` to_visited t"

lemma tour_ok_entry:
  assumes "tour_ok md lim start t" "\<not> lim \<le> of_nat (length (to_entries t))" "depth \<le> md"
  shows "tour_ok md lim start (t
    \<lparr>to_visited := (if is_dir i then insert (in_number i) (to_visited t) else to_visited t),
     to_entries := to_entries t @ [recursive_entry full depth i (is_dir i \<and> in_number i \<in> to_visited t)],
     to_stack := stack\<rparr>)"
proof -
  have le: "length (to_entries t) \<le> unat lim" using assms(1) by (simp add: tour_ok_def)
  then have "length (to_entries t) < 2 ^ 64" using unat_u64_less [of lim] by linarith
  then have u: "unat (of_nat (length (to_entries t)) :: u64) = length (to_entries t)"
    by (simp add: unat_of_nat take_bit_nat_eq_self)
  have "length (to_entries t) < unat lim" using assms(2) u by (simp add: word_le_nat_alt)
  moreover have "uint (in_number i) \<notin> uint ` to_visited t" if "in_number i \<notin> to_visited t"
    using that by (auto dest: word_uint_eq_iff [THEN iffD2])
  ultimately show ?thesis
    using assms(1,3)
    by (auto simp: tour_ok_def entered_recursive within_depth_def word_le_def dest: word_uint_eq_iff [THEN iffD2])
qed

lemma tour_ok_step:
  assumes "tour_step W fs md lim st = (r, st')" "tour_ok md lim start (snd st)"
  shows "tour_ok md lim start (snd st')"
proof -
  have stack: "tour_ok md lim start (t\<lparr>to_stack := x\<rparr>) = tour_ok md lim start t" for t x
    by (simp add: tour_ok_def)
  show ?thesis
  proof (cases "to_stack (snd st)")
    case Nil
    with assms show ?thesis by (simp add: tour_step_def ok_cli_def ret_s_def)
  next
    case (Cons f rest)
    obtain parent pd cs where f: "f = (parent, pd, cs)" by (rule prod_cases3)
    show ?thesis
    proof (cases cs)
      case Nil
      with assms Cons f show ?thesis
        by (auto simp: tour_step_def bind_s_def on_right_def ok_cli_def ret_s_def stack)
    next
      case (Cons child later)
      define t where "t = (snd st)\<lparr>to_stack := (parent, pd, later) # rest\<rparr>"
      have ch: "tour_child W fs md lim parent pd child (fst st, t) = (r, st')"
        using assms(1) \<open>to_stack (snd st) = f # rest\<close> f Cons
        by (simp add: tour_step_def bind_s_def on_right_def t_def)
      have ok: "tour_ok md lim start t" using assms(2) by (simp add: stack t_def)
      from tour_child_effect [OF ch, unfolded snd_conv] show ?thesis
      proof (elim disjE exE conjE)
        assume "snd st' = t"
        with ok show ?thesis by simp
      next
        fix full depth i x
        assume b: "\<not> lim \<le> of_nat (length (to_entries t))" "depth \<le> md"
          and e: "snd st' = t
            \<lparr>to_visited := (if is_dir i then insert (in_number i) (to_visited t) else to_visited t),
             to_entries := to_entries t @ [recursive_entry full depth i (is_dir i \<and> in_number i \<in> to_visited t)],
             to_stack := x\<rparr>"
        show ?thesis unfolding e by (rule tour_ok_entry [OF ok b])
      qed
    qed
  qed
qed

lemma tour_ok_loop:
  "tour_loop W fs md lim st = (r, st') \<Longrightarrow> tour_ok md lim start (snd st) \<Longrightarrow> tour_ok md lim start (snd st')"
proof (induction W fs md lim st arbitrary: r st' rule: tour_loop.induct)
  case (1 W fs md lim st)
  note unfold = tour_loop.simps [of W fs md lim st]
  show ?case
  proof (cases "to_stack (snd st) = []")
    case True
    with 1(2,3) show ?thesis by (auto simp: unfold ok_cli_def ret_s_def)
  next
    case False
    obtain q st1 where s: "tour_step W fs md lim st = (q, st1)" by (rule prod.exhaust)
    note ok = tour_ok_step [OF s 1(3)]
    show ?thesis
    proof (cases "\<exists>u. q = Ok (Inr u)")
      case True
      then obtain u where "q = Ok (Inr u)" by blast
      with 1(1) [OF False s [symmetric]] 1(2) False s ok show ?thesis by (auto simp: unfold)
    next
      case no: False
      with 1(2) False s ok show ?thesis
        by (cases q; cases "projr q") (auto simp: unfold err_cli_def ret_s_def)
    qed
  qed
qed

lemma survey_ok:
  assumes "survey W fs md lim full i c = (Ok (es, res), c')"
  shows "length es \<le> unat lim" "\<forall>e \<in> set es. within_depth md e"
    "is_dir i \<Longrightarrow> distinct (uint (in_number i) # concat (map entered es))"
proof -
  have "length es \<le> unat lim \<and> (\<forall>e \<in> set es. within_depth md e) \<and>
    (is_dir i \<longrightarrow> distinct (uint (in_number i) # concat (map entered es)))"
  proof (cases "is_dir i")
    case False
    with assms show ?thesis
      by (cases "lim = 0") (auto simp: survey_def unat_gt_0 Suc_le_eq within_depth_def)
  next
    case True
    obtain q d where ch: "children W fs i full c = (q, d)" by (rule prod.exhaust)
    show ?thesis
    proof (cases "\<exists>first. q = Ok (Inr first)")
      case False
      with True assms ch show ?thesis by (cases q; cases "projr q") (auto simp: survey_def)
    next
      case True
      then obtain first where q: "q = Ok (Inr first)" by blast
      let ?t = "\<lparr>to_visited = {in_number i}, to_stack = [(full, 0, first)], to_entries = []\<rparr>"
      obtain w d' t where lp: "tour_loop W fs md lim (d, ?t) = (w, d', t)" by (metis prod_cases3)
      have "tour_ok md lim (in_number i) ?t" by (simp add: tour_ok_def)
      with tour_ok_loop [OF lp] have "tour_ok md lim (in_number i) t" by simp
      moreover have "es = to_entries t"
        using assms \<open>is_dir i\<close> ch q lp by (cases w) (auto simp: survey_def)
      ultimately show ?thesis by (simp add: tour_ok_def)
    qed
  qed
  then show "length es \<le> unat lim" "\<forall>e \<in> set es. within_depth md e"
    "is_dir i \<Longrightarrow> distinct (uint (in_number i) # concat (map entered es))" by auto
qed

section \<open>Flags\<close>

text \<open>What a name in the report stands for: a flag's bit, or the bits written out.\<close>

definition unhex :: "u8 \<Rightarrow> nat" where
  "unhex d = (if unat d < 58 then unat d - 48 else unat d - 87)"

definition hex_value :: "utf8 \<Rightarrow> nat" where
  "hex_value ds = foldl (\<lambda>n d. 16 * n + unhex d) 0 ds"

definition flag_value :: "json \<Rightarrow> u16" where
  "flag_value j =
     (case j of
        Str t \<Rightarrow>
          (case find (\<lambda>(b, n). text_of n = t) FLAGS of
             Some (b, n) \<Rightarrow> b
           | None \<Rightarrow> of_nat (hex_value (drop 2 t)))
      | _ \<Rightarrow> 0)"

definition flag_bits :: "json \<Rightarrow> u16" where
  "flag_bits j = (case j of Arr names \<Rightarrow> foldr (OR) (map flag_value names) 0 | _ \<Rightarrow> 0)"

lemma unhex_digit: "d < 16 \<Longrightarrow> unhex (hex_digit d) = d"
  by (auto simp: unhex_def hex_digit_def unat_of_nat take_bit_nat_eq_self)

lemma hex_value_fixed:
  assumes "n < 65536"
  shows "hex_value (hex_fixed 4 n) = n"
proof -
  have "[0..<4] = [0, 1, 2, 3 :: nat]" by (simp add: upt_rec)
  then have "hex_fixed 4 n = [hex_digit (n div 4096 mod 16), hex_digit (n div 256 mod 16),
      hex_digit (n div 16 mod 16), hex_digit (n mod 16)]"
    by (simp add: hex_fixed_def)
  then have "hex_value (hex_fixed 4 n) =
      16 * (16 * (16 * (n div 4096 mod 16) + n div 256 mod 16) + n div 16 mod 16) + n mod 16"
    by (simp add: hex_value_def unhex_digit)
  also have "\<dots> = n"
  proof -
    let ?a = "n div 16"
    let ?b = "?a div 16"
    have d: "n div 256 = ?b" "n div 4096 = ?b div 16" by (simp_all flip: div_mult2_eq)
    have "?b div 16 mod 16 = ?b div 16" using assms by simp
    then show ?thesis unfolding d by (simp only: mult_div_mod_eq)
  qed
  finally show ?thesis .
qed

lemma bit_foldr_or: "bit (foldr (OR) ws 0) k \<longleftrightarrow> (\<exists>w \<in> set ws. bit (w :: u16) k)"
  by (induction ws) (auto simp: bit_or_iff)

lemma flag_named: "(b, n) \<in> set FLAGS \<Longrightarrow> flag_value (Str (text_of n)) = b"
proof -
  have find: "distinct (map snd xs) \<Longrightarrow> (b, n) \<in> set xs \<Longrightarrow> find (\<lambda>(b, m). m = n) xs = Some (b, n)"
    for xs :: "(u16 \<times> string) list"
    by (induction xs) (auto simp: rev_image_eqI)
  assume "(b, n) \<in> set FLAGS"
  moreover have "distinct (map snd FLAGS)" by (simp add: FLAGS_def)
  ultimately show ?thesis using find by (simp add: flag_value_def)
qed

lemma flag_unknown:
  "flag_value (Str (text_of ''0x'' @ hex_fixed 4 (unat (w :: u16)))) = w"
proof -
  have "unat w < 65536" using unsigned_less [of w, where 'a = nat] by simp
  moreover have "find (\<lambda>(b, n). text_of n = text_of ''0x'' @ hex_fixed 4 (unat w)) FLAGS = None"
    by (simp add: find_None_iff FLAGS_def text_of_def)
  moreover have "drop 2 (text_of ''0x'' @ hex_fixed 4 (unat w)) = hex_fixed 4 (unat w)"
    by (simp add: text_of_def)
  ultimately show ?thesis by (simp add: flag_value_def hex_value_fixed)
qed

lemma FLAGS_powers: "map fst FLAGS = map (\<lambda>k. 2 ^ k) [0..<12]"
  by (simp add: FLAGS_def upt_rec)

lemma known_bits:
  "foldr (OR) (filter (\<lambda>b. w AND b \<noteq> 0) (map fst FLAGS)) 0 = take_bit 12 (w :: u16)"
  unfolding FLAGS_powers
  by (rule bit_word_eqI) (auto simp: bit_foldr_or and_exp_eq_0_iff_not_bit bit_exp_iff bit_take_bit_iff)

lemma unknown_bits: "foldl (\<lambda>rest (b, n). rest AND NOT b) w FLAGS = w AND NOT (mask 12 :: u16)"
proof -
  have "foldl (\<lambda>rest (b, n). rest AND NOT b) w FLAGS = foldl (\<lambda>rest b. rest AND NOT b) w (map fst FLAGS)"
    by (simp add: foldl_map case_prod_unfold)
  moreover have "foldl (\<lambda>rest b. rest AND NOT b) w (map (\<lambda>k. 2 ^ k) [0..<n]) = w AND NOT (mask n :: u16)" for n
    by (induction n)
      (auto simp: bit_simps intro!: bit_word_eqI simp: less_Suc_eq)
  ultimately show ?thesis by (simp add: FLAGS_powers)
qed

lemma flag_names_bits: "flag_bits (flag_names w) = w"
proof -
  let ?known = "filter (\<lambda>(b, n). w AND b \<noteq> 0) FLAGS"
  have "map flag_value (map (\<lambda>(b, n). Str (text_of n)) ?known) = map fst ?known"
    by (auto simp: flag_named)
  also have "map fst ?known = filter (\<lambda>b. w AND b \<noteq> 0) (map fst FLAGS)"
    by (simp add: filter_map o_def case_prod_unfold)
  finally have known: "foldr (OR) (map flag_value (map (\<lambda>(b, n). Str (text_of n)) ?known)) 0 = take_bit 12 w"
    by (simp only: known_bits)
  have fold_or: "foldr (OR) xs y = foldr (OR) xs 0 OR y" for xs :: "u16 list" and y
    by (induction xs) (simp_all add: or.assoc)
  have whole: "take_bit 12 w OR (w AND NOT (mask 12)) = w"
    by (rule bit_word_eqI) (auto simp: bit_simps)
  show ?thesis
    using whole known fold_or [of "map flag_value (map (\<lambda>(b, n). Str (text_of n)) ?known)" "w AND NOT (mask 12)"]
    by (auto simp: flag_names_def Let_def flag_bits_def unknown_bits flag_unknown)
qed

section \<open>Keys\<close>

text \<open>The one law of \<open>fs_core\<close>'s JSON used here: a field of an object is found by its key.\<close>

definition tool_ok :: "tool \<Rightarrow> bool" where
  "tool_ok T \<longleftrightarrow>
     (\<forall>fs k. tl_get T (Obj fs) k = map_of fs k) \<and>
     (\<forall>v k. (\<forall>fs. v \<noteq> Obj fs) \<longrightarrow> tl_get T v k = None)"

lemma split_dot_plain: "0x2E \<notin> set k \<Longrightarrow> split_dot k = [k]"
  by (induction k) auto

lemma split_dot_append: "0x2E \<notin> set a \<Longrightarrow> split_dot (a @ 0x2E # b) = a # split_dot b"
  by (induction a) auto

lemma value_at_plain:
  "tool_ok T \<Longrightarrow> 0x2E \<notin> set k \<Longrightarrow> value_at T (Obj fs) k = map_of fs k"
  by (simp add: value_at_def split_dot_plain tool_ok_def)

lemma split_dot_not_Nil: "split_dot k \<noteq> []"
  by (induction k) (auto split: list.split)

definition is_obj :: "json \<Rightarrow> bool" where
  "is_obj v \<longleftrightarrow> (\<exists>fs. v = Obj fs)"

lemma value_at_first:
  assumes "tool_ok T" "0x2E \<notin> set a"
  shows "value_at T (Obj fs) (a @ 0x2E # k) =
    (case map_of fs a of None \<Rightarrow> None | Some v \<Rightarrow> value_at T v k)"
proof -
  have "foldl (\<lambda>v part. case v of None \<Rightarrow> None | Some v \<Rightarrow> tl_get T v part) None ks = None" for ks
    by (induction ks) simp_all
  then show ?thesis
    using assms by (simp add: value_at_def split_dot_append tool_ok_def split: option.split)
qed

lemma value_at_leaf: "tool_ok T \<Longrightarrow> \<not> is_obj v \<Longrightarrow> value_at T v k = None"
proof -
  assume "tool_ok T" "\<not> is_obj v"
  then have g: "tl_get T v x = None" for x by (auto simp: tool_ok_def is_obj_def)
  have "foldl (\<lambda>v part. case v of None \<Rightarrow> None | Some v \<Rightarrow> tl_get T v part) None ks = None" for ks
    by (induction ks) simp_all
  then show ?thesis
    using g split_dot_not_Nil [of k] by (cases "split_dot k") (simp_all add: value_at_def)
qed

lemma dotted:
  obtains "0x2E \<notin> set k" | a r where "k = a @ 0x2E # r" "0x2E \<notin> set a"
  by (meson split_list_first)

text \<open>The keys of a report of two levels: its own, and those of the one object in it behind a dot.\<close>

lemma value_at_two_levels:
  assumes T: "tool_ok T" and a: "0x2E \<notin> set a" "map_of fs a = Some (Obj gs)"
    and fs: "\<And>k v. (k, v) \<in> set fs \<Longrightarrow> 0x2E \<notin> set k \<and> (k \<noteq> a \<longrightarrow> \<not> is_obj v)"
    and gs: "\<And>k v. (k, v) \<in> set gs \<Longrightarrow> 0x2E \<notin> set k \<and> \<not> is_obj v"
  shows "value_at T (Obj fs) key = map_of (fs @ map (\<lambda>(k, v). (a @ 0x2E # k, v)) gs) key"
proof (cases key rule: dotted)
  case 1
  then have "map_of (map (\<lambda>(k, v). (a @ 0x2E # k, v)) gs) key = None"
    by (auto simp: map_of_eq_None_iff)
  with 1 show ?thesis by (simp add: value_at_plain [OF T] map_add_def split: option.split)
next
  case (2 p r)
  have none: "map_of fs key = None"
    using fs [of key] 2(1) by (auto simp: map_of_eq_None_iff)
  have first: "takeWhile (\<lambda>x. x \<noteq> 0x2E) (q @ 0x2E # t) = q" if "0x2E \<notin> set q" for q t :: utf8
    using that by (induction q) auto
  have eq: "p @ 0x2E # r = a @ 0x2E # k \<longleftrightarrow> p = a \<and> r = k" for k
    using first [OF 2(2), of r] first [OF a(1), of k] by auto
  show ?thesis
  proof (cases "p = a")
    case True
    have at: "map_of (map (\<lambda>(k, v). (a @ 0x2E # k, v)) gs) (a @ 0x2E # r) = map_of gs r"
      by (induction gs) auto
    have "value_at T (Obj gs) r = map_of gs r"
    proof (cases r rule: dotted)
      case 1
      then show ?thesis by (rule value_at_plain [OF T])
    next
      case (2 q t)
      then have "map_of gs r = None" using gs [of r] by (auto simp: map_of_eq_None_iff)
      moreover have "\<not> is_obj v" if "map_of gs q = Some v" for v using gs map_of_SomeD [OF that] by blast
      ultimately show ?thesis
        using 2 by (auto simp: value_at_first [OF T] value_at_leaf [OF T] split: option.split)
    qed
    with True 2(1) a none at show ?thesis by (simp add: value_at_first [OF T] map_add_def split: option.split)
  next
    case False
    then have ne: "key \<noteq> a @ 0x2E # k" for k unfolding 2(1) using eq by blast
    have "map_of (map (\<lambda>(k, v). (a @ 0x2E # k, v)) gs) key = None"
    proof (rule ccontr)
      assume "map_of (map (\<lambda>(k, v). (a @ 0x2E # k, v)) gs) key \<noteq> None"
      then obtain v where "(key, v) \<in> set (map (\<lambda>(k, v). (a @ 0x2E # k, v)) gs)" by (meson map_of_SomeD not_None_eq)
      then obtain k where "key = a @ 0x2E # k" by auto
      with ne show False by blast
    qed
    moreover have "\<not> is_obj v" if "map_of fs p = Some v" for v
      using fs map_of_SomeD [OF that] False by blast
    ultimately show ?thesis
      using 2 none by (auto simp: value_at_first [OF T] value_at_leaf [OF T] map_add_def split: option.split)
  qed
qed

text \<open>What the documentation says \<open>get\<close> reports, over the first bytes of the image: each number is the
  little-endian field of the superblock at its place in the format.\<close>

definition number_at :: "bytes \<Rightarrow> nat \<Rightarrow> nat \<Rightarrow> nat" where
  "number_at b at n = le_nat (take n (drop at b))"

definition own_of_image :: "bytes \<Rightarrow> json \<Rightarrow> (utf8 \<times> json) list" where
  "own_of_image b flags =
     [(text_of ''compression'',
         Str (text_of ([''gzip'', ''lzma'', ''lzo'', ''xz'', ''lz4'', ''zstd''] ! (number_at b 20 2 - 1)))),
      (text_of ''version'', Str (text_of ''4.0'')),
      (text_of ''inode_count'', Num (int (number_at b 4 4))),
      (text_of ''fragment_count'', Num (int (number_at b 16 4))),
      (text_of ''id_count'', Num (int (number_at b 26 2))),
      (text_of ''bytes_used'', Num (int (number_at b 40 8))),
      (text_of ''mkfs_time'', Num (int (number_at b 8 4))),
      (text_of ''flags'', flags),
      (text_of ''exportable'', Bool (number_at b 88 8 \<noteq> 2 ^ 64 - 1))]"

definition shared_of_image :: "bytes \<Rightarrow> json \<Rightarrow> (utf8 \<times> json) list" where
  "shared_of_image b flags =
     [(text_of ''fs'', Str (text_of ''squashfs'')), (text_of ''label'', Null),
      (text_of ''total_bytes'', Num (int (number_at b 40 8))), (text_of ''free_bytes'', Num 0),
      (text_of ''block_size'', Num (int (number_at b 12 4))), (text_of ''dirty'', Bool False),
      (text_of ''squashfs'', Obj (own_of_image b flags))]"

definition reported :: "bytes \<Rightarrow> json \<Rightarrow> (utf8 \<times> json) list" where
  "reported b flags =
     shared_of_image b flags @ map (\<lambda>(k, v). (text_of ''squashfs'' @ 0x2E # k, v)) (own_of_image b flags)"

lemma value_at_reported:
  assumes "tool_ok T" "\<not> is_obj flags"
  shows "value_at T (Obj (shared_of_image b flags)) key = map_of (reported b flags) key"
  unfolding reported_def
proof (rule value_at_two_levels [OF assms(1)])
  show "0x2E \<notin> set (text_of ''squashfs'')" by (simp add: text_of_def)
  show "map_of (shared_of_image b flags) (text_of ''squashfs'') = Some (Obj (own_of_image b flags))"
    by (simp add: shared_of_image_def text_of_def)
qed (use assms(2) in \<open>auto simp: shared_of_image_def own_of_image_def text_of_def is_obj_def\<close>)

lemma uint_field:
  "8 * n \<le> LENGTH('a) \<Longrightarrow> uint (field n b at :: 'a::len word) = int (number_at b at n)"
  using unat_from_le_bytes [of "take n (drop at b)", where 'a = 'a]
    order_trans [of "8 * length (take n (drop at b))" "8 * n" "LENGTH('a)"]
  by (simp only: field_def number_at_def uint_nat) simp

text \<open>The superblock's fields are the numbers at their places.\<close>

lemma parse_numbers:
  assumes "parse b = Ok sb"
  shows "uint (sb_inode_count sb) = int (number_at b 4 4)"
    "uint (sb_modification_time sb) = int (number_at b 8 4)"
    "uint (sb_block_size sb) = int (number_at b 12 4)"
    "uint (sb_fragment_entry_count sb) = int (number_at b 16 4)"
    "uint (sb_compression_id sb) = int (number_at b 20 2)"
    "uint (sb_flags sb) = int (number_at b 24 2)"
    "uint (sb_id_count sb) = int (number_at b 26 2)"
    "uint (sb_bytes_used sb) = int (number_at b 40 8)"
    "uint (sb_export_table_start sb) = int (number_at b 88 8)"
    "sb_version_major sb = 4" "sb_version_minor sb = 0"
proof -
  obtain r where b: "b = superblock_bytes sb @ r" and g: "geometry_ok sb" using assms by (auto simp: parse_iff)
  note at = superblock_fields [of sb r, folded b]
  show "uint (sb_inode_count sb) = int (number_at b 4 4)" using uint_field [of 4 b 4, where 'a = 32] by (simp add: at)
  show "uint (sb_modification_time sb) = int (number_at b 8 4)" using uint_field [of 4 b 8, where 'a = 32] by (simp add: at)
  show "uint (sb_block_size sb) = int (number_at b 12 4)" using uint_field [of 4 b 12, where 'a = 32] by (simp add: at)
  show "uint (sb_fragment_entry_count sb) = int (number_at b 16 4)" using uint_field [of 4 b 16, where 'a = 32] by (simp add: at)
  show "uint (sb_compression_id sb) = int (number_at b 20 2)" using uint_field [of 2 b 20, where 'a = 16] by (simp add: at)
  show "uint (sb_flags sb) = int (number_at b 24 2)" using uint_field [of 2 b 24, where 'a = 16] by (simp add: at)
  show "uint (sb_id_count sb) = int (number_at b 26 2)" using uint_field [of 2 b 26, where 'a = 16] by (simp add: at)
  show "uint (sb_bytes_used sb) = int (number_at b 40 8)" using uint_field [of 8 b 40, where 'a = 64] by (simp add: at)
  show "uint (sb_export_table_start sb) = int (number_at b 88 8)" using uint_field [of 8 b 88, where 'a = 64] by (simp add: at)
  show "sb_version_major sb = 4" "sb_version_minor sb = 0" using g by (simp_all add: geometry_ok_def)
qed

lemma export_table_present: "read_export_table E sb = Ok x \<Longrightarrow> x = None \<longleftrightarrow> sb_export_table_start sb = NO_TABLE"
  by (auto simp: read_export_table_def Let_def split: if_splits)

lemma envelope_of_image:
  assumes o: "open_with_cache W dev blocks = Ok (fs, s)"
    and b: "read_at (fs_dev fs) 0 SUPERBLOCK_SIZE = Ok b"
  shows "envelope fs = Obj (shared_of_image b (flag_names (sb_flags (fs_sb fs)))) \<and>
    sb_flags (fs_sb fs) = of_nat (number_at b 24 2)"
proof -
  from o have "superblock_read (fs_dev fs) = Ok (fs_sb fs)"
    "\<exists>E. read_export_table (E :: 'a meta_env) (fs_sb fs) = Ok (fs_exports fs)"
    by (auto simp: open_with_cache_def Let_def split: if_splits)
  then have p: "parse b = Ok (fs_sb fs)" and x: "fs_exports fs = None \<longleftrightarrow> sb_export_table_start (fs_sb fs) = NO_TABLE"
    using b export_table_present by (auto simp: superblock_read_def)
  note n = parse_numbers [OF p]
  have "sb_export_table_start (fs_sb fs) = NO_TABLE \<longleftrightarrow> int (number_at b 88 8) = 2 ^ 64 - 1"
    using n(9) by (simp add: word_uint_eq_iff NO_TABLE_def unsigned_minus_1_eq_mask mask_eq_exp_minus_1)
  then have exp: "is_exportable fs \<longleftrightarrow> number_at b 88 8 \<noteq> 2 ^ 64 - 1"
    using x by (simp add: is_exportable_def)
  have "sb_compression_id (fs_sb fs) = compressor_id (fs_comp fs)"
    using open_parts(3) [OF o] by (simp add: sb_compressor_def compressor_from_id_Ok)
  with n(5) have "int (number_at b 20 2) = uint (compressor_id (fs_comp fs))" by simp
  then have comp: "compressor_name (fs_comp fs) =
      [''gzip'', ''lzma'', ''lzo'', ''xz'', ''lz4'', ''zstd''] ! (number_at b 20 2 - 1)"
    by (cases "fs_comp fs") simp_all
  have version: "dec_digits (unat (sb_version_major (fs_sb fs))) @ ''.'' @
      dec_digits (unat (sb_version_minor (fs_sb fs))) = ''4.0''"
    by (simp add: n(10,11) dec_digits.simps) code_simp
  have "sb_flags (fs_sb fs) = word_of_int (uint (sb_flags (fs_sb fs)))" by simp
  then have "sb_flags (fs_sb fs) = of_nat (number_at b 24 2)" unfolding n(6) by simp
  with n comp version exp show ?thesis
    by (simp add: envelope_def Let_def shared_of_image_def own_of_image_def)
qed

section \<open>Exporting a tree\<close>

definition last_ok :: "('c, 'd) world \<Rightarrow> filesystem \<Rightarrow> last_file \<Rightarrow> bool" where
  "last_ok W fs l \<longleftrightarrow> (\<forall>p b i. l = Some (p, b, i) \<longrightarrow> b = p \<and> resolves W fs p i \<and> is_regular_file i)"

lemma source_read_agree:
  assumes "both_ok W fs c d"
  shows "fst (source_read_at W fs i p offset buf c) = fst (source_read_at W fs i p offset buf d)"
    "snd (snd (source_read_at W fs i p offset buf c)) = snd (snd (source_read_at W fs i p offset buf d))"
    "both_ok W fs (fst (snd (source_read_at W fs i p offset buf c))) (fst (snd (source_read_at W fs i p offset buf d)))"
  using read_file_agree [OF assms, of i offset buf]
  by (auto simp: source_read_at_def split: prod.splits sum.splits fault.splits)

text \<open>\<open>Path\<close> equality looks through dots and the lookup does not: no directory has an entry of that name,
  so a path that resolves has no dot in it.\<close>

lemma walk_no_dot: "fst (walk W fs node cs c) = Ok i \<Longrightarrow> [0x2E] \<notin> set cs"
proof (induction cs arbitrary: node c)
  case (Cons name cs)
  obtain r d where l: "lookup_in W fs node name c = (r, d)" by (rule prod.exhaust)
  with Cons.prems obtain n where r: "r = Ok n" "fst (walk W fs n cs d) = Ok i"
    by (cases r) (auto simp: bind_s_def fail_s_def split: if_splits)
  obtain q e where rd: "read_dir W fs node c = (q, e)" by (rule prod.exhaust)
  with l r(1) obtain es where q: "q = Ok es"
    by (cases q) (auto simp: lookup_in_def bind_s_def)
  with rd have "names_ok es" using tripleD(3) [OF triple_read_dir TrueI] by blast
  moreover from l r(1) rd q obtain x where "find (\<lambda>x. de_name x = name) es = Some x"
    by (auto simp: lookup_in_def bind_s_def fail_s_def split: option.splits)
  then have "x \<in> set es" "de_name x = name" by (auto simp: find_Some_iff)
  ultimately have "name \<noteq> [0x2E]" by (auto simp: names_ok_def name_ok_def)
  with Cons.IH [OF r(2)] show ?case by simp
qed simp

lemma resolves_no_dot:
  assumes "resolves W fs p i" "caches_ok W fs c"
  shows "[0x2E] \<notin> set (components p)"
proof -
  from assms have l: "fst (lookup_path_bytes W fs p c) = Ok i" by (simp add: resolves_def)
  obtain r d where rd: "root_inode W fs c = (r, d)" by (rule prod.exhaust)
  with l obtain n where "r = Ok n" "fst (walk W fs n (components p) d) = Ok i"
    by (cases r) (auto simp: lookup_path_bytes_def bind_s_def)
  then show ?thesis using walk_no_dot by blast
qed

lemma key_components:
  assumes "path_key p = path_key q" "[0x2E] \<notin> set (components p)" "[0x2E] \<notin> set (components q)"
  shows "components p = components q"
proof -
  have k: "snd (path_key r) = components r" if "[0x2E] \<notin> set (components r)" for r
  proof -
    have "hd (split_slash r) \<noteq> [0x2E]"
      using that split_slash_not_Nil [of r] by (cases "split_slash r") (auto simp: components_def split: if_splits)
    moreover have "filter (\<lambda>c. c \<noteq> [] \<and> c \<noteq> [0x2E]) (split_slash r) = filter (\<lambda>c. c \<noteq> []) (split_slash r)"
      using that by (intro filter_cong) (auto simp: components_def)
    ultimately show ?thesis by (simp add: path_key_def components_def)
  qed
  show ?thesis using arg_cong [OF assms(1), of snd] k [OF assms(2)] k [OF assms(3)] by simp
qed

text \<open>The same answer but for how an error spells the path.\<close>

definition respelled :: "bytes \<Rightarrow> bytes \<Rightarrow> (cli_error + nat) result \<Rightarrow> (cli_error + nat) result \<Rightarrow> bool" where
  "respelled q path a b \<longleftrightarrow>
     a = b \<or> (\<exists>e. a = Ok (Inl (squashfs_error q e)) \<and> b = Ok (Inl (squashfs_error path e)))"

lemma source_read_respelled:
  "respelled q path (fst (source_read_at W fs i q offset buf c)) (fst (source_read_at W fs i path offset buf c))"
  "snd (source_read_at W fs i q offset buf c) = snd (source_read_at W fs i path offset buf c)"
  by (auto simp: source_read_at_def respelled_def split: prod.split sum.split fault.split)

lemma tree_read_resolved:
  assumes "resolves W fs path i" "is_regular_file i" "caches_ok W fs c"
  shows "\<exists>d. caches_ok W fs d \<and> tree_resolve W fs path c = (Ok (Inr i), d)"
proof -
  obtain r d where lk: "lookup_path_bytes W fs path c = (r, d)" by (rule prod.exhaust)
  with assms(1,3) lookup_keeps [OF assms(3), of path] have "r = Ok i" "caches_ok W fs d"
    by (auto simp: resolves_def)
  with lk show ?thesis
    by (simp add: tree_resolve_def within_def attempt_def bind_s_def ok_cli_def ret_s_def)
qed

lemma tree_read_resolves:
  assumes "tree_resolve W fs path c = (Ok (Inr i), d)" "caches_ok W fs c"
  shows "resolves W fs path i"
proof -
  have "fst (lookup_path_bytes W fs path c) = Ok i"
    using assms(1)
    by (auto simp: tree_resolve_def within_def attempt_def bind_s_def ok_cli_def err_cli_def ret_s_def
        split: prod.splits sum.splits fault.splits)
  then show ?thesis by (rule resolvesI) (rule assms(2))
qed

lemma tree_resolve_keeps: "caches_ok W fs c \<Longrightarrow> caches_ok W fs (snd (tree_resolve W fs path c))"
  using lookup_keeps [of W fs c path]
  by (auto simp: tree_resolve_def within_def attempt_def bind_s_def ok_cli_def err_cli_def ret_s_def
      split: prod.split sum.split fault.split)

lemma source_read_keeps:
  "caches_ok W fs c \<Longrightarrow> caches_ok W fs (fst (snd (source_read_at W fs i p offset buf c)))"
  using source_read_agree(3) [of W fs c c i p offset buf] by (simp add: both_ok_def)

text \<open>A read keeps the caches true and the file remembered right: it is the one it was, or the path just
  read and what that resolves to.\<close>

lemma tree_read_keeps:
  assumes "caches_ok W fs c" "last_ok W fs l"
  shows "caches_ok W fs (fst (fst (snd (tree_read_file_at W fs path offset buf (c, l))))) \<and>
    last_ok W fs (snd (fst (snd (tree_read_file_at W fs path offset buf (c, l))))) \<and>
    snd (fst (snd (tree_read_file_at W fs path offset buf (c, l)))) \<in> insert l (range (\<lambda>i. Some (path, path, i)))"
proof -
  have last: "caches_ok W fs (fst (fst (snd (tree_read_last W fs offset buf (d, m)))))"
      "snd (fst (snd (tree_read_last W fs offset buf (d, m)))) = m" if "caches_ok W fs d" for d m
    using source_read_keeps [OF that]
    by (auto simp: tree_read_last_def that split: option.split prod.split) (metis fst_conv snd_conv)
  obtain r d where rd: "tree_resolve W fs path c = (r, d)" by (rule prod.exhaust)
  with tree_resolve_keeps [OF assms(1), of path] have d: "caches_ok W fs d" by simp
  have "last_ok W fs (Some (path, path, i))" if "r = Ok (Inr i)" "is_regular_file i" for i
    using tree_read_resolves [OF _ assms(1)] rd that by (simp add: last_ok_def)
  with last [OF assms(1), of l] last [OF d] assms(2) d rd show ?thesis
    by (auto simp: tree_read_file_at_def split: option.split sum.split)
qed

fun tree_reads ::
  "('c, 'd) world \<Rightarrow> filesystem \<Rightarrow> (bytes \<times> u64 \<times> bytes) list \<Rightarrow> ('c, 'd) caches \<times> last_file \<Rightarrow>
    ('c, 'd) caches \<times> last_file" where
  "tree_reads W fs [] st = st"
| "tree_reads W fs ((path, offset, buf) # rs) st =
     tree_reads W fs rs (fst (snd (tree_read_file_at W fs path offset buf st)))"

lemma tree_reads_keep:
  assumes "caches_ok W fs c" "last_ok W fs l"
  shows "caches_ok W fs (fst (tree_reads W fs rs (c, l))) \<and> last_ok W fs (snd (tree_reads W fs rs (c, l))) \<and>
    (\<forall>p b i. snd (tree_reads W fs rs (c, l)) = Some (p, b, i) \<longrightarrow> p \<in> fst ` set rs \<or> l = Some (p, b, i))"
  using assms
proof (induction rs arbitrary: c l)
  case (Cons r rs)
  obtain path offset buf where r: "r = (path, offset, buf)" by (metis prod.exhaust)
  obtain d m where t: "fst (snd (tree_read_file_at W fs path offset buf (c, l))) = (d, m)" by fastforce
  from tree_read_keeps [OF Cons.prems, of path offset buf] t
  have "caches_ok W fs d" "last_ok W fs m" "m \<in> insert l (range (\<lambda>i. Some (path, path, i)))" by simp_all
  with Cons.IH [of d m] show ?case by (auto simp: r t)
qed simp

lemma tree_read_anew:
  assumes "\<And>p b i. l = Some (p, b, i) \<Longrightarrow> path_key p \<noteq> path_key path"
  shows "tree_read_file_at W fs path offset buf (c, l) =
    (case tree_resolve W fs path c of
       (Inl f, c) \<Rightarrow> (Inl f, (c, l), buf)
     | (Inr (Inl e), c) \<Rightarrow> (Ok (Inl e), (c, l), buf)
     | (Inr (Inr i), c) \<Rightarrow>
         if \<not> is_regular_file i then
           (Ok (Inl (Failed (show_bytes path @ text_of '': not a regular file''))), (c, l), buf)
         else tree_read_last W fs offset buf (c, Some (path, path, i)))"
  unfolding tree_read_file_at_def snd_conv fst_conv using assms by (auto split: option.split)

lemma tree_read_fresh:
  assumes "caches_ok W fs c" "caches_ok W fs d" "last_ok W fs l" "[0x2E] \<notin> set (components path)"
  shows "\<exists>q. (q = path \<or> (\<exists>b i. l = Some (q, b, i))) \<and> path_key q = path_key path \<and>
    respelled q path (fst (tree_read_file_at W fs path offset buf (d, l)))
      (fst (tree_read_file_at W fs path offset buf (c, None))) \<and>
    snd (snd (tree_read_file_at W fs path offset buf (d, l))) =
      snd (snd (tree_read_file_at W fs path offset buf (c, None)))"
proof (cases "\<exists>p b i. l = Some (p, b, i) \<and> path_key p = path_key path")
  case False
  then have "\<And>p b i. l = Some (p, b, i) \<Longrightarrow> path_key p \<noteq> path_key path" by blast
  note l = tree_read_anew [OF this]
  have none: "tree_read_file_at W fs path offset buf (c, None) =
      (case tree_resolve W fs path c of
         (Inl f, c) \<Rightarrow> (Inl f, (c, None), buf)
       | (Inr (Inl e), c) \<Rightarrow> (Ok (Inl e), (c, None), buf)
       | (Inr (Inr i), c) \<Rightarrow>
           if \<not> is_regular_file i then
             (Ok (Inl (Failed (show_bytes path @ text_of '': not a regular file''))), (c, None), buf)
           else tree_read_last W fs offset buf (c, Some (path, path, i)))"
    by (rule tree_read_anew) simp
  obtain r e where r: "tree_resolve W fs path d = (r, e)" by (rule prod.exhaust)
  obtain r' e' where r': "tree_resolve W fs path c = (r', e')" by (rule prod.exhaust)
  have "both_ok W fs d c" using assms(1,2) by (simp add: both_ok_def)
  from agreeD [OF agree_lookup_path this, of path] r r'
  have res: "r = r'" "both_ok W fs e e'"
    by (auto simp: tree_resolve_def within_def attempt_def bind_s_def ok_cli_def err_cli_def ret_s_def
        split: prod.splits sum.splits fault.splits)
  have last: "fst (tree_read_last W fs offset buf (e, m)) = fst (tree_read_last W fs offset buf (e', m))"
    "snd (snd (tree_read_last W fs offset buf (e, m))) = snd (snd (tree_read_last W fs offset buf (e', m)))" for m
    using source_read_agree [OF res(2)]
    by (auto simp: tree_read_last_def split: option.split prod.split) (metis fst_conv snd_conv)+
  show ?thesis
    by (intro exI [of _ path])
      (simp add: l none r r' res(1) respelled_def last split: sum.split)
next
  case True
  then obtain p b i where l: "l = Some (p, b, i)" "path_key p = path_key path" by blast
  with assms(3) have i: "b = p" "resolves W fs p i" "is_regular_file i" by (auto simp: last_ok_def)
  have "components p = components path"
    by (rule key_components [OF l(2) resolves_no_dot [OF i(2) assms(2)] assms(4)])
  with i(2) have "resolves W fs path i" using lookup_path_components by (metis resolves_def)
  from tree_read_resolved [OF this i(3) assms(1)] obtain e where
    e: "caches_ok W fs e" "tree_resolve W fs path c = (Ok (Inr i), e)" by blast
  have "both_ok W fs d e" using assms(2) e(1) by (simp add: both_ok_def)
  note agr = source_read_agree [OF this, of i path offset buf]
  have A: "tree_read_file_at W fs path offset buf (d, Some (p, b, i)) =
      (case source_read_at W fs i p offset buf d of (r, c, v) \<Rightarrow> (r, (c, Some (p, b, i)), v))"
    using l(2) i(1) by (simp add: tree_read_file_at_def tree_read_last_def)
  have B: "tree_read_file_at W fs path offset buf (c, None) =
      (case source_read_at W fs i path offset buf e of (r, c, b) \<Rightarrow> (r, (c, Some (path, path, i)), b))"
    using e(2) i(3) by (simp add: tree_read_file_at_def tree_read_last_def)
  show ?thesis
    using l(2) source_read_respelled(1) [of p path W fs i offset buf d]
      source_read_respelled(2) [of W fs i p offset buf d path] agr unfolding l(1) A B
    by (intro exI [of _ p]) (simp add: case_prod_beta)
qed

section \<open>Properties\<close>

text \<open>A host whose files open on the small image, whose sinks work and whose JSON finds its fields.\<close>

fun obj_get :: "json \<Rightarrow> utf8 \<Rightarrow> json option" where
  "obj_get (Obj fs) k = map_of fs k"
| "obj_get _ k = None"

definition sample_tool :: tool where
  "sample_tool =
     \<lparr>tl_get = obj_get, tl_text = (\<lambda>_. []), tl_render = (\<lambda>_. []), tl_debug = (\<lambda>k. k),
      tl_open = (\<lambda>_. Inr (mem_device sample_image)), tl_slice = (\<lambda>d _ _. d),
      tl_write = (\<lambda>_ _. None), tl_flush = (\<lambda>_. None), tl_create = (\<lambda>_. None),
      tl_rename = (\<lambda>_ _. None), tl_remove = (\<lambda>_. True)\<rparr>"

lemma sample_tool_ok: "tool_ok sample_tool" "sink_works sample_tool"
proof -
  have "obj_get v k = None" if "\<forall>fs. v \<noteq> Obj fs" for v k using that by (cases v) simp_all
  then show "tool_ok sample_tool" by (simp add: tool_ok_def sample_tool_def)
  show "sink_works sample_tool" by (simp add: sink_works_def sample_tool_def)
qed

abbreviation sample_proc ::
  "(nat \<times> (u64 \<times> cached_block) list, nat \<times> (data_key \<times> bytes) list) proc" where
  "sample_proc \<equiv> \<lparr>pr_caches = fresh_caches, pr_stdout = [], pr_files = (\<lambda>_. None)\<rparr>"

definition sample_args :: args where
  "sample_args =
     \<lparr>ar_target = [0x69], ar_verb = ''ls'', ar_offset_sub = None, ar_offset_main = Some 0,
      ar_recursive = True, ar_max_depth = 9, ar_limit = 9, ar_path = [0x2F], ar_output = None,
      ar_name = None, ar_key = None\<rparr>"

text \<open>An \<open>export\<close> whose arguments are all refused.\<close>

definition sample_exporter ::
  "(nat \<times> (u64 \<times> cached_block) list, nat \<times> (data_key \<times> bytes) list) exporter" where
  "sample_exporter =
     \<lparr>ex_request = Inl (Usage []), ex_recursive = Inl (Usage []), ex_options = Inl (Usage []),
      ex_links = Inl (Usage []), ex_times = Inl (Usage []), ex_file = (\<lambda>_ _. err_cli (Usage [])),
      ex_tree = (\<lambda>_. err_cli (Usage []))\<rparr>"

text \<open>No verb crashes or runs on, whatever the image holds: every \<open>ls\<close>, recursive or not, every
  \<open>stat\<close>, \<open>read\<close>, \<open>xattr\<close>, \<open>get\<close> and \<open>info\<close>, and every verb that is refused, ends with a report or an
  error, on a tree with loops in it too.\<close>

theorem cli_never_crashes:
  assumes "ar_verb a \<in> set verbs"
  shows "safe (fst (run W T X a s))"
  using tripleD(1) [OF triple_run [OF assms] TrueI] .

lemma cli_never_crashes_witness:
  "safe (fst (run sample_world sample_tool sample_exporter sample_args sample_proc))"
  by (rule cli_never_crashes) (simp add: sample_args_def verbs_def)

text \<open>C19. \<open>read\<close> copies exactly: on standard output is a prefix of the stored file's bytes, all of them
  when it succeeds, and it succeeds unless a write fails; with \<open>-o\<close> a success leaves the file
  holding exactly those bytes.\<close>

theorem cli_read_exact:
  assumes "file_stored W fs i data" "resolves W fs path i" "caches_ok W fs (pr_caches s)"
  shows "(\<exists>r n t. read_verb W T fs path None s = (Ok r, t) \<and> pr_files t = pr_files s \<and>
      pr_stdout t = pr_stdout s @ take n data \<and> (r = Inr Finished \<longrightarrow> length data \<le> n) \<and>
      (sink_works T \<longrightarrow> r = Inr Finished)) \<and>
    (\<forall>f v t. read_verb W T fs path (Some f) s = (Ok (Inr v), t) \<longrightarrow> pr_files t f = Some data)"
  using read_to_stdout [OF assms] read_to_file_stored [OF assms] by blast

lemma cli_read_exact_witness:
  "\<exists>t. read_verb sample_world sample_tool sample_fs [0x2F, 0x61] None sample_proc = (Ok (Inr Finished), t) \<and>
    pr_stdout t = [1, 2, 3, 4]"
  using cli_read_exact [OF sample_file_stored sample_a, of sample_proc sample_tool]
    sample_caches_ok sample_tool_ok(2) by fastforce

text \<open>C20. \<open>read -o FILE\<close> never leaves FILE half written, on any image and whatever the host's calls
  answer: unless it succeeds, FILE and every other file but \<open>FILE.partial\<close> is as it was; when it
  does, \<open>FILE.partial\<close> is gone.  Nothing is written to standard output.\<close>

theorem output_never_half_written:
  "case read_verb W T fs path (Some f) s of
     (Inr (Inr _), t) \<Rightarrow> replaced f s t
   | (_, t) \<Rightarrow> untouched f s t"
  using read_to_file [of W T fs path f s] by (cases "read_verb W T fs path (Some f) s") (auto split: sum.splits)

text \<open>C18. A recursive listing, cut short or not, has at most \<open>limit\<close> entries, none deeper than
  \<open>max_depth\<close>, and enters each directory at most once, the one it starts from included: no inode
  number appears twice among the directories not marked as revisited.\<close>

theorem recursive_listing_bounded:
  "case survey W fs max_depth limit full i c of
     (Inr (es, res), c') \<Rightarrow>
       length es \<le> unat limit \<and> list_all (within_depth max_depth) es \<and>
       distinct ((if is_dir i then [uint (in_number i)] else []) @ concat (map entered es))
   | _ \<Rightarrow> True"
proof (cases "survey W fs max_depth limit full i c")
  case (Pair r c')
  show ?thesis
  proof (cases r)
    case (Inl f)
    with Pair show ?thesis by simp
  next
    case (Inr v)
    obtain es res where v: "v = (es, res)" by (rule prod.exhaust)
    with Pair Inr have s: "survey W fs max_depth limit full i c = (Ok (es, res), c')" by simp
    have "distinct (concat (map entered es))" if "\<not> is_dir i"
      using s that by (auto simp: survey_def entered_recursive split: if_splits)
    with survey_ok [OF s] s show ?thesis by (simp add: list_all_iff)
  qed
qed

text \<open>The superblock's flags are all accounted for: the names reported, and the number for the bits
  that have none, stand for exactly the flag word.\<close>

theorem flags_accounted:
  "flag_bits (flag_names w) = w"
  by (rule flag_names_bits)

text \<open>C27. \<open>get\<close> on an opened image, over the bytes of its superblock: without a key the report has the
  shared keys and those of SquashFS with the values the format stores at their places; a key gives its
  value, alone and as text, and the keys of SquashFS are reached behind \<open>squashfs.\<close>; every other key,
  whatever dots it has, is refused as a wrong command line.  The flags reported stand for the flag word.\<close>

theorem get_reports:
  assumes "tool_ok T" "open_with_cache W dev blocks = Ok (fs, s)"
    and "read_at (fs_dev fs) 0 SUPERBLOCK_SIZE = Ok b"
  shows "\<exists>flags. flag_bits flags = of_nat (number_at b 24 2) \<and>
    get_verb T fs None = Inr (Report (Obj (shared_of_image b flags)) None) \<and>
    (\<forall>key. case map_of (reported b flags) key of
       Some v \<Rightarrow> get_verb T fs (Some key) = Inr (Report (Obj [(key, v)]) (Some (tl_text T v)))
     | None \<Rightarrow> \<exists>m. get_verb T fs (Some key) = Inl (Usage m))"
proof -
  obtain flags where e: "envelope fs = Obj (shared_of_image b flags)" "flag_bits flags = of_nat (number_at b 24 2)"
    "\<not> is_obj flags"
    using envelope_of_image [OF assms(2,3)] flag_names_bits [of "sb_flags (fs_sb fs)"]
    by (auto simp: flag_names_def Let_def is_obj_def)
  show ?thesis
    using e(2)
    by (intro exI [of _ flags])
      (simp add: get_verb_def Let_def e(1) value_at_reported [OF assms(1) e(3)] split: option.split)
qed

lemma get_reports_witness:
  "get_verb sample_tool sample_fs (Some (text_of ''squashfs.inode_count'')) =
     Inr (Report (Obj [(text_of ''squashfs.inode_count'', Num 2)]) (Some [])) \<and>
   (\<exists>m. get_verb sample_tool sample_fs (Some (text_of ''fs.x'')) = Inl (Usage m))"
proof -
  have sb: "read_at (fs_dev sample_fs) 0 SUPERBLOCK_SIZE = Ok (superblock_bytes image_superblock)"
    by (simp add: read_at_mem_device SUPERBLOCK_SIZE_def sample_fs_def)
      (simp add: sample_image_def SUPERBLOCK_SIZE_def)
  have "map_of (reported b flags) (text_of ''squashfs.inode_count'') = Some (Num (int (number_at b 4 4)))"
    "map_of (reported b flags) (text_of ''fs.x'') = None" for b flags
    by (simp_all add: reported_def shared_of_image_def own_of_image_def text_of_def)
  moreover have "number_at (superblock_bytes image_superblock) 4 4 = 2"
    using parse_superblock_bytes [of image_superblock "[]"] parse_numbers(1) [of "superblock_bytes image_superblock"]
    by (simp add: geometry_ok_def image_superblock_def)
  moreover obtain flags where "case map_of (reported (superblock_bytes image_superblock) flags) key of
      Some v \<Rightarrow> get_verb sample_tool sample_fs (Some key) = Inr (Report (Obj [(key, v)]) (Some (tl_text sample_tool v)))
    | None \<Rightarrow> \<exists>m. get_verb sample_tool sample_fs (Some key) = Inl (Usage m)" for key
    using get_reports [OF sample_tool_ok(1) sample_open sb] by blast
  note this [of "text_of ''squashfs.inode_count''"] this [of "text_of ''fs.x''"]
  ultimately show ?thesis by (simp add: sample_tool_def)
qed

text \<open>C24. An exported tree is read the same whatever was read before.  After any sequence of reads from a
  fresh export, the file remembered is one that was read and what its path resolves to, and the next
  read, of any path without a dot component, leaves the same bytes in the buffer as a first read and
  gives the same count or the same error, whose message may spell the path as an earlier read of it
  did.  (With a dot the two differ: \<open>Path\<close> equality drops it, and the lookup of a first read finds no
  such name.)\<close>

theorem tree_read_history_free:
  assumes "caches_ok W fs c" "[0x2E] \<notin> set (components path)"
  shows "last_ok W fs (snd (tree_reads W fs reqs (c, None))) \<and>
    (\<exists>q \<in> insert path (fst ` set reqs). path_key q = path_key path \<and>
      respelled q path (fst (tree_read_file_at W fs path offset buf (tree_reads W fs reqs (c, None))))
        (fst (tree_read_file_at W fs path offset buf (c, None)))) \<and>
    snd (snd (tree_read_file_at W fs path offset buf (tree_reads W fs reqs (c, None)))) =
      snd (snd (tree_read_file_at W fs path offset buf (c, None)))"
proof -
  obtain d l where st: "tree_reads W fs reqs (c, None) = (d, l)" by (rule prod.exhaust)
  have "last_ok W fs None" by (simp add: last_ok_def)
  from tree_reads_keep [OF assms(1) this, of reqs] st have
    k: "caches_ok W fs d" "last_ok W fs l" "\<And>p b i. l = Some (p, b, i) \<Longrightarrow> p \<in> fst ` set reqs" by auto
  from tree_read_fresh [OF assms(1) k(1,2) assms(2), of offset buf] k(2,3) show ?thesis
    unfolding st by auto
qed

lemma tree_read_history_free_witness:
  "snd (snd (tree_read_file_at sample_world sample_fs [0x2F, 0x2F, 0x61] 1 [0, 0]
      (tree_reads sample_world sample_fs [([0x2F, 0x61], 0, [0])] (fresh_caches, None)))) =
   snd (snd (tree_read_file_at sample_world sample_fs [0x2F, 0x2F, 0x61] 1 [0, 0] (fresh_caches, None)))"
proof -
  have "[0x2E] \<notin> set (components [0x2F, 0x2F, 0x61])" by (simp add: components_def)
  from tree_read_history_free [OF sample_caches_ok this] show ?thesis by blast
qed

end
