(* ===== verification/Tree_Verbs.thy ===== *)
theory Tree_Verbs
  imports Tree Cli_Verbs
begin

text \<open>
  A recursive listing is a pre-order walk: the loop of \<open>ls --recursive\<close> in \<open>src/cli/squashfs/fs.rs\<close>,
  with its stack of iterators, its set of directories entered and its bounds, reports the nodes of a
  stored tree in the order of the recursive definition, up to the first that is out of bounds.
\<close>

section \<open>The reference\<close>

text \<open>A node met on the walk: its path, its depth, its inode.\<close>

type_synonym item = "bytes \<times> nat \<times> inode"

lemma kid_smaller: "(name, u) \<in> set kids \<Longrightarrow> size u < size (Folder i kids)"
  by (induction kids) auto

function preorder :: "bytes \<Rightarrow> nat \<Rightarrow> tree \<Rightarrow> item list" where
  "preorder path depth t =
     (case t of
        Folder i kids \<Rightarrow>
          concat (map (\<lambda>(name, u). (child_path path name, Suc depth, node u) #
            preorder (child_path path name) (Suc depth) u) (sort_key fst kids))
      | _ \<Rightarrow> [])"
  by pat_completeness auto
termination
  by (relation "measure (\<lambda>(path, depth, t). size t)") (auto dest: kid_smaller)

declare preorder.simps [simp del]

text \<open>The nodes below a list of children, as they stand.\<close>

definition below :: "bytes \<Rightarrow> nat \<Rightarrow> (bytes \<times> tree) list \<Rightarrow> item list" where
  "below path depth kids =
     concat (map (\<lambda>(name, u). (child_path path name, Suc depth, node u) #
       preorder (child_path path name) (Suc depth) u) kids)"

lemma below_simps [simp]:
  "below path depth [] = []"
  "below path depth ((name, u) # kids) =
     (child_path path name, Suc depth, node u) # preorder (child_path path name) (Suc depth) u @
     below path depth kids"
  by (simp_all add: below_def)

lemma preorder_folder: "preorder path depth (Folder i kids) = below path depth (sort_key fst kids)"
  by (subst preorder.simps) (simp add: below_def)

lemma preorder_leaf: "\<not> (\<exists>i kids. t = Folder i kids) \<Longrightarrow> preorder path depth t = []"
  by (subst preorder.simps) (cases t; simp)

text \<open>Reporting items while they are inside the bounds; \<open>n\<close> entries are there already.\<close>

fun cut :: "u64 \<Rightarrow> u64 \<Rightarrow> nat \<Rightarrow> item list \<Rightarrow> json list \<times> cli_error option" where
  "cut max_depth limit n [] = ([], None)"
| "cut max_depth limit n ((path, depth, i) # items) =
     (if unat limit \<le> n then ([], Some (Bound_reached ''--limit'' limit (show_bytes path)))
      else if unat max_depth < depth then
        ([], Some (Bound_reached ''--max-depth'' max_depth (show_bytes path)))
      else
        (case cut max_depth limit (Suc n) items of
           (es, e) \<Rightarrow> (recursive_entry path (of_nat depth) i False # es, e)))"

text \<open>The directories among the items, by inode number.\<close>

definition directories :: "item list \<Rightarrow> u32 list" where
  "directories items = map (\<lambda>(p, d, i). in_number i) (filter (\<lambda>(p, d, i). is_dir i) items)"

lemma directories_simps [simp]:
  "directories [] = []"
  "directories ((p, d, i) # items) = (if is_dir i then [in_number i] else []) @ directories items"
  "directories (xs @ ys) = directories xs @ directories ys"
  by (simp_all add: directories_def)

section \<open>Sorted listings\<close>

lemma insort_key_all2:
  assumes "list_all2 R xs ys" "R x y" "\<And>x y. R x y \<Longrightarrow> f x = g y"
  shows "list_all2 R (insort_key f x xs) (insort_key g y ys)"
  using assms(1)
proof (induction xs ys rule: list_all2_induct)
  case Nil
  with assms(2) show ?case by simp
next
  case (Cons a as b bs)
  with assms(2,3) show ?case by simp
qed

lemma sort_key_all2:
  assumes "list_all2 R xs ys" "\<And>x y. R x y \<Longrightarrow> f x = g y"
  shows "list_all2 R (sort_key f xs) (sort_key g ys)"
  using assms(1)
proof (induction xs ys rule: list_all2_induct)
  case Nil
  then show ?case by simp
next
  case (Cons a as b bs)
  with insort_key_all2 [OF _ _ assms(2)] show ?case by simp
qed

lemma gives_within: "gives W fs m (Ok v) \<Longrightarrow> gives W fs (within what m) (Ok (Inr v))"
  unfolding gives_def within_def attempt_def bind_s_def ok_cli_def ret_s_def by fastforce

lemma gives_children:
  assumes "tree_stored W fs (Folder i kids)"
  shows "\<exists>es. gives W fs (children W fs i at) (Ok (Inr es)) \<and>
    list_all2 (stands_for W fs) es (sort_key fst kids)"
proof -
  from assms obtain es where es: "is_dir i" "listing_stored W fs i es" "list_all2 (stands_for W fs) es kids"
    by (rule folder_parts)
  have "gives W fs (children W fs i at) (Ok (Inr (sort_key de_name es)))"
    using gives_within [OF gives_read_dir [OF es(1,2)], of at]
    by (fastforce simp: children_def bind_c_run gives_def ok_cli_def ret_s_def)
  moreover have "list_all2 (stands_for W fs) (sort_key de_name es) (sort_key fst kids)"
    by (rule sort_key_all2 [OF es(3)]) (simp add: stands_for_def)
  ultimately show ?thesis by blast
qed

section \<open>The loop\<close>

text \<open>What the stack of iterators stands for, and the items still ahead of it.\<close>

definition frame_for ::
  "('c, 'd) world \<Rightarrow> filesystem \<Rightarrow> bytes \<times> u64 \<times> dir_entry list \<Rightarrow> bytes \<times> nat \<times> (bytes \<times> tree) list \<Rightarrow> bool" where
  "frame_for W fs f a \<longleftrightarrow>
     fst f = fst a \<and> fst (snd f) = of_nat (fst (snd a)) \<and>
     list_all2 (stands_for W fs) (snd (snd f)) (snd (snd a))"

definition ahead :: "(bytes \<times> nat \<times> (bytes \<times> tree) list) list \<Rightarrow> item list" where
  "ahead A = concat (map (\<lambda>(path, depth, kids). below path depth kids) A)"

lemma ahead_simps [simp]: "ahead [] = []" "ahead ((p, d, kids) # A) = below p d kids @ ahead A"
  by (simp_all add: ahead_def)

definition touring ::
  "('c, 'd) world \<Rightarrow> filesystem \<Rightarrow> u64 \<Rightarrow> (('c, 'd) caches \<times> tour) \<Rightarrow> (bytes \<times> nat \<times> (bytes \<times> tree) list) list \<Rightarrow> bool" where
  "touring W fs limit st A \<longleftrightarrow>
     caches_ok W fs (fst st) \<and> list_all2 (frame_for W fs) (to_stack (snd st)) A \<and>
     length (to_entries (snd st)) \<le> unat limit \<and>
     list_all (\<lambda>(p, d, kids). d \<le> length (to_entries (snd st))) A \<and>
     distinct (directories (ahead A)) \<and> set (directories (ahead A)) \<inter> to_visited (snd st) = {}"

text \<open>The two bounds, read off the machine words.\<close>

lemma limit_word:
  assumes "n \<le> unat (limit :: u64)"
  shows "limit \<le> of_nat n \<longleftrightarrow> unat limit \<le> n"
proof -
  have "n < 2 ^ 64" using assms unat_u64_less [of limit] by linarith
  then show ?thesis by (simp add: word_le_nat_alt unat_of_nat take_bit_nat_eq_self)
qed

lemma depth_word:
  assumes "d \<le> n" "n < unat (limit :: u64)"
  shows "max_depth < of_nat d + (1 :: u64) \<longleftrightarrow> unat max_depth < Suc d"
    "of_nat d + (1 :: u64) = of_nat (Suc d)"
proof -
  have "Suc d < 2 ^ 64" using assms unat_u64_less [of limit] by linarith
  then have "unat (of_nat (Suc d) :: u64) = Suc d" by (simp add: unat_of_nat take_bit_nat_eq_self del: of_nat_Suc)
  then show "max_depth < of_nat d + (1 :: u64) \<longleftrightarrow> unat max_depth < Suc d"
    by (simp add: word_less_nat_alt add.commute)
  show "of_nat d + (1 :: u64) = of_nat (Suc d)" by (simp add: add.commute)
qed

text \<open>A turn on a child that is out of bounds ends the walk; one on a child that is not adds its entry
  and leaves a state that stands for the items after it.\<close>

lemma touring_parts:
  assumes "touring W fs limit st ((p, d, (name, u) # kids) # A)"
  obtains child later rest where
    "to_stack (snd st) = (p, of_nat d, child # later) # rest"
    "de_name child = name" "inode_stored W fs (de_inode_ref child) (node u)" "tree_stored W fs u"
    "list_all2 (stands_for W fs) later kids" "list_all2 (frame_for W fs) rest A"
  using assms
  by (auto simp: touring_def list_all2_Cons2 frame_for_def stands_for_def)

text \<open>The state with the child's iterator advanced.\<close>

lemma step_child:
  assumes "to_stack (snd st) = (p, pd, child # later) # rest"
  shows "tour_step W fs md lim st =
    tour_child W fs md lim p pd child (fst st, (snd st)\<lparr>to_stack := (p, pd, later) # rest\<rparr>)"
  using assms by (simp add: tour_step_def bind_s_def on_right_def)

lemma touring_stops:
  assumes "touring W fs limit st ((p, d, (name, u) # kids) # A)"
  defines "full \<equiv> child_path p name"
  shows "unat limit \<le> length (to_entries (snd st)) \<Longrightarrow>
      \<exists>st'. tour_step W fs max_depth limit st = (Ok (Inl (Bound_reached ''--limit'' limit (show_bytes full))), st') \<and>
        to_entries (snd st') = to_entries (snd st)"
    "\<not> unat limit \<le> length (to_entries (snd st)) \<Longrightarrow> unat max_depth < Suc d \<Longrightarrow>
      \<exists>st'. tour_step W fs max_depth limit st =
          (Ok (Inl (Bound_reached ''--max-depth'' max_depth (show_bytes full))), st') \<and>
        to_entries (snd st') = to_entries (snd st)"
proof -
  obtain child later rest where st: "to_stack (snd st) = (p, of_nat d, child # later) # rest" "de_name child = name"
    using touring_parts [OF assms(1)] by metis
  have n: "length (to_entries (snd st)) \<le> unat limit" "d \<le> length (to_entries (snd st))"
    using assms(1) by (auto simp: touring_def)
  note run = step_child [OF st(1)] tour_child_def Let_def bind_s_def read_s_def err_cli_def ret_s_def st(2)
    limit_word [OF n(1)]
  show "\<exists>st'. tour_step W fs max_depth limit st = (Ok (Inl (Bound_reached ''--limit'' limit (show_bytes full))), st') \<and>
        to_entries (snd st') = to_entries (snd st)" if "unat limit \<le> length (to_entries (snd st))"
    using that by (simp add: run full_def)
  show "\<exists>st'. tour_step W fs max_depth limit st =
          (Ok (Inl (Bound_reached ''--max-depth'' max_depth (show_bytes full))), st') \<and>
        to_entries (snd st') = to_entries (snd st)"
    if l: "\<not> unat limit \<le> length (to_entries (snd st))" and "unat max_depth < Suc d"
    using that(2) depth_word(1) [OF n(2), of limit max_depth] l by (simp add: run full_def)
qed

lemma touring_goes_on:
  assumes "touring W fs limit st ((p, d, (name, u) # kids) # A)"
    and l: "\<not> unat limit \<le> length (to_entries (snd st))" and m: "\<not> unat max_depth < Suc d"
  defines "full \<equiv> child_path p name"
  shows "\<exists>st' B. tour_step W fs max_depth limit st = (Ok (Inr ()), st') \<and> touring W fs limit st' B \<and>
        ahead B = preorder full (Suc d) u @ below p d kids @ ahead A \<and>
        to_entries (snd st') = to_entries (snd st) @ [recursive_entry full (of_nat (Suc d)) (node u) False]"
proof -
  obtain child later rest where st: "to_stack (snd st) = (p, of_nat d, child # later) # rest"
    "de_name child = name" "inode_stored W fs (de_inode_ref child) (node u)" "tree_stored W fs u"
    "list_all2 (stands_for W fs) later kids" "list_all2 (frame_for W fs) rest A"
    by (rule touring_parts [OF assms(1)])
  let ?t = "snd st" and ?i = "node u"
  have n: "length (to_entries ?t) \<le> unat limit" "d \<le> length (to_entries ?t)" "caches_ok W fs (fst st)"
    "list_all (\<lambda>(p, d, kids). d \<le> length (to_entries ?t)) A"
    using assms(1) by (auto simp: touring_def)
  have dist: "distinct ((if is_dir ?i then [in_number ?i] else []) @ directories (preorder full (Suc d) u) @
      directories (below p d kids @ ahead A))"
    "set ((if is_dir ?i then [in_number ?i] else []) @ directories (preorder full (Suc d) u) @
      directories (below p d kids @ ahead A)) \<inter> to_visited ?t = {}"
    using assms(1) by (simp_all add: touring_def full_def)
  from gives_within [OF gives_read_inode [OF st(3)], of full] n(3) obtain c where
    c: "within full (read_inode W fs (de_inode_ref child)) (fst st) = (Ok (Inr ?i), c)" "caches_ok W fs c"
    by (auto simp: gives_def)
  have dw: "\<not> max_depth < of_nat d + 1" using depth_word(1) [OF n(2), of limit max_depth] l m by simp
  have ds: "of_nat (Suc d) = of_nat d + (1 :: u64)" by (simp add: add.commute)
  note run = step_child [OF st(1)] tour_child_def Let_def bind_s_def read_s_def ret_s_def st(2)
    limit_word [OF n(1)] dw on_left_def on_right_def bind_c_run ok_cli_def
  have fresh: "in_number ?i \<notin> to_visited ?t" if "is_dir ?i" using dist(2) that by auto
  show ?thesis
  proof (cases "\<exists>i ks. u = Folder i ks")
    case True
    then obtain i ks where u: "u = Folder i ks" by blast
    from gives_children [OF st(4) [unfolded u], of full] c(2) obtain es c2 where
      ch: "children W fs i full c = (Ok (Inr es), c2)" "caches_ok W fs c2"
      "list_all2 (stands_for W fs) es (sort_key fst ks)"
      by (auto simp: gives_def)
    have i: "is_dir i" using leaf_types(3) st(4) u by blast
    let ?st = "(c2, ?t\<lparr>to_visited := insert (in_number i) (to_visited ?t),
      to_entries := to_entries ?t @ [recursive_entry full (of_nat d + 1) i False],
      to_stack := (full, of_nat d + 1, es) # (p, of_nat d, later) # rest\<rparr>)"
    let ?B = "(full, Suc d, sort_key fst ks) # (p, d, kids) # A"
    have "tour_step W fs max_depth limit st = (Ok (Inr ()), ?st)"
      using l m c(1) ch(1) i fresh u by (simp add: run full_def [symmetric])
    moreover have "touring W fs limit ?st ?B"
      using n ch(2,3) st(5,6) dist l i u
      by (auto simp: touring_def frame_for_def preorder_folder list_all_iff ds simp del: of_nat_Suc)
    ultimately show ?thesis using u
      by (intro exI [of _ ?st] exI [of _ ?B]) (simp add: preorder_folder ds del: of_nat_Suc)
  next
    case False
    with stored_is_dir [OF st(4)] have i: "\<not> is_dir ?i" by blast
    let ?st = "(c, ?t\<lparr>to_entries := to_entries ?t @ [recursive_entry full (of_nat d + 1) ?i False],
      to_stack := (p, of_nat d, later) # rest\<rparr>)"
    let ?B = "(p, d, kids) # A"
    have "tour_step W fs max_depth limit st = (Ok (Inr ()), ?st)"
      using l m c(1) i by (simp add: run full_def [symmetric])
    moreover have "touring W fs limit ?st ?B"
      using n c(2) st(5,6) dist l i
      by (auto simp: touring_def frame_for_def list_all_iff)
    ultimately show ?thesis using preorder_leaf [OF False]
      by (intro exI [of _ ?st] exI [of _ ?B]) (simp add: ds del: of_nat_Suc)
  qed
qed

text \<open>An iterator that is used up is dropped.\<close>

lemma touring_pops:
  assumes "touring W fs limit st ((p, d, []) # A)"
  shows "\<exists>st'. tour_step W fs max_depth limit st = (Ok (Inr ()), st') \<and> touring W fs limit st' A \<and>
    to_entries (snd st') = to_entries (snd st)"
proof -
  from assms obtain rest where st: "to_stack (snd st) = (p, of_nat d, []) # rest" "list_all2 (frame_for W fs) rest A"
    by (auto simp: touring_def list_all2_Cons2 frame_for_def)
  with assms show ?thesis
    by (intro exI [of _ "(fst st, (snd st)\<lparr>to_stack := rest\<rparr>)"])
      (auto simp: tour_step_def bind_s_def on_right_def ok_cli_def ret_s_def touring_def)
qed

text \<open>The whole loop.\<close>

lemma tour_loop_cut:
  assumes "touring W fs limit st A"
  shows "\<exists>st'. tour_loop W fs max_depth limit st =
      (Ok (case snd (cut max_depth limit (length (to_entries (snd st))) (ahead A)) of
             None \<Rightarrow> Inr () | Some e \<Rightarrow> Inl e), st') \<and>
    to_entries (snd st') = to_entries (snd st) @
      fst (cut max_depth limit (length (to_entries (snd st))) (ahead A))"
  using assms
proof (induction W fs max_depth limit st arbitrary: A rule: tour_loop.induct)
  case (1 W fs md limit st)
  note unfold = tour_loop.simps [of W fs md limit st]
  show ?case
  proof (cases A)
    case Nil
    with 1(2) have "to_stack (snd st) = []" by (simp add: touring_def)
    with Nil show ?thesis by (simp add: unfold ok_cli_def ret_s_def)
  next
    case (Cons f A')
    obtain p d ks where f: "f = (p, d, ks)" by (rule prod_cases3)
    from 1(2) Cons have ne: "to_stack (snd st) \<noteq> []" by (auto simp: touring_def)
    show ?thesis
    proof (cases ks)
      case Nil
      with 1(2) Cons f have "touring W fs limit st ((p, d, []) # A')" by simp
      from touring_pops [OF this, of md] obtain st' where
        s: "tour_step W fs md limit st = (Ok (Inr ()), st')" "touring W fs limit st' A'"
        "to_entries (snd st') = to_entries (snd st)" by blast
      from 1(1) [OF ne s(1) [symmetric] refl refl s(2)] Cons f Nil ne s(1,3) show ?thesis
        by (simp add: unfold)
    next
      case (Cons k ks')
      obtain name u where k: "k = (name, u)" by (rule prod.exhaust)
      have t: "touring W fs limit st ((p, d, (name, u) # ks') # A')"
        using 1(2) \<open>A = f # A'\<close> f Cons k by simp
      have a: "ahead A = (child_path p name, Suc d, node u) #
          preorder (child_path p name) (Suc d) u @ below p d ks' @ ahead A'"
        using \<open>A = f # A'\<close> f Cons k by simp
      show ?thesis
      proof (cases "unat limit \<le> length (to_entries (snd st)) \<or> unat md < Suc d")
        case True
        with touring_stops [OF t, of md] ne show ?thesis
          by (cases "unat limit \<le> length (to_entries (snd st))")
            (auto simp: unfold a err_cli_def ret_s_def)
      next
        case False
        then obtain st' B where s: "tour_step W fs md limit st = (Ok (Inr ()), st')" "touring W fs limit st' B"
          "ahead B = preorder (child_path p name) (Suc d) u @ below p d ks' @ ahead A'"
          "to_entries (snd st') = to_entries (snd st) @
            [recursive_entry (child_path p name) (of_nat (Suc d)) (node u) False]"
          using touring_goes_on [OF t, of md] by auto
        from 1(1) [OF ne s(1) [symmetric] refl refl s(2)] ne s(1,3,4) False show ?thesis
          by (auto simp: unfold a split: prod.split)
      qed
    qed
  qed
qed

section \<open>The verbs on a stored tree\<close>

text \<open>What a recursive listing from a node goes over: the node itself when it is no directory.\<close>

definition tour_items :: "bytes \<Rightarrow> tree \<Rightarrow> item list" where
  "tour_items full u =
     (case u of Folder i kids \<Rightarrow> preorder full 0 u | _ \<Rightarrow> [(full, 0, node u)])"

text \<open>No directory of the subtree has the inode number of another.\<close>

definition numbered :: "tree \<Rightarrow> bool" where
  "numbered u \<longleftrightarrow> distinct (directories (([], 0, node u) # preorder [] 0 u))"

lemma directories_path: "directories (preorder p d u) = directories (preorder q e u)"
proof (induction "size u" arbitrary: u p d q e rule: less_induct)
  case less
  show ?case
  proof (cases "\<exists>i kids. u = Folder i kids")
    case True
    then obtain i kids where u: "u = Folder i kids" by blast
    have "directories (below p d ks) = directories (below q e ks)" if "set ks \<subseteq> set kids" for ks
      using that
    proof (induction ks)
      case Nil
      then show ?case by simp
    next
      case (Cons k ks)
      obtain name v where k: "k = (name, v)" by (rule prod.exhaust)
      with Cons.prems have "size v < size u" using u kid_smaller by auto
      from less.hyps [OF this, of "child_path p name" "Suc d" "child_path q name" "Suc e"] Cons k
      show ?case by simp
    qed
    from this [of "sort_key fst kids"] show ?thesis by (simp add: u preorder_folder)
  next
    case False
    then show ?thesis by (simp add: preorder_leaf)
  qed
qed

lemma survey_cut:
  assumes "tree_stored W fs u" "numbered u" "caches_ok W fs c"
  shows "fst (survey W fs max_depth limit full (node u) c) = Ok (cut max_depth limit 0 (tour_items full u))"
proof (cases "\<exists>i kids. u = Folder i kids")
  case True
  then obtain i kids where u: "u = Folder i kids" by blast
  have i: "is_dir i" using leaf_types(3) assms(1) u by blast
  from gives_children [OF assms(1) [unfolded u], of full] assms(3) obtain es d where
    ch: "children W fs i full c = (Ok (Inr es), d)" "caches_ok W fs d"
    "list_all2 (stands_for W fs) es (sort_key fst kids)" by (auto simp: gives_def)
  let ?st = "(d, \<lparr>to_visited = {in_number i}, to_stack = [(full, 0, es)], to_entries = []\<rparr>)"
  have dist: "distinct (directories (preorder full 0 u))" "in_number i \<notin> set (directories (preorder full 0 u))"
    using assms(2) i directories_path [of full 0 u "[]" 0] by (simp_all add: numbered_def u)
  have "touring W fs limit ?st [(full, 0, sort_key fst kids)]"
    using ch(2,3) dist by (simp add: touring_def frame_for_def u preorder_folder)
  from tour_loop_cut [OF this, of max_depth] obtain st' where
    l: "tour_loop W fs max_depth limit ?st =
      (Ok (case snd (cut max_depth limit 0 (tour_items full u)) of None \<Rightarrow> Inr () | Some e \<Rightarrow> Inl e), st')"
    "to_entries (snd st') = fst (cut max_depth limit 0 (tour_items full u))"
    by (auto simp: tour_items_def u preorder_folder)
  obtain d' t' where "st' = (d', t')" by (rule prod.exhaust)
  moreover obtain js r where "cut max_depth limit 0 (tour_items full u) = (js, r)" by (rule prod.exhaust)
  ultimately show ?thesis using l ch(1) i by (cases r) (simp_all add: survey_def u)
next
  case False
  with stored_is_dir [OF assms(1)] have "\<not> is_dir (node u)" by blast
  moreover from False have "tour_items full u = [(full, 0, node u)]" by (cases u) (simp_all add: tour_items_def)
  ultimately show ?thesis by (simp add: survey_def unat_eq_zero)
qed








section \<open>Properties\<close>

text \<open>C5. A recursive listing of a stored tree reports exactly the nodes of the recursive pre-order walk,
  children by name, each with its path and depth, up to the first that is past the entry or the
  depth bound; then the error names that bound and that path, and the entries so far are on
  standard output.\<close>

theorem recursive_listing_is_preorder:
  assumes "image_holds W fs t" "descend t (components p) = Ok u" "numbered u"
    and "caches_ok W fs (pr_caches s)"
  shows "\<exists>c. ls_recursive W T fs p max_depth limit s =
    (case cut max_depth limit 0 (tour_items (full_path p) u) of
       (es, None) \<Rightarrow> ok_cli (listing_report T es)
     | (es, Some e) \<Rightarrow>
         bind_c (or_failed (text_of ''write'') (write_all T Stdout (tl_render T (listing_report T es))))
           (\<lambda>_. err_cli e)) (s\<lparr>pr_caches := c\<rparr>)"
proof -
  have st: "tree_stored W fs u"
    using assms(1) descend_stored [OF _ assms(2), of W fs] by (simp add: image_holds_def)
  from lookup_verb [OF holds_resolves [OF assms(1,2)] assms(4)] obtain c where
    l: "on_caches (within p (lookup_path_bytes W fs p)) s = (Ok (Inr (node u)), s\<lparr>pr_caches := c\<rparr>)"
    "caches_ok W fs c" by blast
  obtain d where "survey W fs max_depth limit (full_path p) (node u) c =
      (Ok (cut max_depth limit 0 (tour_items (full_path p) u)), d)"
    using survey_cut [OF st assms(3) l(2), of max_depth limit "full_path p"] by (metis prod.collapse)
  with l(1) show ?thesis
    by (intro exI [of _ d])
      (simp add: ls_recursive_def bind_c_run [of "on_caches (within p (lookup_path_bytes W fs p))"]
        bind_s_def [of "on_caches (survey W fs max_depth limit (full_path p) (node u))"]
        on_caches_def Let_def split: prod.split option.split)
qed

lemma a_is_file: "\<not> is_dir a_node"
  by (simp add: is_dir_def file_type_of_def inode_of_def a_body_def headed_def from_type_id_def type_ids)

lemma sample_preorder:
  "preorder p d sample_tree = [(child_path p [0x61], Suc d, a_node)]"
  by (simp add: preorder_folder preorder_leaf)

lemma recursive_listing_is_preorder_witness:
  "\<exists>c. ls_recursive sample_world sample_tool sample_fs [0x2F] 9 9 sample_proc =
     (Ok (Inr (listing_report sample_tool [recursive_entry [0x2F, 0x61] 1 a_node False])),
      sample_proc\<lparr>pr_caches := c\<rparr>)"
proof -
  have "numbered sample_tree" by (simp add: numbered_def sample_preorder a_is_file)
  moreover have "descend sample_tree (components [0x2F]) = Ok sample_tree" by (simp add: components_def)
  moreover have "full_path [0x2F] = [0x2F]" by (simp add: full_path_def components_def)
  ultimately show ?thesis
    using recursive_listing_is_preorder [OF sample_holds, of "[0x2F]" sample_tree sample_proc sample_tool 9 9]
      sample_caches_ok
    by (simp add: tour_items_def sample_preorder child_path_def ok_cli_def ret_s_def)
qed



end
