(* ===== verification/Packing_Stream.thy ===== *)
theory Packing_Stream
  imports Tree
begin

text \<open>
  Where the bytes of a table are: a byte stream cut into uncompressed metadata blocks, as an image
  writer puts it, and the cursor of \<open>metablock.rs\<close> that reads it from any of its bytes on.
\<close>

section \<open>A byte stream in uncompressed metadata blocks\<close>

function table_bytes :: "bytes \<Rightarrow> bytes" where
  "table_bytes s =
     (if s = [] then [] else stored_block False (take METADATA_SIZE s) @ table_bytes (drop METADATA_SIZE s))"
  by pat_completeness auto
termination
  by (relation "measure length") (auto simp: METADATA_SIZE_def)

declare table_bytes.simps [simp del]

lemma table_bytes_Nil [simp]: "table_bytes [] = []"
  by (simp add: table_bytes.simps)

lemma table_bytes_step:
  "s \<noteq> [] \<Longrightarrow> table_bytes s = stored_block False (take METADATA_SIZE s) @ table_bytes (drop METADATA_SIZE s)"
  by (simp add: table_bytes.simps)

lemma length_table_bytes_ge: "length s \<le> length (table_bytes s)"
proof (induction s rule: table_bytes.induct)
  case (1 s)
  then show ?case by (cases "s = []") (auto simp: table_bytes_step length_stored_block)
qed

lemma unat_small: "n < 2 ^ 64 \<Longrightarrow> unat (of_nat n :: u64) = n" "n < 2 ^ 32 \<Longrightarrow> unat (of_nat n :: u32) = n"
  "n < 2 ^ 16 \<Longrightarrow> unat (of_nat n :: u16) = n"
  by (simp_all add: unat_of_nat take_bit_nat_eq_self)

text \<open>Where byte \<open>k\<close> of the stream is: which block, counted in bytes of the table, and where in it.\<close>

definition block_of :: "nat \<Rightarrow> nat" where "block_of k = (METADATA_SIZE + 2) * (k div METADATA_SIZE)"
definition place_in :: "nat \<Rightarrow> nat" where "place_in k = k mod METADATA_SIZE"

lemma drop_table:
  "METADATA_SIZE * j \<le> length s \<Longrightarrow>
    drop ((METADATA_SIZE + 2) * j) (table_bytes s) = table_bytes (drop (METADATA_SIZE * j) s)"
proof (induction j arbitrary: s)
  case 0
  then show ?case by simp
next
  case (Suc j)
  have le: "METADATA_SIZE \<le> length s" "s \<noteq> []" using Suc.prems by (auto simp: METADATA_SIZE_def)
  have "drop (METADATA_SIZE + 2) (table_bytes s) = table_bytes (drop METADATA_SIZE s)"
    using le by (simp add: table_bytes_step length_stored_block)
  moreover have "METADATA_SIZE * j \<le> length (drop METADATA_SIZE s)" using Suc.prems by simp
  note Suc.IH [OF this]
  moreover have "drop ((METADATA_SIZE + 2) * Suc j) (table_bytes s) =
      drop ((METADATA_SIZE + 2) * j) (drop (METADATA_SIZE + 2) (table_bytes s))"
    by (simp add: add.commute)
  ultimately show ?case by (simp add: add.commute)
qed

lemma raw_block_at:
  assumes "me_dev E = mem_device img" "drop (unat a) img = stored_block False p @ rest"
    "unat a + length (stored_block False p) < 2 ^ 64" "0 < length p" "length p \<le> METADATA_SIZE"
  shows "read_block_uncached E sb a = Ok (p, a + 2 + of_nat (length p))"
proof -
  have l: "length (drop (unat a) img) = 2 + length p + length rest"
    by (simp add: assms(2) stored_block_def)
  then have le: "unat a + 2 + length p \<le> length img" by simp
  have a2: "unat (a + 2) = unat a + 2"
    using assms(3) unat_add_lem [of a 2] by (simp add: length_stored_block)
  have "take 2 (drop (unat a) img) = take 2 (stored_block False p)"
    unfolding assms(2) by (simp add: stored_block_def)
  then have r1: "read_at (me_dev E) a 2 = Ok (take 2 (stored_block False p))"
    using le by (simp add: assms(1) read_at_mem_device)
  have "drop (unat (a + 2)) img = drop 2 (drop (unat a) img)" by (simp add: a2 add.commute)
  then have "take (length p) (drop (unat (a + 2)) img) = p"
    unfolding assms(2) by (simp add: stored_block_def)
  then have r2: "read_at (me_dev E) (a + 2) (length p) = Ok p"
    using le a2 by (simp add: assms(1) read_at_mem_device)
  show ?thesis by (rule read_stored_block [where z = False]) (use assms(4,5) r1 r2 in simp_all)
qed

lemma unat_skip:
  fixes a :: u64
  assumes "unat a + n < 2 ^ 64"
  shows "unat (a + of_nat n) = unat a + n"
proof -
  have "n < 2 ^ 64" using assms by linarith
  then have "unat (of_nat n :: u64) = n" by (simp add: unat_of_nat take_bit_nat_eq_self)
  with assms show ?thesis using unat_add_no_wrap [of a "of_nat n"] by simp
qed

definition below_limit :: "(u64 \<times> string) option \<Rightarrow> nat \<Rightarrow> bool" where
  "below_limit lim n \<longleftrightarrow> (\<forall>e why. lim = Some (e, why) \<longrightarrow> n \<le> unat e)"

lemma table_run:
  assumes "me_dev E = mem_device img" "drop (unat a) img = table_bytes s @ rest"
    "unat a + length (table_bytes s) < 2 ^ 64" "below_limit lim (unat a + length (table_bytes s))"
  shows "\<exists>q. block_run E sb lim a s q"
  using assms(2-4)
proof (induction s arbitrary: a rule: table_bytes.induct)
  case (1 s)
  show ?case
  proof (cases "s = []")
    case True
    then show ?thesis by (auto intro: run_none)
  next
    case False
    let ?p = "take METADATA_SIZE s" and ?s = "drop METADATA_SIZE s"
    let ?n = "a + of_nat (length (stored_block False ?p))"
    note t = table_bytes_step [OF False]
    have len: "length (table_bytes s) = 2 + length ?p + length (table_bytes ?s)" by (simp add: t length_stored_block)
    have lt: "unat a + length (stored_block False ?p) < 2 ^ 64"
      using 1(3) len by simp
    note n = unat_skip [OF lt]
    have p: "0 < length ?p" "length ?p \<le> METADATA_SIZE" using False by (simp_all add: METADATA_SIZE_def)
    have d: "drop (unat a) img = stored_block False ?p @ (table_bytes ?s @ rest)" using 1(2) by (simp add: t)
    have "read_block_uncached E sb a = Ok (?p, a + 2 + of_nat (length ?p))"
      by (rule raw_block_at [OF assms(1) d lt p])
    moreover have "a + 2 + of_nat (length ?p) = ?n" by (simp add: length_stored_block)
    moreover have "\<not> (\<exists>e why. lim = Some (e, why) \<and> e \<le> a)"
      using 1(4) p(1) unfolding below_limit_def len by (auto simp: word_le_nat_alt)
    ultimately have pull: "pull E sb lim a = Ok (?p, ?n)" using False by (simp add: pull_def METADATA_SIZE_def)
    have d2: "drop (unat ?n) img = table_bytes ?s @ rest"
    proof -
      have "drop (unat ?n) img = drop (length (stored_block False ?p)) (drop (unat a) img)"
        unfolding n by (simp add: add.commute)
      then show ?thesis unfolding d by simp
    qed
    have "unat ?n + length (table_bytes ?s) = unat a + length (table_bytes s)" using n len by simp
    with 1(3,4) have "\<exists>q. block_run E sb lim ?n ?s q" by (intro 1(1) [OF False d2]) simp_all
    then obtain q where "block_run E sb lim ?n ?s q" ..
    from run_block [OF pull this] show ?thesis by auto
  qed
qed

lemma stream_at:
  assumes "me_dev E = mem_device img" "drop (unat a) img = table_bytes s @ rest"
    "unat a + length (table_bytes s) < 2 ^ 64" "below_limit lim (unat a + length (table_bytes s))"
    "k < length s"
  shows "metadata_at E sb lim (a + of_nat (block_of k)) (of_nat (place_in k)) (drop k s)"
proof -
  let ?j = "k div METADATA_SIZE"
  let ?s = "drop (METADATA_SIZE * ?j) s"
  let ?p = "take METADATA_SIZE ?s" and ?a = "a + of_nat (block_of k)"
  have M: "METADATA_SIZE * ?j + place_in k = k" "place_in k < METADATA_SIZE"
    by (simp_all add: place_in_def METADATA_SIZE_def)
  then have le: "METADATA_SIZE * ?j \<le> length s" "?s \<noteq> []" using assms(5) by auto
  have b: "block_of k + length (table_bytes ?s) = length (table_bytes s)"
  proof -
    have "length (table_bytes ?s) = length (table_bytes s) - block_of k"
      unfolding block_of_def drop_table [OF le(1), symmetric] by simp
    moreover have "0 < length (table_bytes ?s)" using le(2) length_table_bytes_ge [of ?s] by (cases ?s) auto
    ultimately show ?thesis by linarith
  qed
  then have ua: "unat ?a = unat a + block_of k" using assms(3) by (intro unat_skip) linarith
  have d: "drop (unat ?a) img = table_bytes ?s @ rest"
  proof -
    have "drop (unat ?a) img = drop (block_of k) (drop (unat a) img)" unfolding ua by (simp add: add.commute)
    also have "\<dots> = drop (block_of k) (table_bytes s) @ rest" using b by (simp add: assms(2))
    finally show ?thesis unfolding block_of_def drop_table [OF le(1)] .
  qed
  note t = table_bytes_step [OF le(2)]
  have len: "length (table_bytes ?s) = length (stored_block False ?p) + length (table_bytes (drop METADATA_SIZE ?s))"
    unfolding t by simp
  have tot: "unat ?a + length (table_bytes ?s) = unat a + length (table_bytes s)" using ua b by linarith
  have lt: "unat ?a + length (stored_block False ?p) < 2 ^ 64" using tot len assms(3) by linarith
  note n = unat_skip [OF lt]
  have p: "0 < length ?p" "length ?p \<le> METADATA_SIZE" using le by (simp_all add: METADATA_SIZE_def)
  have d1: "drop (unat ?a) img = stored_block False ?p @ (table_bytes (drop METADATA_SIZE ?s) @ rest)"
    using d by (simp add: t)
  have "read_block_uncached E sb ?a = Ok (?p, ?a + 2 + of_nat (length ?p))"
    by (rule raw_block_at [OF assms(1) d1 lt p])
  moreover have "?a + 2 + of_nat (length ?p) = ?a + of_nat (length (stored_block False ?p))"
    by (simp add: length_stored_block)
  ultimately have blk: "read_block_uncached E sb ?a = Ok (?p, ?a + of_nat (length (stored_block False ?p)))" by simp
  have d2: "drop (unat (?a + of_nat (length (stored_block False ?p)))) img = table_bytes (drop METADATA_SIZE ?s) @ rest"
  proof -
    have "drop (unat (?a + of_nat (length (stored_block False ?p)))) img =
        drop (length (stored_block False ?p)) (drop (unat ?a) img)"
      unfolding n by (simp add: add.commute)
    then show ?thesis unfolding d1 by simp
  qed
  have "unat (?a + of_nat (length (stored_block False ?p))) + length (table_bytes (drop METADATA_SIZE ?s)) =
      unat a + length (table_bytes s)" unfolding n using tot len by linarith
  with table_run [OF assms(1) d2] assms(3,4)
  obtain q where q: "block_run E sb lim (?a + of_nat (length (stored_block False ?p))) (drop METADATA_SIZE ?s) q"
    by auto
  have u: "unat (of_nat (place_in k) :: u16) = place_in k"
    using M(2) by (simp add: unat_of_nat take_bit_nat_eq_self METADATA_SIZE_def)
  have pl: "place_in k \<le> length ?p" using M assms(5) by simp
  have "drop k s = drop (place_in k) ?s" using M(1) by (simp add: add.commute)
  also have "\<dots> = drop (place_in k) ?p @ drop METADATA_SIZE ?s"
    using pl append_take_drop_id [of METADATA_SIZE ?s]
    by (metis append_eq_conv_conj drop_append diff_is_0_eq drop_0)
  finally have s: "drop k s = drop (unat (of_nat (place_in k) :: u16)) ?p @ drop METADATA_SIZE ?s" unfolding u .
  show ?thesis
    unfolding metadata_at_def
    by (intro exI conjI) (rule blk, simp only: u pl, rule q, rule s)
qed

end
