(* ===== verification/Packing.thy ===== *)
theory Packing
  imports Packing_Stream "HOL-Library.Sublist"
begin

text \<open>
  An image writer, from the tree to the bytes: a file tree is laid out as data blocks, inodes and
  directory listings, and these, the table of ids and the superblock make an image.  It writes no
  fragments, attributes or export table and stores metadata uncompressed; those parts of the format have
  encoders of their own in the theories of their parsers.  The repository holds no writer; this one
  states the format, and \<open>Packing_Mount\<close> proves that \<open>fs.rs\<close> reads it.  How data blocks are compressed is a parameter (\<open>po_pack\<close>).
\<close>

section \<open>What is packed\<close>

text \<open>A file tree before it is an image, with the attributes an inode keeps of each file.\<close>

record source_meta =
  sm_permissions :: u16
  sm_uid_idx :: u16
  sm_gid_idx :: u16
  sm_mtime :: u32

datatype source =
    Plain source_meta bytes
  | Symbolic source_meta bytes
  | Device source_meta bool u32
  | Pipe source_meta bool
  | Directory source_meta "(bytes \<times> source) list"

record pack_options =
  po_log :: nat
  po_comp :: compressor
  po_pack :: "bytes \<Rightarrow> bytes option"
  po_ids :: "u32 list"
  po_mtime :: u32

definition po_bsize :: "pack_options \<Rightarrow> nat" where "po_bsize opt = 2 ^ po_log opt"

section \<open>Data blocks\<close>

definition chunks :: "nat \<Rightarrow> bytes \<Rightarrow> bytes list" where
  "chunks bs data = map (\<lambda>k. take bs (drop (k * bs) data)) [0..<div_ceil_nat (length data) bs]"

text \<open>A block of zeros is a hole; another is stored packed when that makes it smaller.\<close>

definition pack_block :: "pack_options \<Rightarrow> bytes \<Rightarrow> u32 \<times> bytes" where
  "pack_block opt c =
     (if c = replicate (length c) 0 then (0, [])
      else
        (case po_pack opt c of
           Some z \<Rightarrow>
             if z \<noteq> [] \<and> length z < length c then (of_nat (length z), z)
             else (of_nat (length c + 2 ^ 24), c)
         | None \<Rightarrow> (of_nat (length c + 2 ^ 24), c)))"

section \<open>Laying out a tree\<close>

text \<open>The streams of an image that grow as the tree is walked, and the number of inodes.\<close>

record packing =
  pk_data :: bytes
  pk_inodes :: bytes
  pk_listings :: bytes
  pk_count :: nat

definition nothing_packed :: packing where
  "nothing_packed = \<lparr>pk_data = [], pk_inodes = [], pk_listings = [], pk_count = 0\<rparr>"

text \<open>A child as its directory's listing needs it: its name, what is at it, where its inode is in the
  inode stream, and its number.\<close>

type_synonym laid = "bytes \<times> tree \<times> nat \<times> nat"

definition ref_of :: "nat \<Rightarrow> u64" where
  "ref_of pos = of_nat (block_of pos * 2 ^ 16 + place_in pos)"

definition header_for :: "source_meta \<Rightarrow> nat \<Rightarrow> stored_header" where
  "header_for m n =
     \<lparr>sh_permissions = sm_permissions m, sh_uid_idx = sm_uid_idx m, sh_gid_idx = sm_gid_idx m,
      sh_mtime = sm_mtime m, sh_number = of_nat n\<rparr>"

text \<open>An entry names the basic type of its inode.\<close>

fun basic_type :: "tree \<Rightarrow> u16" where
  "basic_type (File i data) = 2"
| "basic_type (Link i target) = 3"
| "basic_type (Special i) = in_type i"
| "basic_type (Folder i kids) = 1"

definition group_for :: "laid \<Rightarrow> stored_group" where
  "group_for k =
     (case k of (name, t, pos, n) \<Rightarrow>
       \<lparr>sg_start = of_nat (block_of pos), sg_base = of_nat n,
        sg_entries =
          [\<lparr>se_offset = of_nat (place_in pos), se_delta = 0, se_type = basic_type t, se_name = name\<rparr>]\<rparr>)"

definition file_body :: "pack_options \<Rightarrow> bytes \<Rightarrow> nat \<Rightarrow> stored_body" where
  "file_body opt data at =
     Ext_file (of_nat at) (of_nat (length data)) 0 1 SQUASHFS_INVALID_FRAG 0 SQUASHFS_INVALID_XATTR
       (map (fst \<circ> pack_block opt) (chunks (po_bsize opt) data))"

definition file_blocks :: "pack_options \<Rightarrow> bytes \<Rightarrow> bytes" where
  "file_blocks opt data = concat (map (snd \<circ> pack_block opt) (chunks (po_bsize opt) data))"

definition dir_body :: "nat \<Rightarrow> nat \<Rightarrow> nat \<Rightarrow> nat \<Rightarrow> stored_body" where
  "dir_body links len at parent =
     Ext_dir (of_nat links) (of_nat (len + 3)) (of_nat (block_of at)) (of_nat parent) 0
       (of_nat (place_in at)) SQUASHFS_INVALID_XATTR"

definition put_inode :: "stored_header \<Rightarrow> stored_body \<Rightarrow> packing \<Rightarrow> packing" where
  "put_inode h b st = st\<lparr>pk_inodes := pk_inodes st @ inode_bytes h b\<rparr>"

definition next_number :: "packing \<Rightarrow> packing" where
  "next_number st = st\<lparr>pk_count := pk_count st + 1\<rparr>"

text \<open>Inodes are numbered from the root down and written from the leaves up, since a listing refers to
  the inodes it names.\<close>

function lay :: "pack_options \<Rightarrow> nat \<Rightarrow> source \<Rightarrow> packing \<Rightarrow> (tree \<times> nat \<times> nat) \<times> packing"
  and lay_all :: "pack_options \<Rightarrow> nat \<Rightarrow> (bytes \<times> source) list \<Rightarrow> packing \<Rightarrow> laid list \<times> packing"
where
  "lay opt parent (Plain m data) st =
     (let n = pk_count st + 1;
          h = header_for m n; b = file_body opt data (SUPERBLOCK_SIZE + length (pk_data st))
      in
      ((File (inode_of h b) data, length (pk_inodes st), n),
       put_inode h b ((next_number st)\<lparr>pk_data := pk_data st @ file_blocks opt data\<rparr>)))"
| "lay opt parent (Symbolic m target) st =
     (let n = pk_count st + 1; h = header_for m n; b = Basic_symlink 1 target in
      ((Link (inode_of h b) target, length (pk_inodes st), n), put_inode h b (next_number st)))"
| "lay opt parent (Device m character rdev) st =
     (let n = pk_count st + 1; h = header_for m n; b = Basic_dev character 1 rdev in
      ((Special (inode_of h b), length (pk_inodes st), n), put_inode h b (next_number st)))"
| "lay opt parent (Pipe m socket) st =
     (let n = pk_count st + 1; h = header_for m n; b = Basic_ipc socket 1 in
      ((Special (inode_of h b), length (pk_inodes st), n), put_inode h b (next_number st)))"
| "lay opt parent (Directory m kids) st =
     (let n = pk_count st + 1; h = header_for m n in
      case lay_all opt n kids (next_number st) of
        (ks, st') \<Rightarrow>
          (let l = listing_bytes (map group_for ks);
               b = dir_body (2 + length kids) (length l) (length (pk_listings st')) parent
           in
           ((Folder (inode_of h b) (map (\<lambda>(name, t, pos, n). (name, t)) ks), length (pk_inodes st'), n),
            put_inode h b (st'\<lparr>pk_listings := pk_listings st' @ l\<rparr>))))"
| "lay_all opt parent [] st = ([], st)"
| "lay_all opt parent ((name, s) # kids) st =
     (case lay opt parent s st of
        (k, st') \<Rightarrow> (case lay_all opt parent kids st' of (ks, st'') \<Rightarrow> ((name, k) # ks, st'')))"
  by pat_completeness auto
termination
  by (relation "measure (\<lambda>x. case x of Inl (opt, p, s, st) \<Rightarrow> size s
      | Inr (opt, p, ks, st) \<Rightarrow> size_list (size_prod (\<lambda>_. 0) size) ks)") auto

section \<open>The image\<close>

definition ids_bytes :: "pack_options \<Rightarrow> bytes" where
  "ids_bytes opt = concat (map (to_le_bytes 4) (po_ids opt))"

definition inodes_at :: "packing \<Rightarrow> nat" where
  "inodes_at F = SUPERBLOCK_SIZE + length (pk_data F)"

definition listings_at :: "packing \<Rightarrow> nat" where
  "listings_at F = inodes_at F + length (table_bytes (pk_inodes F))"

definition ids_at :: "packing \<Rightarrow> nat" where
  "ids_at F = listings_at F + length (table_bytes (pk_listings F))"

definition id_table_at :: "pack_options \<Rightarrow> packing \<Rightarrow> nat" where
  "id_table_at opt F = ids_at F + 2 + length (ids_bytes opt)"

definition superblock_for :: "pack_options \<Rightarrow> nat \<Rightarrow> packing \<Rightarrow> superblock" where
  "superblock_for opt root F =
     \<lparr>sb_magic = SQUASHFS_MAGIC, sb_inode_count = of_nat (pk_count F),
      sb_modification_time = po_mtime opt, sb_block_size = of_nat (po_bsize opt),
      sb_fragment_entry_count = 0, sb_compression_id = compressor_id (po_comp opt),
      sb_block_log = of_nat (po_log opt), sb_flags = 0, sb_id_count = of_nat (length (po_ids opt)),
      sb_version_major = 4, sb_version_minor = 0, sb_root_inode_ref = ref_of root,
      sb_bytes_used = of_nat (id_table_at opt F + 8), sb_id_table_start = of_nat (id_table_at opt F),
      sb_xattr_id_table_start = NO_TABLE, sb_inode_table_start = of_nat (inodes_at F),
      sb_directory_table_start = of_nat (listings_at F), sb_fragment_table_start = NO_TABLE,
      sb_export_table_start = NO_TABLE\<rparr>"

definition image_for :: "pack_options \<Rightarrow> nat \<Rightarrow> packing \<Rightarrow> bytes" where
  "image_for opt root F =
     superblock_bytes (superblock_for opt root F) @ pk_data F @ table_bytes (pk_inodes F) @
     table_bytes (pk_listings F) @ stored_block False (ids_bytes opt) @
     to_le_bytes 8 (of_nat (ids_at F) :: u64)"

definition pack :: "pack_options \<Rightarrow> source \<Rightarrow> bytes" where
  "pack opt s = (case lay opt 0 s nothing_packed of ((t, pos, n), F) \<Rightarrow> image_for opt pos F)"

section \<open>What can be packed\<close>

fun source_ok :: "pack_options \<Rightarrow> source \<Rightarrow> bool" where
  "source_ok opt (Plain m data) \<longleftrightarrow> div_ceil_nat (length data) (po_bsize opt) \<le> 2 ^ 24"
| "source_ok opt (Symbolic m target) \<longleftrightarrow> length target \<le> 2 ^ 16"
| "source_ok opt (Device m character rdev) \<longleftrightarrow> True"
| "source_ok opt (Pipe m socket) \<longleftrightarrow> True"
| "source_ok opt (Directory m kids) \<longleftrightarrow> list_all (\<lambda>(name, s). name_ok name \<and> source_ok opt s) kids"

definition packing_fits :: "packing \<Rightarrow> bool" where
  "packing_fits F \<longleftrightarrow>
     length (pk_data F) < 2 ^ 62 \<and> length (table_bytes (pk_inodes F)) < 2 ^ 31 \<and>
     length (table_bytes (pk_listings F)) < 2 ^ 31"

text \<open>The codec undoes what the packer does, which is all that is asked of it.\<close>

definition options_ok :: "('c, 'd) world \<Rightarrow> pack_options \<Rightarrow> bool" where
  "options_ok W opt \<longleftrightarrow>
     12 \<le> po_log opt \<and> po_log opt \<le> 20 \<and> po_ids opt \<noteq> [] \<and> length (po_ids opt) \<le> 2048 \<and>
     (\<forall>c z. po_pack opt c = Some z \<longrightarrow> decompress (w_codecs W) (po_comp opt) z (length c) = Ok c)"

text \<open>What the tree of an image says of the source it was made from.\<close>

definition meta_of :: "inode \<Rightarrow> source_meta" where
  "meta_of i =
     \<lparr>sm_permissions = in_permissions i, sm_uid_idx = in_uid_idx i, sm_gid_idx = in_gid_idx i,
      sm_mtime = in_mtime i\<rparr>"

fun source_of :: "tree \<Rightarrow> source" where
  "source_of (File i data) = Plain (meta_of i) data"
| "source_of (Link i target) = Symbolic (meta_of i) target"
| "source_of (Special i) =
     (case file_type_of i of
        CharDev \<Rightarrow> Device (meta_of i) True (in_rdev i)
      | BlockDev \<Rightarrow> Device (meta_of i) False (in_rdev i)
      | Socket \<Rightarrow> Pipe (meta_of i) True
      | _ \<Rightarrow> Pipe (meta_of i) False)"
| "source_of (Folder i kids) = Directory (meta_of i) (map (\<lambda>(name, t). (name, source_of t)) kids)"

end
