(* ===== verification/Packing_Layout.thy ===== *)
theory Packing_Layout
  imports Packing
begin

text \<open>
  What the writer of \<open>Packing\<close> leaves where: every inode, listing and data block it has placed is stored,
  in the sense of \<open>Tree\<close>, in every image its streams grow into.
\<close>

section \<open>Streams only grow\<close>

definition grows :: "packing \<Rightarrow> packing \<Rightarrow> bool" where
  "grows st F \<longleftrightarrow>
     prefix (pk_data st) (pk_data F) \<and> prefix (pk_inodes st) (pk_inodes F) \<and>
     prefix (pk_listings st) (pk_listings F)"

lemma grows_refl [simp]: "grows st st"
  by (simp add: grows_def)

lemma grows_trans: "grows st st' \<Longrightarrow> grows st' F \<Longrightarrow> grows st F"
  by (auto simp: grows_def intro: prefix_order.trans)

lemma grows_steps [intro]:
  "grows st F \<Longrightarrow> grows st (put_inode h b F)"
  "grows st F \<Longrightarrow> grows st (F\<lparr>pk_data := pk_data F @ d\<rparr>)"
  "grows st F \<Longrightarrow> grows st (F\<lparr>pk_listings := pk_listings F @ l\<rparr>)"
  "grows st F \<Longrightarrow> grows st (next_number F)"
  by (auto simp: grows_def next_number_def put_inode_def)

lemma grows_next_number: "grows (next_number st) F = grows st F"
  by (simp add: grows_def next_number_def)

lemma lay_grows:
  "grows st (snd (lay opt parent s st))"
  "grows st (snd (lay_all opt parent kids st))"
proof (induction opt parent s st and opt parent kids st rule: lay_lay_all.induct)
  case (1 opt parent m data st)
  have "grows st ((next_number st)\<lparr>pk_data := pk_data st @ file_blocks opt data\<rparr>)"
    by (simp add: grows_def next_number_def)
  then show ?case by (simp add: Let_def grows_steps(1))
next
  case (5 opt parent m kids st)
  obtain ks st' where l: "lay_all opt (pk_count st + 1) kids (next_number st) = (ks, st')" by fastforce
  from 5 [OF refl refl] have "grows st st'" by (simp add: l [simplified] grows_next_number)
  then show ?case by (simp add: l [simplified] Let_def grows_steps(1,3))
next
  case (7 opt parent name s kids st)
  obtain k st' ks st'' where l: "lay opt parent s st = (k, st')" "lay_all opt parent kids st' = (ks, st'')"
    by fastforce
  from 7(1) 7(2) [OF l(1) [symmetric]] show ?case by (simp add: l) (rule grows_trans)
qed (simp_all add: Let_def grows_steps(1,4))

text \<open>Each inode takes sixteen bytes or more.\<close>

lemma length_inode_bytes: "16 \<le> length (inode_bytes h b)"
  by (simp add: inode_bytes_def header_bytes_def)

definition roomy :: "packing \<Rightarrow> packing \<Rightarrow> bool" where
  "roomy st F \<longleftrightarrow> 16 * pk_count F + length (pk_inodes st) \<le> 16 * pk_count st + length (pk_inodes F)"

lemma roomy_inode: "roomy (next_number st) F \<Longrightarrow> roomy st (put_inode h b F)"
  using length_inode_bytes [of h b] by (simp add: roomy_def next_number_def put_inode_def)

lemma roomy_one:
  "pk_count F = Suc (pk_count st) \<Longrightarrow> pk_inodes F = pk_inodes st \<Longrightarrow> roomy st (put_inode h b F)"
  using length_inode_bytes [of h b] by (simp add: roomy_def put_inode_def)

lemma lay_roomy:
  "roomy st (snd (lay opt parent s st))"
  "roomy st (snd (lay_all opt parent kids st))"
proof (induction opt parent s st and opt parent kids st rule: lay_lay_all.induct)
  case (5 opt parent m kids st)
  obtain ks st' where l: "lay_all opt (pk_count st + 1) kids (next_number st) = (ks, st')" by fastforce
  from 5 [OF refl refl] have "roomy (next_number st) (st'\<lparr>pk_listings := x\<rparr>)" for x
    by (simp add: l [simplified] roomy_def)
  then show ?case by (simp add: l [simplified] Let_def roomy_inode)
next
  case (7 opt parent name s kids st)
  obtain k st' ks st'' where l: "lay opt parent s st = (k, st')" "lay_all opt parent kids st' = (ks, st'')"
    by fastforce
  from 7(1) 7(2) [OF l(1) [symmetric]] show ?case by (simp add: l roomy_def)
qed (simp_all add: Let_def roomy_one next_number_def, simp add: roomy_def)

lemma inode_bytes_not_Nil: "inode_bytes h b \<noteq> []"
  using length_inode_bytes [of h b] by auto

lemma lay_position: "lay opt parent s st = ((t, pos, n), st') \<Longrightarrow> pos < length (pk_inodes st')"
  by (cases s) (auto simp: Let_def put_inode_def next_number_def inode_bytes_not_Nil split: prod.splits)

section \<open>Data blocks\<close>

lemma word_size_word:
  assumes "n < 2 ^ 24"
  shows "data_on_disk_size (of_nat n) = of_nat n" "data_is_compressed (of_nat n)"
    "data_on_disk_size (of_nat (n + 2 ^ 24)) = of_nat n" "\<not> data_is_compressed (of_nat (n + 2 ^ 24))"
    "unat (of_nat n :: u32) = n"
proof -
  show u: "unat (of_nat n :: u32) = n" using assms by (simp add: unat_of_nat take_bit_nat_eq_self)
  have m: "data_on_disk_size w = take_bit 24 w" for w
    by (simp add: data_on_disk_size_def DATA_SIZE_MASK_eq take_bit_eq_mask)
  have b: "data_is_compressed w = (\<not> bit w 24)" for w
    using and_exp_eq_0_iff_not_bit [of w 24]
    by (simp only: data_is_compressed_def DATA_UNCOMPRESSED_BIT_def push_bit_of_1)
  have n: "take_bit 24 n = n" "take_bit 24 (n + 2 ^ 24) = n" "\<not> bit n 24" "bit (n + 2 ^ 24) 24"
    using assms by (simp_all add: take_bit_eq_mod bit_iff_odd div_add_self2)
  show "data_on_disk_size (of_nat n) = of_nat n" "data_on_disk_size (of_nat (n + 2 ^ 24)) = of_nat n"
    unfolding m take_bit_of_nat n by (rule refl)+
  show "data_is_compressed (of_nat n)" "\<not> data_is_compressed (of_nat (n + 2 ^ 24))"
    unfolding b bit_of_nat_iff using n(3,4) by simp_all
qed

section \<open>A file's blocks\<close>

definition on_image :: "('c, 'd) world \<Rightarrow> pack_options \<Rightarrow> nat \<Rightarrow> packing \<Rightarrow> filesystem \<Rightarrow> bool" where
  "on_image W opt root F fs \<longleftrightarrow>
     options_ok W opt \<and> packing_fits F \<and>
     fs_dev fs = mem_device (image_for opt root F) \<and> fs_sb fs = superblock_for opt root F \<and>
     fs_comp fs = po_comp opt \<and> (pk_listings F \<noteq> [] \<longrightarrow> fs_dir_table_end fs = of_nat (ids_at F))"

lemma po_bsize_bounds:
  assumes "options_ok W opt"
  shows "0 < po_bsize opt" "po_bsize opt \<le> 2 ^ 20" "unat (of_nat (po_bsize opt) :: u32) = po_bsize opt"
proof -
  show "0 < po_bsize opt" by (simp add: po_bsize_def)
  show le: "po_bsize opt \<le> 2 ^ 20"
    using assms unfolding po_bsize_def options_ok_def by (intro power_increasing) simp_all
  then show "unat (of_nat (po_bsize opt) :: u32) = po_bsize opt"
    by (simp add: unat_of_nat take_bit_nat_eq_self)
qed

lemma on_image_bsize: "on_image W opt root F fs \<Longrightarrow> bsize fs = po_bsize opt"
  by (auto simp: on_image_def bsize_def superblock_for_def po_bsize_bounds(3))

lemma pack_block_size:
  assumes "length c \<le> 2 ^ 20"
  shows "data_on_disk_size (fst (pack_block opt c)) = of_nat (length (snd (pack_block opt c)))"
    "length (snd (pack_block opt c)) \<le> length c"
  using word_size_word [of "length (snd (pack_block opt c))"] assms
  by (auto simp: pack_block_def data_on_disk_size_def split: option.splits if_splits)

lemma pack_block_decodes:
  assumes "options_ok W opt" "c \<noteq> replicate (length c) 0" "length c \<le> bsize fs" "bsize fs \<le> 2 ^ 20"
    and "fs_comp fs = po_comp opt"
    and "read_at (fs_dev fs) off (length (snd (pack_block opt c))) = Ok (snd (pack_block opt c))"
  shows "data_on_disk_size (fst (pack_block opt c)) \<noteq> 0 \<and>
    decode_data_block W fs off (fst (pack_block opt c)) (length c) = Ok c"
proof -
  define z where "z = snd (pack_block opt c)"
  have len: "length c \<le> 2 ^ 20" using assms(3,4) by linarith
  note sz = pack_block_size [OF len, of opt, folded z_def]
  have "c \<noteq> []" using assms(2) by auto
  with assms(2) have "z \<noteq> []" by (auto simp: z_def pack_block_def split: option.split)
  have z: "length z < 2 ^ 24" using sz(2) len by simp
  note w = word_size_word [OF z]
  have nz: "(of_nat (length z) :: u32) \<noteq> 0" using w(5) \<open>z \<noteq> []\<close> by (metis length_0_conv unat_0)
  have on: "unat (data_on_disk_size (fst (pack_block opt c))) = length z" using sz(1) w(5) by simp
  have "decode_data_block W fs off (fst (pack_block opt c)) (length c) =
      (if data_is_compressed (fst (pack_block opt c)) then decompress (w_codecs W) (po_comp opt) z (length c)
       else Ok z)"
    using assms(3,5,6) sz(2) on by (simp add: decode_data_block_def bsize_def Let_def z_def)
  moreover have "(po_pack opt c = Some z \<and> fst (pack_block opt c) = of_nat (length z)) \<or>
      (z = c \<and> fst (pack_block opt c) = of_nat (length z + 2 ^ 24))"
    using assms(2) by (auto simp: z_def pack_block_def split: option.split)
  then have "(if data_is_compressed (fst (pack_block opt c)) then decompress (w_codecs W) (po_comp opt) z (length c)
       else Ok z) = Ok c"
    using w assms(1) by (elim disjE) (simp_all add: options_ok_def del: of_nat_add)
  ultimately show ?thesis using sz(1) nz by simp
qed

lemma saturating_add_nat:
  assumes "a + n < 2 ^ 64" "n < 2 ^ 32"
  shows "saturating_add (of_nat a :: u64) (ucast (of_nat n :: u32)) = of_nat (a + n)"
proof -
  have "a < 2 ^ 64" "n < 2 ^ 64" using assms by linarith+
  then have u: "unat (of_nat a :: u64) = a" "unat (of_nat n :: u32) = n"
    using assms by (simp_all add: unat_of_nat take_bit_nat_eq_self)
  then have w: "(ucast (of_nat n :: u32) :: u64) = of_nat n" by (metis of_nat_unat)
  have "unat (of_nat n :: u64) = n" using \<open>n < 2 ^ 64\<close> by (simp add: unat_of_nat take_bit_nat_eq_self)
  then show ?thesis unfolding w saturating_add_def u(1) using assms(1) by simp
qed

lemma offsets_of_blocks:
  assumes "\<forall>c \<in> set cs. length c \<le> 2 ^ 20" "k < length cs"
    and "at + length (concat (map (snd \<circ> pack_block opt) cs)) < 2 ^ 64"
  shows "offsets_from (of_nat at) (map (fst \<circ> pack_block opt) cs) ! k =
    of_nat (at + length (concat (map (snd \<circ> pack_block opt) (take k cs))))"
  using assms
proof (induction cs arbitrary: at k)
  case (Cons c cs)
  show ?case
  proof (cases k)
    case (Suc j)
    let ?n = "length (snd (pack_block opt c))"
    have c: "length c \<le> 2 ^ 20" using Cons.prems(1) by simp
    have n: "?n < 2 ^ 32" "at + ?n < 2 ^ 64" using pack_block_size(2) [OF c, of opt] c Cons.prems(3) by simp_all
    have "saturating_add (of_nat at :: u64) (ucast (data_on_disk_size (fst (pack_block opt c)))) = of_nat (at + ?n)"
      unfolding pack_block_size(1) [OF c] by (rule saturating_add_nat) (use n in simp_all)
    with Suc Cons.IH [of j "at + ?n"] Cons.prems show ?thesis by (simp add: add.assoc)
  qed simp
qed simp

lemma chunks_nth:
  "k < length (chunks bs data) \<Longrightarrow> chunks bs data ! k = take bs (drop (k * bs) data)"
  "length (chunks bs data) = div_ceil_nat (length data) bs"
  "c \<in> set (chunks bs data) \<Longrightarrow> length c \<le> bs"
  by (auto simp: chunks_def)

lemma read_here:
  assumes "img = a @ z @ r" "length a < 2 ^ 64"
  shows "read_at (mem_device img) (of_nat (length a)) (length z) = Ok z"
proof -
  have "unat (of_nat (length a) :: u64) = length a"
    using assms(2) by (simp add: unat_of_nat take_bit_nat_eq_self)
  then show ?thesis by (subst read_at_mem_device) (simp_all add: assms(1))
qed

lemma file_inode [simp]:
  "is_regular_file (inode_of h (file_body opt data at))"
  "in_block_sizes (inode_of h (file_body opt data at)) = map (fst \<circ> pack_block opt) (chunks (po_bsize opt) data)"
  "in_blocks_start (inode_of h (file_body opt data at)) = of_nat at"
  "in_file_size (inode_of h (file_body opt data at)) = of_nat (length data)"
  "meta_of (inode_of (header_for m n) (file_body opt data at)) = m"
  by (simp_all add: is_regular_file_def file_type_of_def inode_of_def file_body_def headed_def
      from_type_id_def type_ids meta_of_def header_for_def)

lemma plain_size:
  assumes "options_ok W opt" "div_ceil_nat (length data) (po_bsize opt) \<le> 2 ^ 24"
  shows "length data \<le> 2 ^ 44" "unat (of_nat (length data) :: u64) = length data"
    "length data \<le> length (chunks (po_bsize opt) data) * po_bsize opt"
proof -
  note b = po_bsize_bounds [OF assms(1)]
  show c: "length data \<le> length (chunks (po_bsize opt) data) * po_bsize opt"
    unfolding chunks_nth(2) using b(1) by (rule div_ceil_nat_ge)
  also have "\<dots> \<le> 2 ^ 24 * 2 ^ 20" unfolding chunks_nth(2) using assms(2) b(2) by (rule mult_le_mono)
  finally show l: "length data \<le> 2 ^ 44" by simp
  then show "unat (of_nat (length data) :: u64) = length data"
    by (simp add: unat_of_nat take_bit_nat_eq_self)
qed

lemma plain_stored:
  assumes "on_image W opt root F fs" "div_ceil_nat (length data) (po_bsize opt) \<le> 2 ^ 24"
    and F: "pk_data F = d1 @ file_blocks opt data @ d2" "at = SUPERBLOCK_SIZE + length d1"
  shows "file_stored W fs (inode_of h (file_body opt data at)) data"
proof -
  let ?i = "inode_of h (file_body opt data at)" and ?cs = "chunks (po_bsize opt) data"
  note on = assms(1) [unfolded on_image_def]
  have opt: "options_ok W opt" using on by blast
  note b = po_bsize_bounds [OF opt] and bs = on_image_bsize [OF assms(1)]
  note size = plain_size [OF opt assms(2)]
  have small: "\<forall>c \<in> set ?cs. length c \<le> 2 ^ 20" using chunks_nth(3) b(2) by (meson order_trans)
  have d: "length (pk_data F) < 2 ^ 62" using on by (simp add: packing_fits_def)
  have "block_stored W fs ?i data k" if k: "k < length ?cs" for k
  proof -
    let ?c = "?cs ! k" and ?pre = "concat (map (snd \<circ> pack_block opt) (take k ?cs))"
    have c: "chunk fs data k = ?c" by (simp add: chunk_def bs chunks_nth(1) [OF k])
    have f: "file_blocks opt data = ?pre @ snd (pack_block opt ?c) @
        concat (map (snd \<circ> pack_block opt) (drop (Suc k) ?cs))"
      unfolding file_blocks_def
      by (rule trans [OF arg_cong [OF id_take_nth_drop [OF k], of "\<lambda>cs. concat (map (snd \<circ> pack_block opt) cs)"]])
        (simp only: map_append list.map concat_append concat.simps o_apply)
    have off: "block_offsets ?i ! k = of_nat (at + length ?pre)"
      unfolding block_offsets_def file_inode
      by (rule offsets_of_blocks [OF small k])
        (use d F in \<open>simp add: file_blocks_def SUPERBLOCK_SIZE_def\<close>)
    have img: "image_for opt root F = (superblock_bytes (superblock_for opt root F) @ d1 @ ?pre) @
        snd (pack_block opt ?c) @ (concat (map (snd \<circ> pack_block opt) (drop (Suc k) ?cs)) @ d2 @
        table_bytes (pk_inodes F) @ table_bytes (pk_listings F) @ stored_block False (ids_bytes opt) @
        to_le_bytes 8 (of_nat (ids_at F) :: u64))"
      unfolding image_for_def F(1) f by simp
    have len: "length (superblock_bytes (superblock_for opt root F) @ d1 @ ?pre) = at + length ?pre"
      by (simp add: F(2))
    have "at + length ?pre < 2 ^ 64" using d F f by (simp add: SUPERBLOCK_SIZE_def)
    then have rd: "read_at (fs_dev fs) (of_nat (at + length ?pre)) (length (snd (pack_block opt ?c))) =
        Ok (snd (pack_block opt ?c))"
      using read_here [OF img, unfolded len] on by (simp only: simp_thms)
    have word: "in_block_sizes ?i ! k = fst (pack_block opt ?c)" using k by simp
    have fits: "length ?c \<le> bsize fs" using chunks_nth(3) [OF nth_mem [OF k]] bs by simp
    show ?thesis
    proof (cases "?c = replicate (length ?c) 0")
      case True
      then have "data_on_disk_size (fst (pack_block opt ?c)) = 0"
        by (simp add: pack_block_def data_on_disk_size_def)
      with True show ?thesis unfolding block_stored_def word c Let_def by simp
    next
      case False
      from pack_block_decodes [OF opt this fits _ _ rd] b(2) bs on
      show ?thesis unfolding block_stored_def word c Let_def off by simp
    qed
  qed
  moreover have "drop (length ?cs * bsize fs) data = []" using size(3) bs by simp
  ultimately show ?thesis
    unfolding file_stored_def Let_def file_inode length_map using b(1) bs size(2) by simp
qed

section \<open>Inodes and listings\<close>

lemma block_of_less: "k < length s \<Longrightarrow> block_of k < length (table_bytes s)"
proof -
  assume k: "k < length s"
  let ?j = "k div METADATA_SIZE"
  have j: "METADATA_SIZE * ?j < length s" using k mult_div_mod_eq [of METADATA_SIZE k] by linarith
  then have "drop (METADATA_SIZE * ?j) s \<noteq> []" by simp
  then have "table_bytes (drop (METADATA_SIZE * ?j) s) \<noteq> []"
    using length_table_bytes_ge [of "drop (METADATA_SIZE * ?j) s"] by auto
  then show ?thesis unfolding block_of_def drop_table [OF less_imp_le [OF j], symmetric] by simp
qed

lemma from_packed_ref:
  assumes "block_of pos < 2 ^ 32"
  shows "from_packed (ref_of pos) = \<lparr>mr_block_offset = of_nat (block_of pos), mr_in_block = of_nat (place_in pos)\<rparr>"
proof -
  have p: "place_in pos < 2 ^ 16" by (simp add: place_in_def METADATA_SIZE_def)
  have u: "unat (ref_of pos) = block_of pos * 2 ^ 16 + place_in pos"
    unfolding ref_of_def by (rule unat_small) (use assms p in simp)
  have "unat (drop_bit 16 (ref_of pos)) = block_of pos"
    using p unat_drop_bit_eq [of 16 "ref_of pos"] unfolding u by (simp add: drop_bit_eq_div)
  moreover have "unat (of_nat (block_of pos) :: u64) = block_of pos"
    using assms by (intro unat_small) simp
  ultimately have "drop_bit 16 (ref_of pos) = of_nat (block_of pos)" by (simp add: word_unat_eq_iff)
  moreover have "unat (ucast (ref_of pos AND 0xFFFF) :: u16) = unat (of_nat (place_in pos) :: u16)"
  proof -
    have "(0xFFFF :: u64) = mask 16" by (simp add: mask_eq_exp_minus_1)
    then have "ref_of pos AND 0xFFFF = take_bit 16 (ref_of pos)" by (simp only: take_bit_eq_mask)
    then have "unat (ucast (ref_of pos AND 0xFFFF) :: u16) = take_bit 16 (block_of pos * 2 ^ 16 + place_in pos)"
      by (simp add: unsigned_ucast_eq unsigned_take_bit_eq u)
    then show ?thesis using p by (simp add: take_bit_eq_mod unat_small(3))
  qed
  then have "(ucast (ref_of pos AND 0xFFFF) :: u16) = of_nat (place_in pos)" by (simp only: word_unat_eq_iff)
  ultimately show ?thesis by (simp add: from_packed_def)
qed

lemma image_parts:
  assumes "packing_fits F" "options_ok W opt"
  shows "unat (of_nat (inodes_at F) :: u64) = inodes_at F" "unat (of_nat (listings_at F) :: u64) = listings_at F"
    "unat (of_nat (ids_at F) :: u64) = ids_at F" "unat (of_nat (id_table_at opt F) :: u64) = id_table_at opt F"
    "unat (of_nat (id_table_at opt F + 8) :: u64) = id_table_at opt F + 8"
    "id_table_at opt F + 8 < 2 ^ 63" "length (ids_bytes opt) = 4 * length (po_ids opt)"
    "length (image_for opt root F) = id_table_at opt F + 8"
    "drop (inodes_at F) (image_for opt root F) = table_bytes (pk_inodes F) @ (table_bytes (pk_listings F) @
      stored_block False (ids_bytes opt) @ to_le_bytes 8 (of_nat (ids_at F) :: u64))"
    "drop (listings_at F) (image_for opt root F) = table_bytes (pk_listings F) @
      (stored_block False (ids_bytes opt) @ to_le_bytes 8 (of_nat (ids_at F) :: u64))"
    "drop (ids_at F) (image_for opt root F) =
      stored_block False (ids_bytes opt) @ to_le_bytes 8 (of_nat (ids_at F) :: u64)"
    "drop (id_table_at opt F) (image_for opt root F) = to_le_bytes 8 (of_nat (ids_at F) :: u64)"
proof -
  have ids: "length (ids_bytes opt) = length (po_ids opt) * 4"
    unfolding ids_bytes_def by (rule length_concat_fixed) simp
  then show "length (ids_bytes opt) = 4 * length (po_ids opt)" by simp
  note at = id_table_at_def ids_at_def listings_at_def inodes_at_def SUPERBLOCK_SIZE_def
  have b: "inodes_at F \<le> listings_at F" "listings_at F \<le> ids_at F" "ids_at F \<le> id_table_at opt F"
    by (simp_all add: at)
  show l: "id_table_at opt F + 8 < 2 ^ 63"
    using assms ids by (simp add: at packing_fits_def options_ok_def)
  have u: "n \<le> id_table_at opt F + 8 \<Longrightarrow> unat (of_nat n :: u64) = n" for n
    using l by (intro unat_small) simp
  show "unat (of_nat (inodes_at F) :: u64) = inodes_at F" "unat (of_nat (listings_at F) :: u64) = listings_at F"
    "unat (of_nat (ids_at F) :: u64) = ids_at F" "unat (of_nat (id_table_at opt F) :: u64) = id_table_at opt F"
    "unat (of_nat (id_table_at opt F + 8) :: u64) = id_table_at opt F + 8"
    using b by (intro u; simp)+
  show "length (image_for opt root F) = id_table_at opt F + 8"
    by (simp add: image_for_def at)
  show "drop (inodes_at F) (image_for opt root F) = table_bytes (pk_inodes F) @ (table_bytes (pk_listings F) @
      stored_block False (ids_bytes opt) @ to_le_bytes 8 (of_nat (ids_at F) :: u64))"
    "drop (listings_at F) (image_for opt root F) = table_bytes (pk_listings F) @
      (stored_block False (ids_bytes opt) @ to_le_bytes 8 (of_nat (ids_at F) :: u64))"
    "drop (ids_at F) (image_for opt root F) =
      stored_block False (ids_bytes opt) @ to_le_bytes 8 (of_nat (ids_at F) :: u64)"
    "drop (id_table_at opt F) (image_for opt root F) = to_le_bytes 8 (of_nat (ids_at F) :: u64)"
    by (simp_all add: image_for_def at)
qed

lemma image_stream:
  assumes "on_image W opt root F fs" "k < length (pk_inodes F)"
  shows "metadata_at (env W fs) (fs_sb fs) None
    (start_abs (from_packed (ref_of k)) (sb_inode_table_start (fs_sb fs)))
    (mr_in_block (from_packed (ref_of k))) (drop k (pk_inodes F))" "block_of k < 2 ^ 32"
proof -
  note on = assms(1) [unfolded on_image_def]
  then have fits: "packing_fits F" "options_ok W opt" by blast+
  note p = image_parts [OF fits]
  have b: "block_of k < 2 ^ 31" using block_of_less [OF assms(2)] fits(1) by (simp add: packing_fits_def)
  then show b32: "block_of k < 2 ^ 32" by simp
  have ends: "inodes_at F + length (table_bytes (pk_inodes F)) < 2 ^ 63"
    using p(6) by (simp add: id_table_at_def ids_at_def listings_at_def)
  have "metadata_at (env W fs) (fs_sb fs) None (of_nat (inodes_at F) + of_nat (block_of k))
      (of_nat (place_in k)) (drop k (pk_inodes F))"
    by (rule stream_at [OF _ _ _ _ assms(2), where img = "image_for opt root F"])
      (use on p ends in \<open>simp_all add: meta_env_on_def below_limit_def\<close>)
  moreover have "start_abs (from_packed (ref_of k)) (sb_inode_table_start (fs_sb fs)) =
      of_nat (inodes_at F) + of_nat (block_of k)"
    using on b ends p(1) block_of_less [OF assms(2)] unfolding from_packed_ref [OF b32]
    by (simp add: start_abs_def superblock_for_def saturating_add_def unat_small)
  ultimately show "metadata_at (env W fs) (fs_sb fs) None
    (start_abs (from_packed (ref_of k)) (sb_inode_table_start (fs_sb fs)))
    (mr_in_block (from_packed (ref_of k))) (drop k (pk_inodes F))"
    using from_packed_ref [OF b32] by simp
qed

lemma inode_at:
  assumes "on_image W opt root F fs" "prefix (a @ inode_bytes h b) (pk_inodes F)"
    and "body_ok (superblock_for opt root F) b"
  shows "inode_stored W fs (ref_of (length a)) (inode_of h b) \<and> block_of (length a) < 2 ^ 32"
proof -
  from assms(2) obtain r where r: "pk_inodes F = a @ inode_bytes h b @ r" by (auto simp: prefix_def)
  then have "length a < length (pk_inodes F)" using inode_bytes_not_Nil [of h b] by (cases "inode_bytes h b") auto
  from image_stream [OF assms(1) this] assms(1,3) show ?thesis
    unfolding inode_stored_def by (auto simp: r on_image_def)
qed

lemma dir_inode [simp]:
  "is_dir (inode_of h (dir_body links len at parent))"
  "in_file_size (inode_of h (dir_body links len at parent)) = ucast (of_nat (len + 3) :: u32)"
  "in_dir_start_block (inode_of h (dir_body links len at parent)) = of_nat (block_of at)"
  "in_dir_block_offset (inode_of h (dir_body links len at parent)) = of_nat (place_in at)"
  "meta_of (inode_of (header_for m n) (dir_body links len at parent)) = m"
  "body_ok sb (dir_body links len at parent)"
  by (simp_all add: is_dir_def file_type_of_def inode_of_def dir_body_def headed_def
      from_type_id_def type_ids meta_of_def header_for_def)

lemma listing_bytes_not_Nil: "gs \<noteq> [] \<Longrightarrow> listing_bytes gs \<noteq> []"
proof -
  have "12 \<le> length (group_bytes g)" for g by (simp add: group_bytes_def)
  then have "group_bytes g \<noteq> []" for g by (metis list.size(3) not_numeral_le_zero)
  then show "gs \<noteq> [] \<Longrightarrow> listing_bytes gs \<noteq> []" by (cases gs) (simp_all add: listing_bytes_def)
qed

lemma listing_at:
  assumes "on_image W opt root F fs" "prefix (a @ listing_bytes gs) (pk_listings F)" "list_all group_ok gs"
  shows "listing_stored W fs (inode_of h (dir_body links (length (listing_bytes gs)) (length a) parent))
    (concat (map group_entries gs))"
proof -
  let ?i = "inode_of h (dir_body links (length (listing_bytes gs)) (length a) parent)"
  note on = assms(1) [unfolded on_image_def]
  then have fits: "packing_fits F" "options_ok W opt" by blast+
  note p = image_parts [OF fits]
  from assms(2) obtain r where r: "pk_listings F = a @ listing_bytes gs @ r" by (auto simp: prefix_def)
  have ends: "listings_at F + length (table_bytes (pk_listings F)) = ids_at F" "ids_at F < 2 ^ 63"
    using p(6) by (simp_all add: id_table_at_def ids_at_def)
  have "length (listing_bytes gs) < 2 ^ 31"
    using r fits(1) length_table_bytes_ge [of "pk_listings F"] by (simp add: packing_fits_def)
  then have "unat (in_file_size ?i) = length (listing_bytes gs) + 3"
    by (simp add: unat_ucast_up unat_small del: of_nat_add)
  moreover have "metadata_at (env W fs) (fs_sb fs) (Some (fs_dir_table_end fs, past_table)) (dir_start fs ?i)
      (in_dir_block_offset ?i) (listing_bytes gs @ r)" if "gs \<noteq> []"
  proof -
    have k: "length a < length (pk_listings F)" using listing_bytes_not_Nil [OF that] r by simp
    have b: "block_of (length a) < length (table_bytes (pk_listings F))" by (rule block_of_less [OF k])
    have b31: "block_of (length a) < 2 ^ 31" using b fits(1) by (simp add: packing_fits_def)
    have "metadata_at (env W fs) (fs_sb fs) (Some (fs_dir_table_end fs, past_table))
        (of_nat (listings_at F) + of_nat (block_of (length a))) (of_nat (place_in (length a)))
        (drop (length a) (pk_listings F))"
    proof (rule stream_at [OF _ _ _ _ k, where img = "image_for opt root F"])
      have "pk_listings F \<noteq> []" using k by auto
      then have "fs_dir_table_end fs = of_nat (ids_at F)" using on by blast
      then show "below_limit (Some (fs_dir_table_end fs, past_table))
          (unat (of_nat (listings_at F) :: u64) + length (table_bytes (pk_listings F)))"
        using p(2,3) ends by (simp add: below_limit_def)
    qed (use on p ends in \<open>simp_all add: meta_env_on_def\<close>)
    moreover have "dir_start fs ?i = of_nat (listings_at F + block_of (length a))"
      unfolding dir_start_def dir_inode using on b b31 ends
      by (simp add: superblock_for_def saturating_add_nat del: of_nat_add)
    ultimately show ?thesis by (simp add: r)
  qed
  ultimately show ?thesis
    unfolding listing_stored_def using assms(3) by blast
qed

section \<open>The laid out tree is stored\<close>

text \<open>Every node that is not a file, a link or a directory is a device, a pipe or a socket.\<close>

fun typed :: "tree \<Rightarrow> bool" where
  "typed (Special i) \<longleftrightarrow> file_type_of i \<in> {CharDev, BlockDev, Fifo, Socket}"
| "typed (Folder i kids) \<longleftrightarrow> list_all (\<lambda>(name, t). typed t) kids"
| "typed t \<longleftrightarrow> True"

text \<open>Somewhere on the image: a tree, with its inode at a position.\<close>

definition laid_out :: "('c, 'd) world \<Rightarrow> filesystem \<Rightarrow> tree \<Rightarrow> nat \<Rightarrow> bool" where
  "laid_out W fs t pos \<longleftrightarrow> tree_stored W fs t \<and> typed t \<and> inode_stored W fs (ref_of pos) (node t) \<and> block_of pos < 2 ^ 32"

definition laid_as :: "('c, 'd) world \<Rightarrow> filesystem \<Rightarrow> bytes \<times> source \<Rightarrow> laid \<Rightarrow> bool" where
  "laid_as W fs k l \<longleftrightarrow>
     (case l of (name, t, pos, n) \<Rightarrow>
       name = fst k \<and> name_ok name \<and> laid_out W fs t pos \<and> source_of t = snd k)"

lemma group_for_ok: "laid_as W fs k l \<Longrightarrow> group_ok (group_for l)"
  by (auto simp: laid_as_def group_for_def group_ok_def split: prod.splits)

lemma entry_for:
  assumes "laid_as W fs k (name, t, pos, n)"
  shows "\<exists>e. group_entries (group_for (name, t, pos, n)) = [e] \<and> de_name e = name \<and> de_inode_ref e = ref_of pos"
proof -
  have "place_in pos < 2 ^ 16" "block_of pos < 2 ^ 32"
    using assms by (auto simp: place_in_def METADATA_SIZE_def laid_as_def laid_out_def)
  then show ?thesis
    by (simp add: group_entries_def group_for_def resolve_def ref_of_def unat_small)
qed

lemma entries_stand_for:
  "list_all2 (laid_as W fs) kids ks \<Longrightarrow>
    list_all2 (\<lambda>e (name, t). de_name e = name \<and> inode_stored W fs (de_inode_ref e) (node t) \<and> tree_stored W fs t)
      (concat (map group_entries (map group_for ks))) (map (\<lambda>(name, t, pos, n). (name, t)) ks)"
proof (induction kids ks rule: list_all2_induct)
  case (Cons k kids l ks)
  obtain name t pos n where l: "l = (name, t, pos, n)" by (metis prod.exhaust)
  from entry_for [OF Cons(1) [unfolded l]] Cons l show ?case by (auto simp: laid_as_def laid_out_def)
qed simp

lemma device_inode [simp]:
  "source_of (Special (inode_of (header_for m n) (Basic_dev c 1 rdev))) = Device m c rdev"
  "source_of (Special (inode_of (header_for m n) (Basic_ipc s 1))) = Pipe m s"
  "source_of (Link (inode_of (header_for m n) (Basic_symlink 1 target)) target) = Symbolic m target"
  "is_symlink (inode_of h (Basic_symlink 1 target))"
  "typed (Special (inode_of h (Basic_dev c 1 rdev)))" "typed (Special (inode_of h (Basic_ipc s 1)))"
  "in_symlink_target (inode_of h (Basic_symlink 1 target)) = target"
  by (simp_all add: is_symlink_def file_type_of_def inode_of_def headed_def from_type_id_def type_ids
      meta_of_def header_for_def)

lemma special_stored:
  "tree_stored W fs (Special (inode_of h (Basic_dev c 1 rdev)))"
  "tree_stored W fs (Special (inode_of h (Basic_ipc s 1)))"
  by (rule stored_special; simp add: is_regular_file_def is_symlink_def is_dir_def file_type_of_def
      inode_of_def headed_def from_type_id_def type_ids)+

lemma file_body_ok:
  assumes "options_ok W opt" "div_ceil_nat (length data) (po_bsize opt) \<le> 2 ^ 24"
  shows "body_ok (superblock_for opt root F) (file_body opt data at)"
proof -
  note b = po_bsize_bounds [OF assms(1)]
  have "(of_nat (po_bsize opt) :: u32) \<noteq> 0" using b(1,3) by (metis unat_0 less_irrefl)
  with b(3) plain_size(2) [OF assms] assms(2) show ?thesis
    by (simp add: file_body_def superblock_for_def data_blocks_def chunks_nth(2))
qed

lemma grows_inode:
  assumes "grows (put_inode h b st) F"
  shows "prefix (pk_inodes st @ inode_bytes h b) (pk_inodes F)" "grows st F"
  using assms grows_trans [OF grows_steps(1) [OF grows_refl] assms] by (auto simp: grows_def put_inode_def)

lemma lay_stored:
  "on_image W opt root F fs \<Longrightarrow> source_ok opt s \<Longrightarrow> lay opt parent s st = ((t, pos, n), st') \<Longrightarrow>
    grows st' F \<Longrightarrow> laid_out W fs t pos \<and> source_of t = s"
  "on_image W opt root F fs \<Longrightarrow> list_all (\<lambda>(name, s). name_ok name \<and> source_ok opt s) kids \<Longrightarrow>
    lay_all opt parent kids st = (ks, st') \<Longrightarrow> grows st' F \<Longrightarrow> list_all2 (laid_as W fs) kids ks"
proof (induction opt parent s st and opt parent kids st arbitrary: t pos n st' and ks st' rule: lay_lay_all.induct)
  case (1 opt parent m data st)
  note opt = 1(1) [unfolded on_image_def, THEN conjunct1]
  let ?h = "header_for m (pk_count st + 1)" and ?b = "file_body opt data (SUPERBLOCK_SIZE + length (pk_data st))"
  have e: "t = File (inode_of ?h ?b) data" "pos = length (pk_inodes st)"
    "st' = put_inode ?h ?b ((next_number st)\<lparr>pk_data := pk_data st @ file_blocks opt data\<rparr>)"
    using 1(3) by (auto simp: Let_def)
  note g = grows_inode [OF 1(4) [unfolded e(3)]]
  have "prefix (pk_data st @ file_blocks opt data) (pk_data F)" using g(2) by (simp add: grows_def)
  then obtain d where d: "pk_data F = pk_data st @ file_blocks opt data @ d" by (auto simp: prefix_def)
  have "file_stored W fs (inode_of ?h ?b) data"
    by (rule plain_stored [OF 1(1) _ d refl]) (use 1(2) in simp)
  moreover have "inode_stored W fs (ref_of pos) (inode_of ?h ?b) \<and> block_of pos < 2 ^ 32"
    unfolding e(2) by (rule inode_at [OF 1(1)]) (use g(1) file_body_ok [OF opt] 1(2) in \<open>simp_all add: next_number_def\<close>)
  ultimately show ?case using e by (simp add: laid_out_def stored_file)
next
  case (2 opt parent m target st)
  let ?h = "header_for m (pk_count st + 1)" and ?b = "Basic_symlink 1 target"
  have e: "t = Link (inode_of ?h ?b) target" "pos = length (pk_inodes st)" "st' = put_inode ?h ?b (next_number st)"
    using 2(3) by (auto simp: Let_def)
  have "inode_stored W fs (ref_of pos) (inode_of ?h ?b) \<and> block_of pos < 2 ^ 32"
    unfolding e(2) by (rule inode_at [OF 2(1)])
      (use grows_inode [OF 2(4) [unfolded e(3)]] 2(2) in \<open>simp_all add: next_number_def\<close>)
  then show ?case using e by (simp add: laid_out_def stored_link del: source_of.simps)
next
  case (3 opt parent m c rdev st)
  let ?h = "header_for m (pk_count st + 1)" and ?b = "Basic_dev c 1 rdev"
  have e: "t = Special (inode_of ?h ?b)" "pos = length (pk_inodes st)" "st' = put_inode ?h ?b (next_number st)"
    using 3(3) by (auto simp: Let_def)
  have "inode_stored W fs (ref_of pos) (inode_of ?h ?b) \<and> block_of pos < 2 ^ 32"
    unfolding e(2) by (rule inode_at [OF 3(1)])
      (use grows_inode [OF 3(4) [unfolded e(3)]] in \<open>simp_all add: next_number_def\<close>)
  then show ?case using e by (simp add: laid_out_def special_stored del: source_of.simps typed.simps)
next
  case (4 opt parent m c st)
  let ?h = "header_for m (pk_count st + 1)" and ?b = "Basic_ipc c 1"
  have e: "t = Special (inode_of ?h ?b)" "pos = length (pk_inodes st)" "st' = put_inode ?h ?b (next_number st)"
    using 4(3) by (auto simp: Let_def)
  have "inode_stored W fs (ref_of pos) (inode_of ?h ?b) \<and> block_of pos < 2 ^ 32"
    unfolding e(2) by (rule inode_at [OF 4(1)])
      (use grows_inode [OF 4(4) [unfolded e(3)]] in \<open>simp_all add: next_number_def\<close>)
  then show ?case using e by (simp add: laid_out_def special_stored del: source_of.simps typed.simps)
next
  case (5 opt parent m kids st)
  obtain ks su where l: "lay_all opt (pk_count st + 1) kids (next_number st) = (ks, su)" by fastforce
  define lb where "lb = listing_bytes (map group_for ks)"
  let ?h = "header_for m (pk_count st + 1)"
    and ?b = "dir_body (2 + length kids) (length lb) (length (pk_listings su)) parent"
  have e: "t = Folder (inode_of ?h ?b) (map (\<lambda>(name, t, pos, n). (name, t)) ks)"
    "pos = length (pk_inodes su)" "st' = put_inode ?h ?b (su\<lparr>pk_listings := pk_listings su @ lb\<rparr>)"
    using 5(4) l by (auto simp: Let_def lb_def)
  note g = grows_inode [OF 5(5) [unfolded e(3)]]
  have gu: "grows su F" using g(2) grows_trans [OF grows_steps(3) [OF grows_refl]] by blast
  have kids: "list_all2 (laid_as W fs) kids ks"
    by (rule 5(1) [OF refl refl 5(2) _ l gu]) (use 5(3) in simp)
  have "list_all group_ok (map group_for ks)"
    using kids by (induction kids ks rule: list_all2_induct) (simp_all add: group_for_ok)
  then have "listing_stored W fs (inode_of ?h ?b) (concat (map group_entries (map group_for ks)))"
    unfolding lb_def by (rule listing_at [OF 5(2), rotated]) (use g(2) in \<open>simp add: grows_def lb_def\<close>)
  then have "tree_stored W fs t" unfolding e(1)
    by (rule stored_folder [OF dir_inode(1) _ entries_stand_for [OF kids]])
  moreover have "typed t"
    unfolding e(1) using kids by (induction kids ks rule: list_all2_induct) (auto simp: laid_as_def laid_out_def)
  moreover have "inode_stored W fs (ref_of pos) (inode_of ?h ?b) \<and> block_of pos < 2 ^ 32"
    unfolding e(2) by (rule inode_at [OF 5(2)]) (use g(1) in simp_all)
  moreover have "map (\<lambda>(name, t). (name, source_of t)) (map (\<lambda>(name, t, pos, n). (name, t)) ks) = kids"
    using kids by (induction kids ks rule: list_all2_induct) (auto simp: laid_as_def)
  ultimately show ?case by (simp add: laid_out_def e(1) del: map_map)
next
  case (6 opt parent st)
  then show ?case by simp
next
  case (7 opt parent name s kids st)
  obtain t pos n su ls sv where l: "lay opt parent s st = ((t, pos, n), su)" "lay_all opt parent kids su = (ls, sv)"
    by (metis prod.exhaust)
  with 7(5) have e: "ks = (name, t, pos, n) # ls" "st' = sv" by simp_all
  have "grows su sv" using lay_grows(2) [of su opt parent kids] l by simp
  then have "grows su F" using 7(6) e grows_trans by blast
  then have "laid_out W fs t pos \<and> source_of t = s" using 7(1) [OF 7(3) _ l(1)] 7(4) by simp
  then have "laid_as W fs (name, s) (name, t, pos, n)" using 7(4) by (simp add: laid_as_def)
  moreover have "list_all2 (laid_as W fs) kids ls"
    by (rule 7(2) [OF l(1) [symmetric] 7(3) _ l(2)]) (use 7(4,6) e in simp_all)
  ultimately show ?case by (simp add: e)
qed

end
