(* ===== verification/Packing_Mount.thy ===== *)
theory Packing_Mount
  imports Packing_Layout
begin

text \<open>
  Packing and mounting: the image \<open>Packing\<close> makes of a file tree passes every check of \<open>open\<close>, holds that
  tree, and its handle answers what the tree says.  An image holds one tree only.
\<close>

section \<open>The image opens\<close>

lemma present_table:
  assumes "n < 2 ^ 63"
  shows "(of_nat n :: u64) \<noteq> NO_TABLE"
proof
  assume "(of_nat n :: u64) = NO_TABLE"
  moreover have "unat (of_nat n :: u64) = n" using assms by (intro unat_small(1)) simp
  ultimately have "n = 2 ^ 64 - 1" by (simp add: NO_TABLE_def unat_u64_max)
  with assms show False by simp
qed

lemma pack_geometry:
  assumes "options_ok W opt"
  shows "geometry_ok (superblock_for opt root F)"
proof -
  have "unat (of_nat (po_log opt) :: u16) = po_log opt"
    using assms by (intro unat_small) (simp add: options_ok_def)
  then show ?thesis
    using assms po_bsize_bounds(3) [OF assms]
    by (simp add: geometry_ok_def superblock_for_def options_ok_def po_bsize_def)
qed

lemma pack_read_superblock:
  assumes "packing_fits F" "options_ok W opt"
  shows "superblock_read (mem_device (image_for opt root F)) = Ok (superblock_for opt root F)"
proof -
  have "read_at (mem_device (image_for opt root F)) 0 SUPERBLOCK_SIZE = Ok (superblock_bytes (superblock_for opt root F))"
    by (simp add: read_at_mem_device image_parts(8) [OF assms]
        id_table_at_def ids_at_def listings_at_def inodes_at_def) (simp add: image_for_def)
  then show ?thesis
    using parse_superblock_bytes [OF pack_geometry [OF assms(2)], of root F "[]"] by (simp add: superblock_read_def)
qed

lemma pack_valid:
  assumes "packing_fits F" "options_ok W opt" "root < length (pk_inodes F)"
    "16 * pk_count F \<le> length (pk_inodes F)"
  shows "validate_against_device (superblock_for opt root F) (dev_size_bytes (mem_device (image_for opt root F))) = Ok ()"
  unfolding validate_iff
proof -
  note p = image_parts [OF assms(1,2)]
  note at = id_table_at_def ids_at_def listings_at_def inodes_at_def
  have u: "unat (sb_bytes_used (superblock_for opt root F)) = id_table_at opt F + 8"
    "unat (sb_inode_table_start (superblock_for opt root F)) = inodes_at F"
    "unat (sb_directory_table_start (superblock_for opt root F)) = listings_at F"
    "unat (sb_id_table_start (superblock_for opt root F)) = id_table_at opt F"
    using p(1,2,4,5) by (simp_all add: superblock_for_def)
  have b: "block_of root < length (table_bytes (pk_inodes F))" by (rule block_of_less [OF assms(3)])
  then have b32: "block_of root < 2 ^ 31" and nonempty: "table_bytes (pk_inodes F) \<noteq> []"
    using assms(1) by (auto simp: packing_fits_def)
  have r: "unat (drop_bit 16 (sb_root_inode_ref (superblock_for opt root F))) = block_of root"
    using from_packed_ref [of root] b32 by (simp add: from_packed_def superblock_for_def unat_small)
  have le: "length (pk_inodes F) \<le> length (table_bytes (pk_inodes F))" by (rule length_table_bytes_ge)
  then have "pk_count F < 2 ^ 32" using assms(1,4) by (simp add: packing_fits_def)
  then have c: "unat (sb_inode_count (superblock_for opt root F)) = pk_count F"
    by (simp add: superblock_for_def unat_small)
  have room: "pk_count F \<le> length (table_bytes (pk_inodes F)) div 3 * 512"
    using assms(4) le by (simp add: div_le_mono)
  have nt: "sb_id_table_start (superblock_for opt root F) \<noteq> NO_TABLE"
    using p(6) by (simp add: superblock_for_def present_table)
  have later: "later_tables (superblock_for opt root F) = [sb_id_table_start (superblock_for opt root F)]"
    using nt by (simp add: later_tables_def superblock_for_def)
  show "well_laid_out (superblock_for opt root F) (unat (dev_size_bytes (mem_device (image_for opt root F))))"
    unfolding well_laid_out_def later u r c
    using nt p(5,8) b room u(2-4) nonempty
    by (simp add: word_less_nat_alt word_le_nat_alt u mem_device_def at SUPERBLOCK_SIZE_def)
qed

lemma pack_id_table:
  assumes "packing_fits F" "options_ok W opt" "me_dev E = mem_device (image_for opt root F)"
  shows "read_id_table E (superblock_for opt root F) = Ok (po_ids opt)"
proof (rule id_table_eq [where ptrs = "[of_nat (ids_at F)]" and slack = "[]" and blocks = "[ids_bytes opt]"])
  let ?sb = "superblock_for opt root F" and ?img = "image_for opt root F"
  note p = image_parts [OF assms(1,2)]
  have n: "0 < length (po_ids opt)" "length (po_ids opt) \<le> 2048" using assms(2) by (simp_all add: options_ok_def)
  then show "length (po_ids opt) = unat (sb_id_count ?sb)" by (simp add: superblock_for_def unat_small)
  have size: "unat (dev_size_bytes (me_dev E)) = id_table_at opt F + 8"
    using p(5,8) by (simp add: assms(3) mem_device_def del: of_nat_add)
  show "table_at E ?sb (sb_id_table_start ?sb) (length (po_ids opt) * 4) [of_nat (ids_at F)]"
    unfolding table_at_def
  proof (intro conjI)
    show "length [of_nat (ids_at F) :: u64] = div_ceil_nat (length (po_ids opt) * 4) METADATA_SIZE"
      using n by (cases "length (po_ids opt) = 2048") (auto simp: div_ceil_nat_def METADATA_SIZE_def)
    show "length [of_nat (ids_at F) :: u64] * 8 \<le> table_room E ?sb (sb_id_table_start ?sb)"
      using size p(4,5)
      by (simp add: table_room_def superblock_for_def unat_saturating_sub min_def word_le_nat_alt del: of_nat_add)
    show "read_at (me_dev E) (sb_id_table_start ?sb) (length [of_nat (ids_at F) :: u64] * 8) =
        Ok (concat (map (to_le_bytes 8) [of_nat (ids_at F) :: u64]))"
      using p(4,8,12) by (simp add: assms(3) superblock_for_def read_at_mem_device)
  qed
  have "read_block_uncached E ?sb (of_nat (ids_at F)) =
      Ok (ids_bytes opt, of_nat (ids_at F) + 2 + of_nat (length (ids_bytes opt)))"
    by (rule raw_block_at [OF assms(3)])
      (use p(3,6,7,11) n in \<open>simp_all add: id_table_at_def METADATA_SIZE_def\<close>)
  then show "list_all2 (block_bytes E ?sb) [of_nat (ids_at F)] [ids_bytes opt]" by (simp add: block_bytes_def)
qed (simp add: ids_bytes_def)

lemma pack_dir_end:
  assumes "packing_fits F" "options_ok W opt" "pk_listings F \<noteq> []"
  shows "directory_table_end (mem_device (image_for opt root F)) (superblock_for opt root F) = of_nat (ids_at F)"
proof -
  let ?sb = "superblock_for opt root F" and ?img = "image_for opt root F"
  note p = image_parts [OF assms(1,2)]
  have "0 < length (po_ids opt)" "length (po_ids opt) \<le> 2048"
    using assms(2) by (simp_all add: options_ok_def)
  then have count: "0 < sb_id_count ?sb" by (simp add: superblock_for_def word_less_nat_alt unat_small)
  have "0 < length (table_bytes (pk_listings F))" using assms(3) length_table_bytes_ge [of "pk_listings F"] by (cases "pk_listings F") auto
  then have order: "listings_at F < ids_at F" "ids_at F \<le> id_table_at opt F" by (simp_all add: ids_at_def id_table_at_def)
  have rd: "read_at (mem_device ?img) (sb_id_table_start ?sb) 8 = Ok (to_le_bytes 8 (of_nat (ids_at F) :: u64))"
    using p(4,8,12) by (simp add: superblock_for_def read_at_mem_device)
  have starts: "sb_directory_table_start ?sb < of_nat (ids_at F)" "of_nat (ids_at F) \<le> sb_id_table_start ?sb"
    "sb_id_table_start ?sb \<noteq> NO_TABLE" "sb_id_table_start ?sb \<le> sb_bytes_used ?sb"
    "sb_directory_table_start ?sb < sb_id_table_start ?sb"
    using order p(2-6) present_table [of "id_table_at opt F"]
    by (auto simp: superblock_for_def word_less_nat_alt word_le_nat_alt simp del: of_nat_add)
  have "directory_table_end_sb ?sb = sb_id_table_start ?sb"
    unfolding directory_table_end_sb_def
    by (rule min_or_max_least) (use starts in \<open>auto simp: superblock_for_def split: if_splits\<close>)
  moreover have "sb_fragment_table_start ?sb = NO_TABLE" "sb_export_table_start ?sb = NO_TABLE"
    "sb_xattr_id_table_start ?sb = NO_TABLE"
    by (simp_all add: superblock_for_def)
  ultimately show ?thesis
    using starts(1-3) rd count by (simp add: directory_table_end_def from_to_le_bytes min_def Let_def)
qed

text \<open>\<open>fs_core::CachingDevice\<close> gives the bytes of the device under it.\<close>

definition faithful_cache :: "('c, 'd) world \<Rightarrow> bool" where
  "faithful_cache W \<longleftrightarrow> (\<forall>dev bs n. w_caching_device W dev bs n = dev)"

lemma pack_opens:
  assumes "faithful_cache W" "packing_fits F" "options_ok W opt" "root < length (pk_inodes F)"
    "16 * pk_count F \<le> length (pk_inodes F)"
  shows "\<exists>fs. open_image W (mem_device (image_for opt root F)) = Ok (fs, opened_caches W 256 8) \<and>
    on_image W opt root F fs \<and> fs_id_table fs = po_ids opt"
proof -
  let ?sb = "superblock_for opt root F" and ?dev = "mem_device (image_for opt root F)"
  note rd = pack_read_superblock [OF assms(2,3), of root]
  note valid = pack_valid [OF assms(2-5)]
  note ids = pack_id_table [OF assms(2,3), of "meta_env_on W ?dev" root]
  have fields: "sb_fragment_entry_count ?sb = 0" "sb_export_table_start ?sb = NO_TABLE"
    "sb_xattr_id_table_start ?sb = NO_TABLE" "sb_compression_id ?sb = compressor_id (po_comp opt)"
    by (simp_all add: superblock_for_def)
  have tables: "read_fragment_table E ?sb = Ok []" "xattr_read_id_table E ?sb = Ok None"
    "read_export_table E ?sb = Ok None" for E :: "'a meta_env"
    by (simp_all add: read_fragment_table_def xattr_read_id_table_def read_export_table_def fields)
  have comp: "sb_compressor ?sb = Ok (po_comp opt)"
    by (simp add: sb_compressor_def fields compressor_from_id_Ok)
  have "open_image W ?dev = Ok (\<lparr>fs_dev = ?dev, fs_sb = ?sb, fs_comp = po_comp opt, fs_id_table = po_ids opt,
      fs_fragments = [], fs_xattr_ids = None, fs_exports = None,
      fs_dir_table_end = directory_table_end ?dev ?sb\<rparr>, opened_caches W 256 8)"
    using assms(1) ids
    by (simp add: open_image_def open_with_cache_def Let_def rd valid comp tables is_supported_def
        faithful_cache_def DEFAULT_CACHE_BLOCKS_def opened_caches_def meta_env_on_def
        DEFAULT_META_CACHE_BLOCKS_def DEFAULT_DATA_CACHE_BLOCKS_def)
  then show ?thesis
    using pack_dir_end [OF assms(2,3)] assms(2,3) by (auto simp: on_image_def)
qed

section \<open>How much room a tree takes\<close>

fun inode_room_of :: "pack_options \<Rightarrow> source \<Rightarrow> nat" where
  "inode_room_of opt (Plain m data) = 56 + 4 * div_ceil_nat (length data) (po_bsize opt)"
| "inode_room_of opt (Symbolic m target) = 24 + length target"
| "inode_room_of opt (Device m character rdev) = 24"
| "inode_room_of opt (Pipe m socket) = 20"
| "inode_room_of opt (Directory m kids) = 40 + (\<Sum>(name, s) \<leftarrow> kids. inode_room_of opt s)"

fun listing_room_of :: "source \<Rightarrow> nat" where
  "listing_room_of (Directory m kids) = (\<Sum>(name, s) \<leftarrow> kids. 20 + length name + listing_room_of s)"
| "listing_room_of _ = 0"

fun data_room_of :: "source \<Rightarrow> nat" where
  "data_room_of (Plain m data) = length data"
| "data_room_of (Directory m kids) = (\<Sum>(name, s) \<leftarrow> kids. data_room_of s)"
| "data_room_of _ = 0"

text \<open>A source an image can hold: every name, target and file within the format's bounds, and the tables
  within reach of the 32 bits a listing refers to inodes with.\<close>

definition packable :: "pack_options \<Rightarrow> source \<Rightarrow> bool" where
  "packable opt s \<longleftrightarrow>
     source_ok opt s \<and> data_room_of s < 2 ^ 62 \<and> inode_room_of opt s < 2 ^ 29 \<and> listing_room_of s < 2 ^ 29"

lemma length_bodies:
  "length (inode_bytes h (file_body opt data at)) = 56 + 4 * div_ceil_nat (length data) (po_bsize opt)"
  "length (inode_bytes h (Basic_symlink n target)) = 24 + length target"
  "length (inode_bytes h (Basic_dev c n rdev)) = 24" "length (inode_bytes h (Basic_ipc c n)) = 20"
  "length (inode_bytes h (dir_body links len at parent)) = 40"
  by (simp_all add: inode_bytes_def header_bytes_def file_body_def dir_body_def sizes_bytes_def
      length_concat_fixed [where n = 4] chunks_nth(2))

lemma length_group_for: "length (group_bytes (group_for (name, t, pos, n))) = 20 + length name"
  by (simp add: group_bytes_def group_for_def entry_bytes_def)

lemma concat_chunks:
  assumes "0 < bs"
  shows "concat (chunks bs data) = data"
proof -
  have "concat (map (\<lambda>k. take bs (drop (k * bs) data)) [0..<n]) = take (n * bs) data" for n
  proof (induction n)
    case (Suc n)
    have "Suc n * bs = n * bs + bs" by simp
    then have "take (Suc n * bs) data = take (n * bs) data @ take bs (drop (n * bs) data)"
      by (simp only: take_add)
    with Suc show ?case by (simp del: mult_Suc)
  qed simp
  then show ?thesis using div_ceil_nat_ge [OF assms] by (simp add: chunks_def)
qed

lemma length_file_blocks:
  assumes "0 < po_bsize opt"
  shows "length (file_blocks opt data) \<le> length data"
proof -
  have p: "length (snd (pack_block opt c)) \<le> length c" for c
    by (auto simp: pack_block_def split: option.split)
  have "length (concat (map (snd \<circ> pack_block opt) cs)) \<le> length (concat cs)" for cs
    by (induction cs) (use p in \<open>auto intro: add_mono\<close>)
  from this [of "chunks (po_bsize opt) data"] show ?thesis
    by (simp add: file_blocks_def concat_chunks [OF assms])
qed

lemma next_number_streams [simp]:
  "pk_inodes (next_number st) = pk_inodes st" "pk_listings (next_number st) = pk_listings st"
  "pk_data (next_number st) = pk_data st"
  by (simp_all add: next_number_def)

lemma lay_room:
  assumes "0 < po_bsize opt"
  shows "length (pk_inodes (snd (lay opt parent s st))) = length (pk_inodes st) + inode_room_of opt s \<and>
      length (pk_listings (snd (lay opt parent s st))) = length (pk_listings st) + listing_room_of s \<and>
      length (pk_data (snd (lay opt parent s st))) \<le> length (pk_data st) + data_room_of s"
    and "length (pk_inodes (snd (lay_all opt parent kids st))) =
        length (pk_inodes st) + (\<Sum>(name, s) \<leftarrow> kids. inode_room_of opt s) \<and>
      length (pk_listings (snd (lay_all opt parent kids st))) +
        length (listing_bytes (map group_for (fst (lay_all opt parent kids st)))) =
        length (pk_listings st) + (\<Sum>(name, s) \<leftarrow> kids. 20 + length name + listing_room_of s) \<and>
      length (pk_data (snd (lay_all opt parent kids st))) \<le>
        length (pk_data st) + (\<Sum>(name, s) \<leftarrow> kids. data_room_of s)"
  using assms
proof (induction opt parent s st and opt parent kids st rule: lay_lay_all.induct)
  case (1 opt parent m data st)
  then show ?case using length_file_blocks [OF 1] by (simp add: Let_def put_inode_def next_number_def length_bodies)
next
  case (5 opt parent m kids st)
  obtain ks su where l: "lay_all opt (pk_count st + 1) kids (next_number st) = (ks, su)" by fastforce
  from 5(1) [OF refl refl 5(2)] show ?case
    by (simp add: l [simplified] Let_def put_inode_def length_bodies)
next
  case (7 opt parent name s kids st)
  obtain t pos n su ls sv where l: "lay opt parent s st = ((t, pos, n), su)" "lay_all opt parent kids su = (ls, sv)"
    by (metis prod.exhaust)
  from 7(1) [OF 7(3)] 7(2) [OF l(1) [symmetric] 7(3)] show ?case
    by (simp add: l listing_bytes_def length_group_for)
qed (simp_all add: Let_def put_inode_def next_number_def length_bodies listing_bytes_def)

lemma length_table_bytes_le: "length (table_bytes s) \<le> 3 * length s"
proof (induction s rule: table_bytes.induct)
  case (1 s)
  show ?case
  proof (cases "s = []")
    case False
    let ?p = "take METADATA_SIZE s" and ?s = "drop METADATA_SIZE s"
    have "length (table_bytes s) = 2 + length ?p + length (table_bytes ?s)"
      by (simp only: table_bytes_step [OF False] length_append length_stored_block)
    moreover have "1 \<le> length ?p" using False by (cases s) (simp_all add: METADATA_SIZE_def)
    moreover have "length s = length ?p + length ?s" by (metis append_take_drop_id length_append)
    ultimately show ?thesis using 1 [OF False] by linarith
  qed simp
qed

lemma packable_fits:
  assumes "options_ok W opt" "packable opt s"
  shows "packing_fits (snd (lay opt 0 s nothing_packed))"
proof -
  define F where "F = snd (lay opt 0 s nothing_packed)"
  have "length (pk_inodes F) = inode_room_of opt s" "length (pk_listings F) = listing_room_of s"
    "length (pk_data F) \<le> data_room_of s"
    using lay_room(1) [OF po_bsize_bounds(1) [OF assms(1)], of 0 s nothing_packed]
    by (simp_all add: F_def nothing_packed_def)
  moreover have "data_room_of s < 2 ^ 62" "inode_room_of opt s < 2 ^ 29" "listing_room_of s < 2 ^ 29"
    using assms(2) unfolding packable_def by blast+
  ultimately have "length (pk_data F) < 2 ^ 62" "3 * length (pk_inodes F) < 2 ^ 31" "3 * length (pk_listings F) < 2 ^ 31"
    by simp_all
  then show ?thesis
    using length_table_bytes_le [of "pk_inodes F"] length_table_bytes_le [of "pk_listings F"]
    unfolding packing_fits_def F_def by linarith
qed

section \<open>What the packed image presents\<close>

lemma pack_holds:
  assumes "faithful_cache W" "options_ok W opt" "packable opt s"
  shows "\<exists>fs t. open_image W (mem_device (pack opt s)) = Ok (fs, opened_caches W 256 8) \<and>
    image_holds W fs t \<and> typed t \<and> source_of t = s \<and> fs_id_table fs = po_ids opt"
proof -
  obtain t pos n F where l: "lay opt 0 s nothing_packed = ((t, pos, n), F)" by (metis prod.exhaust)
  have "pos < length (pk_inodes F)" by (rule lay_position [OF l])
  moreover have "16 * pk_count F \<le> length (pk_inodes F)"
    using lay_roomy(1) [of nothing_packed opt 0 s] l by (simp add: roomy_def nothing_packed_def)
  moreover have "packing_fits F" using packable_fits [OF assms(2,3)] l by simp
  ultimately obtain fs where fs: "open_image W (mem_device (image_for opt pos F)) = Ok (fs, opened_caches W 256 8)"
    "on_image W opt pos F fs" "fs_id_table fs = po_ids opt"
    using pack_opens [OF assms(1) _ assms(2)] by blast
  from lay_stored(1) [OF fs(2) assms(3) [unfolded packable_def, THEN conjunct1] l grows_refl]
  have "laid_out W fs t pos" "source_of t = s" by blast+
  moreover have "sb_root_inode_ref (fs_sb fs) = ref_of pos"
    using fs(2) by (simp add: on_image_def superblock_for_def)
  ultimately show ?thesis
    using fs by (auto simp: pack_def l laid_out_def image_holds_def intro!: exI [of _ fs])
qed

text \<open>The answers a source stands for.\<close>

fun source_find :: "source \<Rightarrow> bytes list \<Rightarrow> source result" where
  "source_find s [] = Ok s"
| "source_find (Directory m kids) (c # cs) =
     (case map_of kids c of None \<Rightarrow> Fail NotFound | Some s \<Rightarrow> source_find s cs)"
| "source_find _ (c # cs) = Fail NotADirectory"

fun source_attributes :: "source \<Rightarrow> source_meta" where
  "source_attributes (Plain m data) = m"
| "source_attributes (Symbolic m target) = m"
| "source_attributes (Device m character rdev) = m"
| "source_attributes (Pipe m socket) = m"
| "source_attributes (Directory m kids) = m"

fun source_type :: "source \<Rightarrow> file_type" where
  "source_type (Plain m data) = RegFile"
| "source_type (Symbolic m target) = Symlink"
| "source_type (Device m character rdev) = (if character then CharDev else BlockDev)"
| "source_type (Pipe m socket) = (if socket then Socket else Fifo)"
| "source_type (Directory m kids) = Dir"

fun source_entries :: "source \<Rightarrow> bytes list result" where
  "source_entries (Directory m kids) = Ok (map fst kids)"
| "source_entries _ = Fail NotADirectory"

fun source_target :: "source \<Rightarrow> bytes result" where
  "source_target (Symbolic m target) = Ok target"
| "source_target _ = Fail (BadInode ''read_symlink_target on non-symlink'')"

fun source_read :: "source \<Rightarrow> u64 \<Rightarrow> bytes \<Rightarrow> nat result \<times> bytes" where
  "source_read (Plain m data) offset buf =
     (Ok (min (length buf) (length data - unat offset)),
      take (length buf) (drop (unat offset) data) @ drop (length data - unat offset) buf)"
| "source_read _ offset buf = (Fail (BadInode ''read_file on non-file''), buf)"

lemma map_of_sources:
  "map_of (map (\<lambda>(name, t). (name, source_of t)) kids) c = map_option source_of (map_of kids c)"
  by (induction kids) auto

lemma find_descends: "and_then (descend t cs) (\<lambda>u. Ok (source_of u)) = source_find (source_of t) cs"
proof (induction t cs rule: descend.induct)
  case (2 i kids c cs)
  then show ?case by (simp add: map_of_sources split: option.split)
qed (auto split: file_type.split)

lemma source_answers:
  "tree_entries u = source_entries (source_of u)" "tree_target u = source_target (source_of u)"
  "tree_read u offset buf = source_read (source_of u) offset buf"
  "meta_of (node u) = source_attributes (source_of u)"
  by (cases u; auto split: file_type.split)+

lemma typed_descends: "typed t \<Longrightarrow> descend t cs = Ok u \<Longrightarrow> typed u"
proof (induction t cs rule: descend.induct)
  case (2 i kids c cs)
  then show ?case by (auto simp: list_all_iff split: option.splits dest!: map_of_SomeD)
qed simp_all

text \<open>What an inode has to say of the node it is for.\<close>

definition describes :: "inode \<Rightarrow> source \<Rightarrow> bool" where
  "describes i u \<longleftrightarrow>
     meta_of i = source_attributes u \<and> file_type_of i = source_type u \<and>
     (case u of Device m character rdev \<Rightarrow> in_rdev i = rdev | _ \<Rightarrow> True)"

lemma node_describes: "tree_stored W fs u \<Longrightarrow> typed u \<Longrightarrow> describes (node u) (source_of u)"
  by (cases u)
    (auto simp: describes_def dest!: leaf_types simp: is_regular_file_def is_symlink_def is_dir_def)

section \<open>An image holds one tree\<close>

lemma inode_unique: "lru_crate W \<Longrightarrow> inode_stored W fs r i \<Longrightarrow> inode_stored W fs r j \<Longrightarrow> i = j"
  using givesD [OF gives_read_inode caches_ok_opened] by (metis sum.inject(2))

lemma file_unique:
  assumes "lru_crate W" "tree_stored W fs (File i data)" "tree_stored W fs (File i data')"
  shows "data = data'"
proof -
  note c = caches_ok_opened [OF assms(1), of fs 0 0]
  have len: "length data = unat (in_file_size i)" "length data' = unat (in_file_size i)"
    using assms(2,3) by (auto elim!: tree_stored_cases simp: file_stored_def)
  obtain b :: bytes where b: "length b = length data" by (meson Ex_list_of_length)
  from stored_read [OF assms(2) c, of 0 b] stored_read [OF assms(3) c, of 0 b] len b
  show ?thesis by auto
qed

lemma tree_unique:
  assumes "lru_crate W"
  shows "tree_stored W fs t \<Longrightarrow> tree_stored W fs t' \<Longrightarrow> node t = node t' \<Longrightarrow> t = t'"
proof (induction arbitrary: t' rule: tree_stored.induct)
  case (stored_file i data)
  then obtain data' where "t' = File i data'"
    by (cases t') (auto simp: file_stored_def dest: leaf_types one_type elim: tree_stored_cases)
  then show ?case using stored_file file_unique [OF assms] tree_stored.stored_file by blast
next
  case (stored_link i target)
  then show ?case
    by (cases t') (auto dest: leaf_types one_type elim: tree_stored_cases)
next
  case (stored_special i)
  then show ?case by (cases t') (auto dest: leaf_types)
next
  case (stored_folder i es kids)
  then obtain kids' where t': "t' = Folder i kids'"
    by (cases t') (auto dest: leaf_types one_type elim: tree_stored_cases)
  with stored_folder(4) obtain es' where es': "listing_stored W fs i es'" "list_all2 (stands_for W fs) es' kids'"
    by (blast elim: folder_parts)
  have "es' = es"
    using givesD [OF gives_read_dir [OF stored_folder(1,2)] caches_ok_opened [OF assms]]
      givesD [OF gives_read_dir [OF stored_folder(1) es'(1)] caches_ok_opened [OF assms]]
    by (metis sum.inject(2))
  with es' have "list_all2 (stands_for W fs) es kids'" by simp
  with stored_folder(3) have "kids = kids'"
  proof (induction es kids arbitrary: kids' rule: list_all2_induct)
    case (Cons e es k kids)
    then obtain l ls where l: "kids' = l # ls" "stands_for W fs e l" "list_all2 (stands_for W fs) es ls"
      by (auto simp: list_all2_Cons1)
    have "k = l" 
      using Cons(1) l(2) inode_unique [OF assms] by (cases k; cases l) (auto simp: stands_for_def)
    with Cons(3) [OF l(3)] l(1) show ?case by simp
  qed simp
  then show ?case by (simp add: t')
qed

lemma holds_unique: "lru_crate W \<Longrightarrow> image_holds W fs t \<Longrightarrow> image_holds W fs t' \<Longrightarrow> t = t'"
  using inode_unique tree_unique unfolding image_holds_def by blast

section \<open>Properties\<close>

text \<open>A directory with a file stored packed and a directory that holds a link and a device.\<close>

definition sample_meta :: source_meta where
  "sample_meta = \<lparr>sm_permissions = 420, sm_uid_idx = 0, sm_gid_idx = 0, sm_mtime = 7\<rparr>"

definition sample_source :: source where
  "sample_source =
     Directory sample_meta
       [([0x61], Plain sample_meta [5, 5, 5]),
        ([0x62], Directory sample_meta
          [([0x6C], Symbolic sample_meta [0x61]), ([0x6E], Device sample_meta True 0x103)])]"

text \<open>A codec for runs of one byte, which it stores as that byte.\<close>

definition run_world :: "(nat \<times> (u64 \<times> cached_block) list, nat \<times> (data_key \<times> bytes) list) world" where
  "run_world = sample_world\<lparr>w_codecs := no_codecs\<lparr>cd_lzo := (\<lambda>z n. Some (replicate n (hd z)))\<rparr>\<rparr>"

definition sample_options :: pack_options where
  "sample_options =
     \<lparr>po_log = 12, po_comp = Lzo,
      po_pack = (\<lambda>c. if c = replicate (length c) (hd c) then Some [hd c] else None),
      po_ids = [1000], po_mtime = 7\<rparr>"

lemma run_lru_crate: "lru_crate run_world"
  by (simp add: lru_crate_def run_world_def sample_world_def list_lru_contract)

lemma run_faithful: "faithful_cache run_world"
  by (simp add: faithful_cache_def run_world_def sample_world_def)

lemma sample_options_ok: "options_ok run_world sample_options"
  by (auto simp: options_ok_def sample_options_def run_world_def decompress_def split: if_splits)

lemma sample_packable: "packable sample_options sample_source"
  by (simp add: packable_def sample_source_def name_ok_def sample_options_def po_bsize_def div_ceil_nat_def)

text \<open>C2. Packing and mounting: the image made from any file tree opens, and at every point of every
  history of calls, every path gives what the tree has there: the error when it has nothing, or an
  inode with the node's attributes, type and device number, the target of a link, the names of a
  directory in order, and any range of a file's bytes, whatever the packer compressed and whichever
  blocks it left as holes.\<close>

theorem packed_image_reads_back:
  assumes "lru_crate W" "faithful_cache W" "options_ok W opt" "packable opt s"
  shows "\<exists>fs. open_image W (mem_device (pack opt s)) = Ok (fs, opened_caches W 256 8) \<and>
    fs_id_table fs = po_ids opt \<and>
    (\<forall>c p. reachable W fs (opened_caches W 256 8) c \<longrightarrow>
      (case source_find s (components p) of
         Inl e \<Rightarrow> fst (perform W fs (Lookup_path p) c) = An_inode (Inl e)
       | Inr u \<Rightarrow>
           \<exists>i. fst (perform W fs (Lookup_path p) c) = An_inode (Ok i) \<and> describes i u \<and>
             read_symlink_target i = source_target u \<and>
             (\<exists>r. fst (perform W fs (Read_dir i) c) = Entries r \<and>
               and_then r (\<lambda>es. Ok (map de_name es)) = source_entries u) \<and>
             (\<forall>offset buf. fst (perform W fs (Read_file i offset buf) c) =
               Count (fst (source_read u offset buf)) (snd (source_read u offset buf)))))"
proof -
  from pack_holds [OF assms(2-4)] obtain fs t where
    open_: "open_image W (mem_device (pack opt s)) = Ok (fs, opened_caches W 256 8)" "fs_id_table fs = po_ids opt"
    and t: "image_holds W fs t" "typed t" "source_of t = s" by blast
  have st: "tree_stored W fs t" using t(1) by (simp add: image_holds_def)
  have "case source_find s (components p) of
         Inl e \<Rightarrow> fst (perform W fs (Lookup_path p) c) = An_inode (Inl e)
       | Inr u \<Rightarrow>
           \<exists>i. fst (perform W fs (Lookup_path p) c) = An_inode (Ok i) \<and> describes i u \<and>
             read_symlink_target i = source_target u \<and>
             (\<exists>r. fst (perform W fs (Read_dir i) c) = Entries r \<and>
               and_then r (\<lambda>es. Ok (map de_name es)) = source_entries u) \<and>
             (\<forall>offset buf. fst (perform W fs (Read_file i offset buf) c) =
               Count (fst (source_read u offset buf)) (snd (source_read u offset buf)))"
    if c: "reachable W fs (opened_caches W 256 8) c" for c p
  proof (cases "descend t (components p)")
    case (Inl e)
    then have "source_find s (components p) = Inl e" using find_descends [of t "components p"] t(3) by simp
    then show ?thesis using mount_tree_calls [OF assms(1) t(1) c, of p] Inl by simp
  next
    case (Inr u)
    then have "source_find s (components p) = Ok (source_of u)"
      using find_descends [of t "components p"] t(3) by simp
    moreover have "describes (node u) (source_of u)"
      using node_describes descend_stored [OF st Inr] typed_descends [OF t(2) Inr] by blast
    ultimately show ?thesis
      using mount_tree_calls [OF assms(1) t(1) c, of p] Inr by (auto simp: source_answers)
  qed
  with open_ show ?thesis by blast
qed

lemma packed_image_reads_back_witness:
  "\<exists>fs. open_image run_world (mem_device (pack sample_options sample_source)) =
      Ok (fs, opened_caches run_world 256 8) \<and>
    (\<exists>i. fst (perform run_world fs (Lookup_path [0x61]) (opened_caches run_world 256 8)) = An_inode (Ok i) \<and>
      fst (perform run_world fs (Read_file i 1 [9, 9, 9]) (opened_caches run_world 256 8)) =
        Count (Ok 2) [5, 5, 9]) \<and>
    fst (perform run_world fs (Lookup_path [0x7A]) (opened_caches run_world 256 8)) =
      An_inode (Fail NotFound)"
proof -
  from packed_image_reads_back [OF run_lru_crate run_faithful sample_options_ok sample_packable]
  obtain fs where fs: "open_image run_world (mem_device (pack sample_options sample_source)) =
      Ok (fs, opened_caches run_world 256 8)"
    "\<forall>c p. reachable run_world fs (opened_caches run_world 256 8) c \<longrightarrow>
      (case source_find sample_source (components p) of
         Inl e \<Rightarrow> fst (perform run_world fs (Lookup_path p) c) = An_inode (Inl e)
       | Inr u \<Rightarrow>
           \<exists>i. fst (perform run_world fs (Lookup_path p) c) = An_inode (Ok i) \<and> describes i u \<and>
             read_symlink_target i = source_target u \<and>
             (\<exists>r. fst (perform run_world fs (Read_dir i) c) = Entries r \<and>
               and_then r (\<lambda>es. Ok (map de_name es)) = source_entries u) \<and>
             (\<forall>offset buf. fst (perform run_world fs (Read_file i offset buf) c) =
               Count (fst (source_read u offset buf)) (snd (source_read u offset buf))))"
    by blast
  note at = fs(2) [rule_format, OF reach_start]
  have found: "source_find sample_source (components [0x61]) = Ok (Plain sample_meta [5, 5, 5])"
    "source_find sample_source (components [0x7A]) = Fail NotFound"
    by (simp_all add: components_def sample_source_def)
  show ?thesis
    using fs(1) at [of "[0x61]"] at [of "[0x7A]"] unfolding found by (fastforce intro!: exI [of _ fs])
qed

text \<open>An image says which tree it was made from: two trees packed to the same bytes, under whatever
  options, are the same tree.\<close>

lemma packing_injective:
  assumes "lru_crate W" "faithful_cache W" "options_ok W opt" "packable opt s"
    and "options_ok W opt'" "packable opt' s'"
    and "pack opt s = pack opt' s'"
  shows "s = s'"
proof -
  from pack_holds [OF assms(2-4)] pack_holds [OF assms(2,5,6)] assms(7) obtain fs t t' where
    "image_holds W fs t" "source_of t = s" "image_holds W fs t'" "source_of t' = s'" by auto
  with holds_unique [OF assms(1)] show ?thesis by blast
qed

end
