(* ===== verification/Bcj_Windows.thy ===== *)
theory Bcj_Windows
  imports Bcj
begin

text \<open>
  Encoders for the branch converters whose windows have a fixed width, and for ARM-Thumb, written
  from the decoders of \<open>Bcj\<close> with the program counter added where they take it away.  The source has
  the decoders only; the encoders are what the producer of an archive ran.  Each lemma
  \<open>\<dots>_undo\<close> says that the decoder of \<open>src/xz.rs\<close> gives back what the encoder was given, as
  long as the program counter is a multiple of the instruction's unit.
\<close>

section \<open>Fields that hold a displacement\<close>

text \<open>A displacement of \<open>n\<close> bits counts units of \<open>2 ^ k\<close> bytes.  Adding the program counter and taking
  it away again gives the displacement back when the counter is a multiple of the unit.\<close>

lemma push_drop_aligned: "take_bit k x = 0 \<Longrightarrow> push_bit k (drop_bit k x) = (x :: 'a::len word)"
  using bits_ident [of k x] by simp

lemma field_undo:
  fixes f P :: "'a::len word"
  assumes "take_bit k P = 0" "n + k \<le> LENGTH('a)"
  shows "take_bit n (drop_bit k (push_bit k (take_bit n (drop_bit k (push_bit k f + P))) - P)) = take_bit n f"
proof -
  let ?a = "push_bit k f + P"
  have "take_bit k (push_bit k f) = 0" by (rule bit_word_eqI) (auto simp: bit_simps)
  then have a: "take_bit k ?a = 0" using take_bit_diff_left [of k "push_bit k f" "- P"] assms(1) by simp
  have "push_bit k (take_bit n (drop_bit k ?a)) = take_bit (n + k) (push_bit k (drop_bit k ?a))"
    by (rule bit_word_eqI) (auto simp: bit_simps)
  then have p: "push_bit k (take_bit n (drop_bit k ?a)) = take_bit (n + k) ?a"
    by (simp add: push_drop_aligned [OF a])
  have "take_bit n (drop_bit k (take_bit (n + k) ?a - P)) = drop_bit k (take_bit (n + k) (take_bit (n + k) ?a - P))"
    by (rule bit_word_eqI) (auto simp: bit_simps)
  also have "\<dots> = drop_bit k (take_bit (n + k) (?a - P))"
    using take_bit_diff_left [of "n + k" ?a P] by simp
  also have "\<dots> = drop_bit k (take_bit (n + k) (push_bit k f))" by simp
  also have "\<dots> = take_bit n f"
    using assms(2) by (intro bit_word_eqI) (auto simp: bit_simps)
  finally show ?thesis by (simp add: p)
qed

text \<open>The same when only the low bits of the field are kept in between.\<close>

lemma field_undo_low:
  fixes f g P :: "'a::len word"
  assumes "take_bit k P = 0" "n + k \<le> LENGTH('a)" "take_bit n g = take_bit n (drop_bit k (push_bit k f + P))"
  shows "take_bit n (drop_bit k (push_bit k g - P)) = take_bit n f"
proof -
  have low: "take_bit n (drop_bit k (push_bit k h - P)) =
      drop_bit k (take_bit (n + k) (push_bit k (take_bit n h) - P))" for h
  proof -
    have "take_bit (n + k) (push_bit k h) = push_bit k (take_bit n h)"
      by (rule bit_word_eqI) (auto simp: bit_simps)
    then show ?thesis
      using take_bit_diff_left [of "n + k" "push_bit k h" P] by (simp add: take_bit_drop_bit)
  qed
  have "take_bit n (drop_bit k (push_bit k g - P)) =
      take_bit n (drop_bit k (push_bit k (take_bit n (drop_bit k (push_bit k f + P))) - P))"
    unfolding low assms(3) by (simp only: take_bit_take_bit min.idem)
  then show ?thesis by (simp only: field_undo [OF assms(1,2)])
qed

section \<open>Windows\<close>

lemma map_windows_undo:
  assumes "\<And>i ys. length ys = w \<Longrightarrow> w dvd i \<Longrightarrow> length (g i ys) = w \<and> f i (g i ys) = ys" "w dvd i"
  shows "map_windows w f i (map_windows w g i xs) = xs"
  using assms(2)
proof (induction xs arbitrary: i rule: length_induct)
  case (1 xs)
  show ?case
  proof (cases "w = 0 \<or> length xs < w")
    case True
    then show ?thesis by (simp add: map_windows.simps)
  next
    case False
    then have "length (drop w xs) < length xs" by auto
    with 1 have ih: "map_windows w f (i + w) (map_windows w g (i + w) (drop w xs)) = drop w xs" by simp
    have h: "length (g i (take w xs)) = w" "f i (g i (take w xs)) = take w xs"
      using False 1(2) assms(1) by auto
    have e: "map_windows w g i xs = g i (take w xs) @ map_windows w g (i + w) (drop w xs)"
      using False by (simp add: map_windows.simps [of w g i xs])
    show ?thesis
      unfolding e using False h ih
      by (subst map_windows.simps) simp
  qed
qed

text \<open>Program counters that are multiples of the unit.\<close>

lemma aligned_pc:
  assumes "2 ^ k dvd start" "2 ^ k dvd i" "2 ^ k dvd ahead"
  shows "take_bit k (pc_at start i ahead) = 0"
proof -
  from assms(2) obtain m where "i = 2 ^ k * m" by blast
  then have "(of_nat i :: u32) = 2 ^ k * of_nat m" by simp
  then have "2 ^ k dvd (of_nat i :: u32)" by simp
  with assms(1,3) have "2 ^ k dvd pc_at start i ahead" by (simp add: pc_at_def)
  then obtain c where "pc_at start i ahead = push_bit k c" by (auto simp: push_bit_eq_mult mult.commute)
  then show ?thesis by simp (rule bit_word_eqI, auto simp: bit_simps)
qed

section \<open>PowerPC\<close>

definition powerpc_encode_window :: "u32 \<Rightarrow> nat \<Rightarrow> bytes \<Rightarrow> bytes" where
  "powerpc_encode_window start i xs =
     (let instr = from_be_u32 xs in
      if instr AND 0xFC000003 = 0x48000001 then
        to_be_u32 (((instr AND 0x03FFFFFC) + pc_at start i 0) AND 0x03FFFFFC OR 0x48000001)
      else xs)"

lemma be_u32: "from_be_u32 (to_be_u32 w) = w" "length xs = 4 \<Longrightarrow> to_be_u32 (from_be_u32 xs) = xs"
  using to_from_le_bytes [of "rev xs", where 'a = 32]
  by (simp_all add: from_be_u32_def to_be_u32_def)

lemma two_up [simp]: "2 \<le> n \<Longrightarrow> Suc (Suc (n - 2)) = n"
  by simp

lemma ppc_mask: "(0x03FFFFFC :: u32) = push_bit 2 (mask 24)" "(0xFC000003 :: u32) = NOT 0x03FFFFFC"
  by (simp_all add: mask_eq_exp_minus_1)

lemma ppc_field: "x AND 0x03FFFFFC = push_bit 2 (take_bit 24 (drop_bit 2 (x :: u32)))"
  unfolding ppc_mask(1) by (rule bit_word_eqI) (auto simp: bit_simps)

lemma ppc_field_of:
  fixes g :: u32
  shows "push_bit 2 (take_bit 24 g) AND 0x03FFFFFC = push_bit 2 (take_bit 24 g)"
    "push_bit 2 (take_bit 24 g) AND 0xFC000003 = 0"
proof -
  show "push_bit 2 (take_bit 24 g) AND 0x03FFFFFC = push_bit 2 (take_bit 24 g)"
    unfolding ppc_mask(1) by (rule bit_word_eqI) (auto simp: bit_simps)
  show "push_bit 2 (take_bit 24 g) AND 0xFC000003 = 0"
    unfolding ppc_mask(2) unfolding ppc_mask(1) by (rule bit_word_eqI) (auto simp: bit_simps)
qed

lemma ppc_branch:
  fixes g :: u32
  shows "(push_bit 2 (take_bit 24 g) OR 0x48000001) AND 0x03FFFFFC = push_bit 2 (take_bit 24 g)"
    "(push_bit 2 (take_bit 24 g) OR 0x48000001) AND 0xFC000003 = 0x48000001"
  unfolding bit.conj_disj_distrib2 ppc_field_of by simp_all

lemma ppc_split:
  assumes "x AND 0xFC000003 = (0x48000001 :: u32)"
  shows "push_bit 2 (take_bit 24 (drop_bit 2 x)) OR 0x48000001 = x"
proof -
  have "x = x AND (0x03FFFFFC OR NOT 0x03FFFFFC)" by (simp only: bit.disj_cancel_right bit.conj_one_right)
  also have "\<dots> = (x AND 0x03FFFFFC) OR (x AND 0xFC000003)"
    by (simp only: bit.conj_disj_distrib ppc_mask(2))
  finally show ?thesis using assms by (simp only: ppc_field)
qed

lemma powerpc_window_undo:
  assumes "length xs = 4" "take_bit 2 (pc_at start i 0) = 0"
  shows "length (powerpc_encode_window start i xs) = 4 \<and>
    powerpc_window start i (powerpc_encode_window start i xs) = xs"
proof (cases "from_be_u32 xs AND 0xFC000003 = 0x48000001")
  case True
  let ?x = "from_be_u32 xs" and ?P = "pc_at start i 0"
  define f where "f = drop_bit 2 ?x"
  define g where "g = drop_bit 2 (push_bit 2 (take_bit 24 f) + ?P)"
  have enc: "powerpc_encode_window start i xs = to_be_u32 (push_bit 2 (take_bit 24 g) OR 0x48000001)"
    unfolding powerpc_encode_window_def Let_def if_P [OF True] ppc_field f_def g_def ..
  have "powerpc_window start i (powerpc_encode_window start i xs) =
      to_be_u32 (push_bit 2 (take_bit 24 (drop_bit 2 (push_bit 2 (take_bit 24 g) - ?P))) OR 0x48000001)"
    unfolding enc powerpc_window_def Let_def be_u32 if_P [OF ppc_branch(2)] ppc_branch(1)
    unfolding ppc_field ..
  also have "take_bit 24 (drop_bit 2 (push_bit 2 (take_bit 24 g) - ?P)) = take_bit 24 (take_bit 24 f)"
    unfolding g_def by (rule field_undo [OF assms(2)]) simp
  also have "push_bit 2 (take_bit 24 (take_bit 24 f)) OR 0x48000001 = ?x"
    using ppc_split [OF True] by (simp only: f_def take_bit_take_bit min.idem)
  finally show ?thesis using assms(1) by (simp add: be_u32) (simp add: enc to_be_u32_def)
next
  case False
  with assms(1) show ?thesis by (simp add: powerpc_encode_window_def powerpc_window_def)
qed

section \<open>ARM\<close>

definition arm_field :: "bytes \<Rightarrow> u32" where
  "arm_field xs = ucast (xs ! 0) OR push_bit 8 (ucast (xs ! 1)) OR push_bit 16 (ucast (xs ! 2))"

definition arm_bytes :: "u32 \<Rightarrow> u8 \<Rightarrow> bytes" where
  "arm_bytes w b = [ucast w, ucast (drop_bit 8 w), ucast (drop_bit 16 w), b]"

definition arm_encode_window :: "u32 \<Rightarrow> nat \<Rightarrow> bytes \<Rightarrow> bytes" where
  "arm_encode_window start i xs =
     (if xs ! 3 = 0xEB then
        arm_bytes (drop_bit 2 (push_bit 2 (arm_field xs) + pc_at start i 8)) (xs ! 3)
      else xs)"

lemma arm_window_alt:
  "arm_window start i xs =
    (if xs ! 3 = 0xEB then
       arm_bytes (drop_bit 2 (push_bit 2 (arm_field xs) - pc_at start i 8)) (xs ! 3)
     else xs)"
  by (simp add: arm_window_def arm_bytes_def arm_field_def Let_def)

lemma arm_bytes_simps [simp]: "arm_bytes w b ! 3 = b" "length (arm_bytes w b) = 4"
  by (simp_all add: arm_bytes_def)

lemma arm_field_bytes: "arm_field (arm_bytes w b) = take_bit 24 w"
proof (rule bit_word_eqI)
  fix n assume "n < LENGTH(32)"
  consider "n < 8" | "8 \<le> n" "n < 16" | "16 \<le> n" "n < 24" | "24 \<le> n" by linarith
  then show "bit (arm_field (arm_bytes w b)) n \<longleftrightarrow> bit (take_bit 24 w) n"
    by cases (auto simp: arm_field_def arm_bytes_def bit_simps \<open>n < LENGTH(32)\<close>)
qed

lemma arm_bytes_low: "arm_bytes (take_bit 24 w) b = arm_bytes w b"
  unfolding arm_bytes_def list.inject by (intro conjI refl; rule bit_word_eqI) (auto simp: bit_simps)

lemma four_bytes: "length xs = 4 \<longleftrightarrow> (\<exists>a b c d. xs = [a, b, c, d])"
  by (auto simp: numeral_eq_Suc length_Suc_conv)

lemma byte_bit_far [simp]: "8 \<le> n \<Longrightarrow> \<not> bit (b :: u8) n"
  using bit_imp_le_length by fastforce

lemma arm_field_parts:
  "(ucast (arm_field xs) :: u8) = xs ! 0" "(ucast (drop_bit 8 (arm_field xs)) :: u8) = xs ! 1"
  "(ucast (drop_bit 16 (arm_field xs)) :: u8) = xs ! 2"
  unfolding arm_field_def by (rule bit_word_eqI; simp add: bit_simps)+

lemma arm_bytes_field:
  assumes "length xs = 4"
  shows "arm_bytes (arm_field xs) (xs ! 3) = xs"
proof -
  obtain a b c d where xs: "xs = [a, b, c, d]" using four_bytes [THEN iffD1, OF assms] by (elim exE)
  show ?thesis unfolding arm_bytes_def arm_field_parts by (simp add: xs)
qed

lemma arm_window_undo:
  assumes "length xs = 4" "take_bit 2 (pc_at start i 8) = 0"
  shows "length (arm_encode_window start i xs) = 4 \<and> arm_window start i (arm_encode_window start i xs) = xs"
proof (cases "xs ! 3 = 0xEB")
  case True
  let ?P = "pc_at start i 8"
  define g where "g = drop_bit 2 (push_bit 2 (arm_field xs) + ?P)"
  have enc: "arm_encode_window start i xs = arm_bytes g (xs ! 3)"
    using True by (simp add: arm_encode_window_def g_def)
  have f: "take_bit 24 (arm_field xs) = arm_field xs"
    by (metis arm_field_bytes arm_bytes_field [OF assms(1)])
  have "arm_window start i (arm_bytes g (xs ! 3)) =
      arm_bytes (drop_bit 2 (push_bit 2 (take_bit 24 g) - ?P)) (xs ! 3)"
    unfolding arm_window_alt arm_bytes_simps if_P [OF True] arm_field_bytes ..
  also have "\<dots> = arm_bytes (take_bit 24 (drop_bit 2 (push_bit 2 (take_bit 24 g) - ?P))) (xs ! 3)"
    by (simp only: arm_bytes_low)
  also have "take_bit 24 (drop_bit 2 (push_bit 2 (take_bit 24 g) - ?P)) = take_bit 24 (arm_field xs)"
    unfolding g_def by (rule field_undo [OF assms(2)]) simp
  finally show ?thesis
    unfolding enc f arm_bytes_field [OF assms(1)] by simp
next
  case False
  with assms(1) show ?thesis by (simp add: arm_encode_window_def arm_window_def)
qed

section \<open>SPARC\<close>

definition sparc_word :: "u32 \<Rightarrow> u32" where
  "sparc_word a = (0x40000000 - (a AND 0x400000)) OR 0x40000000 OR (a AND 0x3FFFFF)"

definition sparc_encode_window :: "u32 \<Rightarrow> nat \<Rightarrow> bytes \<Rightarrow> bytes" where
  "sparc_encode_window start i xs =
     (let instr = from_be_u32 xs in
      if drop_bit 22 instr = 0x100 \<or> drop_bit 22 instr = 0x1FF then
        to_be_u32 (sparc_word (drop_bit 2 (push_bit 2 instr + pc_at start i 0)))
      else xs)"

lemma sparc_window_alt:
  "sparc_window start i xs =
    (let instr = from_be_u32 xs in
      if drop_bit 22 instr = 0x100 \<or> drop_bit 22 instr = 0x1FF then
        to_be_u32 (sparc_word (drop_bit 2 (push_bit 2 instr - pc_at start i 0)))
      else xs)"
  by (simp add: sparc_window_def sparc_word_def Let_def)

lemma sparc_masks: "(0x400000 :: u32) = push_bit 22 1" "(0x3FFFFF :: u32) = mask 22"
  by (simp_all add: mask_eq_exp_minus_1)

text \<open>A call's word is its low 22 bits below a sign that fills the other eight.\<close>

lemma bit_22: "bit (0x400000 :: u32) n \<longleftrightarrow> n = 22"
  using bit_exp_iff [where 'a = "32 word", of 22 n] by auto

lemma sparc_sign: "a AND 0x400000 = (if bit a 22 then 0x400000 else (0 :: u32))"
  by (cases "bit a 22"; rule bit_word_eqI; simp only: bit_and_iff bit_22 if_True if_False; auto)

lemma sparc_word_cases:
  "sparc_word a = (if bit a 22 then 0x7FC00000 else 0x40000000) OR take_bit 22 a"
proof -
  have "a AND 0x3FFFFF = take_bit 22 a" unfolding sparc_masks(2) by (simp add: take_bit_eq_mask)
  then show ?thesis
    unfolding sparc_word_def sparc_sign
    by (cases "bit a 22") (simp_all flip: or.assoc)
qed

lemma sparc_tops:
  "(0x7FC00000 :: u32) = push_bit 22 0x1FF" "(0x40000000 :: u32) = push_bit 22 0x100"
  by simp_all

lemma bit_sign: "bit (if c then push_bit 22 1 else 0 :: u32) n \<longleftrightarrow> c \<and> n = 22"
  unfolding sparc_masks(1) [symmetric] by (cases c; simp only: if_True if_False bit_22 simp_thms; simp)

lemma take_bit_23: "take_bit 23 a = (if bit a 22 then push_bit 22 1 else 0) OR take_bit 22 (a :: u32)"
proof (rule bit_word_eqI)
  fix n :: nat
  consider "n < 22" | "n = 22" | "22 < n" by linarith
  then show "bit (take_bit 23 a) n \<longleftrightarrow> bit ((if bit a 22 then push_bit 22 1 else 0) OR take_bit 22 a) n"
    by cases (simp_all only: bit_or_iff bit_take_bit_iff bit_sign, simp_all)
qed

lemma sparc_word_low: "sparc_word (take_bit 23 a) = sparc_word a"
  by (simp add: sparc_word_cases bit_take_bit_iff)

lemma drop_22_top: "drop_bit 22 (push_bit 22 t OR take_bit 22 a) = take_bit 10 (t :: u32)"
  by (rule bit_word_eqI) (auto simp: bit_simps)

lemma sparc_word_is_call:
  "drop_bit 22 (sparc_word a) = 0x100 \<or> drop_bit 22 (sparc_word a) = 0x1FF"
proof (cases "bit a 22")
  case True
  have "drop_bit 22 (sparc_word a) = take_bit 10 0x1FF"
    unfolding sparc_word_cases if_P [OF True] sparc_tops(1) by (rule drop_22_top)
  then show ?thesis by simp
next
  case False
  have "drop_bit 22 (sparc_word a) = take_bit 10 0x100"
    unfolding sparc_word_cases if_not_P [OF False] sparc_tops(2) by (rule drop_22_top)
  then show ?thesis by simp
qed

lemma sparc_word_field: "take_bit 23 (sparc_word a) = take_bit 23 a"
proof -
  have t: "take_bit 23 (push_bit 22 t OR take_bit 22 a) = (if bit t 0 then push_bit 22 1 else 0) OR take_bit 22 a"
    for t :: u32
  proof (rule bit_word_eqI)
    fix n :: nat
    consider "n < 22" | "n = 22" | "22 < n" by linarith
    then show "bit (take_bit 23 (push_bit 22 t OR take_bit 22 a)) n \<longleftrightarrow>
        bit ((if bit t 0 then push_bit 22 1 else 0) OR take_bit 22 a) n"
      by cases (simp_all only: bit_or_iff bit_take_bit_iff bit_sign, simp_all add: bit_push_bit_iff)
  qed
  have "bit (0x1FF :: u32) 0" "\<not> bit (0x100 :: u32) 0" by simp_all
  with t [of "0x1FF"] t [of "0x100"] show ?thesis
    unfolding sparc_word_cases take_bit_23 [of a] sparc_tops by (cases "bit a 22") simp_all
qed

lemma sparc_word_call:
  assumes "drop_bit 22 x = 0x100 \<or> drop_bit 22 x = 0x1FF"
  shows "sparc_word x = x"
proof -
  have x: "x = push_bit 22 (drop_bit 22 x) OR take_bit 22 x"
    by (rule bit_word_eqI) (auto simp: bit_simps)
  have b: "bit x 22 \<longleftrightarrow> bit (drop_bit 22 x) 0" by (simp add: bit_drop_bit_eq)
  from assms show ?thesis
  proof
    assume d: "drop_bit 22 x = 0x100"
    then have "\<not> bit x 22" unfolding b by simp
    then show ?thesis using x unfolding sparc_word_cases sparc_tops(2) d by simp
  next
    assume d: "drop_bit 22 x = 0x1FF"
    then have "bit x 22" unfolding b by simp
    then show ?thesis using x unfolding sparc_word_cases sparc_tops(1) d by simp
  qed
qed

lemma sparc_window_undo:
  assumes "length xs = 4" "take_bit 2 (pc_at start i 0) = 0"
  shows "length (sparc_encode_window start i xs) = 4 \<and>
    sparc_window start i (sparc_encode_window start i xs) = xs"
proof (cases "drop_bit 22 (from_be_u32 xs) = 0x100 \<or> drop_bit 22 (from_be_u32 xs) = 0x1FF")
  case True
  let ?x = "from_be_u32 xs" and ?P = "pc_at start i 0"
  define g where "g = drop_bit 2 (push_bit 2 ?x + ?P)"
  have enc: "sparc_encode_window start i xs = to_be_u32 (sparc_word g)"
    unfolding sparc_encode_window_def Let_def if_P [OF True] g_def ..
  have "sparc_window start i (to_be_u32 (sparc_word g)) =
      to_be_u32 (sparc_word (drop_bit 2 (push_bit 2 (sparc_word g) - ?P)))"
    unfolding sparc_window_alt Let_def be_u32 if_P [OF sparc_word_is_call] ..
  also have "sparc_word (drop_bit 2 (push_bit 2 (sparc_word g) - ?P)) = sparc_word ?x"
  proof -
    have "take_bit 23 (drop_bit 2 (push_bit 2 (sparc_word g) - ?P)) = take_bit 23 ?x"
      by (rule field_undo_low [OF assms(2)]) (simp, simp only: sparc_word_field g_def)
    then show ?thesis by (metis sparc_word_low)
  qed
  also have "sparc_word ?x = ?x" by (rule sparc_word_call [OF True])
  finally show ?thesis
    unfolding enc using assms(1) by (simp add: be_u32) (simp add: to_be_u32_def)
next
  case False
  with assms(1) show ?thesis
    unfolding sparc_encode_window_def sparc_window_alt Let_def if_not_P [OF False] by simp
qed

section \<open>ARM-Thumb\<close>

definition thumb_field :: "bytes \<Rightarrow> u32" where
  "thumb_field xs =
     push_bit 19 (ucast (xs ! 1) AND 0x07) OR push_bit 11 (ucast (xs ! 0)) OR
     push_bit 8 (ucast (xs ! 3) AND 0x07) OR ucast (xs ! 2)"

definition thumb_bytes :: "u32 \<Rightarrow> bytes" where
  "thumb_bytes w =
     [ucast (drop_bit 11 w), 0xF0 OR ucast (drop_bit 19 w AND 0x07), ucast w,
      0xF8 OR ucast (drop_bit 8 w AND 0x07)]"

definition thumb_call :: "bytes \<Rightarrow> bool" where
  "thumb_call xs \<longleftrightarrow> xs ! 1 AND 0xF8 = 0xF0 \<and> xs ! 3 AND 0xF8 = 0xF8"

lemma armthumb_window_alt:
  "armthumb_window start i xs = thumb_bytes (drop_bit 1 (push_bit 1 (thumb_field xs) - pc_at start i 4))"
  unfolding armthumb_window_def thumb_field_def thumb_bytes_def Let_def ..

function armthumb_encode_from :: "u32 \<Rightarrow> nat \<Rightarrow> bytes \<Rightarrow> bytes" where
  "armthumb_encode_from start i xs =
     (if length xs < 4 then xs
      else if thumb_call xs then
        thumb_bytes (drop_bit 1 (push_bit 1 (thumb_field xs) + pc_at start i 4)) @
        armthumb_encode_from start (i + 4) (drop 4 xs)
      else take 2 xs @ armthumb_encode_from start (i + 2) (drop 2 xs))"
  by pat_completeness auto
termination
  by (relation "measure (\<lambda>(start, i, xs). length xs)") auto

declare armthumb_encode_from.simps [simp del]

lemma mask3: "(0x07 :: 'a::len word) = mask 3"
  by (simp add: mask_eq_exp_minus_1)

lemma and_7: "x AND 0x07 = take_bit 3 (x :: 'a::len word)"
  unfolding mask3 by (simp add: take_bit_eq_mask)

lemma thumb_tops:
  "(0xF8 :: u8) = push_bit 3 (mask 5)" "(0xF0 :: u8) = push_bit 4 (mask 4)"
  by (simp_all add: mask_eq_exp_minus_1)

lemma thumb_opcode:
  fixes w :: u32
  shows "(0xF0 OR ucast (take_bit 3 w)) AND 0xF8 = (0xF0 :: u8)"
    "(0xF8 OR ucast (take_bit 3 w)) AND 0xF8 = (0xF8 :: u8)"
proof -
  have z: "ucast (take_bit 3 w) AND 0xF8 = (0 :: u8)"
    unfolding thumb_tops by (rule bit_word_eqI) (auto simp: bit_simps)
  show "(0xF0 OR ucast (take_bit 3 w)) AND 0xF8 = (0xF0 :: u8)"
    "(0xF8 OR ucast (take_bit 3 w)) AND 0xF8 = (0xF8 :: u8)"
    unfolding bit.conj_disj_distrib2 z by simp_all
qed

lemma thumb_low:
  fixes w :: u32
  shows "(ucast (0xF0 OR ucast (take_bit 3 w) :: u8) :: u32) AND 0x07 = take_bit 3 w"
    "(ucast (0xF8 OR ucast (take_bit 3 w) :: u8) :: u32) AND 0x07 = take_bit 3 w"
  unfolding and_7 thumb_tops by (rule bit_word_eqI; auto simp: bit_simps)+

lemma thumb_bytes_nth:
  "thumb_bytes w ! 0 = ucast (drop_bit 11 w)"
  "thumb_bytes w ! 1 = 0xF0 OR ucast (take_bit 3 (drop_bit 19 w))"
  "thumb_bytes w ! 2 = ucast w"
  "thumb_bytes w ! 3 = 0xF8 OR ucast (take_bit 3 (drop_bit 8 w))"
  "length (thumb_bytes w) = 4"
  by (simp_all add: thumb_bytes_def and_7)

lemma thumb_bytes_call: "thumb_call (thumb_bytes w)"
  unfolding thumb_call_def thumb_bytes_nth thumb_opcode by simp

lemma thumb_field_bytes: "thumb_field (thumb_bytes w) = take_bit 22 w"
proof -
  have "thumb_field (thumb_bytes w) = push_bit 19 (take_bit 3 (drop_bit 19 w)) OR
      push_bit 11 (ucast (ucast (drop_bit 11 w) :: u8)) OR push_bit 8 (take_bit 3 (drop_bit 8 w)) OR
      ucast (ucast w :: u8)"
    unfolding thumb_field_def thumb_bytes_nth thumb_low ..
  also have "\<dots> = take_bit 22 w"
  proof (rule bit_word_eqI)
    fix n assume "n < LENGTH(32)"
    consider "n < 8" | "8 \<le> n" "n < 11" | "11 \<le> n" "n < 19" | "19 \<le> n" "n < 22" | "22 \<le> n" by linarith
    then show "bit (push_bit 19 (take_bit 3 (drop_bit 19 w)) OR
        push_bit 11 (ucast (ucast (drop_bit 11 w) :: u8)) OR push_bit 8 (take_bit 3 (drop_bit 8 w)) OR
        ucast (ucast w :: u8)) n \<longleftrightarrow> bit (take_bit 22 w) n"
      using \<open>n < LENGTH(32)\<close> by cases (simp_all add: bit_simps less_diff_conv2)
  qed
  finally show ?thesis .
qed

lemma thumb_bytes_low: "thumb_bytes (take_bit 22 w) = thumb_bytes w"
  unfolding thumb_bytes_def and_7
  by (simp only: list.inject, intro conjI refl arg_cong2 [where f = "(OR)"];
      rule bit_word_eqI; simp add: bit_simps)

lemma top_byte:
  assumes "b AND 0xF8 = (c :: u8)"
  shows "c OR take_bit 3 b = b"
proof -
  have "(0xF8 OR 0x07 :: u8) = - 1" by simp
  then have "b = b AND (0xF8 OR 0x07)" by (simp only: bit.conj_one_right)
  also have "\<dots> = (b AND 0xF8) OR (b AND 0x07)" by (simp only: bit.conj_disj_distrib)
  finally show ?thesis using assms by (simp only: and_7)
qed

lemma thumb_parts:
  fixes a b c d :: u8
  defines "F \<equiv> (push_bit 19 (take_bit 3 (ucast b)) OR push_bit 11 (ucast a) OR
    push_bit 8 (take_bit 3 (ucast d)) OR ucast c) :: u32"
  shows "(ucast (drop_bit 11 F) :: u8) = a" "(ucast (take_bit 3 (drop_bit 19 F)) :: u8) = take_bit 3 b"
    "(ucast F :: u8) = c" "(ucast (take_bit 3 (drop_bit 8 F)) :: u8) = take_bit 3 d"
  unfolding F_def by (rule bit_word_eqI; simp add: bit_simps; fail | rule bit_word_eqI, auto simp: bit_simps)+

lemma thumb_bytes_field:
  assumes "length xs = 4" "thumb_call xs"
  shows "thumb_bytes (thumb_field xs) = xs"
proof -
  obtain a b c d where xs: "xs = [a, b, c, d]" using four_bytes [THEN iffD1, OF assms(1)] by (elim exE)
  have f: "thumb_field xs = push_bit 19 (take_bit 3 (ucast b)) OR push_bit 11 (ucast a) OR
      push_bit 8 (take_bit 3 (ucast d)) OR ucast c"
    by (simp add: thumb_field_def xs and_7)
  have "0xF0 OR take_bit 3 b = b" "0xF8 OR take_bit 3 d = d"
    using assms(2) top_byte [of b "0xF0"] top_byte [of d "0xF8"] by (simp_all add: thumb_call_def xs)
  then show ?thesis
    unfolding thumb_bytes_def and_7 f thumb_parts by (simp add: xs)
qed

definition thumb_encoded :: "u32 \<Rightarrow> nat \<Rightarrow> bytes \<Rightarrow> bytes" where
  "thumb_encoded start i xs = thumb_bytes (drop_bit 1 (push_bit 1 (thumb_field xs) + pc_at start i 4))"

lemma thumb_window_undo:
  assumes "length xs = 4" "thumb_call xs" "take_bit 1 (pc_at start i 4) = 0"
  shows "armthumb_window start i (thumb_encoded start i xs) = xs"
proof -
  let ?P = "pc_at start i 4"
  define g where "g = drop_bit 1 (push_bit 1 (thumb_field xs) + ?P)"
  have "armthumb_window start i (thumb_bytes g) =
      thumb_bytes (take_bit 22 (drop_bit 1 (push_bit 1 (take_bit 22 g) - ?P)))"
    unfolding armthumb_window_alt thumb_field_bytes thumb_bytes_low ..
  also have "take_bit 22 (drop_bit 1 (push_bit 1 (take_bit 22 g) - ?P)) = take_bit 22 (thumb_field xs)"
    unfolding g_def by (rule field_undo [OF assms(3)]) simp
  finally show ?thesis
    unfolding thumb_encoded_def g_def [symmetric] thumb_bytes_low thumb_bytes_field [OF assms(1,2)] .
qed

lemma thumb_encode_step:
  "armthumb_encode_from start i xs =
    (if length xs < 4 then xs
     else if thumb_call xs then thumb_encoded start i (take 4 xs) @ armthumb_encode_from start (i + 4) (drop 4 xs)
     else take 2 xs @ armthumb_encode_from start (i + 2) (drop 2 xs))"
  by (subst armthumb_encode_from.simps) (simp add: thumb_encoded_def thumb_field_def)

lemma length_thumb_encoded [simp]: "length (thumb_encoded start i xs) = 4"
  by (simp add: thumb_encoded_def thumb_bytes_nth)

lemma length_thumb_encode: "length (armthumb_encode_from start i xs) = length xs"
proof (induction start i xs rule: armthumb_encode_from.induct)
  case (1 start i xs)
  then show ?case by (subst thumb_encode_step) auto
qed

text \<open>The encoder keeps the bits the test for a call looks at.\<close>

lemma thumb_encode_top:
  assumes "1 < length xs"
  shows "armthumb_encode_from start i xs ! 1 AND 0xF8 = xs ! 1 AND 0xF8"
proof (cases "length xs < 4 \<or> \<not> thumb_call xs")
  case True
  with assms show ?thesis by (subst thumb_encode_step) (auto simp: nth_append)
next
  case False
  have "thumb_call (thumb_encoded start i (take 4 xs))" unfolding thumb_encoded_def by (rule thumb_bytes_call)
  with False show ?thesis
    by (subst thumb_encode_step) (simp add: nth_append thumb_call_def)
qed

lemma armthumb_undo:
  assumes "2 dvd start" "2 dvd i"
  shows "armthumb_from start i (armthumb_encode_from start i xs) = xs"
  using assms
proof (induction start i xs rule: armthumb_encode_from.induct)
  case (1 start i xs)
  let ?e = "armthumb_encode_from start i xs"
  note len = length_thumb_encode [of start i xs]
  have dec: "armthumb_from start i ys =
      (if length ys < 4 then ys
       else if thumb_call ys then armthumb_window start i (take 4 ys) @ armthumb_from start (i + 4) (drop 4 ys)
       else take 2 ys @ armthumb_from start (i + 2) (drop 2 ys))" for ys
    by (subst armthumb_from.simps) (simp add: thumb_call_def)
  consider (short) "length xs < 4" | (call) "\<not> length xs < 4" "thumb_call xs"
    | (other) "\<not> length xs < 4" "\<not> thumb_call xs" by blast
  then show ?case
  proof cases
    case short
    then show ?thesis by (subst thumb_encode_step) (simp add: dec)
  next
    case call
    have e: "?e = thumb_encoded start i (take 4 xs) @ armthumb_encode_from start (i + 4) (drop 4 xs)"
      using call by (subst thumb_encode_step) simp
    have "take_bit 1 (pc_at start i 4) = 0" by (rule aligned_pc) (use 1 in simp_all)
    moreover have "thumb_call (take 4 xs)" using call by (simp add: thumb_call_def)
    ultimately have w: "armthumb_window start i (thumb_encoded start i (take 4 xs)) = take 4 xs"
      using call by (intro thumb_window_undo) simp_all
    have "thumb_call (thumb_encoded start i (take 4 xs))" unfolding thumb_encoded_def by (rule thumb_bytes_call)
    then have "thumb_call ?e" by (simp add: e thumb_call_def nth_append)
    with call len have "armthumb_from start i ?e =
        armthumb_window start i (take 4 ?e) @ armthumb_from start (i + 4) (drop 4 ?e)" by (simp add: dec)
    also have "\<dots> = take 4 xs @ drop 4 xs" using w 1 call by (simp add: e)
    finally show ?thesis by simp
  next
    case other
    have e: "?e = take 2 xs @ armthumb_encode_from start (i + 2) (drop 2 xs)"
      using other by (subst thumb_encode_step) simp
    have "?e ! 1 = xs ! 1" using other by (simp add: e nth_append)
    moreover have "?e ! 3 AND 0xF8 = xs ! 3 AND 0xF8"
      using thumb_encode_top [of "drop 2 xs" start "i + 2"] other
      by (simp add: e nth_append numeral_eq_Suc)
    ultimately have "\<not> thumb_call ?e" using other by (simp add: thumb_call_def)
    with other len have "armthumb_from start i ?e = take 2 ?e @ armthumb_from start (i + 2) (drop 2 ?e)"
      by (simp add: dec)
    also have "\<dots> = take 2 xs @ drop 2 xs" using 1 other by (simp add: e)
    finally show ?thesis by simp
  qed
qed

end
