(* ===== verification/Bcj_Ia64.thy ===== *)
theory Bcj_Ia64
  imports Bcj_Windows
begin

text \<open>
  The encoder of the IA-64 converter.  A bundle is read as one 128-bit word; a slot's displacement
  and its test for a branch are bit fields of it, the six-byte reads and writes of
  \<open>ia64_slot\<close> are updates of one field, and fields of different slots do not meet.
\<close>

section \<open>Bytes and bits\<close>

lemma bit_from_le_bytes:
  assumes "8 * length bs \<le> LENGTH('a::len)"
  shows "bit (from_le_bytes bs :: 'a word) n \<longleftrightarrow> n < 8 * length bs \<and> bit (bs ! (n div 8)) (n mod 8)"
proof (cases "n < 8 * length bs")
  case True
  then have k: "n div 8 < length bs" by simp
  have "bit (bs ! (n div 8)) (n mod 8) \<longleftrightarrow>
      bit (ucast (drop_bit (8 * (n div 8)) (from_le_bytes bs :: 'a word)) :: u8) (n mod 8)"
    by (simp only: byte_of_from_le_bytes [OF k assms])
  also have "\<dots> \<longleftrightarrow> bit (from_le_bytes bs :: 'a word) n"
    by (simp add: bit_ucast_iff bit_drop_bit_eq)
  finally show ?thesis using True by simp
next
  case False
  have "le_nat bs < 2 ^ (8 * length bs)" using le_nat_less [of bs] by (simp add: power_mult)
  then have "unat (from_le_bytes bs :: 'a word) < 2 ^ (8 * length bs)"
    using unat_from_le_bytes [OF assms] by simp
  with False have "unat (from_le_bytes bs :: 'a word) < 2 ^ n"
    by (meson dual_order.strict_trans2 not_less one_le_numeral power_increasing)
  then have "\<not> bit (unat (from_le_bytes bs :: 'a word)) n"
    by (simp add: bit_iff_odd)
  then show ?thesis using False by (simp add: bit_unsigned_iff)
qed

lemma le_bytes_nth: "k < n \<Longrightarrow> le_bytes n v ! k = of_nat (v div 256 ^ k)"
proof (induction n arbitrary: k v)
  case 0
  then show ?case by simp
next
  case (Suc n)
  have "(of_nat (v mod 256) :: u8) = of_nat v"
    by (rule word_unat_eq_iff [THEN iffD2]) (simp add: unat_of_nat take_bit_eq_mod)
  with Suc show ?case by (cases k) (simp_all add: div_mult2_eq)
qed

lemma bit_to_le_bytes:
  assumes "k < n"
  shows "bit (to_le_bytes n w ! k) m \<longleftrightarrow> m < 8 \<and> bit w (8 * k + m)"
proof -
  have "to_le_bytes n w ! k = of_nat (drop_bit (8 * k) (unat w))"
    using le_bytes_nth [OF assms, of "unat w"] by (simp add: to_le_bytes_def drop_bit_eq_div power_mult)
  then show ?thesis by (simp add: bit_of_nat_iff bit_drop_bit_eq bit_unsigned_iff)
qed

section \<open>IA-64 bundles as 128-bit words\<close>

type_synonym ia_word = "128 word"

definition bundle_of :: "bytes \<Rightarrow> ia_word" where "bundle_of xs = from_le_bytes xs"

lemma bundle_inverse:
  "length xs = 16 \<Longrightarrow> to_le_bytes 16 (bundle_of xs) = xs" "bundle_of (to_le_bytes 16 w) = w"
  using to_from_le_bytes [of xs, where 'a = 128] from_to_le_bytes [of 16 w]
  by (simp_all add: bundle_of_def)

text \<open>The 21 bits of the slot at \<open>p\<close> that hold a displacement, and the test for a branch.\<close>

definition slot_field :: "nat \<Rightarrow> ia_word \<Rightarrow> u32" where
  "slot_field p w =
     ucast (take_bit 20 (drop_bit (p + 13) w)) OR push_bit 20 (ucast (take_bit 1 (drop_bit (p + 36) w)))"

definition slot_branch :: "nat \<Rightarrow> ia_word \<Rightarrow> bool" where
  "slot_branch p w \<longleftrightarrow>
     (ucast (take_bit 4 (drop_bit (p + 37) w)) :: u64) = 0x05 \<and>
     (ucast (take_bit 3 (drop_bit (p + 9) w)) :: u64) = 0"

definition set_slot :: "nat \<Rightarrow> ia_word \<Rightarrow> u32 \<Rightarrow> ia_word" where
  "set_slot p w a =
     (w AND NOT (push_bit (p + 13) (mask 20)) AND NOT (push_bit (p + 36) 1)) OR
     push_bit (p + 13) (ucast (take_bit 20 a)) OR push_bit (p + 36) (ucast (take_bit 1 (drop_bit 20 a)))"

definition slots :: "nat set" where "slots = {5, 46, 87}"

lemma bit_set_slot:
  assumes "p \<in> slots" "n < 128"
  shows "bit (set_slot p w a) n \<longleftrightarrow>
    (if p + 13 \<le> n \<and> n < p + 33 then bit a (n - (p + 13)) else if n = p + 36 then bit a 20 else bit w n)"
proof -
  consider "n < p + 13" | "p + 13 \<le> n" "n < p + 33" | "p + 33 \<le> n" "n < p + 36" | "n = p + 36" | "p + 36 < n"
    by linarith
  then show ?thesis
    using assms
    by cases (auto simp: set_slot_def slots_def bit_simps bit_1_iff less_diff_conv2 even_drop_bit_iff_not_bit)
qed

lemma bit_slot_field:
  assumes "p \<in> slots"
  shows "bit (slot_field p w) n \<longleftrightarrow> (if n < 20 then bit w (p + 13 + n) else n = 20 \<and> bit w (p + 36))"
proof -
  consider "n < 20" | "n = 20" | "20 < n" by linarith
  then show ?thesis
    using assms by cases (auto simp: slot_field_def slots_def bit_simps less_diff_conv2 even_drop_bit_iff_not_bit)
qed

text \<open>Slots do not overlap, and neither the test of one nor the template is touched by setting another.\<close>

lemma slots_in [simp]: "5 \<in> slots" "46 \<in> slots" "87 \<in> slots"
  by (simp_all add: slots_def)

lemma slot_cases:
  assumes "p \<in> slots"
  shows "p = 5 \<or> p = 46 \<or> p = 87"
  using assms by (simp add: slots_def)

lemma field_of_set:
  assumes "p \<in> slots"
  shows "slot_field p (set_slot p w a) = take_bit 21 a"
proof (rule bit_word_eqI)
  fix n :: nat
  have p: "p + 36 < 128" using slot_cases [OF assms] by auto
  consider "n < 20" | "n = 20" | "20 < n" by linarith
  then show "bit (slot_field p (set_slot p w a)) n \<longleftrightarrow> bit (take_bit 21 a) n"
    by cases (use p in \<open>simp_all add: bit_slot_field [OF assms] bit_set_slot [OF assms] bit_take_bit_iff\<close>)
qed

lemma field_of_other:
  assumes "p \<in> slots" "q \<in> slots" "p \<noteq> q"
  shows "slot_field p (set_slot q w a) = slot_field p w"
proof (rule bit_word_eqI)
  fix n :: nat
  show "bit (slot_field p (set_slot q w a)) n \<longleftrightarrow> bit (slot_field p w) n"
    using slot_cases [OF assms(1)] slot_cases [OF assms(2)] assms(3)
    by (elim disjE) (simp_all add: bit_slot_field bit_set_slot)
qed

lemma branch_of_set:
  assumes "p \<in> slots" "q \<in> slots"
  shows "slot_branch p (set_slot q w a) = slot_branch p w"
proof -
  have "take_bit 4 (drop_bit (p + 37) (set_slot q w a)) = take_bit 4 (drop_bit (p + 37) w)"
  proof (rule bit_word_eqI)
    fix n :: nat
    show "bit (take_bit 4 (drop_bit (p + 37) (set_slot q w a))) n \<longleftrightarrow> bit (take_bit 4 (drop_bit (p + 37) w)) n"
      using slot_cases [OF assms(1)] slot_cases [OF assms(2)]
      by (elim disjE) (auto simp: bit_simps bit_set_slot)
  qed
  moreover have "take_bit 3 (drop_bit (p + 9) (set_slot q w a)) = take_bit 3 (drop_bit (p + 9) w)"
  proof (rule bit_word_eqI)
    fix n :: nat
    show "bit (take_bit 3 (drop_bit (p + 9) (set_slot q w a))) n \<longleftrightarrow> bit (take_bit 3 (drop_bit (p + 9) w)) n"
      using slot_cases [OF assms(1)] slot_cases [OF assms(2)]
      by (elim disjE) (auto simp: bit_simps bit_set_slot)
  qed
  ultimately show ?thesis by (simp add: slot_branch_def)
qed

lemma set_of_set:
  assumes "p \<in> slots"
  shows "set_slot p (set_slot p w a) b = set_slot p w b"
  by (rule bit_word_eqI) (simp add: bit_set_slot [OF assms])

lemma set_of_field:
  assumes "p \<in> slots" "take_bit 21 a = slot_field p w"
  shows "set_slot p w a = w"
proof (rule bit_word_eqI)
  fix n assume n: "n < LENGTH(128)"
  have f: "bit a m \<longleftrightarrow> bit (slot_field p w) m" if "m < 21" for m
    using that assms(2) by (metis bit_take_bit_iff)
  have "bit a m \<longleftrightarrow> bit w (p + 13 + m)" if "m < 20" for m
    using f [of m] that by (simp add: bit_slot_field [OF assms(1)])
  from this [of "n - (p + 13)"] f [of 20] n show "bit (set_slot p w a) n \<longleftrightarrow> bit w n"
    by (auto simp: bit_set_slot [OF assms(1)] bit_slot_field [OF assms(1)])
qed

lemma set_commute:
  assumes "p \<in> slots" "q \<in> slots" "p \<noteq> q"
  shows "set_slot p (set_slot q w a) b = set_slot q (set_slot p w b) a"
proof (rule bit_word_eqI)
  fix n assume n: "n < LENGTH(128)"
  then show "bit (set_slot p (set_slot q w a) b) n \<longleftrightarrow> bit (set_slot q (set_slot p w b) a) n"
    using slot_cases [OF assms(1)] slot_cases [OF assms(2)] assms(3)
    by (elim disjE) (auto simp: bit_set_slot)
qed

lemma low_of_set:
  assumes "p \<in> slots"
  shows "take_bit 5 (set_slot p w a) = take_bit 5 w"
  by (rule bit_word_eqI, use slot_cases [OF assms] in \<open>elim disjE\<close>)
    (auto simp: bit_take_bit_iff bit_set_slot)

text \<open>The converter's six-byte read and write, on the word.\<close>

lemma bit_bundle:
  "length xs = 16 \<Longrightarrow> bit (bundle_of xs) n \<longleftrightarrow> n < 128 \<and> bit (xs ! (n div 8)) (n mod 8)"
  using bit_from_le_bytes [of xs n, where 'a = 128] by (simp add: bundle_of_def)

lemma bit_six_bytes:
  assumes "length xs = 16" "k + 6 \<le> 16"
  shows "bit (from_le_bytes (take 6 (drop k xs)) :: u64) n \<longleftrightarrow> n < 48 \<and> bit (bundle_of xs) (8 * k + n)"
proof -
  have "length (take 6 (drop k xs)) = 6" using assms by simp
  then have "bit (from_le_bytes (take 6 (drop k xs)) :: u64) n \<longleftrightarrow>
      n < 48 \<and> bit (take 6 (drop k xs) ! (n div 8)) (n mod 8)"
    using bit_from_le_bytes [of "take 6 (drop k xs)" n, where 'a = 64] by simp
  also have "\<dots> \<longleftrightarrow> n < 48 \<and> bit (bundle_of xs) (8 * k + n)"
    using assms by (auto simp: bit_bundle)
  finally show ?thesis .
qed

lemma bit_put_six:
  fixes v :: u64
  assumes "length xs = 16" "k + 6 \<le> 16" "n < 128"
  shows "bit (bundle_of (take k xs @ to_le_bytes 6 v @ drop (k + 6) xs)) n \<longleftrightarrow>
    (if 8 * k \<le> n \<and> n < 8 * k + 48 then bit v (n - 8 * k) else bit (bundle_of xs) n)"
proof -
  let ?ys = "take k xs @ to_le_bytes 6 v @ drop (k + 6) xs"
  have len: "length ?ys = 16" using assms by simp
  consider "n div 8 < k" | "k \<le> n div 8" "n div 8 < k + 6" | "k + 6 \<le> n div 8" by linarith
  then show ?thesis
  proof cases
    case 1
    then have "?ys ! (n div 8) = xs ! (n div 8)" using assms by (simp add: nth_append)
    moreover have "\<not> 8 * k \<le> n" using 1 by linarith
    ultimately show ?thesis using assms by (simp add: bit_bundle len)
  next
    case 2
    then have "n div 8 - k < 6" by linarith
    with 2 have "?ys ! (n div 8) = to_le_bytes 6 v ! (n div 8 - k)" using assms by (simp add: nth_append)
    moreover have "8 * (n div 8 - k) + n mod 8 = n - 8 * k" using 2(1) by (simp add: diff_mult_distrib2)
    moreover have "n div 8 - k < 6" "8 * k \<le> n" "n < 8 * k + 48" using 2 by linarith+
    ultimately show ?thesis using assms by (simp add: bit_bundle len bit_to_le_bytes)
  next
    case 3
    then have "\<not> n div 8 < k" "\<not> n div 8 - k < 6" by linarith+
    with 3 have "?ys ! (n div 8) = xs ! (n div 8)" using assms by (simp add: nth_append)
    moreover have "\<not> n < 8 * k + 48" using 3 by linarith
    ultimately show ?thesis using assms by (simp add: bit_bundle len)
  qed
qed

text \<open>The instruction with a new displacement.\<close>

definition ia64_patch :: "u64 \<Rightarrow> u32 \<Rightarrow> u64" where
  "ia64_patch norm addr =
     ((norm AND NOT (push_bit 13 0x8FFFFF)) OR push_bit 13 (ucast (addr AND 0x0FFFFF))) OR
     push_bit 16 (ucast (addr AND 0x100000))"

lemma ia64_masks:
  "(0x8FFFFF :: u64) = mask 20 OR push_bit 23 1" "(0x0FFFFF :: 'a::len word) = mask 20"
  "(0x100000 :: u32) = push_bit 20 1" "(0x0F :: u64) = mask 4" "(0x07 :: u64) = mask 3"
  by (simp_all add: mask_eq_exp_minus_1)

lemma bit_ia64_masks:
  "bit (0x8FFFFF :: u64) m \<longleftrightarrow> m < 20 \<or> m = 23" "bit (0x0FFFFF :: u32) m \<longleftrightarrow> m < 20"
  "bit (0x100000 :: u32) m \<longleftrightarrow> m = 20"
proof -
  have b1: "bit (1 :: 'a::len word) k \<longleftrightarrow> k = 0" for k by (simp add: bit_1_iff)
  show "bit (0x8FFFFF :: u64) m \<longleftrightarrow> m < 20 \<or> m = 23"
    unfolding ia64_masks(1) by (simp only: bit_or_iff bit_mask_iff bit_push_bit_iff b1) auto
  show "bit (0x0FFFFF :: u32) m \<longleftrightarrow> m < 20"
    unfolding ia64_masks(2) by (simp only: bit_mask_iff) auto
  show "bit (0x100000 :: u32) m \<longleftrightarrow> m = 20"
    unfolding ia64_masks(3) by (simp only: bit_push_bit_iff b1) auto
qed

lemma bit_patch:
  assumes "n < 64"
  shows "bit (ia64_patch norm addr) n \<longleftrightarrow>
    (if 13 \<le> n \<and> n < 33 then bit addr (n - 13) else if n = 36 then bit addr 20 else bit norm n)"
proof -
  consider "n < 13" | "13 \<le> n" "n < 33" | "33 \<le> n" "n \<noteq> 36" | "n = 36" by linarith
  then show ?thesis
    using assms unfolding ia64_patch_def
    by cases (simp_all only: bit_or_iff bit_and_iff bit_not_iff bit_push_bit_iff bit_ucast_iff bit_ia64_masks, auto)
qed

lemma slot_split:
  assumes "p \<in> slots"
  shows "p = 8 * (p div 8) + p mod 8" "p div 8 + 6 \<le> 16" "p mod 8 + 41 \<le> 48" "p mod 8 < 8"
  using slot_cases [OF assms] by auto

text \<open>The slot as the converter reads it, shifted to the bottom of a 64-bit integer.\<close>

definition slot_norm :: "nat \<Rightarrow> bytes \<Rightarrow> u64" where
  "slot_norm p xs = drop_bit (p mod 8) (from_le_bytes (take 6 (drop (p div 8) xs)))"

lemma bit_slot_norm:
  assumes "p \<in> slots" "length xs = 16"
  shows "bit (slot_norm p xs) n \<longleftrightarrow> p mod 8 + n < 48 \<and> bit (bundle_of xs) (p + n)"
proof -
  have "8 * (p div 8) + (p mod 8 + n) = p + n" by simp
  then show ?thesis
    using bit_six_bytes [OF assms(2) slot_split(2) [OF assms(1)], of "p mod 8 + n"]
    by (simp only: slot_norm_def bit_drop_bit_eq o_def)
qed

lemma slot_norm_branch:
  assumes "p \<in> slots" "length xs = 16"
  shows "(drop_bit 37 (slot_norm p xs) AND 0x0F = 0x05 \<and> drop_bit 9 (slot_norm p xs) AND 0x07 = 0) =
    slot_branch p (bundle_of xs)"
proof -
  have "drop_bit 37 (slot_norm p xs) AND 0x0F = ucast (take_bit 4 (drop_bit (p + 37) (bundle_of xs)))"
    unfolding ia64_masks(4) using slot_split(3) [OF assms(1)]
    by (intro bit_word_eqI) (auto simp: bit_simps bit_slot_norm [OF assms] ac_simps)
  moreover have "drop_bit 9 (slot_norm p xs) AND 0x07 = ucast (take_bit 3 (drop_bit (p + 9) (bundle_of xs)))"
    unfolding ia64_masks(5) using slot_split(3) [OF assms(1)]
    by (intro bit_word_eqI) (auto simp: bit_simps bit_slot_norm [OF assms] ac_simps)
  ultimately show ?thesis unfolding slot_branch_def by simp
qed

lemma slot_norm_field:
  assumes "p \<in> slots" "length xs = 16"
  shows "(ucast (drop_bit 13 (slot_norm p xs) AND 0x0FFFFF) :: u32) OR
      push_bit 20 (ucast (drop_bit 36 (slot_norm p xs) AND 1)) = slot_field p (bundle_of xs)"
proof (rule bit_word_eqI)
  fix n assume n: "n < LENGTH(32)"
  have m: "(0x0FFFFF :: u64) = mask 20" "(1 :: u64) = mask 1" by (simp_all add: mask_eq_exp_minus_1)
  consider "n < 20" | "n = 20" | "20 < n" by linarith
  then show "bit ((ucast (drop_bit 13 (slot_norm p xs) AND 0x0FFFFF) :: u32) OR
      push_bit 20 (ucast (drop_bit 36 (slot_norm p xs) AND 1))) n \<longleftrightarrow> bit (slot_field p (bundle_of xs)) n"
    unfolding m(1) unfolding m(2)
    using n slot_split(3) [OF assms(1)]
    by cases (auto simp: bit_simps bit_slot_norm [OF assms] bit_slot_field [OF assms(1)] ac_simps)
qed

lemma bundle_patch:
  assumes "p \<in> slots" "length xs = 16"
  defines "instr \<equiv> from_le_bytes (take 6 (drop (p div 8) xs)) :: u64"
  shows "bundle_of (take (p div 8) xs @
      to_le_bytes 6 ((instr AND (push_bit (p mod 8) 1 - 1)) OR
        push_bit (p mod 8) (ia64_patch (slot_norm p xs) a)) @ drop (p div 8 + 6) xs) =
    set_slot p (bundle_of xs) a"
proof (rule bit_word_eqI)
  fix n assume "n < LENGTH(128)"
  then have n: "n < 128" by simp
  note s = slot_split [OF assms(1)]
  let ?k = "p div 8" and ?r = "p mod 8"
  let ?v = "(instr AND (push_bit ?r 1 - 1)) OR push_bit ?r (ia64_patch (slot_norm p xs) a)"
  have v: "bit ?v m \<longleftrightarrow>
      (if m < ?r then bit (bundle_of xs) (8 * ?k + m) else bit (ia64_patch (slot_norm p xs) a) (m - ?r))"
    if "m < 48" for m
  proof -
    have "push_bit ?r 1 - 1 = (mask ?r :: u64)" by (simp add: mask_eq_exp_minus_1)
    then show ?thesis
      using that s(4) bit_six_bytes [OF assms(2) s(2), of m]
      by (simp add: bit_or_iff bit_and_iff bit_mask_iff bit_push_bit_iff instr_def)
  qed
  show "bit (bundle_of (take ?k xs @ to_le_bytes 6 ?v @ drop (?k + 6) xs)) n \<longleftrightarrow>
      bit (set_slot p (bundle_of xs) a) n"
  proof (cases "8 * ?k \<le> n \<and> n < 8 * ?k + 48")
    case False
    then have "n < p \<or> p + 41 \<le> n" using s(1,3) by linarith
    with False n show ?thesis
      by (auto simp: bit_put_six [OF assms(2) s(2) n] bit_set_slot [OF assms(1) n])
  next
    case True
    then have l: "bit (bundle_of (take ?k xs @ to_le_bytes 6 ?v @ drop (?k + 6) xs)) n \<longleftrightarrow> bit ?v (n - 8 * ?k)"
      by (simp add: bit_put_six [OF assms(2) s(2) n])
    have m: "n - 8 * ?k < 48" using True by linarith
    show ?thesis
    proof (cases "n < p")
      case low: True
      then have "n - 8 * ?k < ?r" using True s(1) by linarith
      with low True show ?thesis
        unfolding l v [OF m] by (simp add: bit_set_slot [OF assms(1) n])
    next
      case False
      then have r: "\<not> n - 8 * ?k < ?r" "n - 8 * ?k - ?r = n - p" using s(1) by linarith+
      have np: "?r + (n - p) < 48" "p + (n - p) = n" using False True s(1) by linarith+
      then have "n - p < 64" by linarith
      note b = bit_patch [OF this, of "slot_norm p xs" a]
      have "bit (slot_norm p xs) (n - p) \<longleftrightarrow> bit (bundle_of xs) n"
        by (simp only: bit_slot_norm [OF assms(1,2)] np simp_thms)
      moreover have "n - p - 13 = n - (p + 13)" by simp
      moreover have "13 \<le> n - p \<and> n - p < 33 \<longleftrightarrow> p + 13 \<le> n \<and> n < p + 33" "n - p = 36 \<longleftrightarrow> n = p + 36"
        using False by linarith+
      ultimately show ?thesis
        unfolding l v [OF m] if_not_P [OF r(1)] r(2) b bit_set_slot [OF assms(1) n] by simp
    qed
  qed
qed

text \<open>One slot, decoded.\<close>

definition slot_decode :: "u32 \<Rightarrow> nat \<Rightarrow> ia_word \<Rightarrow> ia_word" where
  "slot_decode pc p w =
     (if slot_branch p w then set_slot p w (drop_bit 4 (push_bit 4 (slot_field p w) - pc)) else w)"

definition slot_encode :: "u32 \<Rightarrow> nat \<Rightarrow> ia_word \<Rightarrow> ia_word" where
  "slot_encode pc p w =
     (if slot_branch p w then set_slot p w (drop_bit 4 (push_bit 4 (slot_field p w) + pc)) else w)"

lemma ia64_slot_word:
  assumes "p \<in> slots" "length xs = 16"
  shows "bundle_of (ia64_slot start i p xs) = slot_decode (pc_at start i 0) p (bundle_of xs)"
proof -
  have b: "drop_bit 37 (drop_bit (p mod 8) (from_le_bytes (take 6 (drop (p div 8) xs)) :: u64)) AND 0x0F = 0x05 \<and>
      drop_bit 9 (drop_bit (p mod 8) (from_le_bytes (take 6 (drop (p div 8) xs)) :: u64)) AND 0x07 = 0 \<longleftrightarrow>
      slot_branch p (bundle_of xs)"
    using slot_norm_branch [OF assms] unfolding slot_norm_def .
  note f = slot_norm_field [OF assms, unfolded slot_norm_def]
  note q = bundle_patch [OF assms, unfolded slot_norm_def ia64_patch_def]
  show ?thesis
    unfolding ia64_slot_def Let_def b slot_decode_def f
    by (cases "slot_branch p (bundle_of xs)") (simp_all only: if_True if_False q)
qed

lemma slot_decode_encode:
  assumes "p \<in> slots" "take_bit 4 pc = 0"
  shows "slot_decode pc p (slot_encode pc p w) = w"
proof (cases "slot_branch p w")
  case True
  let ?g = "drop_bit 4 (push_bit 4 (slot_field p w) + pc)"
  have enc: "slot_encode pc p w = set_slot p w ?g" by (simp add: slot_encode_def True)
  have "take_bit 21 (drop_bit 4 (push_bit 4 (take_bit 21 ?g) - pc)) = take_bit 21 (slot_field p w)"
    by (rule field_undo_low [OF assms(2)]) simp_all
  also have "take_bit 21 (slot_field p w) = slot_field p w"
    by (rule bit_word_eqI) (auto simp: bit_take_bit_iff bit_slot_field [OF assms(1)] split: if_splits)
  finally have "set_slot p w (drop_bit 4 (push_bit 4 (take_bit 21 ?g) - pc)) = w"
    by (rule set_of_field [OF assms(1)])
  then show ?thesis
    by (simp add: slot_decode_def enc branch_of_set [OF assms(1,1)] True field_of_set [OF assms(1)]
        set_of_set [OF assms(1)])
next
  case False
  then show ?thesis by (simp add: slot_decode_def slot_encode_def)
qed

lemma slot_commute:
  assumes "p \<in> slots" "q \<in> slots" "p \<noteq> q"
  shows "slot_decode pc p (slot_encode pc q w) = slot_encode pc q (slot_decode pc p w)"
  using assms by (simp add: slot_decode_def slot_encode_def branch_of_set field_of_other
      set_commute [of p q] field_of_other [of q p])

lemma low_of_slot [simp]:
  "p \<in> slots \<Longrightarrow> take_bit 5 (slot_decode pc p w) = take_bit 5 w"
  "p \<in> slots \<Longrightarrow> take_bit 5 (slot_encode pc p w) = take_bit 5 w"
  by (simp_all add: slot_decode_def slot_encode_def low_of_set)

text \<open>The slots a template marks, in turn.\<close>

definition slot_at :: "nat \<Rightarrow> nat" where "slot_at k = 5 + 41 * k"

fun slots_with :: "(nat \<Rightarrow> ia_word \<Rightarrow> ia_word) \<Rightarrow> u32 \<Rightarrow> nat list \<Rightarrow> ia_word \<Rightarrow> ia_word" where
  "slots_with f msk [] w = w"
| "slots_with f msk (k # ks) w =
     slots_with f msk ks (if drop_bit k msk AND 1 \<noteq> 0 then f (slot_at k) w else w)"

lemma slot_at_in: "k < 3 \<Longrightarrow> slot_at k \<in> slots"
  by (auto simp: slot_at_def slots_def less_Suc_eq numeral_eq_Suc)

lemma ia64_slots_word:
  assumes "set ks \<subseteq> {..<3}" "length xs = 16"
  shows "length (ia64_slots start i msk ks xs) = 16 \<and>
    bundle_of (ia64_slots start i msk ks xs) = slots_with (slot_decode (pc_at start i 0)) msk ks (bundle_of xs)"
  using assms
proof (induction ks arbitrary: xs)
  case (Cons k ks)
  have p: "5 + 41 * k \<in> slots" using Cons.prems(1) slot_at_in [of k] by (simp add: slot_at_def)
  let ?ys = "if drop_bit k msk AND 1 \<noteq> 0 then ia64_slot start i (5 + 41 * k) xs else xs"
  have "length ?ys = 16" using Cons.prems(2) length_ia64_slot [of "5 + 41 * k" xs start i] slot_cases [OF p] by auto
  moreover have "set ks \<subseteq> {..<3}" using Cons.prems(1) by simp
  ultimately show ?case
    using Cons.IH [of ?ys] ia64_slot_word [OF p Cons.prems(2), of start i]
    by (simp add: slot_at_def)
qed simp

lemma slots_with_commute:
  assumes "set ks \<subseteq> {..<3}" "p \<in> slots" "p \<notin> slot_at ` set ks"
  shows "slot_decode pc p (slots_with (slot_encode pc) msk ks w) =
    slots_with (slot_encode pc) msk ks (slot_decode pc p w)"
  using assms
proof (induction ks arbitrary: w)
  case (Cons k ks)
  have "slot_at k \<in> slots" using Cons.prems(1) by (intro slot_at_in) simp
  moreover have "slot_at k \<noteq> p" using Cons.prems(3) by auto
  ultimately have "slot_decode pc p (slot_encode pc (slot_at k) w) = slot_encode pc (slot_at k) (slot_decode pc p w)" for w
    using Cons.prems(2) by (intro slot_commute) simp_all
  with Cons show ?case by simp
qed simp

lemma slots_with_undo:
  assumes "set ks \<subseteq> {..<3}" "distinct ks" "take_bit 4 pc = 0"
  shows "slots_with (slot_decode pc) msk ks (slots_with (slot_encode pc) msk ks w) = w"
  using assms
proof (induction ks arbitrary: w)
  case (Cons k ks)
  have k: "slot_at k \<in> slots" using Cons.prems(1) by (intro slot_at_in) simp
  have "slot_at k \<notin> slot_at ` set ks" using Cons.prems(2) by (auto simp: slot_at_def)
  then have "slot_decode pc (slot_at k) (slots_with (slot_encode pc) msk ks (slot_encode pc (slot_at k) w)) =
      slots_with (slot_encode pc) msk ks w" for w
    using Cons.prems(1) k by (simp add: slots_with_commute slot_decode_encode [OF k Cons.prems(3)])
  with Cons show ?case by simp
qed simp

lemma low_of_slots:
  "set ks \<subseteq> {..<3} \<Longrightarrow> take_bit 5 (slots_with (slot_encode pc) msk ks w) = take_bit 5 w"
  by (induction ks arbitrary: w) (simp_all add: slot_at_in)

text \<open>The encoder of a bundle: the template's slots, displaced the other way.\<close>

definition template :: "bytes \<Rightarrow> u32" where
  "template xs = ia64_branch_table ! unat (xs ! 0 AND 0x1F)"

lemma template_low:
  assumes "length xs = 16"
  shows "xs ! 0 AND 0x1F = ucast (take_bit 5 (bundle_of xs))"
proof -
  have m: "(0x1F :: u8) = mask 5" by (simp add: mask_eq_exp_minus_1)
  show ?thesis
    unfolding m by (intro bit_word_eqI) (auto simp: bit_simps bit_bundle [OF assms])
qed

definition ia64_encode_window :: "u32 \<Rightarrow> nat \<Rightarrow> bytes \<Rightarrow> bytes" where
  "ia64_encode_window start i xs =
     to_le_bytes 16 (slots_with (slot_encode (pc_at start i 0)) (template xs) [0, 1, 2] (bundle_of xs))"

lemma ia64_window_undo:
  assumes "length xs = 16" "take_bit 4 (pc_at start i 0) = 0"
  shows "length (ia64_encode_window start i xs) = 16 \<and> ia64_window start i (ia64_encode_window start i xs) = xs"
proof -
  let ?pc = "pc_at start i 0"
  let ?ys = "ia64_encode_window start i xs"
  have ks: "set [0, 1, 2] \<subseteq> {..<3 :: nat}" "distinct [0, 1, 2 :: nat]" by simp_all
  have len: "length ?ys = 16" by (simp add: ia64_encode_window_def)
  have b: "bundle_of ?ys = slots_with (slot_encode ?pc) (template xs) [0, 1, 2] (bundle_of xs)"
    unfolding ia64_encode_window_def bundle_inverse(2) ..
  then have "template ?ys = template xs"
    by (simp only: template_def template_low [OF len] template_low [OF assms(1)] b low_of_slots [OF ks(1)])
  then have w: "ia64_window start i ?ys = ia64_slots start i (template xs) [0, 1, 2] ?ys"
    by (simp add: ia64_window_def template_def)
  note s = ia64_slots_word [OF ks(1) len, of start i "template xs"]
  have "bundle_of (ia64_window start i ?ys) = bundle_of xs"
    unfolding w b s [THEN conjunct2] by (rule slots_with_undo [OF ks assms(2)])
  moreover have "length (ia64_window start i ?ys) = 16" unfolding w by (rule s [THEN conjunct1])
  ultimately have "ia64_window start i ?ys = xs" using bundle_inverse(1) assms(1) by metis
  with len show ?thesis by simp
qed

end
