(* ===== verification/Bcj_X86.thy ===== *)
theory Bcj_X86
  imports Bcj_Windows
begin

text \<open>
  The encoder of the x86 converter.  The decoder decides at each opcode by bytes ahead of it,
  some of which a later conversion rewrites, so undoing the encoder needs that both scans take the same
  steps: the mask of recent opcodes keeps exactly the bytes an earlier test has looked at from changing
  their answer (\<open>watched_byte\<close>), and the second pass of the inner loop is what keeps them
  (\<open>x86_dest_undo\<close>).
\<close>

section \<open>x86: one displacement\<close>

text \<open>The encoder's loop, unrolled: one pass, and a second one when the byte the decoder will look
  at came out as a byte it would pass over.\<close>

definition x86_encode_dest :: "u32 \<Rightarrow> nat \<Rightarrow> u32 \<Rightarrow> u32" where
  "x86_encode_dest pc m src =
     (let dest = src + pc;
          j = x86_bit_num ! m * 8
      in
      if m = 0 \<or> \<not> msbyte (ucast (drop_bit (24 - j) dest)) then dest
      else (dest XOR (push_bit (32 - j) 1 - 1)) + pc)"

definition sign_extend_25 :: "u32 \<Rightarrow> u32" where
  "sign_extend_25 dest =
     (let low = dest AND 0x01FFFFFF in low OR (0 - (low AND 0x01000000)))"

text \<open>The displacement, of four bytes.\<close>

definition x86_encode_convert :: "u32 \<Rightarrow> nat \<Rightarrow> nat \<Rightarrow> bytes \<Rightarrow> bytes" where
  "x86_encode_convert start i m disp =
     to_le_bytes 4 (sign_extend_25 (x86_encode_dest (pc_at start i 5) m (from_le_bytes disp)))"

lemma x86_convert_alt:
  "x86_convert start i m disp =
    map_option (\<lambda>dest. to_le_bytes 4 (sign_extend_25 dest)) (x86_dest (pc_at start i 5) m (from_le_bytes disp))"
  by (simp add: x86_convert_def sign_extend_25_def Let_def)

lemma bit_25_masks:
  "bit (0x01FFFFFF :: u32) n \<longleftrightarrow> n < 25" "bit (0x01000000 :: u32) n \<longleftrightarrow> n = 24"
proof -
  have m: "(0x01FFFFFF :: u32) = mask 25" "(0x01000000 :: u32) = push_bit 24 1"
    by (simp_all add: mask_eq_exp_minus_1)
  show "bit (0x01FFFFFF :: u32) n \<longleftrightarrow> n < 25" unfolding m(1) by (simp only: bit_mask_iff) auto
  have b1: "bit (1 :: u32) k \<longleftrightarrow> k = 0" for k by (simp add: bit_1_iff)
  show "bit (0x01000000 :: u32) n \<longleftrightarrow> n = 24" unfolding m(2) by (simp only: bit_push_bit_iff b1) auto
qed

lemma bit_sign_25: "bit (0 - (low AND 0x01000000 :: u32)) n \<longleftrightarrow> 24 \<le> n \<and> n < 32 \<and> bit low 24"
proof -
  have "low AND 0x01000000 = (if bit low 24 then 0x01000000 else 0)"
    by (cases "bit low 24"; rule bit_word_eqI; simp only: bit_and_iff if_True if_False bit_25_masks; auto)
  moreover have "0 - 0x01000000 = (push_bit 24 (- 1) :: u32)" by (simp add: push_bit_eq_mult)
  moreover have "bit (push_bit 24 (- 1) :: u32) n \<longleftrightarrow> 24 \<le> n \<and> n < 32"
    by (simp only: bit_push_bit_iff bit_minus_1_iff) auto
  ultimately show ?thesis by (cases "bit low 24") (simp_all only: if_True if_False, simp_all)
qed

lemma bit_sign_extend_25:
  "bit (sign_extend_25 d) n \<longleftrightarrow> n < 32 \<and> bit d (min n 24)"
proof -
  have l: "bit (d AND 0x01FFFFFF) m \<longleftrightarrow> m < 25 \<and> bit d m" for m
    by (simp only: bit_and_iff bit_25_masks) auto
  consider "n < 24" | "n = 24" | "24 < n" by linarith
  then show ?thesis
    unfolding sign_extend_25_def Let_def bit_or_iff l bit_sign_25
    by cases auto
qed

lemma take_sign_extend_25: "take_bit 25 (sign_extend_25 d) = take_bit 25 d"
  by (rule bit_word_eqI) (auto simp: bit_take_bit_iff bit_sign_extend_25 min_def)

lemma sign_extend_25_cong: "take_bit 25 d = take_bit 25 e \<Longrightarrow> sign_extend_25 d = sign_extend_25 e"
proof (rule bit_word_eqI)
  fix n :: nat
  assume "take_bit 25 d = take_bit 25 e"
  then have "bit (take_bit 25 d) (min n 24) = bit (take_bit 25 e) (min n 24)" by simp
  moreover have "min n 24 < 25" by simp
  ultimately have "bit d (min n 24) = bit e (min n 24)" by (simp only: bit_take_bit_iff simp_thms)
  then show "bit (sign_extend_25 d) n \<longleftrightarrow> bit (sign_extend_25 e) n" by (simp add: bit_sign_extend_25)
qed

text \<open>A displacement whose top byte is a sign.\<close>

lemma sign_byte:
  fixes d :: u32
  shows "msbyte (ucast (drop_bit 24 d)) \<longleftrightarrow> sign_extend_25 d = d"
proof
  assume m: "msbyte (ucast (drop_bit 24 d))"
  have b: "bit (ucast (drop_bit 24 d) :: u8) k \<longleftrightarrow> k < 8 \<and> bit d (24 + k)" for k
    by (simp add: bit_ucast_iff bit_drop_bit_eq)
  have f: "(0xFF :: u8) = - 1" by simp
  have "(\<forall>k < 8. \<not> bit d (24 + k)) \<or> (\<forall>k < 8. bit d (24 + k))"
  proof (cases "ucast (drop_bit 24 d) = (0 :: u8)")
    case True
    with b show ?thesis by simp
  next
    case False
    with m have "ucast (drop_bit 24 d) = (- 1 :: u8)" by (simp add: msbyte_def f)
    then have "bit (ucast (drop_bit 24 d) :: u8) k" if "k < 8" for k using that by simp
    with b show ?thesis by blast
  qed
  then have *: "bit d (24 + k) = bit d (24 + 0)" if "k < 8" for k using that by (meson zero_less_numeral)
  have top: "bit d n = bit d 24" if "24 \<le> n" "n < 32" for n
  proof -
    have n: "n - 24 < 8" "24 + (n - 24) = n" using that by simp_all
    show ?thesis using * [OF n(1)] by (simp only: n(2) add_0_right)
  qed
  show "sign_extend_25 d = d"
  proof (rule bit_word_eqI)
    fix n assume "n < LENGTH(32)"
    then show "bit (sign_extend_25 d) n = bit d n"
      using top [of n] by (cases "n < 24") (simp_all add: bit_sign_extend_25 min_def)
  qed
next
  assume "sign_extend_25 d = d"
  then have d: "bit d n \<longleftrightarrow> n < 32 \<and> bit d (min n 24)" for n using bit_sign_extend_25 [of d n] by simp
  have "ucast (drop_bit 24 d) = (if bit d 24 then - 1 else 0 :: u8)"
  proof (rule bit_word_eqI)
    fix k assume "k < LENGTH(8)"
    then show "bit (ucast (drop_bit 24 d) :: u8) k = bit (if bit d 24 then - 1 else 0 :: u8) k"
      using d [of "24 + k"] by (simp add: bit_ucast_iff bit_drop_bit_eq)
  qed
  then show "msbyte (ucast (drop_bit 24 d))" by (simp add: msbyte_def)
qed

definition dest_byte :: "nat \<Rightarrow> u32 \<Rightarrow> u8" where
  "dest_byte k w = ucast (drop_bit (k - 8) w)"

lemma dest_byte_cong:
  assumes "take_bit 25 v = take_bit 25 w" "8 \<le> k" "k \<le> 24"
  shows "dest_byte k v = dest_byte k w"
proof (unfold dest_byte_def, rule bit_word_eqI)
  fix n assume n: "n < LENGTH(8)"
  have "bit (take_bit 25 v) (k - 8 + n) = bit (take_bit 25 w) (k - 8 + n)" using assms(1) by simp
  moreover have "k - 8 + n < 25" using n assms by simp
  ultimately have "bit v (k - 8 + n) = bit w (k - 8 + n)" by (simp only: bit_take_bit_iff simp_thms)
  then show "bit (ucast (drop_bit (k - 8) v) :: u8) n = bit (ucast (drop_bit (k - 8) w) :: u8) n"
    by (simp add: bit_ucast_iff bit_drop_bit_eq)
qed

lemma take_25_diff: "take_bit 25 v = take_bit 25 w \<Longrightarrow> take_bit 25 (v - p) = take_bit 25 (w - (p :: u32))"
  using take_bit_diff_left [of 25 v p] take_bit_diff_left [of 25 w p] by simp

lemma take_25_xor: "take_bit 25 v = take_bit 25 w \<Longrightarrow> take_bit 25 (v XOR m) = take_bit 25 (w XOR (m :: u32))"
  by simp

lemma xor_mask_byte:
  assumes "8 \<le> k" "k \<le> 24"
  shows "dest_byte k (d XOR (push_bit k 1 - 1)) = NOT (dest_byte k d)"
proof -
  have m: "push_bit k 1 - 1 = (mask k :: u32)" by (simp add: mask_eq_exp_minus_1)
  show ?thesis
    unfolding dest_byte_def m using assms by (intro bit_word_eqI) (auto simp: bit_simps)
qed

lemma x86_dest_undo:
  assumes m: "m \<noteq> 0" "x86_bit_num ! m * 8 + k = 32" "8 \<le> k" "k \<le> 24"
    and src: "\<not> msbyte (dest_byte k src)" and e: "take_bit 25 e = take_bit 25 (x86_encode_dest pc m src)"
  shows "\<not> msbyte (dest_byte k e)" "\<exists>s. x86_dest pc m e = Some s \<and> take_bit 25 s = take_bit 25 src"
proof -
  have j: "24 - x86_bit_num ! m * 8 = k - 8" "32 - x86_bit_num ! m * 8 = k" using m by arith+
  let ?d = "src + pc" and ?m = "push_bit k 1 - 1 :: u32"
  have enc: "x86_encode_dest pc m src = (if msbyte (dest_byte k ?d) then (?d XOR ?m) + pc else ?d)"
    using m(1) by (simp add: x86_encode_dest_def Let_def j dest_byte_def)
  have dec: "x86_dest pc m v =
      (if msbyte (dest_byte k (v - pc)) then x86_dest pc m ((v - pc) XOR ?m) else Some (v - pc))" for v
    using m(1) by (subst x86_dest.simps) (simp add: Let_def j dest_byte_def)
  note cong = dest_byte_cong [OF _ m(3,4)]
  have "\<not> msbyte (dest_byte k e) \<and> (\<exists>s. x86_dest pc m e = Some s \<and> take_bit 25 s = take_bit 25 src)"
  proof (cases "msbyte (dest_byte k ?d)")
    case False
    with e have e': "take_bit 25 e = take_bit 25 ?d" by (simp add: enc)
    then have t: "take_bit 25 (e - pc) = take_bit 25 src" using take_25_diff [of e ?d pc] by simp
    have "\<not> msbyte (dest_byte k (e - pc))" using src cong [OF t] by simp
    then have "x86_dest pc m e = Some (e - pc)" by (simp add: dec [of e])
    with t False cong [OF e'] show ?thesis by simp
  next
    case True
    with e have e': "take_bit 25 e = take_bit 25 ((?d XOR ?m) + pc)" by (simp add: enc)
    have "dest_byte k ((?d XOR ?m) + pc) = NOT (dest_byte k src)"
      using byte_second_pass [of k src "- pc"] m(3,4) by (simp add: dest_byte_def)
    then have n: "\<not> msbyte (dest_byte k e)" using src cong [OF e'] msbyte_NOT by simp
    have t: "take_bit 25 (e - pc) = take_bit 25 (?d XOR ?m)" using take_25_diff [OF e', of pc] by simp
    then have first: "msbyte (dest_byte k (e - pc))" using True cong [OF t] xor_mask_byte [OF m(3,4)] msbyte_NOT by simp
    have "take_bit 25 ((e - pc) XOR ?m) = take_bit 25 ((?d XOR ?m) XOR ?m)" by (rule take_25_xor [OF t])
    also have "(?d XOR ?m) XOR ?m = ?d" by (simp add: xor.assoc)
    finally have t2: "take_bit 25 (((e - pc) XOR ?m) - pc) = take_bit 25 src"
      using take_25_diff [of "(e - pc) XOR ?m" ?d pc] by simp
    have second: "\<not> msbyte (dest_byte k (((e - pc) XOR ?m) - pc))" using cong [OF t2] src by simp
    have "x86_dest pc m e = Some (((e - pc) XOR ?m) - pc)"
      unfolding dec [of e] if_P [OF first] dec [of "(e - pc) XOR ?m"] if_not_P [OF second] ..
    with n t2 show ?thesis by blast
  qed
  then show "\<not> msbyte (dest_byte k e)" "\<exists>s. x86_dest pc m e = Some s \<and> take_bit 25 s = take_bit 25 src"
    by blast+
qed

text \<open>On the bytes: \<open>bs\<close> are the four bytes after an opcode, \<open>m\<close> the mask there.\<close>

lemma live_mask:
  assumes "m < 8" "\<not> x86_skip m xs"
  shows "m = 0 \<or> m = 1 \<or> m = 2 \<or> m = 4"
  using assms by (auto simp: x86_skip_def x86_allowed_def nth_Cons' split: if_splits)

lemma dest_byte_le:
  assumes "length bs = 4" "k < 4"
  shows "dest_byte (8 * k + 8) (from_le_bytes bs) = bs ! k"
  using byte_of_from_le_bytes [of k bs, where 'a = 32] assms by (simp add: dest_byte_def)

lemma byte_num:
  "m \<in> {0, 1, 2, 4} \<Longrightarrow> m \<noteq> 0 \<Longrightarrow> 1 \<le> x86_bit_num ! m \<and> x86_bit_num ! m \<le> 3"
  by (auto simp: x86_bit_num_def nth_Cons')

lemma x86_convert_undo:
  fixes start :: u32 and i :: nat
  assumes "length bs = 4" "m \<in> {0, 1, 2, 4}" "msbyte (bs ! 3)"
    and live: "m \<noteq> 0 \<Longrightarrow> \<not> msbyte (bs ! (3 - x86_bit_num ! m))"
  defines "enc \<equiv> x86_encode_convert start i m bs"
  shows "length enc = 4" "msbyte (enc ! 3)" "m \<noteq> 0 \<Longrightarrow> \<not> msbyte (enc ! (3 - x86_bit_num ! m))"
    "x86_convert start i m enc = Some bs"
proof -
  let ?pc = "pc_at start i 5" and ?src = "from_le_bytes bs :: u32" and ?n = "x86_bit_num ! m"
  let ?e = "sign_extend_25 (x86_encode_dest ?pc m ?src)"
  have enc: "enc = to_le_bytes 4 ?e" by (simp add: enc_def x86_encode_convert_def)
  show len: "length enc = 4" by (simp add: enc)
  have word: "from_le_bytes enc = ?e" using from_to_le_bytes [of 4 ?e] by (simp add: enc)
  have bytes_again: "to_le_bytes 4 ?src = bs" using to_from_le_bytes [of bs, where 'a = 32] assms(1) by simp
  have t: "take_bit 25 ?e = take_bit 25 (x86_encode_dest ?pc m ?src)" by (rule take_sign_extend_25)
  have "sign_extend_25 ?e = ?e" by (rule sign_extend_25_cong [OF t])
  then show "msbyte (enc ! 3)"
    using dest_byte_le [OF len, of 3] sign_byte [of ?e] by (simp add: word dest_byte_def)
  have src: "sign_extend_25 ?src = ?src"
    using dest_byte_le [OF assms(1), of 3] sign_byte [of ?src] assms(3) by (simp add: dest_byte_def)
  have undo: "x86_convert start i m enc = Some bs" if "\<exists>s. x86_dest ?pc m ?e = Some s \<and> take_bit 25 s = take_bit 25 ?src"
    using that sign_extend_25_cong [of _ ?src] by (auto simp: x86_convert_alt word src bytes_again)
  have masked: "\<not> msbyte (enc ! (3 - ?n)) \<and> x86_convert start i m enc = Some bs" if "m \<noteq> 0"
  proof -
    have n: "1 \<le> ?n" "?n \<le> 3" using byte_num [OF assms(2) that] by blast+
    have k: "?n * 8 + (8 * (3 - ?n) + 8) = 32" "8 \<le> 8 * (3 - ?n) + 8" "8 * (3 - ?n) + 8 \<le> 24" "3 - ?n < 4"
      using n by arith+
    have "\<not> msbyte (dest_byte (8 * (3 - ?n) + 8) ?src)"
      using live [OF that] dest_byte_le [OF assms(1) k(4)] by simp
    note u = x86_dest_undo [OF that k(1-3) this t]
    show ?thesis using u(1) undo [OF u(2)] dest_byte_le [OF len k(4)] by (simp add: word)
  qed
  then show "\<not> msbyte (enc ! (3 - ?n))" if "m \<noteq> 0" using that by blast
  show "x86_convert start i m enc = Some bs"
  proof (cases "m = 0")
    case True
    then have "take_bit 25 (?e - ?pc) = take_bit 25 ?src"
      using take_25_diff [OF t, of ?pc] by (simp add: x86_encode_dest_def Let_def)
    with True show ?thesis by (intro undo) (simp add: x86_dest_no_mask)
  next
    case False
    then show ?thesis using masked by blast
  qed
qed

section \<open>x86: the buffer\<close>

text \<open>The encoder scans as the decoder does.\<close>

function x86_encode_from :: "u32 \<Rightarrow> nat \<Rightarrow> u64 \<Rightarrow> nat \<Rightarrow> bytes \<Rightarrow> bytes" where
  "x86_encode_from start i prev_pos prev_mask xs =
     (if length xs \<le> 4 then xs
      else if xs ! 0 AND 0xFE \<noteq> 0xE8 then
        xs ! 0 # x86_encode_from start (i + 1) prev_pos prev_mask (drop 1 xs)
      else
        let msk = x86_mask (x86_gap i prev_pos) prev_mask in
        if x86_skip msk xs \<or> \<not> msbyte (xs ! 4) then
          xs ! 0 # x86_encode_from start (i + 1) (of_nat i) (2 * msk + 1) (drop 1 xs)
        else
          xs ! 0 # x86_encode_convert start i msk (take 4 (drop 1 xs)) @
            x86_encode_from start (i + 5) (of_nat i) msk (drop 5 xs))"
  by pat_completeness auto
termination
  by (relation "measure (\<lambda>(start, i, prev_pos, prev_mask, xs). length xs)") auto

declare x86_encode_from.simps [simp del]

text \<open>The mask at an offset, and how a step moves it.\<close>

definition mask_at :: "nat \<Rightarrow> u64 \<Rightarrow> nat \<Rightarrow> nat" where
  "mask_at i prev_pos prev_mask = x86_mask (x86_gap i prev_pos) prev_mask"

definition in_step :: "nat \<Rightarrow> u64 \<Rightarrow> bytes \<Rightarrow> bool" where
  "in_step i prev_pos xs \<longleftrightarrow> 1 \<le> x86_gap i prev_pos \<and> x86_gap i prev_pos + length xs < 2 ^ 64"

lemma gap_next: "x86_gap i p + k < 2 ^ 64 \<Longrightarrow> x86_gap (i + k) p = x86_gap i p + k"
proof -
  assume h: "x86_gap i p + k < 2 ^ 64"
  have s: "of_nat (i + k) - p = (of_nat i - p) + (of_nat k :: u64)" by simp
  moreover have "k < 2 ^ 64" using h by simp
  then have "unat (of_nat k :: u64) = k" by (simp add: unat_of_nat take_bit_nat_eq_self)
  ultimately show ?thesis unfolding x86_gap_def s using h by (simp add: x86_gap_def unat_plus_if')
qed

lemma gap_here: "k < 2 ^ 64 \<Longrightarrow> x86_gap (i + k) (of_nat i) = k"
  by (simp add: x86_gap_def unat_of_nat take_bit_nat_eq_self)

lemma mask_next:
  assumes "in_step i p xs" "xs \<noteq> []"
  shows "mask_at (i + 1) p m = 2 * mask_at i p m mod 8"
proof -
  have "1 \<le> length xs" using assms(2) by (cases xs) simp_all
  then have "x86_gap i p + 1 < 2 ^ 64" using assms(1) unfolding in_step_def by linarith
  then have g: "x86_gap (i + 1) p = x86_gap i p + 1" "1 \<le> x86_gap i p"
    using assms(1) gap_next [of i p 1] by (simp_all add: in_step_def)
  show ?thesis
  proof (cases "3 < x86_gap i p")
    case True
    with g(1) show ?thesis by (simp add: mask_at_def x86_mask_def)
  next
    case False
    with g(2) have "x86_gap i p = 1 \<or> x86_gap i p = 2 \<or> x86_gap i p = 3" by linarith
    with g(1) show ?thesis
      by (auto simp: mask_at_def x86_mask_def mod_mult_right_eq mult.commute [of m] simp flip: mult.assoc)
  qed
qed

lemma mask_after: "mask_at (i + 1) (of_nat i) m = m mod 8" "mask_at (i + 5) (of_nat i) m = 0"
  using gap_here [of 1 i] gap_here [of 5 i] by (simp_all add: mask_at_def x86_mask_def)

lemma in_step_next:
  assumes "in_step i p xs" "xs \<noteq> []"
  shows "in_step (i + 1) p (drop 1 xs)" "in_step (i + 1) (of_nat i) (drop 1 xs)"
    "4 < length xs \<Longrightarrow> in_step (i + 5) (of_nat i) (drop 5 xs)"
  using assms gap_next [of i p 1] gap_here [of 1 i] gap_here [of 5 i]
  by (cases xs; auto simp: in_step_def)+

lemma in_step_start: "length xs < 2 ^ 63 \<Longrightarrow> in_step 0 (- 1) xs"
  by (simp add: in_step_def x86_gap_def)

lemma length_x86_encode: "length (x86_encode_from start i p m xs) = length xs"
proof (induction start i p m xs rule: x86_encode_from.induct)
  case (1 start i p m xs)
  have c: "length (x86_encode_convert start i n bs) = 4" for n bs by (simp add: x86_encode_convert_def)
  show ?case
    using 1 by (subst x86_encode_from.simps) (auto simp: Let_def c)
qed

text \<open>The three steps of the scan, each from an offset with five bytes or more left.\<close>

definition opcode :: "bytes \<Rightarrow> bool" where "opcode xs \<longleftrightarrow> xs ! 0 AND 0xFE = 0xE8"

definition converts :: "nat \<Rightarrow> bytes \<Rightarrow> bool" where
  "converts msk xs \<longleftrightarrow> \<not> x86_skip msk xs \<and> msbyte (xs ! 4)"

lemma x86_encode_step:
  "4 < length xs \<Longrightarrow> x86_encode_from start i p m xs =
    (if \<not> opcode xs then xs ! 0 # x86_encode_from start (i + 1) p m (drop 1 xs)
     else if \<not> converts (mask_at i p m) xs then
       xs ! 0 # x86_encode_from start (i + 1) (of_nat i) (2 * mask_at i p m + 1) (drop 1 xs)
     else xs ! 0 # x86_encode_convert start i (mask_at i p m) (take 4 (drop 1 xs)) @
       x86_encode_from start (i + 5) (of_nat i) (mask_at i p m) (drop 5 xs))"
  by (subst x86_encode_from.simps) (simp add: opcode_def converts_def mask_at_def Let_def)

lemma x86_decode_step:
  "4 < length xs \<Longrightarrow> x86_from start i p m xs =
    (if \<not> opcode xs then map_option ((#) (xs ! 0)) (x86_from start (i + 1) p m (drop 1 xs))
     else if \<not> converts (mask_at i p m) xs then
       map_option ((#) (xs ! 0)) (x86_from start (i + 1) (of_nat i) (2 * mask_at i p m + 1) (drop 1 xs))
     else
       (case x86_convert start i (mask_at i p m) (take 4 (drop 1 xs)) of
          None \<Rightarrow> None
        | Some disp \<Rightarrow> map_option (\<lambda>rest. xs ! 0 # disp @ rest)
            (x86_from start (i + 5) (of_nat i) (mask_at i p m) (drop 5 xs))))"
  unfolding mask_at_def by (subst x86_from.simps) (auto simp: opcode_def converts_def Let_def)

lemma x86_encode_short: "length xs \<le> 4 \<Longrightarrow> x86_encode_from start i p m xs = xs"
  by (simp add: x86_encode_from.simps)

lemma x86_encode_head: "0 < length xs \<Longrightarrow> x86_encode_from start i p m xs ! 0 = xs ! 0"
  by (cases "4 < length xs") (simp_all add: x86_encode_step x86_encode_short)

text \<open>What a conversion needs of the bytes it is done to.\<close>

lemma converts_bytes:
  assumes "4 < length xs" "converts (mask_at i p m) xs"
  defines "bs \<equiv> take 4 (drop 1 xs)" and "msk \<equiv> mask_at i p m"
  shows "length bs = 4" "msk \<in> {0, 1, 2, 4}" "msbyte (bs ! 3)" "msk \<noteq> 0 \<Longrightarrow> \<not> msbyte (bs ! (3 - x86_bit_num ! msk))"
proof -
  show "length bs = 4" using assms(1) by (simp add: bs_def)
  have "msk < 8" by (simp add: msk_def mask_at_def x86_mask_less)
  then show m: "msk \<in> {0, 1, 2, 4}" using live_mask [of msk xs] assms(2) by (auto simp: converts_def msk_def)
  show "msbyte (bs ! 3)" using assms(1,2) by (simp add: bs_def converts_def)
  assume "msk \<noteq> 0"
  with m have n: "1 \<le> x86_bit_num ! msk" "x86_bit_num ! msk \<le> 3" using byte_num by blast+
  then have "bs ! (3 - x86_bit_num ! msk) = xs ! (4 - x86_bit_num ! msk)"
    using assms(1) by (simp add: bs_def flip: Suc_diff_le)
  then show "\<not> msbyte (bs ! (3 - x86_bit_num ! msk))"
    using assms(2) \<open>msk \<noteq> 0\<close> by (simp add: converts_def x86_skip_def msk_def)
qed

text \<open>A byte an earlier opcode's test looks at keeps its answer: a bit \<open>n\<close> of the mask stands for the
  opcode \<open>n + 1\<close> bytes back, whose fourth byte is the one at \<open>3 - n\<close>.\<close>

lemma bits_of_mask:
  "bit (1 :: nat) n \<longleftrightarrow> n = 0" "bit (2 :: nat) n \<longleftrightarrow> n = 1" "bit (4 :: nat) n \<longleftrightarrow> n = 2"
  using bit_exp_iff [where 'a = nat, of 0 n] bit_exp_iff [where 'a = nat, of 1 n] bit_exp_iff [where 'a = nat, of 2 n]
  by auto

lemma single_bit:
  assumes "msk \<in> {0, 1, 2, 4 :: nat}" "bit msk n"
  shows "msk \<noteq> 0" "x86_bit_num ! msk = n + 1"
proof -
  have z: "\<not> bit (0 :: nat) n" by simp
  then show "msk \<noteq> 0" using assms(2) by metis
  have "msk = 1 \<or> msk = 2 \<or> msk = 4" using assms z by auto
  then have "msk = 1 \<and> n = 0 \<or> msk = 2 \<and> n = 1 \<or> msk = 4 \<and> n = 2"
    using assms(2) bits_of_mask [of n] by metis
  then show "x86_bit_num ! msk = n + 1" by (elim disjE) (simp_all add: x86_bit_num_def)
qed

lemma bit_step:
  fixes M :: nat
  assumes "bit M n" "n < 2"
  shows "bit (2 * M mod 8) (n + 1)" "bit ((2 * M + 1) mod 8) (n + 1)" "bit ((2 * M + 1) mod 8) 0"
proof -
  have m: "v mod 8 = take_bit 3 v" for v :: nat by (simp add: take_bit_eq_mod)
  show "bit (2 * M mod 8) (n + 1)" "bit ((2 * M + 1) mod 8) (n + 1)" "bit ((2 * M + 1) mod 8) 0"
    using assms by (simp_all only: m bit_take_bit_iff) (simp_all add: bit_Suc bit_0)
qed

lemma watched_step:
  assumes "n < 3" "3 - n < length xs" "ys ! 0 = xs ! 1"
    and "n + 1 < 3 \<Longrightarrow> msbyte (ys ! (3 - (n + 1))) = msbyte (drop 1 xs ! (3 - (n + 1)))"
  shows "msbyte ((x # ys) ! (3 - n)) = msbyte (xs ! (3 - n))"
proof (cases "n = 2")
  case True
  with assms(3) show ?thesis by simp
next
  case False
  with assms(1) have "3 - n = Suc (3 - (n + 1))" "n + 1 < 3" by linarith+
  with assms(2,4) show ?thesis by simp
qed

lemma watched_byte:
  assumes "in_step i p xs" "n < 3" "bit (mask_at i p m) n" "3 - n < length xs"
  shows "msbyte (x86_encode_from start i p m xs ! (3 - n)) = msbyte (xs ! (3 - n))"
  using assms
proof (induction xs arbitrary: i p m n rule: length_induct)
  case (1 xs)
  let ?M = "mask_at i p m"
  show ?case
  proof (cases "4 < length xs")
    case False
    then show ?thesis by (simp add: x86_encode_short)
  next
    case len: True
    then have ne: "xs \<noteq> []" "0 < length (drop 1 xs)" by auto
    note step = in_step_next [OF 1(2) ne(1)]
    have IH: "msbyte (x86_encode_from start i' p' m' (drop 1 xs) ! (3 - (n + 1))) = msbyte (drop 1 xs ! (3 - (n + 1)))"
      if "in_step i' p' (drop 1 xs)" "n + 1 < 3" "bit (mask_at i' p' m') (n + 1)" for i' p' m'
    proof -
      have "length (drop 1 xs) < length xs" "3 - (n + 1) < length (drop 1 xs)" using len by auto
      with that show ?thesis using 1(1) by blast
    qed
    have head: "x86_encode_from start i' p' m' (drop 1 xs) ! 0 = xs ! 1" for i' p' m'
      using x86_encode_head [OF ne(2)] len by simp
    note kept = watched_step [OF 1(3,5) head]
    consider (other) "\<not> opcode xs" | (skip) "opcode xs" "\<not> converts ?M xs" | (conv) "opcode xs" "converts ?M xs"
      by blast
    then show ?thesis
    proof cases
      case other
      have "bit (mask_at (i + 1) p m) (n + 1)" if "n + 1 < 3"
        using bit_step(1) [OF 1(4)] that mask_next [OF 1(2) ne(1)] by simp
      with other len show ?thesis
        by (simp only: x86_encode_step if_True simp_thms) (intro kept IH step; simp)
    next
      case skip
      have "bit (mask_at (i + 1) (of_nat i) (2 * ?M + 1)) (n + 1)" if "n + 1 < 3"
      proof -
        have "n < 2" using that by simp
        from bit_step(2) [OF 1(4) this] show ?thesis by (simp only: mask_after)
      qed
      with skip len show ?thesis
        by (simp only: x86_encode_step if_True if_False simp_thms) (intro kept IH step; simp)
    next
      case conv
      let ?bs = "take 4 (drop 1 xs)"
      note b = converts_bytes [OF len conv(2)]
      note s = single_bit [OF b(2) 1(4)]
      note u = x86_convert_undo [OF b, of start i]
      have k: "3 - n = Suc (3 - (n + 1))" "3 - (n + 1) < 4" using 1(3) by linarith+
      have "x86_encode_from start i p m xs ! (3 - n) = x86_encode_convert start i ?M ?bs ! (3 - (n + 1))"
        using len conv k u(1) by (simp add: x86_encode_step nth_append)
      moreover have "xs ! (3 - n) = ?bs ! (3 - (n + 1))" using len k by simp
      ultimately show ?thesis using u(3) b(4) s(1) by (simp add: s(2))
    qed
  qed
qed

text \<open>Both scans take the same steps.\<close>

lemma skip_kept:
  assumes "4 < length xs" "in_step i p xs"
  shows "x86_skip (mask_at i p m) (x86_encode_from start i p m xs) = x86_skip (mask_at i p m) xs"
proof (cases "mask_at i p m = 0 \<or> \<not> x86_allowed ! mask_at i p m")
  case True
  then show ?thesis by (auto simp: x86_skip_def)
next
  case False
  let ?M = "mask_at i p m"
  have M: "?M < 8" by (simp add: mask_at_def x86_mask_less)
  with False have "?M = 1 \<or> ?M = 2 \<or> ?M = 4"
    by (auto simp: x86_allowed_def nth_Cons' split: if_splits)
  then obtain n where n: "n < 3" "bit ?M n" "?M \<in> {0, 1, 2, 4}"
    using that [of 0] that [of 1] that [of 2] bits_of_mask by (elim disjE) simp_all
  have "4 - x86_bit_num ! ?M = 3 - n" using single_bit(2) [OF n(3,2)] by simp
  moreover have "3 - n < length xs" using assms(1) by simp
  ultimately show ?thesis using watched_byte [OF assms(2) n(1,2)] by (simp add: x86_skip_def)
qed

lemma x86_undo:
  assumes "in_step i p xs"
  shows "x86_from start i p m (x86_encode_from start i p m xs) = Some xs"
  using assms
proof (induction xs arbitrary: i p m rule: length_induct)
  case (1 xs)
  let ?M = "mask_at i p m" and ?e = "x86_encode_from start i p m xs"
  show ?case
  proof (cases "4 < length xs")
    case False
    then show ?thesis by (simp add: x86_encode_short x86_from.simps)
  next
    case len: True
    then have ne: "xs \<noteq> []" "0 < length xs" and xs: "xs ! 0 # drop 1 xs = xs"
      by (cases xs; simp)+
    have elen: "4 < length ?e" using len by (simp add: length_x86_encode)
    note step = in_step_next [OF 1(2) ne(1)]
    have op: "opcode ?e = opcode xs" by (simp add: opcode_def x86_encode_head [OF ne(2)])
    have sk: "x86_skip ?M ?e = x86_skip ?M xs" by (rule skip_kept [OF len 1(2)])
    have IH: "x86_from start i' p' m' (x86_encode_from start i' p' m' (drop (Suc k) xs)) = Some (drop (Suc k) xs)"
      if "in_step i' p' (drop (Suc k) xs)" for i' p' m' k
    proof -
      have "length (drop (Suc k) xs) < length xs" using ne(2) by simp
      with that show ?thesis using 1(1) by blast
    qed
    consider (other) "\<not> opcode xs" | (skip) "opcode xs" "\<not> converts ?M xs" | (conv) "opcode xs" "converts ?M xs"
      by blast
    then show ?thesis
    proof cases
      case other
      have e: "?e = xs ! 0 # x86_encode_from start (i + 1) p m (drop 1 xs)"
        using other len by (simp add: x86_encode_step)
      then have parts: "drop 1 ?e = x86_encode_from start (i + 1) p m (drop 1 xs)" "?e ! 0 = xs ! 0" by simp_all
      have "\<not> opcode ?e" using other op by simp
      then have "x86_from start i p m ?e = map_option ((#) (xs ! 0)) (Some (drop 1 xs))"
        using IH [of "i + 1" p 0 m] step(1) unfolding x86_decode_step [OF elen] parts by simp
      then show ?thesis using xs by simp
    next
      case skip
      let ?r = "x86_encode_from start (i + 1) (of_nat i) (2 * ?M + 1) (drop 1 xs)"
      have e: "?e = xs ! 0 # ?r" using skip len by (simp add: x86_encode_step)
      have "bit ((2 * ?M + 1) mod 8) 0" by (simp add: bit_0) presburger
      then have "bit (mask_at (i + 1) (of_nat i) (2 * ?M + 1)) 0" by (simp only: mask_after)
      then have "msbyte (?e ! 4) = msbyte (xs ! 4)"
        using watched_byte [OF step(2), of 0] len by (simp add: e)
      then have "\<not> converts ?M ?e" using skip(2) sk by (simp add: converts_def)
      moreover have "opcode ?e" using skip(1) op by simp
      moreover have parts: "drop 1 ?e = ?r" "?e ! 0 = xs ! 0" by (simp_all add: e)
      ultimately have "x86_from start i p m ?e = map_option ((#) (xs ! 0)) (Some (drop 1 xs))"
        using IH [of "i + 1" "of_nat i" 0 "2 * ?M + 1"] step(2) unfolding x86_decode_step [OF elen] parts by simp
      then show ?thesis using xs by simp
    next
      case conv
      let ?bs = "take 4 (drop 1 xs)" and ?r = "x86_encode_from start (i + 5) (of_nat i) ?M (drop 5 xs)"
      let ?c = "x86_encode_convert start i ?M ?bs"
      note u = x86_convert_undo [OF converts_bytes [OF len conv(2)], of start i]
      have e: "?e = xs ! 0 # ?c @ ?r" using conv len by (simp add: x86_encode_step)
      have parts: "take 4 (drop 1 ?e) = ?c" "drop 5 ?e = ?r" "?e ! 4 = ?c ! 3" "?e ! 0 = xs ! 0"
        using u(1) by (simp_all add: e nth_append)
      have "converts ?M ?e" using conv(2) sk u(2) by (simp add: converts_def parts(3))
      moreover have "x86_from start (i + 5) (of_nat i) ?M ?r = Some (drop 5 xs)"
        using IH [of "i + 5" "of_nat i" 4 ?M] step(3) [OF len] by simp
      moreover have "xs ! 0 # ?bs @ drop 5 xs = xs"
        using xs append_take_drop_id [of 4 "drop 1 xs"] by simp
      ultimately show ?thesis
        using conv(1) op u(4) parts x86_decode_step [OF elen, of start i p m] by simp
    qed
  qed
qed

end
