(* ===== verification/Bcj_Inverse.thy ===== *)
theory Bcj_Inverse
  imports Bcj_Ia64 Bcj_X86
begin

text \<open>
  The encoder of every branch converter, and that \<open>decode\<close> undoes it.
\<close>

section \<open>The encoder of a converter\<close>

fun bcj_encode :: "bcj \<Rightarrow> u32 \<Rightarrow> bytes \<Rightarrow> bytes" where
  "bcj_encode X86 start buf = x86_encode_from start 0 (- 1) 0 buf"
| "bcj_encode PowerPc start buf = map_windows 4 (powerpc_encode_window start) 0 buf"
| "bcj_encode Ia64 start buf = map_windows 16 (ia64_encode_window start) 0 buf"
| "bcj_encode Arm start buf = map_windows 4 (arm_encode_window start) 0 buf"
| "bcj_encode ArmThumb start buf = armthumb_encode_from start 0 buf"
| "bcj_encode Sparc start buf = map_windows 4 (sparc_encode_window start) 0 buf"

text \<open>The unit of an instruction, as a power of two: \<open>2 ^ alignment\<close> bytes.\<close>

fun alignment :: "bcj \<Rightarrow> nat" where
  "alignment X86 = 0" | "alignment PowerPc = 2" | "alignment Ia64 = 4" | "alignment Arm = 2"
| "alignment ArmThumb = 1" | "alignment Sparc = 2"

lemma eight: "4 dvd (8 :: u32)"
  using dvd_triv_left [of "4 :: u32" 2] by simp

lemma decode_bcj_encode:
  assumes "2 ^ alignment k dvd start" "length buf < 2 ^ 63"
  shows "decode k start (bcj_encode k start buf) = Some buf"
proof (cases k)
  case X86
  then show ?thesis using x86_undo [OF in_step_start [OF assms(2)]] by (simp add: x86_def)
next
  case PowerPc
  have "map_windows 4 (powerpc_window start) 0 (map_windows 4 (powerpc_encode_window start) 0 buf) = buf"
    by (rule map_windows_undo, rule powerpc_window_undo) (use assms(1) PowerPc in \<open>auto intro: aligned_pc\<close>)
  then show ?thesis using PowerPc by (simp add: powerpc_def)
next
  case Ia64
  have "map_windows 16 (ia64_window start) 0 (map_windows 16 (ia64_encode_window start) 0 buf) = buf"
    by (rule map_windows_undo, rule ia64_window_undo) (use assms(1) Ia64 in \<open>auto intro: aligned_pc\<close>)
  then show ?thesis using Ia64 by (simp add: ia64_def)
next
  case Arm
  have "map_windows 4 (arm_window start) 0 (map_windows 4 (arm_encode_window start) 0 buf) = buf"
    by (rule map_windows_undo, rule arm_window_undo) (use assms(1) Arm eight in \<open>auto intro: aligned_pc\<close>)
  then show ?thesis using Arm by (simp add: arm_def)
next
  case ArmThumb
  have "armthumb_from start 0 (armthumb_encode_from start 0 buf) = buf"
    by (rule armthumb_undo) (use assms(1) ArmThumb in auto)
  then show ?thesis using ArmThumb by (simp add: armthumb_def)
next
  case Sparc
  have "map_windows 4 (sparc_window start) 0 (map_windows 4 (sparc_encode_window start) 0 buf) = buf"
    by (rule map_windows_undo, rule sparc_window_undo) (use assms(1) Sparc in \<open>auto intro: aligned_pc\<close>)
  then show ?thesis using Sparc by (simp add: sparc_def)
qed

section \<open>Properties\<close>

text \<open>C38. Every branch converter of \<open>src/xz.rs\<close> undoes the encoder of its architecture on every
  block a buffer can hold, from every start offset that is a multiple of the instruction's unit: the x86
  one with its mask of recent opcodes, its second pass and its unaligned displacements, and IA-64's three
  slots in a bundle among them.\<close>

theorem converters_undo:
  assumes "2 ^ alignment k dvd start" "length buf < 2 ^ 63"
  shows "decode k start (bcj_encode k start buf) = Some buf"
  using assms by (rule decode_bcj_encode)

text \<open>A call five bytes long, whose displacement the encoder makes absolute, and an ARM one.\<close>

lemma four_le_bytes:
  "le_bytes 4 v = [of_nat (v mod 256), of_nat (v div 256 mod 256), of_nat (v div 256 div 256 mod 256),
     of_nat (v div 256 div 256 div 256 mod 256)]"
proof -
  have "le_bytes 4 v = le_bytes (Suc (Suc (Suc (Suc 0)))) v" by (simp only: numeral_nat One_nat_def)
  then show ?thesis by (simp only: le_bytes.simps)
qed

lemma x86_call_encoded: "bcj_encode X86 4096 [0xE8, 1, 0, 0, 0, 0x90] = [0xE8, 6, 16, 0, 0, 0x90]"
  by (simp add: x86_encode_from.simps x86_skip_def x86_mask_def x86_gap_def msbyte_def x86_encode_convert_def
      x86_encode_dest_def sign_extend_25_def pc_at_def from_le_bytes_def to_le_bytes_def four_le_bytes Let_def)

lemma arm_call_encoded: "bcj_encode Arm 4096 [1, 0, 0, 0xEB, 7] = [3, 4, 0, 0xEB, 7]"
  by (simp add: map_windows.simps arm_encode_window_def arm_field_def arm_bytes_def pc_at_def)

theorem converters_undo_witness:
  "decode X86 4096 [0xE8, 6, 16, 0, 0, 0x90] = Some [0xE8, 1, 0, 0, 0, 0x90] \<and>
   decode Arm 4096 [3, 4, 0, 0xEB, 7] = Some [1, 0, 0, 0xEB, 7]"
  using converters_undo [of X86 4096 "[0xE8, 1, 0, 0, 0, 0x90]"] converters_undo [of Arm 4096 "[1, 0, 0, 0xEB, 7]"]
    dvd_triv_left [of "4 :: u32" 1024]
  by (simp add: x86_call_encoded arm_call_encoded del: bcj_encode.simps decode.simps)

end
