(* ===== verification/Xz_Layout.thy ===== *)
theory Xz_Layout
  imports Xz_Stream Bcj_Inverse
begin

text \<open>
  The \<open>.xz\<close> format as its producer writes it, for what \<open>src/xz.rs\<close> reads: minimal variable-length
  integers, a block's header with its optional sizes and filter chain, and padding to words.  A block
  is a record \<open>sent\<close> of the data, the branch filter it went through, the LZMA2 payload and the choices the
  format leaves open; \<open>holds xs at ys\<close> says that a buffer has some bytes at an offset.  The parsers of
  \<open>Xz_Stream\<close> are proved to read all of it back.
\<close>

section \<open>Variable-length integers\<close>

lemma drop_is_Cons:
  assumes "drop at xs = y # ys"
  shows "at < length xs" "xs ! at = y" "drop (Suc at) xs = ys"
proof -
  show l: "at < length xs" using assms by (metis drop_eq_Nil list.distinct(1) not_le)
  show "xs ! at = y" "drop (Suc at) xs = ys" using Cons_nth_drop_Suc [OF l] assms by simp_all
qed

lemma drop_is_append:
  assumes "drop at xs = ys @ zs"
  shows "drop (at + length ys) xs = zs" "take (length ys) (drop at xs) = ys"
  using assms by (metis add.commute append_eq_conv_conj drop_drop, simp)

fun varint_bytes :: "nat \<Rightarrow> bytes" where
  "varint_bytes n =
     (if n < 128 then [of_nat n] else (of_nat (n mod 128) OR 0x80) # varint_bytes (n div 128))"

declare varint_bytes.simps [simp del]

lemma byte_masks: "(0x7F :: u8) = mask 7" "(0x80 :: u8) = push_bit 7 1"
  by (simp_all add: mask_eq_exp_minus_1)

lemma bit_0x80: "bit (0x80 :: u8) k \<longleftrightarrow> k = 7"
proof -
  have b1: "bit (1 :: u8) k \<longleftrightarrow> k = 0" for k by (simp add: bit_1_iff)
  show ?thesis unfolding byte_masks(2) by (simp only: bit_push_bit_iff b1) auto
qed

lemma small_bit: "m < 128 \<Longrightarrow> 7 \<le> k \<Longrightarrow> \<not> bit (m :: nat) k"
proof -
  assume h: "m < 128" "7 \<le> k"
  then have "take_bit 7 m = m" by (simp add: take_bit_nat_eq_self)
  then have "bit m k = bit (take_bit 7 m) k" by simp
  with h show ?thesis by (simp add: bit_take_bit_iff)
qed

lemma group_last:
  assumes "m < 128"
  shows "(of_nat m :: u8) AND 0x80 = 0" "(ucast ((of_nat m :: u8) AND 0x7F) :: u64) = of_nat m"
proof -
  show "(of_nat m :: u8) AND 0x80 = 0"
    by (rule bit_word_eqI) (simp only: bit_and_iff bit_0x80 bit_of_nat_iff, auto simp: small_bit assms)
  show "(ucast ((of_nat m :: u8) AND 0x7F) :: u64) = of_nat m"
    unfolding byte_masks
    by (rule bit_word_eqI) (auto simp: bit_simps bit_of_nat_iff not_le[symmetric] small_bit [OF assms])
qed

lemma group_more:
  assumes "m < 128"
  shows "((of_nat m :: u8) OR 0x80) AND 0x80 = 0x80" "(ucast (((of_nat m :: u8) OR 0x80) AND 0x7F) :: u64) = of_nat m"
proof -
  show "((of_nat m :: u8) OR 0x80) AND 0x80 = 0x80" by (rule bit_word_eqI) (auto simp: bit_simps)
  have "((of_nat m :: u8) OR 0x80) AND 0x7F = of_nat m AND 0x7F"
    by (rule bit_word_eqI) (simp only: bit_and_iff bit_or_iff bit_0x80 byte_masks(1) bit_mask_iff, auto)
  then show "(ucast (((of_nat m :: u8) OR 0x80) AND 0x7F) :: u64) = of_nat m"
    using group_last(2) [OF assms] by simp
qed

lemma of_nat_groups:
  "(of_nat n :: u64) = of_nat (n mod 128) OR push_bit 7 (of_nat (n div 128))"
proof -
  have s: "n mod 128 = take_bit 7 n" "n div 128 = drop_bit 7 n" by (simp_all add: take_bit_eq_mod drop_bit_eq_div)
  show ?thesis
    unfolding s by (rule bit_word_eqI) (auto simp: bit_simps bit_of_nat_iff)
qed

lemma varint_from_bytes:
  assumes "drop at buf = varint_bytes n @ rest" "n < 2 ^ (63 - 7 * i)" "i < 9" "0 < i \<Longrightarrow> 0 < n"
  shows "varint_from [i..<9] buf at v = Ok (v OR push_bit (7 * i) (of_nat n), at + length (varint_bytes n))"
  using assms
proof (induction n arbitrary: at i v rule: varint_bytes.induct)
  case (1 n)
  have up: "[i..<9] = i # [Suc i..<9]" using 1(4) by (rule upt_conv_Cons)
  show ?case
  proof (cases "n < 128")
    case True
    then have b: "varint_bytes n = [of_nat n]" by (simp add: varint_bytes.simps)
    have g: "get buf at = Some (of_nat n)"
      using drop_is_Cons [of at buf] 1(2) by (simp add: b)
    have "(of_nat n :: u8) = 0 \<longleftrightarrow> n = 0" using True by (simp add: word_of_nat_eq_0_iff) presburger
    then show ?thesis
      unfolding up b varint_from.simps g option.case Let_def
      using 1(5) group_last [OF True] True by (cases "i = 0") simp_all
  next
    case False
    let ?m = "n mod 128"
    have m: "?m < 128" by simp
    have b: "varint_bytes n = (of_nat ?m OR 0x80) # varint_bytes (n div 128)"
      using False by (simp add: varint_bytes.simps [of n])
    then have g: "get buf at = Some (of_nat ?m OR 0x80)" and d: "drop (Suc at) buf = varint_bytes (n div 128) @ rest"
      using drop_is_Cons [of at buf] 1(2) by (simp_all add: b)
    have "7 < 63 - 7 * i"
    proof (rule ccontr)
      assume "\<not> 7 < 63 - 7 * i"
      then have "(2 :: nat) ^ (63 - 7 * i) \<le> 2 ^ 7" by (intro power_increasing) simp_all
      with 1(3) False show False by simp
    qed
    then have i: "Suc i < 9" "63 - 7 * i = 7 + (63 - 7 * Suc i)" by simp_all
    have "n < 2 ^ 7 * 2 ^ (63 - 7 * Suc i)" using 1(3) unfolding i(2) power_add .
    then have n: "n div 128 < 2 ^ (63 - 7 * Suc i)" by (intro less_mult_imp_div_less) simp
    have pos: "0 < n div 128" using False by simp
    have "varint_from [i..<9] buf at v = varint_from [Suc i..<9] buf (Suc at) (v OR push_bit (7 * i) (of_nat ?m))"
      unfolding up varint_from.simps g option.case Let_def group_more [OF m] by simp
    also have "\<dots> = Ok ((v OR push_bit (7 * i) (of_nat ?m)) OR push_bit (7 * Suc i) (of_nat (n div 128)),
        Suc at + length (varint_bytes (n div 128)))"
      using 1(1) [OF False d n i(1) pos] .
    also have "(v OR push_bit (7 * i) (of_nat ?m)) OR push_bit (7 * Suc i) (of_nat (n div 128)) =
        v OR push_bit (7 * i) (of_nat n)"
      unfolding of_nat_groups [of n] by (simp add: push_bit_or or.assoc add.commute)
    finally show ?thesis by (simp add: b)
  qed
qed

lemma varint_bytes_read:
  assumes "drop at buf = varint_bytes n @ rest" "n < 2 ^ 63"
  shows "varint buf at = Ok (of_nat n, at + length (varint_bytes n))"
  using varint_from_bytes [OF assms(1), of 0 0] assms(2) by (simp add: varint_def)

lemma varint_bytes_not_nil [simp]: "varint_bytes n \<noteq> []"
  by (simp add: varint_bytes.simps)

section \<open>Bytes at an offset\<close>

definition holds :: "bytes \<Rightarrow> nat \<Rightarrow> bytes \<Rightarrow> bool" where
  "holds xs at ys \<longleftrightarrow> (\<exists>pre post. xs = pre @ ys @ post \<and> at = length pre)"

lemma holds_append: "holds xs at (ys @ zs) \<longleftrightarrow> holds xs at ys \<and> holds xs (at + length ys) zs"
proof
  assume "holds xs at (ys @ zs)"
  then obtain pre post where h: "xs = pre @ (ys @ zs) @ post" "at = length pre" by (auto simp: holds_def)
  have "xs = pre @ ys @ (zs @ post) \<and> at = length pre" "xs = (pre @ ys) @ zs @ post \<and> at + length ys = length (pre @ ys)"
    using h by simp_all
  then show "holds xs at ys \<and> holds xs (at + length ys) zs" unfolding holds_def by blast
next
  assume "holds xs at ys \<and> holds xs (at + length ys) zs"
  then obtain p q where p: "xs = p @ ys @ q" "at = length p" by (auto simp: holds_def)
  from \<open>holds xs at ys \<and> holds xs (at + length ys) zs\<close>
  obtain p' q' where q: "xs = p' @ zs @ q'" "at + length ys = length p'" by (auto simp: holds_def)
  note h = p q
  have "p' = p @ ys"
    using h by (metis append_assoc append_eq_append_conv length_append)
  with h have "xs = p @ (ys @ zs) @ q' \<and> at = length p" by simp
  then show "holds xs at (ys @ zs)" unfolding holds_def by blast
qed

lemma holds_le: "holds xs at ys \<Longrightarrow> at + length ys \<le> length xs"
  by (auto simp: holds_def)

lemma holds_drop: "holds xs at ys \<Longrightarrow> \<exists>post. drop at xs = ys @ post"
  by (auto simp: holds_def)

lemma holds_get_range: "holds xs at ys \<Longrightarrow> get_range xs at (at + length ys) = Some ys"
  by (auto simp: holds_def get_range_def)

lemma holds_get: "holds xs at (y # ys) \<Longrightarrow> get xs at = Some y"
  by (auto simp: holds_def)

lemma holds_Cons: "holds xs at (y # ys) \<longleftrightarrow> holds xs at [y] \<and> holds xs (Suc at) ys"
  using holds_append [of xs at "[y]" ys] by simp

lemma holds_self: "holds xs 0 xs"
  unfolding holds_def by (intro exI [of _ "[]"]) simp

lemma holds_skip: "holds ys at zs \<Longrightarrow> holds (xs @ ys) (length xs + at) zs"
proof -
  assume "holds ys at zs"
  then obtain p q where "ys = p @ zs @ q" "at = length p" by (auto simp: holds_def)
  then have "xs @ ys = (xs @ p) @ zs @ q \<and> length xs + at = length (xs @ p)" by simp
  then show ?thesis unfolding holds_def by blast
qed

lemma holds_part: "holds xs at ys \<Longrightarrow> holds ys k zs \<Longrightarrow> holds xs (at + k) zs"
proof -
  assume "holds xs at ys" "holds ys k zs"
  then obtain p q p' q' where "xs = p @ ys @ q" "at = length p" "ys = p' @ zs @ q'" "k = length p'"
    by (auto simp: holds_def)
  then have "xs = (p @ p') @ zs @ (q' @ q) \<and> at + k = length (p @ p')" by simp
  then show ?thesis unfolding holds_def by blast
qed

lemma varint_held:
  assumes "holds buf at (varint_bytes n)" "n < 2 ^ 63"
  shows "varint buf at = Ok (of_nat n, at + length (varint_bytes n))"
  using holds_drop [OF assms(1)] varint_bytes_read assms(2) by blast

section \<open>A block as its producer sees it\<close>

text \<open>The data, the branch filter it went through, the LZMA2 payload the result became, which of the
  two sizes the header declares, the dictionary code, and how many words of padding the header has
  beyond what it needs.\<close>

record sent =
  sent_data :: bytes
  sent_filter :: "(bcj \<times> u32) option"
  sent_payload :: bytes
  sent_sizes :: "bool \<times> bool"
  sent_dict :: u8
  sent_slack :: nat

definition sent_filtered :: "sent \<Rightarrow> bytes" where
  "sent_filtered b = (case sent_filter b of None \<Rightarrow> sent_data b | Some (k, start) \<Rightarrow> bcj_encode k start (sent_data b))"

fun bcj_id :: "bcj \<Rightarrow> nat" where
  "bcj_id X86 = 4" | "bcj_id PowerPc = 5" | "bcj_id Ia64 = 6" | "bcj_id Arm = 7" | "bcj_id ArmThumb = 8"
| "bcj_id Sparc = 9"

definition start_bytes :: "u32 \<Rightarrow> bytes" where
  "start_bytes start = (if start = 0 then [] else to_le_bytes 4 start)"

definition filter_bytes :: "nat \<Rightarrow> bytes \<Rightarrow> bytes" where
  "filter_bytes fid props = varint_bytes fid @ varint_bytes (length props) @ props"

definition chain_bytes :: "sent \<Rightarrow> bytes" where
  "chain_bytes b =
     (case sent_filter b of None \<Rightarrow> [] | Some (k, start) \<Rightarrow> filter_bytes (bcj_id k) (start_bytes start)) @
     filter_bytes 0x21 [sent_dict b]"

definition size_bytes :: "sent \<Rightarrow> bytes" where
  "size_bytes b =
     (if fst (sent_sizes b) then varint_bytes (length (sent_payload b)) else []) @
     (if snd (sent_sizes b) then varint_bytes (length (sent_filtered b)) else [])"

definition flags_of :: "bool \<Rightarrow> bool \<Rightarrow> bool \<Rightarrow> u8" where
  "flags_of f c u = (if f then 1 else 0) OR (if c then 0x40 else 0) OR (if u then 0x80 else 0)"

definition flags_byte :: "sent \<Rightarrow> u8" where
  "flags_byte b = flags_of (sent_filter b \<noteq> None) (fst (sent_sizes b)) (snd (sent_sizes b))"

definition pad_len :: "nat \<Rightarrow> nat" where "pad_len n = (4 - n mod 4) mod 4"

text \<open>The header's length in words, its check apart.\<close>

definition header_words :: "sent \<Rightarrow> nat" where
  "header_words b =
     (let n = 2 + length (size_bytes b @ chain_bytes b) in (n + pad_len n) div 4 + sent_slack b)"

definition header_covered :: "sent \<Rightarrow> bytes" where
  "header_covered b =
     (let fields = size_bytes b @ chain_bytes b in
      of_nat (header_words b) # flags_byte b # fields @ replicate (4 * header_words b - (2 + length fields)) 0)"

definition xz_header_bytes :: "codecs \<Rightarrow> sent \<Rightarrow> bytes" where
  "xz_header_bytes C b = header_covered b @ to_le_bytes 4 (cd_crc32 C (header_covered b))"

lemma pad_len_dvd [simp]: "4 dvd n + pad_len n"
proof -
  have "(n + pad_len n) mod 4 = (n mod 4 + (4 - n mod 4)) mod 4" unfolding pad_len_def by (simp only: mod_simps)
  then show ?thesis by (simp add: mod_eq_0_iff_dvd)
qed

lemma length_header_covered: "length (header_covered b) = 4 * header_words b"
proof -
  let ?n = "2 + length (size_bytes b @ chain_bytes b)"
  have "4 * ((?n + pad_len ?n) div 4) = ?n + pad_len ?n"
    using pad_len_dvd by (rule dvd_mult_div_cancel)
  then show ?thesis by (simp add: header_covered_def header_words_def Let_def)
qed

lemma length_xz_header_bytes: "length (xz_header_bytes C b) = 4 * header_words b + 4"
  by (simp add: xz_header_bytes_def length_header_covered)

lemma flags_of_facts:
  "flags_of f c u AND 0x3C = 0" "flags_of f c u AND 0x40 \<noteq> 0 \<longleftrightarrow> c" "flags_of f c u AND 0x80 \<noteq> 0 \<longleftrightarrow> u"
  "unat (flags_of f c u AND 0x03) + 1 = (if f then 2 else 1)" "flags_of f c u AND 0x03 \<noteq> 0 \<longleftrightarrow> f"
  subgoal by (cases f; cases c; cases u) (simp_all add: flags_of_def)
  subgoal by (cases f; cases c; cases u) (simp_all add: flags_of_def)
  subgoal by (cases f; cases c; cases u) (simp_all add: flags_of_def)
  subgoal by (cases f; cases c; cases u) (simp_all add: flags_of_def)
  subgoal by (cases f; cases c; cases u) (simp_all add: flags_of_def)
  done

section \<open>The chain is read back\<close>

lemma bcj_from_bcj_id: "bcj_from_id (of_nat (bcj_id k)) = Ok k"
  by (cases k) (simp_all add: bcj_from_id_def)

lemma parse_one_filter:
  assumes "holds body at (filter_bytes fid props)" "fid < 2 ^ 63" "length body < 2 ^ 63"
  shows "parse_filters body filters (ix # ixs) at conv =
    and_then (filter_step (ix + 1 = filters) (of_nat fid) props conv) (\<lambda>conv'.
      parse_filters body filters ixs (at + length (filter_bytes fid props)) conv')"
proof -
  let ?a = "at + length (varint_bytes fid)" and ?n = "length props"
  let ?b = "?a + length (varint_bytes ?n)"
  have h: "holds body at (varint_bytes fid)" "holds body ?a (varint_bytes ?n)" "holds body ?b props"
    using assms(1) by (simp_all add: filter_bytes_def holds_append add.assoc)
  have l: "?b + ?n \<le> length body" using holds_le [OF h(3)] .
  have n: "?n < 2 ^ 63" using l assms(3) by linarith
  then have u: "unat (of_nat ?n :: u64) = ?n" by (simp add: unat_of_nat take_bit_nat_eq_self)
  have "(2 :: nat) ^ 63 < 2 ^ 64" by simp
  then have "?b + ?n < 2 ^ 64" using l assms(3) by linarith
  then have c: "checked_add_usize ?b ?n = Some (?b + ?n)" by (simp add: checked_add_usize_def usize_limit_def)
  have e: "at + length (filter_bytes fid props) = ?b + ?n" by (simp add: filter_bytes_def)
  show ?thesis
    by (simp only: parse_filters.simps varint_held [OF h(1) assms(2)] varint_held [OF h(2) n] and_then.simps
        prod.case u c ok_or_simps holds_get_range [OF h(3)] e)
qed

lemma chain_read:
  assumes "holds body at (chain_bytes b)" "length body < 2 ^ 63" "sent_dict b \<le> 40"
  defines "filters \<equiv> if sent_filter b = None then 1 else 2 :: nat"
  shows "parse_filters body filters [0..<filters] at None = Ok (sent_filter b, at + length (chain_bytes b))"
proof -
  have last: "filter_step True (of_nat 0x21) [sent_dict b] conv = Ok conv" for conv
    using assms(3) by (simp add: filter_step_def FILTER_LZMA2_def)
  have lzma: "parse_filters body n [m] at' conv = Ok (conv, at' + length (filter_bytes 0x21 [sent_dict b]))"
    if "holds body at' (filter_bytes 0x21 [sent_dict b])" "m + 1 = n" for n m at' conv
    using parse_one_filter [OF that(1) _ assms(2), of n m "[]" conv] that(2) last by simp
  show ?thesis
  proof (cases "sent_filter b")
    case None
    then show ?thesis using assms(1) lzma [of at 0 1 None] by (simp add: chain_bytes_def filters_def)
  next
    case (Some f)
    obtain k start where f: "f = (k, start)" by (cases f)
    let ?fb = "filter_bytes (bcj_id k) (start_bytes start)"
    have h: "holds body at ?fb" "holds body (at + length ?fb) (filter_bytes 0x21 [sent_dict b])"
      using assms(1) by (simp_all add: chain_bytes_def Some f holds_append)
    have two: "[0..<2] = [0, Suc 0]" by (simp add: upt_rec)
    have "(of_nat (bcj_id k) :: u64) \<noteq> FILTER_LZMA2" by (cases k) (simp_all add: FILTER_LZMA2_def)
    moreover have "to_le_bytes 4 start \<noteq> []" by (metis length_to_le_bytes list.size(3) zero_neq_numeral)
    ultimately have "filter_step False (of_nat (bcj_id k)) (start_bytes start) None = Ok (Some (k, start))"
      by (simp add: filter_step_def bcj_from_bcj_id start_bytes_def)
    moreover have "bcj_id k < 2 ^ 63" by (cases k) simp_all
    ultimately have "parse_filters body 2 [0, Suc 0] at None = parse_filters body 2 [Suc 0] (at + length ?fb) (Some (k, start))"
      using parse_one_filter [OF h(1) _ assms(2), of 2 0 "[Suc 0]" None] by simp
    also have "\<dots> = Ok (Some (k, start), at + length ?fb + length (filter_bytes 0x21 [sent_dict b]))"
      by (rule lzma [OF h(2)]) simp
    finally show ?thesis by (simp add: chain_bytes_def filters_def Some f two add.assoc)
  qed
qed

text \<open>What makes a block one a producer may send: an LZMA2 payload decodes to the filtered data and says
  itself where it ends, whatever follows it.\<close>

definition lzma2_decodes :: "codecs \<Rightarrow> bytes \<Rightarrow> bytes \<Rightarrow> bool" where
  "lzma2_decodes C payload block \<longleftrightarrow>
     (\<forall>rest. \<exists>ws. cd_lzma2 C (payload @ rest) = (ws, True, length payload) \<and> concat ws = block)"

definition sent_ok :: "codecs \<Rightarrow> sent \<Rightarrow> bool" where
  "sent_ok C b \<longleftrightarrow>
     sent_dict b \<le> 40 \<and> header_words b \<le> 255 \<and> length (sent_payload b) < 2 ^ 62 \<and> length (sent_data b) < 2 ^ 63 \<and>
     (\<forall>k start. sent_filter b = Some (k, start) \<longrightarrow> 2 ^ alignment k dvd start) \<and>
     lzma2_decodes C (sent_payload b) (sent_filtered b)"

lemma length_bcj_encode:
  assumes "2 ^ alignment k dvd start" "length buf < 2 ^ 63"
  shows "length (bcj_encode k start buf) = length buf"
  using decode_bcj_encode [OF assms] decode_returns [of k start "bcj_encode k start buf"] by auto

lemma length_sent_filtered: "sent_ok C b \<Longrightarrow> length (sent_filtered b) = length (sent_data b)"
  by (auto simp: sent_filtered_def sent_ok_def length_bcj_encode split: option.splits)

lemma rd_u32_last: "rd_u32 (xs @ to_le_bytes 4 w) (length xs) = Ok w"
  by (simp add: rd_u32_def rd_le_def slice_def)

lemma opt_varint_held:
  assumes "present \<Longrightarrow> holds body at (varint_bytes n)" "n < 2 ^ 63"
  shows "opt_varint present body at =
    Ok (if present then Some (of_nat n) else None, at + length (if present then varint_bytes n else []))"
  using assms varint_held [of body at n] by (simp add: opt_varint_def)

lemma header_words_pos: "0 < header_words b"
proof -
  let ?n = "2 + length (size_bytes b @ chain_bytes b)"
  have "0 < pad_len ?n + ?n" by simp
  then have "4 \<le> ?n + pad_len ?n" using pad_len_dvd [of ?n] by (intro dvd_imp_le) simp_all
  then have "0 < (?n + pad_len ?n) div 4" by (simp only: div_greater_zero_iff zero_less_numeral simp_thms)
  then show ?thesis unfolding header_words_def Let_def by (rule trans_less_add1)
qed

lemma header_read:
  assumes "holds stream pos (xz_header_bytes C b)" "sent_ok C b"
  shows "parse_block_header C stream pos (of_nat (header_words b)) =
    Ok \<lparr>bh_len = 4 * header_words b + 4,
        bh_compressed = (if fst (sent_sizes b) then Some (of_nat (length (sent_payload b))) else None),
        bh_uncompressed = (if snd (sent_sizes b) then Some (of_nat (length (sent_data b))) else None),
        bh_filter = sent_filter b\<rparr>"
proof -
  let ?body = "header_covered b" and ?h = "xz_header_bytes C b" and ?w = "header_words b"
  let ?fields = "size_bytes b @ chain_bytes b"
  have w: "?w \<le> 255" "sent_dict b \<le> 40" using assms(2) by (simp_all add: sent_ok_def)
  have sizes: "length (sent_payload b) < 2 ^ 63" "length (sent_data b) < 2 ^ 63"
    using assms(2) by (auto simp: sent_ok_def)
  have len: "(unat (of_nat ?w :: u8) + 1) * 4 = length ?h"
    using w by (simp add: length_xz_header_bytes unat_of_nat take_bit_nat_eq_self)
  have hl: "length ?h - 4 = length ?body" by (simp add: length_xz_header_bytes length_header_covered)
  have r: "get_range stream pos (pos + length ?h) = Some ?h" by (rule holds_get_range [OF assms(1)])
  have crc: "rd_u32 ?h (length ?body) = Ok (cd_crc32 C ?body)" unfolding xz_header_bytes_def by (rule rd_u32_last)
  have body: "slice_to ?h (length ?body) = Ok ?body" by (simp add: slice_to_def xz_header_bytes_def)
  have flags: "index ?h 1 = Ok (flags_byte b)"
    by (simp add: index_def xz_header_bytes_def header_covered_def Let_def)
  have zeros: "?body = [of_nat ?w, flags_byte b] @ ?fields @ replicate (4 * ?w - (2 + length ?fields)) 0"
    by (simp add: header_covered_def Let_def)
  have "2 = length [of_nat ?w :: u8, flags_byte b]" by simp
  with zeros have "holds ?body 2 ?fields" unfolding holds_def by blast
  then have s: "holds ?body 2 (size_bytes b)" and c: "holds ?body (2 + length (size_bytes b)) (chain_bytes b)"
    by (simp_all add: holds_append)
  let ?cs = "if fst (sent_sizes b) then varint_bytes (length (sent_payload b)) else []"
  let ?us = "if snd (sent_sizes b) then varint_bytes (length (sent_data b)) else []"
  have sb: "size_bytes b = ?cs @ ?us" by (simp add: size_bytes_def length_sent_filtered [OF assms(2)])
  have s2: "holds ?body 2 ?cs" "holds ?body (2 + length ?cs) ?us" using s unfolding sb holds_append by blast+
  have v1: "opt_varint (fst (sent_sizes b)) ?body 2 =
      Ok (if fst (sent_sizes b) then Some (of_nat (length (sent_payload b))) else None, 2 + length ?cs)"
    by (rule opt_varint_held) (use s2(1) sizes in \<open>auto split: if_splits\<close>)
  have v2: "opt_varint (snd (sent_sizes b)) ?body (2 + length ?cs) =
      Ok (if snd (sent_sizes b) then Some (of_nat (length (sent_data b))) else None, 2 + length ?cs + length ?us)"
    by (rule opt_varint_held) (use s2(2) sizes in \<open>auto split: if_splits\<close>)
  have e: "2 + length ?cs + length ?us = 2 + length (size_bytes b)" by (simp add: sb)
  have "length ?body < 2 ^ 63" using w(1) by (simp add: length_header_covered)
  from chain_read [OF c this w(2)]
  have ch: "parse_filters ?body (if sent_filter b = None then 1 else 2) [0..<if sent_filter b = None then 1 else 2]
      (2 + length (size_bytes b)) None = Ok (sent_filter b, 2 + length (size_bytes b) + length (chain_bytes b))" .
  have rest: "slice_from ?body (2 + length (size_bytes b) + length (chain_bytes b)) =
      Ok (replicate (4 * ?w - (2 + length ?fields)) 0)"
    using holds_le [OF c] by (simp add: slice_from_def) (simp add: zeros)
  have nz: "\<not> list_ex (\<lambda>b. b \<noteq> 0) (replicate n (0 :: u8))" for n by (simp add: list_ex_iff)
  have f: "unat (flags_byte b AND 0x03) + 1 = (if sent_filter b = None then 1 else 2)"
    using flags_of_facts(4) [of "sent_filter b \<noteq> None"] by (simp add: flags_byte_def)
  have g: "flags_byte b AND 0x3C = 0" "(flags_byte b AND 0x40 \<noteq> 0) = fst (sent_sizes b)"
      "(flags_byte b AND 0x80 \<noteq> 0) = snd (sent_sizes b)"
    unfolding flags_byte_def by (simp_all only: flags_of_facts(1-3))
  have hl2: "length ?h = 4 * ?w + 4" by (rule length_xz_header_bytes)
  show ?thesis
    unfolding parse_block_header_def Let_def len hl
    by (simp only: r [unfolded hl2] ok_or_simps and_then.simps crc body flags g f if_False simp_thms v1 v2 prod.case e ch rest nz hl2)
qed

section \<open>Padding\<close>

lemma skip_zeros_held:
  assumes "holds buf at (replicate k 0)" "\<And>j. j < k \<Longrightarrow> (at + j - base) mod 4 \<noteq> 0" "(at + k - base) mod 4 = 0"
  shows "skip_zeros why buf base at = Ok (at + k)"
  using assms
proof (induction k arbitrary: at)
  case 0
  then show ?case by (simp add: skip_zeros.simps)
next
  case (Suc k)
  have h: "holds buf at (0 # replicate k 0)" using Suc.prems(1) by simp
  have "skip_zeros why buf base (Suc at) = Ok (Suc at + k)"
  proof (rule Suc.IH)
    show "holds buf (Suc at) (replicate k 0)" using h holds_Cons by blast
    show "(Suc at + j - base) mod 4 \<noteq> 0" if "j < k" for j using Suc.prems(2) [of "Suc j"] that by simp
    show "(Suc at + k - base) mod 4 = 0" using Suc.prems(3) by simp
  qed
  moreover have "(at - base) mod 4 \<noteq> 0" using Suc.prems(2) [of 0] by simp
  moreover have "get buf at = Some 0" by (rule holds_get [OF h])
  ultimately show ?case by (subst skip_zeros.simps) simp
qed

lemma skip_pad:
  assumes "holds buf at (replicate (pad_len n) 0)" "at = base + m" "m mod 4 = n mod 4"
  shows "skip_zeros why buf base at = Ok (at + pad_len n)"
proof (rule skip_zeros_held [OF assms(1)])
  have r: "n mod 4 < 4" by simp
  show "(at + j - base) mod 4 \<noteq> 0" if "j < pad_len n" for j
  proof -
    have "(m + j) mod 4 = (n mod 4 + j) mod 4" unfolding assms(3) [symmetric] by (simp only: mod_simps)
    also have "n mod 4 + j < 4 \<and> 0 < n mod 4" using that r unfolding pad_len_def by (cases "n mod 4 = 0") simp_all
    then have "(n mod 4 + j) mod 4 \<noteq> 0" by simp
    finally show ?thesis using assms(2) by simp
  qed
  have "(m + pad_len n) mod 4 = (n mod 4 + (4 - n mod 4)) mod 4"
    unfolding pad_len_def assms(3) [symmetric] by (simp only: mod_simps)
  then show "(at + pad_len n - base) mod 4 = 0" using r assms(2) by simp
qed

end
