(* ===== verification/Xz_Roundtrip.thy ===== *)
theory Xz_Roundtrip
  imports Xz_Layout Codec
begin

text \<open>
  A whole stream as its producer writes it: each block with its payload, padding and check, the index
  over them and the footer.  \<open>decompress\<close> gives back the data of all blocks.
\<close>

section \<open>A block\<close>

definition check_bytes :: "codecs \<Rightarrow> u8 \<Rightarrow> bytes \<Rightarrow> bytes" where
  "check_bytes C check block =
     (if check = 0x01 then to_le_bytes 4 (cd_crc32 C block)
      else if check = 0x04 then to_le_bytes 8 (crc64 block) else [])"

definition xz_block_bytes :: "codecs \<Rightarrow> u8 \<Rightarrow> sent \<Rightarrow> bytes" where
  "xz_block_bytes C check b =
     xz_header_bytes C b @ sent_payload b @ replicate (pad_len (length (sent_payload b))) 0 @
     check_bytes C check (sent_data b)"

definition unpadded_size :: "codecs \<Rightarrow> u8 \<Rightarrow> sent \<Rightarrow> nat" where
  "unpadded_size C check b =
     length (xz_header_bytes C b) + length (sent_payload b) + length (check_bytes C check (sent_data b))"

definition checks :: "u8 set" where "checks = {0x00, 0x01, 0x04}"

lemma check_len_of_bytes:
  "check \<in> checks \<Longrightarrow> check_len_of check = Ok (length (check_bytes C check block))"
  by (auto simp: checks_def check_len_of_def check_bytes_def)

lemma check_block_own: "check \<in> checks \<Longrightarrow> check_block C check block (check_bytes C check block) = Ok ()"
  by (auto simp: checks_def check_block_def check_bytes_def)

lemma converted_back:
  assumes "sent_ok C b"
  shows "convert (sent_filter b) (sent_filtered b) = Ok (sent_data b)"
proof (cases "sent_filter b")
  case None
  then show ?thesis by (simp add: convert_def sent_filtered_def)
next
  case (Some f)
  obtain k start where f: "f = (k, start)" by (cases f)
  have "2 ^ alignment k dvd start" "length (sent_data b) < 2 ^ 63"
    using assms by (simp_all add: sent_ok_def Some f)
  from decode_bcj_encode [OF this] show ?thesis by (simp add: convert_def sent_filtered_def Some f)
qed

lemma payload_decoded:
  assumes "sent_ok C b" "len + length (sent_data b) \<le> max_out"
    "bh_compressed h = (if fst (sent_sizes b) then Some (of_nat (length (sent_payload b))) else None)"
    "bh_uncompressed h = (if snd (sent_sizes b) then Some (of_nat (length (sent_data b))) else None)"
  shows "xz_decode_payload C max_out len h (sent_payload b @ rest) = Ok (sent_filtered b, length (sent_payload b))"
proof -
  have "lzma2_decodes C (sent_payload b) (sent_filtered b)" using assms(1) by (simp add: sent_ok_def)
  then obtain ws where ws: "cd_lzma2 C (sent_payload b @ rest) = (ws, True, length (sent_payload b))"
      "concat ws = sent_filtered b"
    unfolding lzma2_decodes_def by blast
  let ?sink = "\<lparr>cap_buf = [], cap_limit = saturating_add_usize (max_out - len) 1\<rparr>"
  note l = length_sent_filtered [OF assms(1)]
  have d: "length (sent_data b) < 2 ^ 63" "length (sent_payload b) < 2 ^ 62" using assms(1) by (simp_all add: sent_ok_def)
  have u: "unat (of_nat n :: u64) = n" if "n < 2 ^ 63" for n
    using that by (simp add: unat_of_nat take_bit_nat_eq_self)
  have lim: "length (sent_data b) \<le> cap_limit ?sink"
    using assms(2) d(1) by (simp add: saturating_add_usize_def usize_limit_def)
  have "fst (feed ?sink ws)" by (rule feed_takes) (use ws(2) l lim in \<open>simp add: length_concat flip: length_concat\<close>)
  then obtain s where s: "feed ?sink ws = (True, s)" by (cases "feed ?sink ws") auto
  with feed_all [OF s] ws(2) have "cap_buf s = sent_filtered b" by simp
  moreover have "unat (of_nat (length (sent_payload b)) :: u64) = length (sent_payload b)" using d(2) by (intro u) simp
  ultimately show ?thesis
    using assms(2-4) ws(1) s u [OF d(1)] l by (simp add: xz_decode_payload_def)
qed

lemma payload_found:
  assumes "stream = pre @ sent_payload b @ post" "length (sent_payload b) < 2 ^ 62"
  shows "\<exists>rest. xz_payload stream (length pre)
    (if sized then Some (of_nat (length (sent_payload b))) else None) = Ok (sent_payload b @ rest)"
proof -
  have "unat (of_nat (length (sent_payload b)) :: u64) = length (sent_payload b)"
    using assms(2) by (simp add: unat_of_nat take_bit_nat_eq_self)
  then have "xz_payload stream (length pre) (if sized then Some (of_nat (length (sent_payload b))) else None) =
      Ok (sent_payload b @ (if sized then [] else post))"
    using assms by (simp add: xz_payload_def get_from_def get_range_def)
  then show ?thesis by blast
qed

lemma block_read:
  assumes "holds stream pos (xz_block_bytes C check b)" "sent_ok C b" "check \<in> checks"
    "length out + length (sent_data b) \<le> max_out"
  shows "xz_block C max_out True check (length (check_bytes C check (sent_data b))) stream out pos
      (of_nat (header_words b)) =
    Ok (out @ sent_data b, (of_nat (unpadded_size C check b), of_nat (length (sent_data b))),
      pos + length (xz_block_bytes C check b))"
proof -
  let ?h = "xz_header_bytes C b" and ?p = "sent_payload b" and ?c = "check_bytes C check (sent_data b)"
  let ?z = "replicate (pad_len (length ?p)) (0 :: u8)"
  have hold: "holds stream pos ?h" "holds stream (pos + length ?h) ?p"
      "holds stream (pos + length ?h + length ?p) ?z" "holds stream (pos + length ?h + length ?p + pad_len (length ?p)) ?c"
    using assms(1) unfolding xz_block_bytes_def holds_append by (simp_all add: add.assoc)
  note hr = header_read [OF hold(1) assms(2)]
  have len: "length (sent_payload b) < 2 ^ 62" using assms(2) by (simp add: sent_ok_def)
  obtain pre post where "stream = pre @ ?p @ post" "pos + length ?h = length pre" using hold(2) by (auto simp: holds_def)
  with payload_found [OF this(1) len, of "fst (sent_sizes b)"]
  obtain rest where pay: "xz_payload stream (pos + length ?h)
      (if fst (sent_sizes b) then Some (of_nat (length ?p)) else None) = Ok (?p @ rest)" by auto
  let ?H = "\<lparr>bh_len = 4 * header_words b + 4,
        bh_compressed = (if fst (sent_sizes b) then Some (of_nat (length (sent_payload b))) else None),
        bh_uncompressed = (if snd (sent_sizes b) then Some (of_nat (length (sent_data b))) else None),
        bh_filter = sent_filter b\<rparr>"
  have dec: "xz_decode_payload C max_out (length out) ?H (?p @ rest) = Ok (sent_filtered b, length ?p)"
    by (rule payload_decoded [OF assms(2,4)]) simp_all
  have hl: "4 * header_words b + 4 = length ?h" by (simp add: length_xz_header_bytes)
  have "length ?h + length ?p = length ?p + 4 * (header_words b + 1)" by (simp add: length_xz_header_bytes)
  then have m4: "(length ?h + length ?p) mod 4 = length ?p mod 4" by (simp only: mod_mult_self2)
  have pad: "skip_zeros ''xz: block padding is not zero'' stream pos (pos + length ?h + length ?p) =
      Ok (pos + length ?h + length ?p + pad_len (length ?p))"
    by (rule skip_pad [OF hold(3), where m = "length ?h + length ?p"]) (use m4 in simp_all)
  have e: "pos + length (xz_block_bytes C check b) = pos + length ?h + length ?p + pad_len (length ?p) + length ?c"
    by (simp add: xz_block_bytes_def)
  show ?thesis
    unfolding xz_block_def hr and_then.simps Let_def block_header.simps
    by (simp only: hl pay dec [unfolded hl] and_then.simps prod.case pad holds_get_range [OF hold(4)] ok_or_simps simp_thms if_False
        converted_back [OF assms(2)] check_block_own [OF assms(3)] e unpadded_size_def
        length_sent_filtered [OF assms(2)])
qed

section \<open>The index and the footer\<close>

definition record_bytes :: "codecs \<Rightarrow> u8 \<Rightarrow> sent \<Rightarrow> bytes" where
  "record_bytes C check b = varint_bytes (unpadded_size C check b) @ varint_bytes (length (sent_data b))"

definition index_covered :: "codecs \<Rightarrow> u8 \<Rightarrow> sent list \<Rightarrow> bytes" where
  "index_covered C check bs =
     (let body = 0 # varint_bytes (length bs) @ concat (map (record_bytes C check) bs) in
      body @ replicate (pad_len (length body)) 0)"

definition index_bytes :: "codecs \<Rightarrow> u8 \<Rightarrow> sent list \<Rightarrow> bytes" where
  "index_bytes C check bs =
     index_covered C check bs @ to_le_bytes 4 (cd_crc32 C (index_covered C check bs))"

definition footer_bytes :: "codecs \<Rightarrow> bytes \<Rightarrow> nat \<Rightarrow> bytes" where
  "footer_bytes C flags index_len =
     (let covered = to_le_bytes 4 (of_nat (index_len div 4 - 1) :: u32) @ flags in
      to_le_bytes 4 (cd_crc32 C covered) @ covered @ [0x59, 0x5A])"

text \<open>Everything after the last block: the index, the footer, and padding in words.\<close>

definition tail_bytes :: "codecs \<Rightarrow> u8 \<Rightarrow> bytes \<Rightarrow> sent list \<Rightarrow> nat \<Rightarrow> bytes" where
  "tail_bytes C check flags bs words =
     index_bytes C check bs @ footer_bytes C flags (length (index_bytes C check bs)) @ replicate (4 * words) 0"

definition block_record :: "codecs \<Rightarrow> u8 \<Rightarrow> sent \<Rightarrow> u64 \<times> u64" where
  "block_record C check b = (of_nat (unpadded_size C check b), of_nat (length (sent_data b)))"

lemma unpadded_size_small:
  assumes "sent_ok C b"
  shows "unpadded_size C check b < 2 ^ 63"
proof -
  have "length (check_bytes C check (sent_data b)) \<le> 8" by (simp add: check_bytes_def)
  moreover have "header_words b \<le> 255" "length (sent_payload b) < 2 ^ 62" using assms by (simp_all add: sent_ok_def)
  moreover have "(2 :: nat) ^ 63 = 2 ^ 62 + 2 ^ 62" "(2000 :: nat) < 2 ^ 62" by simp_all
  ultimately show ?thesis unfolding unpadded_size_def length_xz_header_bytes by linarith
qed

lemma records_read:
  assumes "holds tail at (concat (map (record_bytes C check) bs))" "\<And>b. b \<in> set bs \<Longrightarrow> sent_ok C b"
  shows "check_records tail (map (block_record C check) bs) at =
    Ok (at + length (concat (map (record_bytes C check) bs)))"
  using assms
proof (induction bs arbitrary: at)
  case Nil
  then show ?case by simp
next
  case (Cons b bs)
  have ok: "sent_ok C b" using Cons.prems(2) by simp
  have both: "holds tail at (record_bytes C check b)"
      "holds tail (at + length (record_bytes C check b)) (concat (map (record_bytes C check) bs))"
    using Cons.prems(1) by (simp_all add: holds_append)
  have h: "holds tail at (varint_bytes (unpadded_size C check b))"
      "holds tail (at + length (varint_bytes (unpadded_size C check b))) (varint_bytes (length (sent_data b)))"
    using both(1) by (simp_all add: record_bytes_def holds_append)
  note h = h both(2)
  have d: "length (sent_data b) < 2 ^ 63" using ok by (simp add: sent_ok_def)
  have ih: "check_records tail (map (block_record C check) bs) (at + length (record_bytes C check b)) =
      Ok (at + length (record_bytes C check b) + length (concat (map (record_bytes C check) bs)))"
    using Cons.IH [OF h(3)] Cons.prems(2) by simp
  show ?case
    using ih by (simp add: block_record_def [of C check b] record_bytes_def [of C check b] add.assoc
        varint_held [OF h(1) unpadded_size_small [OF ok]] varint_held [OF h(2) d])
qed

lemma list_ex_zeros [simp]: "\<not> list_ex (\<lambda>b. b \<noteq> 0) (replicate n (0 :: u8))"
  by (simp add: list_ex_iff)

lemma to_le_from_le4: "from_le_bytes (to_le_bytes 4 (w :: u32)) = w"
  by simp

lemma small_u32: "n < 2 ^ 32 \<Longrightarrow> unat (of_nat n :: u32) = n"
  by (simp add: unat_of_nat take_bit_nat_eq_self)

lemma footer_read:
  fixes pre flags :: bytes and C :: codecs and words :: nat
  assumes "length flags = 2" "4 dvd length pre" "0 < length pre" "length pre \<le> 2 ^ 34"
  defines "tail \<equiv> pre @ footer_bytes C flags (length pre) @ replicate (4 * words) 0"
  shows "check_footer C tail (length pre) flags = Ok ()"
proof -
  let ?n = "length pre" and ?w = "of_nat (length pre div 4 - 1) :: u32"
  let ?cov = "to_le_bytes 4 ?w @ flags"
  let ?f = "footer_bytes C flags ?n"
  have f: "?f = to_le_bytes 4 (cd_crc32 C ?cov) @ ?cov @ [0x59, 0x5A]" by (simp add: footer_bytes_def Let_def)
  have len: "length ?f = 12" using assms(1) by (simp add: f)
  have r: "get_range tail ?n (?n + 12) = Some ?f"
    using len by (simp add: tail_def get_range_def)
  have parts: "slice_from ?f 10 = Ok [0x59, 0x5A]" "slice ?f 4 10 = Ok ?cov" "slice_to ?f 4 = Ok (to_le_bytes 4 (cd_crc32 C ?cov))"
      "slice ?f 8 10 = Ok flags" "rd_u32 ?f 4 = Ok ?w"
    using assms(1) by (simp_all add: f slice_from_def slice_def slice_to_def rd_u32_def rd_le_def)
  have rest: "slice_from tail (?n + 12) = Ok (replicate (4 * words) 0)"
    using len by (simp add: tail_def slice_from_def)
  obtain k where k: "?n = 4 * k" using assms(2) by (elim dvdE)
  have "0 < 4 * k" "4 * k \<le> 2 ^ 34" using assms(3,4) k by simp_all
  then have "?n div 4 - 1 < 2 ^ 32" "1 \<le> ?n div 4" "4 * (?n div 4) = ?n" using k by simp_all
  note q = this
  have u: "unat ?w = ?n div 4 - 1" using q(1) by (rule small_u32)
  have "((ucast ?w :: u64) + 1) * 4 = of_nat ((unat ?w + 1) * 4)"
    by (simp only: of_nat_mult of_nat_add of_nat_1 of_nat_numeral of_nat_unat)
  also have "(unat ?w + 1) * 4 = ?n" using q(2,3) unfolding u by simp
  finally have b: "((ucast ?w :: u64) + 1) * 4 = of_nat ?n" .
  show ?thesis
    unfolding check_footer_def
    by (simp only: r ok_or_simps and_then.simps parts rest b simp_thms if_False list_ex_zeros length_replicate
        mod_mult_self1_is_0)
qed

lemma tail_read:
  assumes "length flags = 2" "\<And>b. b \<in> set bs \<Longrightarrow> sent_ok C b" "length bs < 2 ^ 63"
    "length (index_bytes C check bs) \<le> 2 ^ 34"
  shows "check_index_and_footer C (tail_bytes C check flags bs words) (map (block_record C check) bs) flags = Ok ()"
proof -
  let ?recs = "concat (map (record_bytes C check) bs)" and ?cov = "index_covered C check bs"
  let ?body = "0 # varint_bytes (length bs) @ ?recs"
  let ?n = "length ?body"
  let ?t = "tail_bytes C check flags bs words" and ?i = "index_bytes C check bs"
  have cov: "?cov = ?body @ replicate (pad_len ?n) 0" by (simp add: index_covered_def Let_def)
  have t: "?t = ?body @ replicate (pad_len ?n) 0 @ to_le_bytes 4 (cd_crc32 C ?cov) @
      footer_bytes C flags (length ?i) @ replicate (4 * words) 0"
    by (simp add: tail_bytes_def index_bytes_def cov)
  have whole: "holds ?t 0 ([0] @ varint_bytes (length bs) @ ?recs @ replicate (pad_len ?n) 0 @ to_le_bytes 4 (cd_crc32 C ?cov))"
    unfolding t holds_def
    by (rule exI [of _ "[]"], rule exI [of _ "footer_bytes C flags (length ?i) @ replicate (4 * words) 0"]) simp
  have h: "holds ?t 1 (varint_bytes (length bs))" "holds ?t (1 + length (varint_bytes (length bs))) ?recs"
      "holds ?t ?n (replicate (pad_len ?n) 0)" "holds ?t (?n + pad_len ?n) (to_le_bytes 4 (cd_crc32 C ?cov))"
    using whole unfolding holds_append by simp_all
  have n: "1 + length (varint_bytes (length bs)) + length ?recs = ?n" by simp
  have pad: "skip_zeros ''xz: index padding is not zero'' ?t 0 ?n = Ok (?n + pad_len ?n)"
    by (rule skip_pad [OF h(3), where m = ?n]) simp_all
  have crc: "get_range ?t (?n + pad_len ?n) (?n + pad_len ?n + 4) = Some (to_le_bytes 4 (cd_crc32 C ?cov))"
    using holds_get_range [OF h(4)] by simp
  have len: "length ?cov = ?n + pad_len ?n" by (simp add: cov)
  have covered: "slice_to ?t (?n + pad_len ?n) = Ok ?cov"
    unfolding len [symmetric] by (simp add: slice_to_def tail_bytes_def index_bytes_def)
  have il: "length ?i = ?n + pad_len ?n + 4" by (simp add: index_bytes_def len)
  have d: "4 dvd length ?i" unfolding il by (rule dvd_add [OF pad_len_dvd]) simp
  have pos: "0 < length ?i" unfolding il by simp
  have foot: "check_footer C ?t (?n + pad_len ?n + 4) flags = Ok ()"
    unfolding il [symmetric] tail_bytes_def by (rule footer_read [OF assms(1) d pos assms(4)])
  show ?thesis
    unfolding check_index_and_footer_def
    by (simp only: varint_held [OF h(1) assms(3)] and_then.simps prod.case length_map simp_thms if_False
        records_read [OF h(2) assms(2)] n pad crc ok_or_simps covered foot)
qed

section \<open>The blocks in turn\<close>

definition data_length :: "sent list \<Rightarrow> nat" where
  "data_length bs = sum_list (map (\<lambda>b. length (sent_data b)) bs)"

lemma block_starts: "\<exists>more. xz_block_bytes C check b = of_nat (header_words b) # flags_byte b # more"
  by (simp add: xz_block_bytes_def xz_header_bytes_def header_covered_def Let_def)

lemma size_byte_nonzero:
  assumes "sent_ok C b"
  shows "(of_nat (header_words b) :: u8) \<noteq> 0"
proof
  assume "(of_nat (header_words b) :: u8) = 0"
  then have "unat (of_nat (header_words b) :: u8) = 0" by simp
  then have "header_words b = 0" using assms by (simp add: sent_ok_def unat_of_nat take_bit_nat_eq_self)
  then show False using header_words_pos [of b] by simp
qed

lemma blocks_read:
  assumes "check \<in> checks" "check_len_of check = Ok clen" "\<And>b. b \<in> set bs \<Longrightarrow> sent_ok C b"
    "length out + data_length bs \<le> max_out" "\<exists>more. tail = 0 # more"
    "check_index_and_footer C tail (records @ map (block_record C check) bs) flags = Ok ()"
  shows "xz_blocks C max_out True check clen flags (pre @ concat (map (xz_block_bytes C check) bs) @ tail) out records
      (length pre) = Ok (out @ concat (map sent_data bs))"
  using assms(3-6)
proof (induction bs arbitrary: pre out records)
  case Nil
  then obtain more where "tail = 0 # more" by blast
  then have "get (pre @ tail) (length pre) = Some 0" by (simp add: get_def)
  moreover have "slice_from (pre @ tail) (length pre) = Ok tail" by (simp add: slice_from_def)
  ultimately show ?case using Nil.prems(4) by (subst xz_blocks.simps) (simp del: get_eq_Some)
next
  case (Cons b bs)
  let ?B = "xz_block_bytes C check b" and ?rest = "concat (map (xz_block_bytes C check) bs) @ tail"
  let ?stream = "pre @ ?B @ ?rest"
  have ok: "sent_ok C b" using Cons.prems(1) by simp
  have l: "length out + length (sent_data b) \<le> max_out" "length (out @ sent_data b) + data_length bs \<le> max_out"
    using Cons.prems(2) by (simp_all add: data_length_def)
  have clen: "clen = length (check_bytes C check (sent_data b))"
    using check_len_of_bytes [OF assms(1), of C "sent_data b"] assms(2) by simp
  have at: "holds ?stream (length pre) ?B" unfolding holds_def by blast
  have "get ?stream (length pre) = Some (of_nat (header_words b))"
    using block_starts [of C check b] holds_get [of ?stream "length pre"] at by metis
  moreover have "xz_block C max_out True check clen ?stream out (length pre) (of_nat (header_words b)) =
      Ok (out @ sent_data b, block_record C check b, length (pre @ ?B))"
    unfolding clen block_record_def by (simp add: block_read [OF at ok assms(1) l(1)])
  moreover have "xz_blocks C max_out True check clen flags ((pre @ ?B) @ ?rest) (out @ sent_data b)
      (records @ [block_record C check b]) (length (pre @ ?B)) = Ok ((out @ sent_data b) @ concat (map sent_data bs))"
    by (rule Cons.IH) (use Cons.prems l(2) in simp_all)
  ultimately show ?case
    using size_byte_nonzero [OF ok] by (subst xz_blocks.simps) (simp del: get_eq_Some)
qed

section \<open>The stream\<close>

definition xz_stream_bytes :: "codecs \<Rightarrow> u8 \<Rightarrow> sent list \<Rightarrow> nat \<Rightarrow> bytes" where
  "xz_stream_bytes C check bs words =
     STREAM_MAGIC @ [0, check] @ to_le_bytes 4 (cd_crc32 C [0, check]) @
     concat (map (xz_block_bytes C check) bs) @ tail_bytes C check [0, check] bs words"

lemma tail_starts: "\<exists>more. tail_bytes C check flags bs words = 0 # more"
  by (simp add: tail_bytes_def index_bytes_def index_covered_def Let_def)

lemma length_concat_ge:
  assumes "\<And>x. 1 \<le> length (f x)"
  shows "length xs \<le> length (concat (map f xs))"
proof (induction xs)
  case (Cons y ys)
  then show ?case using assms [of y] by simp
qed simp

lemma index_length_ge: "length bs \<le> length (index_bytes C check bs)"
proof -
  have "length bs \<le> length (concat (map (record_bytes C check) bs))"
    by (rule length_concat_ge) (simp add: record_bytes_def Suc_le_eq)
  then show ?thesis by (simp add: index_bytes_def index_covered_def Let_def)
qed

lemma stream_read:
  assumes "\<And>b. b \<in> set bs \<Longrightarrow> sent_ok C b" "check \<in> checks" "data_length bs \<le> max_out"
    "length (index_bytes C check bs) \<le> 2 ^ 34"
  shows "xz_decompress C (xz_stream_bytes C check bs words) max_out = Ok (concat (map sent_data bs))"
proof -
  let ?pre = "STREAM_MAGIC @ [0, check] @ to_le_bytes 4 (cd_crc32 C [0, check])"
  let ?tail = "tail_bytes C check [0, check] bs words" and ?s = "xz_stream_bytes C check bs words"
  have s: "?s = ?pre @ concat (map (xz_block_bytes C check) bs) @ ?tail" by (simp add: xz_stream_bytes_def)
  have m: "length STREAM_MAGIC = 6" by (simp add: STREAM_MAGIC_def)
  have pre: "length ?pre = 12" by (simp add: m)
  have parts: "slice_to ?s 6 = Ok STREAM_MAGIC" "slice ?s 6 8 = Ok [0, check]" "rd_u32 ?s 8 = Ok (cd_crc32 C [0, check])"
    by (simp_all add: s m slice_to_def slice_def rd_u32_def rd_le_def)
  have len: "\<not> length ?s < 12" by (simp add: s m)
  obtain clen where c: "check_len_of check = Ok clen" using check_len_of_bytes [OF assms(2)] by blast
  have low: "check AND 0x0F = check" using assms(2) by (auto simp: checks_def)
  have bs: "length bs < 2 ^ 63"
    using index_length_ge [of bs C check] assms(4) by (rule order.strict_trans1 [OF order.trans]) simp
  have "check_index_and_footer C ?tail ([] @ map (block_record C check) bs) [0, check] = Ok ()"
    using tail_read [of "[0, check]" bs C check words] assms(1,4) bs by simp
  from blocks_read [OF assms(2) c assms(1) _ tail_starts this, of "[]" max_out ?pre] assms(3)
  have "xz_blocks C max_out True check clen [0, check] ?s [] [] 12 = Ok (concat (map sent_data bs))"
    by (simp add: s m)
  then show ?thesis
    by (simp add: xz_decompress_def decompress_with_def len parts index_def low c)
qed

lemma filters_seen:
  assumes "\<And>b. b \<in> set bs \<Longrightarrow> sent_ok C b"
  shows "has_filters (xz_stream_bytes C check bs words) = Ok (bs \<noteq> [] \<and> sent_filter (hd bs) \<noteq> None)"
proof -
  let ?s = "xz_stream_bytes C check bs words"
  let ?rest = "concat (map (xz_block_bytes C check) bs) @ tail_bytes C check [0, check] bs words"
  have m: "length STREAM_MAGIC = 6" by (simp add: STREAM_MAGIC_def)
  have g: "get_from ?s 12 = Some ?rest" by (simp add: xz_stream_bytes_def get_from_def m)
  have magic: "slice_to ?s 6 = Ok STREAM_MAGIC" by (simp add: xz_stream_bytes_def slice_to_def m)
  show ?thesis
  proof (cases bs)
    case Nil
    then have "get ?rest 0 = Some 0" using tail_starts [of C check "[0, check]" bs words] by (auto simp: get_def)
    then show ?thesis unfolding has_filters_def g option.case magic and_then.simps by (simp add: Nil del: get_eq_Some)
  next
    case (Cons b more)
    obtain t where "xz_block_bytes C check b = of_nat (header_words b) # flags_byte b # t" using block_starts by blast
    then have "get ?rest 0 = Some (of_nat (header_words b))" "get ?rest 1 = Some (flags_byte b)"
      by (simp_all add: get_def Cons)
    moreover have "flags_byte b AND 0x03 \<noteq> 0 \<longleftrightarrow> sent_filter b \<noteq> None"
      unfolding flags_byte_def by (rule flags_of_facts(5))
    moreover have "(of_nat (header_words b) :: u8) \<noteq> 0" using size_byte_nonzero [OF assms [of b]] Cons by simp
    ultimately show ?thesis unfolding has_filters_def g option.case magic and_then.simps by (simp add: Cons del: get_eq_Some)
  qed
qed

section \<open>Properties\<close>

text \<open>C36. A block compressed with xz and a branch filter decompresses to the data its producer had, for
  every stream laid out as the format says: any number of blocks, each through any of the six
  converters at an aligned start offset or through none, sizes declared or not, any header and stream
  padding, any check but SHA-256.  The LZMA2 payloads decode to the filtered data; the reader finds
  each part, passes every check, undoes the filters and stays within the bound it was given.\<close>

theorem filtered_stream_of_layout:
  assumes "\<And>b. b \<in> set bs \<Longrightarrow> sent_ok C b" "bs \<noteq> []" "sent_filter (hd bs) \<noteq> None" "check \<in> checks"
    "data_length bs \<le> max_out" "length (index_bytes C check bs) \<le> 2 ^ 34"
  shows "decompress C Xz (xz_stream_bytes C check bs words) max_out = Ok (concat (map sent_data bs))"
  using stream_read [OF assms(1,4,5,6)] filters_seen [of bs C, OF assms(1)] assms(2,3)
  by (simp add: decompress_def decompress_xz_def)

text \<open>Two blocks, an x86 call and three plain bytes, under a codec that stores: a payload is its length and
  its bytes.\<close>

definition stored_codecs :: codecs where
  "stored_codecs = no_codecs
     \<lparr>cd_lzma2 := (\<lambda>i. case i of
        [] \<Rightarrow> ([], False, 0)
      | n # is \<Rightarrow> if unat n \<le> length is then ([take (unat n) is], True, unat n + 1) else ([], False, 0)),
      cd_crc32 := (\<lambda>b. of_nat (length b) * 0x01020304)\<rparr>"

definition stored :: "bytes \<Rightarrow> bytes \<Rightarrow> (bcj \<times> u32) option \<Rightarrow> sent" where
  "stored xs ys f =
     \<lparr>sent_data = xs, sent_filter = f, sent_payload = of_nat (length ys) # ys, sent_sizes = (True, True),
      sent_dict = 8, sent_slack = 1\<rparr>"

lemma stored_codecs_decode:
  "length xs < 256 \<Longrightarrow> lzma2_decodes stored_codecs (of_nat (length xs) # xs) xs"
  by (simp add: lzma2_decodes_def stored_codecs_def unat_of_nat take_bit_nat_eq_self)

abbreviation "call_block \<equiv> stored [0xE8, 1, 0, 0, 0, 0x90] [0xE8, 6, 16, 0, 0, 0x90] (Some (X86, 4096))"
abbreviation "plain_block \<equiv> stored [1, 2, 3] [1, 2, 3] None"

lemma stored_blocks_ok: "sent_ok stored_codecs call_block" "sent_ok stored_codecs plain_block"
  using stored_codecs_decode [of "[0xE8, 6, 16, 0, 0, 0x90]"] stored_codecs_decode [of "[1, 2, 3]"] x86_call_encoded
  by (simp_all add: sent_ok_def header_words_def size_bytes_def chain_bytes_def filter_bytes_def start_bytes_def
      varint_bytes.simps pad_len_def Let_def
      stored_def sent_filtered_def del: bcj_encode.simps)

lemma stored_index_small: "length (index_bytes stored_codecs 1 [call_block, plain_block]) \<le> 2 ^ 34"
  by (simp add: index_bytes_def index_covered_def record_bytes_def varint_bytes.simps pad_len_def unpadded_size_def
      length_xz_header_bytes header_words_def size_bytes_def chain_bytes_def filter_bytes_def start_bytes_def check_bytes_def
      x86_call_encoded Let_def
      stored_def sent_filtered_def del: bcj_encode.simps)

theorem filtered_stream_of_layout_witness:
  "decompress stored_codecs Xz (xz_stream_bytes stored_codecs 1 [call_block, plain_block] 2) 4096 =
    Ok [0xE8, 1, 0, 0, 0, 0x90, 1, 2, 3]"
  using filtered_stream_of_layout [of "[call_block, plain_block]" stored_codecs 1 4096 2] stored_blocks_ok stored_index_small
  by (auto simp: checks_def data_length_def stored_def)

end
