(* ===== verification/Cli_Reports.thy ===== *)
theory Cli_Reports
  imports Cli_Verbs
begin

text \<open>
  The shape of what the command line reports.  \<open>json_ok\<close> is the type a report's JSON must have: every
  string and key is UTF-8 and no object has a key twice.  \<open>exact_bytes\<close> reads a name or a path back out
  of an entry, through its \<open>_hex\<close> twin where there is one.
\<close>

section \<open>Well formed text\<close>

lemma is_utf8_append: "is_utf8 xs \<Longrightarrow> is_utf8 ys \<Longrightarrow> is_utf8 (xs @ ys)"
proof (induction xs rule: is_utf8.induct)
  case (1 xs)
  show ?case
  proof (cases "xs = []")
    case False
    with 1(2) obtain n where n: "utf8_seq xs = (True, n)" "is_utf8 (drop n xs)"
      by (subst (asm) is_utf8.simps) (auto split: prod.splits bool.splits)
    have le: "n \<le> length xs" by (rule utf8_seq_within [OF n(1) False])
    have "is_utf8 (drop n xs @ ys)" using 1(1) [OF False n(1) [symmetric] refl n(2) 1(3)] .
    from is_utf8_seq [OF n(1) le _ this] False show ?thesis
      by (simp flip: append_assoc)
  qed (simp add: 1(3))
qed

lemma is_utf8_ascii: "(\<And>b. b \<in> set xs \<Longrightarrow> b < 0x80) \<Longrightarrow> is_utf8 xs"
proof (induction xs)
  case (Cons b bs)
  have "utf8_seq (b # bs) = (True, 1)" using Cons.prems by (simp add: utf8_seq_def byte_at_def)
  with Cons show ?case by (subst is_utf8.simps) simp
qed simp

lemma is_utf8_Cons: "b < 0x80 \<Longrightarrow> is_utf8 xs \<Longrightarrow> is_utf8 (b # xs)"
  using is_utf8_append [of "[b]" xs] is_utf8_ascii [of "[b]"] by simp

lemma is_utf8_text: "(\<forall>c \<in> set s. (of_char c :: u8) < 0x80) \<Longrightarrow> is_utf8 (text_of s)"
  by (rule is_utf8_ascii) (auto simp: text_of_def)

lemma digit_ascii: "d < 16 \<Longrightarrow> hex_digit d < 0x80"
proof -
  assume "d < 16"
  then have "(if d < 10 then 48 + d else 87 + d) < 128" by simp
  then show ?thesis
    unfolding hex_digit_def by (simp add: word_less_nat_alt unat_of_nat take_bit_nat_eq_self)
qed

lemma is_utf8_hex: "is_utf8 (hex bs)"
proof (rule is_utf8_ascii)
  fix b assume "b \<in> set (hex bs)"
  then obtain c :: u8 where "b = hex_digit (unat c div 16) \<or> b = hex_digit (unat c mod 16)"
    by (auto simp: hex_def)
  moreover have "unat c div 16 < 16" using unat_byte_less [of c] by simp
  ultimately show "b < 0x80" using digit_ascii by auto
qed

lemma is_utf8_hex_fixed: "is_utf8 (hex_fixed w n)"
  by (rule is_utf8_ascii) (auto simp: hex_fixed_def intro!: digit_ascii)

lemma oct_digits_ascii: "b \<in> set (oct_digits n) \<Longrightarrow> b < 0x80"
proof (induction n rule: oct_digits.induct)
  case (1 n)
  have d: "(of_nat (48 + k) :: u8) < 0x80" if "k < 8" for k
    using that by (simp only: word_less_nat_alt unat_of_nat) (simp add: take_bit_nat_eq_self)
  show ?case
    using 1 d [of n] d [of "n mod 8"] by (subst (asm) oct_digits.simps) (auto split: if_splits)
qed

lemma is_utf8_octal4: "is_utf8 (octal4 n)"
  by (rule is_utf8_ascii) (auto simp: octal4_def dest: oct_digits_ascii)

lemma dec_digits_ascii: "c \<in> set (dec_digits n) \<Longrightarrow> (of_char c :: u8) < 0x80"
proof (induction n rule: dec_digits.induct)
  case (1 n)
  have d: "(of_char (char_of (48 + k)) :: u8) < 0x80" if "k < 10" for k :: nat
  proof -
    have "(of_char (char_of (48 + k) :: char) :: nat) = 48 + k" using that by simp
    then have "(of_char (char_of (48 + k) :: char) :: u8) = of_nat (48 + k)" by (metis of_nat_of_char)
    then show ?thesis using that by (simp only: word_less_nat_alt unat_of_nat) (simp add: take_bit_nat_eq_self)
  qed
  show ?case
    using 1 d [of n] d [of "n mod 10"] by (subst (asm) dec_digits.simps) (auto split: if_splits)
qed

lemma is_utf8_digits: "is_utf8 (text_of (dec_digits n))"
  by (rule is_utf8_text) (use dec_digits_ascii in blast)

lemma is_utf8_replicate: "b < 0x80 \<Longrightarrow> is_utf8 (replicate n b)"
  by (rule is_utf8_ascii) auto

lemma is_utf8_lines: "(\<And>l. l \<in> set rows \<Longrightarrow> is_utf8 l) \<Longrightarrow> is_utf8 (join_lines rows)"
  by (induction rows rule: join_lines.induct) (auto intro!: is_utf8_append is_utf8_Cons)

section \<open>Well formed JSON\<close>

text \<open>Every string and every key is UTF-8, and no object has a key twice.\<close>

function json_ok :: "json \<Rightarrow> bool" where
  "json_ok Null = True"
| "json_ok (Bool b) = True"
| "json_ok (Num n) = True"
| "json_ok (Str s) = is_utf8 s"
| "json_ok (Arr js) = list_all json_ok js"
| "json_ok (Obj fs) = (distinct (map fst fs) \<and> list_all (\<lambda>f. is_utf8 (fst f) \<and> json_ok (snd f)) fs)"
  by pat_completeness auto
termination
proof (relation "measure size", goal_cases)
  case 1
  then show ?case by simp
next
  case (2 js j)
  then show ?case by (simp add: less_Suc_eq_le size_list_estimation')
next
  case (3 fs f)
  then have "size_prod (\<lambda>_. 0) size f \<le> size_list (size_prod (\<lambda>_. 0) size) fs"
    by (rule size_list_estimation') simp
  then show ?case by (cases f) simp
qed

section \<open>Reports are well formed\<close>

lemma named_ok:
  "list_all (\<lambda>f. is_utf8 (fst f) \<and> json_ok (snd f)) (named key b)"
  if "\<forall>c \<in> set key. (of_char c :: u8) < 0x80"
  using that is_utf8_text [of key] is_utf8_text [of "key @ ''_hex''"]
  by (simp add: named_def show_bytes_def is_utf8_lossy is_utf8_hex)

text \<open>Keys are literals: an object's are distinct when the strings are.\<close>

definition keys_of :: "string list \<Rightarrow> (utf8 \<times> json) list \<Rightarrow> bool" where
  "keys_of ks fs \<longleftrightarrow> (\<exists>ms. set ms \<subseteq> set ks \<and> distinct ms \<and> map fst fs = map text_of ms)"

lemma keys_of_distinct:
  assumes "keys_of ks fs"
  shows "distinct (map fst fs)"
proof -
  obtain ms where "distinct ms" "map fst fs = map text_of ms" using assms by (auto simp: keys_of_def)
  then show ?thesis by (simp only: distinct_map inj_on_def text_of_inject) simp
qed

lemma keys_of_append:
  assumes "keys_of ks fs" "keys_of ms gs" "set ks \<inter> set ms = {}"
  shows "keys_of (ks @ ms) (fs @ gs)"
proof -
  from assms(1) obtain as where a: "set as \<subseteq> set ks" "distinct as" "map fst fs = map text_of as"
    by (auto simp: keys_of_def)
  from assms(2) obtain bs where b: "set bs \<subseteq> set ms" "distinct bs" "map fst gs = map text_of bs"
    by (auto simp: keys_of_def)
  show ?thesis unfolding keys_of_def by (rule exI [of _ "as @ bs"]) (use a b assms(3) in auto)
qed

lemma keys_of_list: "distinct ks \<Longrightarrow> map fst fs = map text_of ks \<Longrightarrow> keys_of ks fs"
  by (auto simp: keys_of_def)

lemma keys_of_named: "keys_of [key, key @ ''_hex''] (named key b)"
  unfolding keys_of_def named_def
  by (cases "is_utf8 b", rule_tac [!] exI [of _ "if is_utf8 b then [key] else [key, key @ ''_hex'']"]) auto

lemma keys_of_kind: "keys_of [''target'', ''major'', ''minor''] (kind_fields i)"
proof -
  have "keys_of [''target'', ''major'', ''minor''] []" "keys_of [''target'', ''major'', ''minor''] [(text_of ''target'', v)]"
      "keys_of [''target'', ''major'', ''minor''] [(text_of ''major'', v), (text_of ''minor'', w)]" for v w
    unfolding keys_of_def
    by (rule exI [of _ "[]"], simp, rule exI [of _ "[''target'']"], simp, rule exI [of _ "[''major'', ''minor'']"], simp)
  then show ?thesis by (cases "file_type_of i") (simp_all add: kind_fields_def)
qed

lemma type_name_ok: "is_utf8 (text_of (type_name t))"
  by (rule is_utf8_text) (cases t; simp)

lemma kind_fields_ok: "list_all (\<lambda>f. is_utf8 (fst f) \<and> json_ok (snd f)) (kind_fields i)"
  by (cases "file_type_of i") (simp_all add: kind_fields_def is_utf8_text show_bytes_def is_utf8_lossy)

lemma mode_ok: "json_ok (mode_json i)"
  by (simp add: mode_json_def is_utf8_octal4)

lemma entry_fields_ok: "list_all (\<lambda>f. is_utf8 (fst f) \<and> json_ok (snd f)) (entry_fields name i)"
  by (simp add: entry_fields_def named_ok kind_fields_ok is_utf8_text type_name_ok mode_ok)

abbreviation "entry_keys \<equiv>
  [''name'', ''name'' @ ''_hex''] @ [''type'', ''size'', ''mode'', ''mtime'', ''inode''] @ [''target'', ''major'', ''minor'']"

lemma entry_fields_keys: "keys_of entry_keys (entry_fields name i)"
  unfolding entry_fields_def
  by (intro keys_of_append keys_of_named keys_of_kind keys_of_list) simp_all

lemma entry_well_formed: "json_ok (entry name i)"
  using keys_of_distinct [OF entry_fields_keys] entry_fields_ok by (simp add: entry_def)

lemma recursive_entry_ok: "json_ok (recursive_entry path depth i revisited)"
proof -
  let ?r = "if revisited then [(text_of ''revisited'', Bool True)] else []"
  have "keys_of [''revisited''] ?r"
    unfolding keys_of_def by (rule exI [of _ "if revisited then [''revisited''] else []"]) simp
  moreover have "keys_of [''depth''] [(text_of ''depth'', Num (uint depth))]" by (rule keys_of_list) simp_all
  ultimately have "keys_of (entry_keys @ [''path'', ''path'' @ ''_hex''] @ [''depth''] @ [''revisited''])
      (entry_fields (last (split_slash path)) i @ named ''path'' path @ [(text_of ''depth'', Num (uint depth))] @ ?r)"
    by (intro keys_of_append entry_fields_keys keys_of_named) simp_all
  from keys_of_distinct [OF this] show ?thesis
    by (simp add: recursive_entry_def entry_fields_ok named_ok is_utf8_text)
qed

lemma stat_ok: "json_ok (Obj (stat_fields path i uid gid))"
proof -
  have "keys_of ([''path'', ''path'' @ ''_hex''] @
      [''inode'', ''type'', ''mode'', ''uid'', ''gid'', ''nlink'', ''size'', ''allocated_bytes'', ''atime'',
       ''atime_nsec'', ''mtime'', ''mtime_nsec'', ''ctime'', ''ctime_nsec'', ''btime'', ''btime_nsec''] @
      [''target'', ''major'', ''minor''] @ [''squashfs'']) (stat_fields path i uid gid)"
    unfolding stat_fields_def by (intro keys_of_append keys_of_named keys_of_kind keys_of_list) simp_all
  from keys_of_distinct [OF this] show ?thesis
    by (simp add: stat_fields_def named_ok kind_fields_ok is_utf8_text type_name_ok mode_ok json_option_def)
qed

lemma xattr_entry_ok: "json_ok (xattr_entry_json a)"
proof -
  have "keys_of ([''name'', ''name'' @ ''_hex''] @ [''size'']) (named ''name'' (xe_name a) @ [(text_of ''size'', v)])" for v
    by (intro keys_of_append keys_of_named keys_of_list) simp_all
  from keys_of_distinct [OF this] show ?thesis by (simp add: xattr_entry_json_def named_ok is_utf8_text)
qed

lemma flag_names_ok: "json_ok (flag_names w)"
proof -
  have "\<forall>(b, n) \<in> set FLAGS. is_utf8 (text_of n)" by (simp add: FLAGS_def is_utf8_text)
  then show ?thesis
    by (auto simp: flag_names_def Let_def list_all_iff is_utf8_append is_utf8_text is_utf8_hex_fixed)
qed

lemma envelope_ok: "json_ok (envelope fs)"
proof -
  have c: "is_utf8 (text_of (compressor_name (fs_comp fs)))"
    by (rule is_utf8_text) (cases "fs_comp fs"; simp)
  have v: "is_utf8 (text_of (dec_digits m @ ''.'' @ dec_digits n))" for m n
    by (rule is_utf8_text) (auto dest: dec_digits_ascii)
  show ?thesis
    by (simp add: envelope_def Let_def c v [simplified] flag_names_ok is_utf8_text)
qed

section \<open>Every verb's report\<close>

text \<open>\<open>Json::to_text\<close> shows a well formed value in well formed text.\<close>

definition shows_text :: "tool \<Rightarrow> bool" where
  "shows_text T \<longleftrightarrow> (\<forall>v. json_ok v \<longrightarrow> is_utf8 (tl_text T v))"

definition report_ok :: "outcome \<Rightarrow> bool" where
  "report_ok out =
     (case out of Report j t \<Rightarrow> json_ok j \<and> (case t of None \<Rightarrow> True | Some l \<Rightarrow> is_utf8 l) | Finished \<Rightarrow> True)"

text \<open>What a step's success tells of its value, from whatever state.\<close>

definition yields :: "('a \<Rightarrow> bool) \<Rightarrow> ('s, 'a) cli \<Rightarrow> bool" where
  "yields P m \<longleftrightarrow> (\<forall>s v s'. m s = (Ok (Inr v), s') \<longrightarrow> P v)"

named_theorems yields_intros

lemma yields_ok [yields_intros]: "P v \<Longrightarrow> yields P (ok_cli v)"
  by (simp add: yields_def ok_cli_def ret_s_def)

lemma yields_err [yields_intros]: "yields P (err_cli e)"
  by (simp add: yields_def err_cli_def ret_s_def)

lemma yields_bind:
  assumes "yields P m" "\<And>v. P v \<Longrightarrow> yields Q (k v)"
  shows "yields Q (bind_c m k)"
  unfolding yields_def
proof (intro allI impI)
  fix s v s' assume h: "bind_c m k s = (Ok (Inr v), s')"
  obtain r t where m: "m s = (r, t)" by fastforce
  with h obtain u where "r = Ok (Inr u)"
    by (cases r; cases "projr r") (auto simp: bind_c_def bind_s_def err_cli_def ret_s_def)
  with h m have "k u t = (Ok (Inr v), s')" "P u"
    using assms(1) by (auto simp: bind_c_def bind_s_def yields_def)
  with assms(2) show "Q v" by (auto simp: yields_def)
qed

lemma yields_then [yields_intros]: "(\<And>v. yields Q (k v)) \<Longrightarrow> yields Q (bind_c m k)"
  using yields_bind [of "\<lambda>_. True" m Q k] by (simp add: yields_def [of "\<lambda>_. True"])

lemma yields_bind_s [yields_intros]: "(\<And>v. yields Q (k v)) \<Longrightarrow> yields Q (bind_s m k)"
  by (auto simp: yields_def bind_s_def split: prod.splits sum.splits)

lemma yields_on_caches [yields_intros]: "yields P m \<Longrightarrow> yields P (on_caches m)"
  by (auto simp: yields_def on_caches_def split: prod.splits)

lemma yields_ret [yields_intros]: "(\<And>v. r = Inr v \<Longrightarrow> P v) \<Longrightarrow> yields P (ret_s r)"
  by (simp add: yields_def ret_s_def)

lemma field_ok:
  assumes "tool_ok T" "json_ok v" "tl_get T v k = Some w"
  shows "json_ok w"
proof -
  obtain fs where fs: "v = Obj fs" using assms(1,3) by (cases v) (auto simp: tool_ok_def)
  with assms have "(k, w) \<in> set fs" by (auto simp: tool_ok_def dest: map_of_SomeD)
  with assms(2) fs show ?thesis by (auto simp: list_all_iff)
qed

lemma pad_left12_ok: "is_utf8 t \<Longrightarrow> is_utf8 (pad_left12 t)"
  unfolding pad_left12_def by (rule is_utf8_append [OF is_utf8_replicate]) simp_all

lemma type_char_ok: "is_utf8 (type_char t)"
  by (auto simp: type_char_def intro!: is_utf8_text)

lemma entry_text_ok:
  assumes "tool_ok T" "shows_text T" "json_ok e"
  shows "is_utf8 (entry_text T e)"
proof -
  have f: "is_utf8 (tl_text T v)" if "tl_get T e k = Some v" for k v
    using field_ok [OF assms(1,3) that] assms(2) by (simp add: shows_text_def)
  then have g: "is_utf8 (case tl_get T e k of None \<Rightarrow> d | Some v \<Rightarrow> tl_text T v)" if "is_utf8 d" for k d
    using that by (cases "tl_get T e k") auto
  have sp: "is_utf8 [0x20]" by (rule is_utf8_ascii) simp
  have t: "is_utf8 (text_of '' -> '')" "is_utf8 (text_of '' [revisited]'')" by (rule is_utf8_text; simp)+
  show ?thesis
    unfolding entry_text_def Let_def
    by (intro is_utf8_append type_char_ok pad_left12_ok g is_utf8_Nil sp)
      (auto simp: t is_utf8_append f split: option.split intro!: g)
qed

lemma listing_report_ok:
  assumes "tool_ok T" "shows_text T" "list_all json_ok es"
  shows "report_ok (listing_report T es)"
proof -
  have "is_utf8 (join_lines (map (entry_text T) es))"
    by (rule is_utf8_lines) (use assms in \<open>auto simp: list_all_iff intro: entry_text_ok\<close>)
  with assms(3) show ?thesis by (simp add: report_ok_def listing_report_def)
qed

lemma list_children_ok: "yields (list_all json_ok) (list_children W fs path ds)"
proof (induction ds)
  case Nil
  then show ?case by (simp add: yields_ok)
next
  case (Cons d ds)
  then show ?case
    by (auto intro!: yields_then yields_ok yields_bind [OF Cons] entry_well_formed)
qed

lemma ls_ok: "tool_ok T \<Longrightarrow> shows_text T \<Longrightarrow> yields report_ok (ls W T fs path)"
  unfolding ls_def
  by (rule yields_then, rule yields_bind [where P = "list_all json_ok"])
    (auto intro!: yields_intros list_children_ok entry_well_formed listing_report_ok)

section \<open>The recursive listing's report\<close>

abbreviation entries_ok :: "'s \<times> tour \<Rightarrow> bool" where
  "entries_ok st \<equiv> list_all json_ok (to_entries (snd st))"

lemma tour_child_entries:
  assumes "tour_child W fs md lim parent pd child st = (r, st')" "entries_ok st"
  shows "entries_ok st'"
proof -
  have l: "snd (snd (on_left m st)) = snd st" for m :: "(('a, 'b) caches, 'd) sm" and st :: "('a, 'b) caches \<times> tour"
    by (rule on_left_snd)
  show ?thesis
    using assms
    by (auto simp: tour_child_def Let_def bind_c_def bind_s_def read_s_def on_left_def on_right_def err_cli_def
        ok_cli_def ret_s_def recursive_entry_ok split: if_splits prod.splits sum.splits)
qed

lemma tour_step_entries:
  assumes "tour_step W fs md lim st = (r, st')" "entries_ok st"
  shows "entries_ok st'"
proof (cases "to_stack (snd st)")
  case Nil
  with assms show ?thesis by (simp add: tour_step_def ok_cli_def ret_s_def)
next
  case (Cons f rest)
  obtain parent pd cs where f: "f = (parent, pd, cs)" by (cases f)
  show ?thesis
  proof (cases cs)
    case Nil
    with assms Cons f show ?thesis
      by (auto simp: tour_step_def bind_s_def on_right_def ok_cli_def ret_s_def)
  next
    case later: (Cons child later)
    with assms(1) Cons f have "tour_child W fs md lim parent pd child
        (fst st, (snd st)\<lparr>to_stack := (parent, pd, later) # rest\<rparr>) = (r, st')"
      by (simp add: tour_step_def bind_s_def on_right_def)
    from tour_child_entries [OF this] assms(2) show ?thesis by simp
  qed
qed

lemma tour_loop_entries:
  "entries_ok st \<Longrightarrow> entries_ok (snd (tour_loop W fs md lim st))"
proof (induction W fs md lim st rule: tour_loop.induct)
  case (1 W fs md lim st)
  obtain r st' where s: "tour_step W fs md lim st = (r, st')" by (rule prod.exhaust)
  have "entries_ok st'" by (rule tour_step_entries [OF s 1(2)])
  with 1 s show ?case
    by (subst tour_loop.simps) (auto simp: ok_cli_def err_cli_def ret_s_def split: sum.splits)
qed

lemma survey_entries:
  assumes "survey W fs md lim full i c = (Ok (es, e), c')"
  shows "list_all json_ok es"
proof (cases "is_dir i")
  case False
  with assms show ?thesis by (auto simp: survey_def recursive_entry_ok split: if_splits)
next
  case True
  obtain q d where ch: "children W fs i full c = (q, d)" by fastforce
  let ?t = "\<lambda>first. (d, \<lparr>to_visited = {in_number i}, to_stack = [(full, 0, first)], to_entries = []\<rparr>)"
  have "entries_ok (snd (tour_loop W fs md lim (?t first)))" for first by (rule tour_loop_entries) simp
  with assms True ch show ?thesis
    by (auto simp: survey_def split: sum.splits prod.splits) (metis snd_conv)+
qed

lemma ls_recursive_ok:
  assumes "tool_ok T" "shows_text T"
  shows "yields report_ok (ls_recursive W T fs path md lim)"
  unfolding ls_recursive_def
proof (rule yields_then)
  fix i
  let ?k = "\<lambda>r. case r of (es, res) \<Rightarrow> let report = listing_report T es in
      (case res of None \<Rightarrow> ok_cli report
      | Some e \<Rightarrow> bind_c (or_failed (text_of ''write'') (write_all T Stdout (tl_render T report))) (\<lambda>_. err_cli e))"
  show "yields report_ok (bind_s (on_caches (survey W fs md lim (full_path path) i)) ?k)"
    unfolding yields_def
  proof (intro allI impI)
    fix s v s' assume h: "bind_s (on_caches (survey W fs md lim (full_path path) i)) ?k s = (Ok (Inr v), s')"
    obtain r c where sv: "survey W fs md lim (full_path path) i (pr_caches s) = (r, c)" by fastforce
    with h obtain es res where r: "r = Ok (es, res)" by (cases r) (auto simp: bind_s_def on_caches_def)
    have "report_ok (listing_report T es)"
      by (rule listing_report_ok [OF assms survey_entries [OF sv [unfolded r]]])
    then have "yields report_ok (?k (es, res))" by (auto simp: Let_def intro!: yields_intros split: option.split)
    moreover have "?k (es, res) (s\<lparr>pr_caches := c\<rparr>) = (Ok (Inr v), s')"
      using h sv r by (simp add: bind_s_def on_caches_def)
    ultimately show "report_ok v" unfolding yields_def by blast
  qed
qed

section \<open>The other verbs\<close>

lemma stat_verb_ok: "yields report_ok (stat_verb W fs path)"
  unfolding stat_verb_def by (intro yields_intros) (simp add: report_ok_def stat_ok del: json_ok.simps)

lemma read_verb_ok: "yields report_ok (read_verb W T fs path file)"
proof -
  have f: "report_ok Finished" by (simp add: report_ok_def)
  show ?thesis
    unfolding read_verb_def
    by (auto simp: Let_def f intro!: yields_intros split: file_type.split option.split sum.split)
qed

lemma xattr_line_ok: "is_utf8 (xattr_line a)"
  unfolding xattr_line_def
  by (intro is_utf8_append is_utf8_Cons is_utf8_digits) (simp_all add: show_bytes_def is_utf8_lossy)

lemma xattr_verb_ok: "yields report_ok (xattr_verb W T fs path name file)"
proof -
  have f: "report_ok Finished" by (simp add: report_ok_def)
  have "is_utf8 (join_lines (map xattr_line as))" for as
    by (rule is_utf8_lines) (auto simp: xattr_line_ok)
  then have r: "report_ok (Report (Arr (map xattr_entry_json as)) (Some (join_lines (map xattr_line as))))" for as
    by (simp add: report_ok_def list_all_iff xattr_entry_ok)
  show ?thesis
    unfolding xattr_verb_def
    by (auto simp: Let_def f r intro!: yields_intros split: option.split)
qed

lemma value_at_ok:
  assumes "tool_ok T" "json_ok v" "value_at T v key = Some w"
  shows "json_ok w"
proof -
  have "json_ok w" if "json_ok v" "foldl (\<lambda>v part. case v of None \<Rightarrow> None | Some v \<Rightarrow> tl_get T v part) (Some v) ks = Some w" for ks v
    using that
  proof (induction ks arbitrary: v)
    case Nil
    then show ?case by simp
  next
    case (Cons k ks)
    have none: "foldl (\<lambda>v part. case v of None \<Rightarrow> None | Some v \<Rightarrow> tl_get T v part) None ks = None" for ks
      by (induction ks) simp_all
    with Cons show ?case using field_ok [OF assms(1) Cons.prems(1)] by (cases "tl_get T v k") auto
  qed
  with assms(2,3) show ?thesis unfolding value_at_def by blast
qed

lemma get_verb_ok:
  assumes "tool_ok T" "shows_text T" "\<And>k. key = Some k \<Longrightarrow> is_utf8 k"
  shows "get_verb T fs key = Inr out \<Longrightarrow> report_ok out"
  using assms(2,3) value_at_ok [OF assms(1) envelope_ok]
  by (auto simp: get_verb_def Let_def report_ok_def envelope_ok shows_text_def split: option.splits)

lemma run_report_ok:
  assumes "tool_ok T" "shows_text T" "\<And>k. ar_key a = Some k \<Longrightarrow> is_utf8 k" "ar_verb a \<noteq> ''export''"
  shows "yields report_ok (run W T X a)"
proof -
  have p: "yields report_ok (lift_s Panics)" by (simp add: yields_def lift_s_def)
  have g: "yields report_ok (ret_s (get_verb T fs (ar_key a)))" for fs
    by (rule yields_ret) (use get_verb_ok [OF assms(1-3)] in blast)
  show ?thesis
    using assms(4) unfolding run_def Let_def
    by (auto intro!: yields_intros p g ls_ok ls_recursive_ok stat_verb_ok read_verb_ok xattr_verb_ok assms(1,2))
qed

section \<open>Exact bytes\<close>

definition nibble :: "u8 \<Rightarrow> nat" where
  "nibble d = (if unat d < 58 then unat d - 48 else unat d - 87)"

fun bytes_of_hex :: "utf8 \<Rightarrow> bytes" where
  "bytes_of_hex (a # b # rest) = of_nat (16 * nibble a + nibble b) # bytes_of_hex rest"
| "bytes_of_hex rest = []"

lemma nibble_digit: "d < 16 \<Longrightarrow> nibble (hex_digit d) = d"
proof -
  assume d: "d < 16"
  then have "unat (hex_digit d) = (if d < 10 then 48 + d else 87 + d)"
    unfolding hex_digit_def by (simp only: unat_of_nat) (simp add: take_bit_nat_eq_self)
  with d show ?thesis by (simp add: nibble_def)
qed

lemma bytes_of_hex_hex: "bytes_of_hex (hex bs) = bs"
proof (induction bs)
  case Nil
  then show ?case by (simp add: hex_def)
next
  case (Cons b bs)
  have "unat b div 16 < 16" using unat_byte_less [of b] by simp
  then have "(of_nat (16 * nibble (hex_digit (unat b div 16)) + nibble (hex_digit (unat b mod 16))) :: u8) = b"
    by (simp add: nibble_digit del: of_nat_add of_nat_mult)
  moreover have "hex (b # bs) = hex_digit (unat b div 16) # hex_digit (unat b mod 16) # hex bs" by (simp add: hex_def)
  ultimately show ?case using Cons by simp
qed

text \<open>What a script reads the bytes under a key back with.\<close>

definition exact_bytes :: "string \<Rightarrow> json \<Rightarrow> bytes option" where
  "exact_bytes key e =
     (case json_field (key @ ''_hex'') e of
        Some (Str h) \<Rightarrow> Some (bytes_of_hex h)
      | _ \<Rightarrow> (case json_field key e of Some (Str s) \<Rightarrow> Some s | _ \<Rightarrow> None))"

lemma exact_named:
  assumes "map_of fs (text_of (key @ ''_hex'')) = None" "map_of fs (text_of key) = None"
    "map_of gs (text_of (key @ ''_hex'')) = None"
  shows "exact_bytes key (Obj (fs @ named key b @ gs)) = Some b"
  using assms by (auto simp: exact_bytes_def json_field_def named_def bytes_of_hex_hex show_bytes_def lossy_id split: option.split)

lemma exact_entry: "exact_bytes ''name'' (entry name i) = Some name"
  using exact_named [of "[]" "''name''"] by (simp add: entry_def entry_fields_def kind_fields_def split: file_type.split)

lemma exact_xattr: "exact_bytes ''name'' (xattr_entry_json a) = Some (xe_name a)"
  using exact_named [of "[]" "''name''"] by (simp add: xattr_entry_json_def)

lemma exact_stat: "exact_bytes ''path'' (Obj (stat_fields path i uid gid)) = Some path"
  using exact_named [of "[]" "''path''"] by (simp add: stat_fields_def kind_fields_def split: file_type.split)

lemma exact_recursive:
  "exact_bytes ''path'' (recursive_entry path d i r) = Some path"
  "exact_bytes ''name'' (recursive_entry path d i r) = Some (last (split_slash path))"
  using exact_named [of "entry_fields (last (split_slash path)) i" "''path''"] exact_named [of "[]" "''name''"]
  by (simp_all add: recursive_entry_def entry_fields_def kind_fields_def named_def split: file_type.split)

section \<open>Properties\<close>

text \<open>C25. Whatever bytes an image's names, targets and attributes are, what a verb reports is well typed:
  every string and every key of the JSON is UTF-8, no object has a key twice, and the text shown
  with \<open>--text\<close> is UTF-8.  This holds for \<open>ls\<close>, recursive or not, \<open>stat\<close>, \<open>read\<close>, \<open>xattr\<close>, \<open>get\<close> and \<open>info\<close>,
  from every state and for every image.\<close>

theorem reports_well_formed:
  assumes "tool_ok T" "shows_text T" "\<And>k. ar_key a = Some k \<Longrightarrow> is_utf8 k" "ar_verb a \<noteq> ''export''"
    and "run W T X a s = (Ok (Inr (Report j t)), s')"
  shows "json_ok j \<and> (\<forall>l. t = Some l \<longrightarrow> is_utf8 l)"
proof -
  have "yields report_ok (run W T X a)" by (rule run_report_ok) (use assms(1-4) in simp_all)
  with assms(5) have "report_ok (Report j t)" unfolding yields_def by blast
  then show ?thesis by (auto simp: report_ok_def)
qed

definition sample_get :: args where
  "sample_get = sample_args\<lparr>ar_verb := ''get'', ar_key := Some (text_of ''fs'')\<rparr>"

lemma sample_open_cached:
  "open_with_cache sample_world (mem_device sample_image) n =
    open_with_cache sample_world (mem_device sample_image) 0"
proof -
  have "w_caching_device sample_world dev bs n = dev" for dev bs by (simp add: sample_world_def)
  then show ?thesis by (simp add: open_with_cache_def image_read_superblock)
qed

lemma sample_get_runs:
  "run sample_world sample_tool sample_exporter sample_get sample_proc =
    (Ok (Inr (Report (Obj [(text_of ''fs'', Str (text_of ''squashfs''))]) (Some []))), sample_proc)"
proof -
  have o: "open_target sample_world sample_tool [0x69] 0 sample_proc = (Ok (Inr sample_fs), sample_proc)"
    using sample_open sample_open_cached [of DEFAULT_CACHE_BLOCKS]
    by (simp add: open_target_def open_image_def sample_tool_def ok_cli_def ret_s_def)
  have "0x2E \<notin> set (text_of ''fs'')" by (simp add: text_of_def)
  from value_at_plain [OF sample_tool_ok(1) this]
  have "get_verb sample_tool sample_fs (Some (text_of ''fs'')) =
      Inr (Report (Obj [(text_of ''fs'', Str (text_of ''squashfs''))]) (Some []))"
    by (simp add: get_verb_def envelope_def Let_def sample_tool_def)
  with o show ?thesis
    by (simp add: run_def sample_get_def sample_args_def effective_offset_def bind_c_def bind_s_def ret_s_def)
qed

lemma reports_well_formed_witness:
  "json_ok (Obj [(text_of ''fs'', Str (text_of ''squashfs''))]) \<and> is_utf8 []"
proof -
  have "shows_text sample_tool" by (simp add: shows_text_def sample_tool_def)
  from reports_well_formed [OF sample_tool_ok(1) this _ _ sample_get_runs] show ?thesis
    by (auto simp: sample_get_def sample_args_def is_utf8_text)
qed

text \<open>C26. No report hides a name's bytes: from an entry of \<open>ls\<close>, of the recursive listing, of \<open>stat\<close> or
  of \<open>xattr\<close> the name and the path it is about read back exactly, UTF-8 or not.\<close>

theorem names_recoverable:
  "exact_bytes ''name'' (entry name i) = Some name \<and>
   exact_bytes ''path'' (recursive_entry path d i r) = Some path \<and>
   exact_bytes ''name'' (recursive_entry path d i r) = Some (last (split_slash path)) \<and>
   exact_bytes ''path'' (Obj (stat_fields path i uid gid)) = Some path \<and>
   exact_bytes ''name'' (xattr_entry_json a) = Some (xe_name a)"
  by (simp only: exact_entry exact_recursive exact_stat exact_xattr simp_thms)

end
