(* ===== verification/Cli_Args.thy ===== *)
theory Cli_Args
  imports Cli_Verbs
begin

text \<open>
  The command line itself: the table of commands and arguments \<open>src/cli/squashfs/fs.rs\<close> declares with
  \<open>clap\<close>, and \<open>run\<close> over what \<open>clap\<close> parsed.  \<open>clap\<close> is a parameter: \<open>line_ok\<close> states what its documentation
  promises of the matches it returns for a table, and reading an argument that the table does not
  declare, or at another type, panics as documented.  The arguments \<open>fs_core::cli\<close> declares (the format
  flags, the recursive flags and those of \<open>export\<close>) are the record \<open>shared\<close>.  What is proved: \<open>run\<close>
  reads only what the table declares, at its type, and relies on a value only where the table requires
  or defaults it, so no accepted line crashes the tool; the verbs the help says are refused are the
  verbs that are refused.
\<close>

section \<open>Declarations\<close>

text \<open>\<open>value_parser!(OsString)\<close>, \<open>value_parser!(u64)\<close> and \<open>clap\<close>'s default, a \<open>String\<close>.\<close>

datatype value_parser = Parse_os | Parse_u64 | Parse_string

datatype arg_action = Set_value | Set_true

text \<open>\<open>clap::Arg\<close> as its builder leaves it; one with neither a short nor a long form is positional.\<close>

record arg_decl =
  ad_id :: string
  ad_value_name :: "string option"
  ad_short :: "char option"
  ad_long :: "string option"
  ad_help :: string
  ad_parser :: value_parser
  ad_action :: arg_action
  ad_required :: bool
  ad_global :: bool
  ad_default :: "string option"
  ad_requires :: "string option"

definition Arg :: "string \<Rightarrow> arg_decl" where
  "Arg i =
     \<lparr>ad_id = i, ad_value_name = None, ad_short = None, ad_long = None, ad_help = [],
      ad_parser = Parse_string, ad_action = Set_value, ad_required = False, ad_global = False,
      ad_default = None, ad_requires = None\<rparr>"

text \<open>\<open>clap::Command\<close>: its texts are lists of lines.\<close>

record command_decl =
  cm_name :: string
  cm_about :: string
  cm_long_about :: "string list"
  cm_after_help :: "string list"
  cm_args :: "arg_decl list"

record command_table = command_decl +
  ct_subcommand_required :: bool
  ct_subcommands :: "command_decl list"

text \<open>\<open>fs_core::cli::format_args\<close>, \<open>listing::recursive_args\<close> and \<open>transfer::export_args_with_times\<close>.\<close>

record shared =
  sh_format :: "arg_decl list"
  sh_recursive :: "arg_decl list"
  sh_export :: "arg_decl list"

section \<open>The table\<close>

definition mutation_path :: arg_decl where
  "mutation_path =
     (Arg ''path'')\<lparr>ad_value_name := Some ''PATH'', ad_required := True, ad_parser := Parse_os\<rparr>"

definition refused_about :: string where
  "refused_about = ''Refused: SquashFS is read-only''"

definition refused_command :: "string \<Rightarrow> string list \<Rightarrow> command_decl" where
  "refused_command name examples =
     \<lparr>cm_name = name, cm_about = refused_about, cm_long_about = [],
      cm_after_help =
        [''Examples:'', ''  '' @ hd examples] @ tl examples @
        ['''',
         ''Answers `SquashFS is read-only` (exit 3) before opening the image or reading '' @
         ''stdin. Rebuild the image with mksquashfs instead.''],
      cm_args = []\<rparr>"

definition key_command :: "string \<Rightarrow> string \<Rightarrow> command_decl" where
  "key_command name about =
     \<lparr>cm_name = name, cm_about = about, cm_long_about = [],
      cm_after_help =
        [''Examples:'',
         ''  fs.squashfs rootfs.sqfs '' @ name,
         ''  fs.squashfs rootfs.sqfs '' @ name @ '' block_size --text'',
         ''  fs.squashfs rootfs.sqfs '' @ name @ '' squashfs.compression''],
      cm_args =
        [(Arg ''key'')\<lparr>ad_value_name := Some ''KEY'',
           ad_help := ''One of: '' @ concat (hd KEYS # map (\<lambda>k. '', '' @ k) (tl KEYS)) @
             '' (or squashfs.<field>)''\<rparr>]\<rparr>"

definition ls_command :: "shared \<Rightarrow> command_decl" where
  "ls_command S =
     \<lparr>cm_name = ''ls'',
      cm_about = ''List a directory: name, type, size, mode, mtime (and a symlink's target)'',
      cm_long_about = [],
      cm_after_help =
      [''Examples:'',
       ''  fs.squashfs rootfs.sqfs ls /etc'',
       ''  fs.squashfs rootfs.sqfs ls / | jq -r '.[].name'' @ [CHR 0x27],
       ''  fs.squashfs rootfs.sqfs ls /bin/sh | jq -r '.[0].target'' @ [CHR 0x27],
       ''  fs.squashfs rootfs.sqfs ls --text /'',
       ''  fs.squashfs rootfs.sqfs ls -R --max-depth 8 --limit 1000 /etc'',
       '''',
       ''Recursive entries add volume-absolute path and depth. The starting directory is omitted; '' @
         ''a starting file or symlink has depth 0. A repeated directory inode is listed with '' @
         ''revisited: true and not entered. If another entry would exceed either bound, or a '' @
         ''directory cannot be read, the collected prefix stays on stdout and an error names the '' @
         ''bound or path on stderr (exit 1). Exact fits succeed; zero allows no entries or depth.''],
      cm_args =
        sh_recursive S @
        [(Arg ''path'')\<lparr>ad_value_name := Some ''PATH'', ad_default := Some ''/'', ad_parser := Parse_os\<rparr>]\<rparr>"

definition stat_command :: command_decl where
  "stat_command =
     \<lparr>cm_name = ''stat'',
      cm_about = ''Report one path: identity, type, mode, owner, links, sizes and stored time'',
      cm_long_about = [],
      cm_after_help =
      [''Examples:'',
       ''  fs.squashfs rootfs.sqfs stat /etc/hostname'',
       ''  fs.squashfs rootfs.sqfs stat /var/log | jq .nlink'',
       ''  fs.squashfs rootfs.sqfs stat --text /bin/sh'',
       '''',
       ''A symlink is reported, not followed. SquashFS stores only mtime, as whole seconds since '' @
         ''the epoch. Other times, nanoseconds and allocated_bytes are null: the format stores no '' @
         ''per-file allocation total. Raw inode type, fragment index/offset, block count and xattr '' @
         ''index are under squashfs; inapplicable fields are null.''],
      cm_args = [(Arg ''path'')\<lparr>ad_value_name := Some ''PATH'', ad_required := True, ad_parser := Parse_os\<rparr>]\<rparr>"

definition read_command :: command_decl where
  "read_command =
     \<lparr>cm_name = ''read'',
      cm_about = ''Write a file's bytes to stdout, or to a file with -o'',
      cm_long_about = [],
      cm_after_help =
      [''Examples:'',
       ''  fs.squashfs rootfs.sqfs read /etc/hostname'',
       ''  fs.squashfs rootfs.sqfs read /var/log/syslog | grep -i error'',
       ''  fs.squashfs rootfs.sqfs read /backup.tar -o backup.tar''],
      cm_args =
        [(Arg ''path'')\<lparr>ad_value_name := Some ''PATH'', ad_required := True, ad_parser := Parse_os\<rparr>,
         (Arg ''output'')\<lparr>ad_short := Some (CHR ''o''), ad_long := Some ''output'',
           ad_value_name := Some ''FILE'', ad_parser := Parse_os,
           ad_help := ''Write here instead of stdout''\<rparr>]\<rparr>"

definition export_command :: "shared \<Rightarrow> command_decl" where
  "export_command S =
     \<lparr>cm_name = ''export'',
      cm_about = ''Copy a regular file, or with --recursive a directory tree'',
      cm_long_about = [],
      cm_after_help =
      [''Examples:'',
       ''  fs.squashfs rootfs.sqfs export /backup.tar backup.tar'',
       ''  fs.squashfs rootfs.sqfs export --replace /etc/hostname hostname'',
       ''  fs.squashfs rootfs.sqfs export /backup.tar - | tar tf -'',
       ''  fs.squashfs rootfs.sqfs export --recursive /etc etc'',
       ''  fs.squashfs rootfs.sqfs export --recursive --preserve=links,times /etc etc'',
       '''',
       ''Files are copied in fixed chunks. A local destination is published only when complete; '' @
         ''an existing name is refused unless --replace is given. The report includes the byte '' @
         ''count and SHA-256; DEST - writes only raw bytes to stdout. Without --recursive '' @
         ''directories, symlinks and special files are refused.'',
       '''',
       ''Recursive export uses the shared tree transfer and reports every item. Existing '' @
         ''directories are merged into; existing files require --replace. --max-depth bounds the '' @
         ''walk. Special files are skipped. Symlinks require --preserve=links, which recreates '' @
         ''their targets without following them and copies each regular inode once. '' @
         ''--preserve=times sets the modification time SquashFS stores, in whole seconds; it stores '' @
         ''no access time, and the report says so. Symlink times are not set. --verify reads each '' @
         ''staged file back before publication.''],
      cm_args = sh_export S\<rparr>"

definition import_command :: command_decl where
  "import_command =
     (refused_command ''import''
      [''fs.squashfs rootfs.sqfs import hostname /etc/hostname'',
       ''  fs.squashfs rootfs.sqfs import - /backup.tar < backup.tar'',
       ''  fs.squashfs rootfs.sqfs import --replace hostname /etc/hostname''])\<lparr>cm_args :=
       [(Arg ''source'')\<lparr>ad_value_name := Some ''SOURCE'', ad_required := True, ad_parser := Parse_os,
           ad_help := ''The local source file, or - for stdin; neither is read''\<rparr>,
        mutation_path,
        (Arg ''replace'')\<lparr>ad_long := Some ''replace'', ad_action := Set_true,
           ad_help := ''Ask to replace PATH; SquashFS still refuses import''\<rparr>],
      cm_long_about :=
      [''Refused: SquashFS is read-only. Import answers exit 3 before opening the image or source '' @
         ''file, or reading stdin.'']\<rparr>"

definition xattr_command :: command_decl where
  "xattr_command =
     \<lparr>cm_name = ''xattr'',
      cm_about = ''List a path's extended attributes, or write one value's raw bytes'',
      cm_long_about = [],
      cm_after_help =
      [''Examples:'',
       ''  fs.squashfs rootfs.sqfs xattr /etc/hostname'',
       ''  fs.squashfs rootfs.sqfs xattr --text /etc/hostname'',
       ''  fs.squashfs rootfs.sqfs xattr /bin/tool security.capability -o caps.bin'',
       '''',
       ''Without NAME, report name and size, sorted by name bytes. Non-UTF-8 names are shown '' @
         ''lossily with exact bytes in name_hex. --text lists size, a tab and name. With NAME, '' @
         ''write raw bytes even with --text; an empty value succeeds, a missing attribute fails '' @
         ''(exit 1). A symlink is inspected without following it. -o uses FILE.partial and renames '' @
         ''on success, as read does. Attributes cannot be set or removed.''],
      cm_args =
        [mutation_path,
         (Arg ''name'')\<lparr>ad_value_name := Some ''NAME'', ad_parser := Parse_os\<rparr>,
         (Arg ''output'')\<lparr>ad_short := Some (CHR ''o''), ad_long := Some ''output'',
           ad_value_name := Some ''FILE'', ad_parser := Parse_os, ad_requires := Some ''name'',
           ad_help := ''Write the named attribute's value here instead of stdout''\<rparr>]\<rparr>"

definition write_command :: command_decl where
  "write_command =
     (refused_command ''write''
      [''fs.squashfs rootfs.sqfs write /etc/hostname < hostname'',
       ''  fs.squashfs rootfs.sqfs write /log --at 1024 < chunk''])\<lparr>cm_args :=
       [mutation_path,
        (Arg ''at'')\<lparr>ad_long := Some ''at'', ad_value_name := Some ''BYTES'', ad_parser := Parse_u64,
           ad_help := ''Position inside the file, not the filesystem's --offset in TARGET''\<rparr>]\<rparr>"

definition mkdir_command :: command_decl where
  "mkdir_command =
     (refused_command ''mkdir''
      [''fs.squashfs rootfs.sqfs mkdir /backup'',
       ''  fs.squashfs rootfs.sqfs mkdir --parents /backup/2026''])\<lparr>cm_args :=
       [mutation_path,
        (Arg ''parents'')\<lparr>ad_long := Some ''parents'', ad_short := Some (CHR ''p''), ad_action := Set_true,
           ad_help := ''Create missing parent directories too''\<rparr>]\<rparr>"

definition rm_command :: command_decl where
  "rm_command = (refused_command ''rm'' [''fs.squashfs rootfs.sqfs rm /notes.txt''])\<lparr>cm_args := [mutation_path]\<rparr>"

definition rmdir_command :: command_decl where
  "rmdir_command = (refused_command ''rmdir'' [''fs.squashfs rootfs.sqfs rmdir /backup''])\<lparr>cm_args := [mutation_path]\<rparr>"

definition mv_command :: command_decl where
  "mv_command =
     (refused_command ''mv'' [''fs.squashfs rootfs.sqfs mv /notes.txt /archive/notes.txt''])\<lparr>cm_args :=
       [(Arg ''source'')\<lparr>ad_value_name := Some ''SOURCE'', ad_required := True, ad_parser := Parse_os\<rparr>,
        mutation_path]\<rparr>"

definition ln_command :: command_decl where
  "ln_command =
     (refused_command ''ln''
      [''fs.squashfs rootfs.sqfs ln /notes.txt /also-notes.txt'',
       ''  fs.squashfs rootfs.sqfs ln -s ../etc/hostname /hostname''])\<lparr>cm_args :=
       [(Arg ''symbolic'')\<lparr>ad_short := Some (CHR ''s''), ad_long := Some ''symbolic'', ad_action := Set_true,
           ad_help := ''Make a symbolic link whose target is TARGET, as given''\<rparr>,
        (Arg ''target'')\<lparr>ad_value_name := Some ''TARGET'', ad_required := True, ad_parser := Parse_os\<rparr>,
        mutation_path]\<rparr>"

definition truncate_command :: command_decl where
  "truncate_command =
     (refused_command ''truncate''
      [''fs.squashfs rootfs.sqfs truncate /log.txt 0'',
       ''  fs.squashfs rootfs.sqfs truncate /sparse.img 1073741824''])\<lparr>cm_args :=
       [mutation_path,
        (Arg ''size'')\<lparr>ad_value_name := Some ''BYTES'', ad_required := True, ad_parser := Parse_u64\<rparr>]\<rparr>"

definition set_command :: command_decl where
  "set_command =
     \<lparr>cm_name = ''set'', cm_about = ''Refused: SquashFS is read-only'', cm_long_about = [],
      cm_after_help =
      [''Examples:'',
       ''  fs.squashfs rootfs.sqfs set label BACKUP'',
       '''',
       ''Answers `SquashFS is read-only` (exit 3). The format has no label at all: `get label` is '' @
         ''null.''],
      cm_args =
        [(Arg ''key'')\<lparr>ad_value_name := Some ''KEY'', ad_required := True\<rparr>,
         (Arg ''value'')\<lparr>ad_value_name := Some ''VALUE'', ad_required := True\<rparr>]\<rparr>"

definition resize_command :: command_decl where
  "resize_command =
     \<lparr>cm_name = ''resize'', cm_about = ''Refused: SquashFS is read-only'', cm_long_about = [],
      cm_after_help =
      [''Examples:'',
       ''  fs.squashfs rootfs.sqfs resize 1G --force'',
       '''',
       ''Answers `SquashFS is read-only` (exit 3).''],
      cm_args =
        [(Arg ''size'')\<lparr>ad_value_name := Some ''SIZE'', ad_required := True\<rparr>,
         (Arg ''force'')\<lparr>ad_long := Some ''force'', ad_action := Set_true, ad_help := ''Do it without asking''\<rparr>]\<rparr>"

definition target_decl :: arg_decl where
  "target_decl =
     (Arg ''target'')\<lparr>ad_value_name := Some ''TARGET'', ad_help := ''The image file or device'',
       ad_parser := Parse_os, ad_required := True\<rparr>"

definition offset_decl :: arg_decl where
  "offset_decl =
     (Arg ''offset'')\<lparr>ad_long := Some ''offset'', ad_value_name := Some ''BYTES'',
       ad_help := ''Where the filesystem starts in TARGET, for one embedded in a larger image'',
       ad_parser := Parse_u64, ad_global := True\<rparr>"

definition root_args :: "shared \<Rightarrow> arg_decl list" where
  "root_args S = [target_decl, offset_decl] @ map (\<lambda>a. a\<lparr>ad_global := True\<rparr>) (sh_format S)"

definition subcommands :: "shared \<Rightarrow> command_decl list" where
  "subcommands S =
     [ls_command S, stat_command, read_command, export_command S, import_command, xattr_command,
      write_command, mkdir_command, rm_command, rmdir_command, mv_command, ln_command,
      truncate_command,
      key_command ''get'' ''Report the filesystem's properties, or one of them'',
      key_command ''info'' ''The same as get: every property, or one of them'',
      set_command, resize_command]"

definition command :: "shared \<Rightarrow> command_table" where
  "command S =
     \<lparr>cm_name = ''fs.squashfs'',
      cm_about = ''List, read and inspect a SquashFS image without mounting it'',
      cm_long_about =
      [''Work inside a SquashFS image directly: no mount, no kernel driver.'',
       '''',
       ''An escape hatch for an errand (get a file out, see what is in it, check how it was '' @
         ''built), not a place to do real filesystem work: for that, mount it.'',
       '''',
       ''Metadata is JSON on stdout (--text for people); `read` and `xattr PATH NAME` write raw '' @
         ''bytes. A failure is {\"error\": \"...\", \"code\": N} on stderr, N being the exit status: 1 '' @
         ''failed, 2 wrong command line, 3 SquashFS cannot do that (it is read-only).''],
      cm_after_help =
      [''Examples:'',
       ''  fs.squashfs rootfs.sqfs ls /'',
       ''  fs.squashfs rootfs.sqfs read /etc/fstab > fstab'',
       ''  fs.squashfs rootfs.sqfs get squashfs.compression --text'',
       ''  fs.squashfs --offset 1048576 firmware.bin info''],
      cm_args = root_args S, ct_subcommand_required = True, ct_subcommands = subcommands S\<rparr>"

text \<open>A subcommand also takes the global arguments of the command it belongs to.\<close>

definition taken_by :: "command_table \<Rightarrow> command_decl \<Rightarrow> arg_decl list" where
  "taken_by t c = cm_args c @ filter ad_global (cm_args t)"

section \<open>What \<open>clap\<close> returns for a line\<close>

datatype matched = Os bytes | Number u64 | Words utf8 | Flag bool

text \<open>\<open>ArgMatches\<close>: which arguments it knows, and the value of those it has one for.\<close>

record matches =
  mt_ids :: "string list"
  mt_value :: "string \<rightharpoonup> matched"

record line_matches = matches +
  mt_subcommand :: "(string \<times> matches) option"

fun fits :: "arg_decl \<Rightarrow> matched \<Rightarrow> bool" where
  "fits a (Flag b) \<longleftrightarrow> ad_action a = Set_true"
| "fits a (Os b) \<longleftrightarrow> ad_action a = Set_value \<and> ad_parser a = Parse_os"
| "fits a (Number n) \<longleftrightarrow> ad_action a = Set_value \<and> ad_parser a = Parse_u64"
| "fits a (Words t) \<longleftrightarrow> ad_action a = Set_value \<and> ad_parser a = Parse_string \<and> is_utf8 t"

text \<open>Every declared argument is known; a required one, one with a default and a flag have a value;
  every value is of its argument's type; and one that \<open>requires\<close> another comes with it.\<close>

definition matches_ok :: "arg_decl list \<Rightarrow> 'z matches_scheme \<Rightarrow> bool" where
  "matches_ok as m \<longleftrightarrow>
     list_all (\<lambda>a.
       ad_id a \<in> set (mt_ids m) \<and>
       (case mt_value m (ad_id a) of
          None \<Rightarrow> \<not> ad_required a \<and> ad_default a = None \<and> ad_action a = Set_value
        | Some v \<Rightarrow>
            fits a v \<and>
            (ad_action a = Set_value \<and> ad_default a = None \<longrightarrow>
              (case ad_requires a of None \<Rightarrow> True | Some r \<Rightarrow> mt_value m r \<noteq> None)))) as"

definition line_ok :: "command_table \<Rightarrow> line_matches \<Rightarrow> bool" where
  "line_ok t l \<longleftrightarrow>
     matches_ok (cm_args t) l \<and>
     (case mt_subcommand l of
        None \<Rightarrow> \<not> ct_subcommand_required t
      | Some (verb, sub) \<Rightarrow>
          list_ex (\<lambda>c. cm_name c = verb \<and> matches_ok (taken_by t c) sub) (ct_subcommands t))"

text \<open>\<open>get_one::<T>\<close> and \<open>get_flag\<close> panic on an argument that is not declared and on a value of another
  type, \<open>get_flag\<close> also where there is none.\<close>

fun as_os :: "matched \<Rightarrow> bytes option" where
  "as_os (Os b) = Some b"
| "as_os _ = None"

fun as_u64 :: "matched \<Rightarrow> u64 option" where
  "as_u64 (Number n) = Some n"
| "as_u64 _ = None"

fun as_string :: "matched \<Rightarrow> utf8 option" where
  "as_string (Words t) = Some t"
| "as_string _ = None"

fun as_bool :: "matched \<Rightarrow> bool option" where
  "as_bool (Flag b) = Some b"
| "as_bool _ = None"

definition get_one :: "(matched \<Rightarrow> 'a option) \<Rightarrow> string \<Rightarrow> 'z matches_scheme \<Rightarrow> 'a option result" where
  "get_one as i m =
     (if i \<notin> set (mt_ids m) then Panics
      else
        (case mt_value m i of
           None \<Rightarrow> Ok None
         | Some v \<Rightarrow> (case as v of None \<Rightarrow> Panics | Some x \<Rightarrow> Ok (Some x))))"

definition expect :: "'a option \<Rightarrow> 'a result" where
  "expect x = (case x of None \<Rightarrow> Panics | Some v \<Rightarrow> Ok v)"

definition get_flag :: "string \<Rightarrow> 'z matches_scheme \<Rightarrow> bool result" where
  "get_flag i m = and_then (get_one as_bool i m) expect"

section \<open>\<open>run\<close>\<close>

definition path_arg :: "'z matches_scheme \<Rightarrow> bytes result" where
  "path_arg sub = and_then (get_one as_os ''path'' sub) expect"

definition offset_arg :: "line_matches \<Rightarrow> matches \<Rightarrow> u64 result" where
  "offset_arg l sub =
     and_then (get_one as_u64 ''offset'' sub) (\<lambda>n.
     case n of
       Some n \<Rightarrow> Ok n
     | None \<Rightarrow>
         and_then (get_one as_u64 ''offset'' l) (\<lambda>n.
         Ok (case n of Some n \<Rightarrow> n | None \<Rightarrow> 0)))"

text \<open>\<open>xattr\<close> reads NAME once the path is resolved, and \<open>-o\<close> once the attribute is found.\<close>

definition xattr_matches ::
  "('c, 'd) world \<Rightarrow> tool \<Rightarrow> filesystem \<Rightarrow> bytes \<Rightarrow> 'z matches_scheme \<Rightarrow> (('c, 'd) proc, outcome) cli" where
  "xattr_matches W T fs path sub =
     bind_c (on_caches (within path (lookup_path_bytes W fs path))) (\<lambda>i.
     bind_s (lift_s (get_one as_os ''name'' sub)) (\<lambda>name.
     case name of
       Some name \<Rightarrow>
         bind_c (on_caches (within path (get_xattr W fs i name))) (\<lambda>v.
         case v of
           None \<Rightarrow> err_cli (Failed (show_bytes path @ text_of '': no attribute '' @ show_bytes name))
         | Some val \<Rightarrow>
             bind_s (lift_s (get_one as_os ''output'' sub)) (\<lambda>out.
             case out of
               None \<Rightarrow>
                 bind_c (or_failed (text_of ''write'') (and_next (write_all T Stdout val) (flush T Stdout)))
                   (\<lambda>_. ok_cli Finished)
             | Some file \<Rightarrow>
                 let partial = partial_name file in
                 bind_s
                   (and_next (file_create T partial)
                     (and_next (write_all T (Into partial) val) (file_rename T partial file))) (\<lambda>r.
                 case r of
                   None \<Rightarrow> ok_cli Finished
                 | Some e \<Rightarrow>
                     bind_s (file_remove T partial) (\<lambda>_.
                       err_cli (Failed (text_of ''write '' @ show_bytes file @ text_of '': '' @ e))))))
     | None \<Rightarrow>
         bind_c (on_caches (within path (list_xattrs W fs i))) (\<lambda>attrs.
           let attrs = sort_key xe_name attrs in
           ok_cli (Report (Arr (map xattr_entry_json attrs)) (Some (join_lines (map xattr_line attrs)))))))"

text \<open>\<open>ListBounds::from_matches\<close> is \<open>bounds\<close>, and \<open>X\<close> is what the transfer parses of \<open>export\<close>'s
  arguments.  A verb \<open>clap\<close> does not know is unreachable: a panic.\<close>

definition run_matches ::
  "('c, 'd) world \<Rightarrow> tool \<Rightarrow> (matches \<Rightarrow> ('c, 'd) exporter) \<Rightarrow> (matches \<Rightarrow> u64 \<times> u64) \<Rightarrow>
    line_matches \<Rightarrow> (('c, 'd) proc, outcome) cli" where
  "run_matches W T X bounds l =
     bind_s (lift_s (and_then (get_one as_os ''target'' l) expect)) (\<lambda>target.
     bind_s (lift_s (expect (mt_subcommand l))) (\<lambda>(verb, sub).
     bind_s (lift_s (offset_arg l sub)) (\<lambda>offset.
     let opened = bind_c (open_target W T target offset) in
     if verb = ''ls'' then
       bind_s (lift_s (get_flag ''recursive'' sub)) (\<lambda>recursive.
       opened (\<lambda>fs.
       bind_s (lift_s (path_arg sub)) (\<lambda>path.
       if recursive then (case bounds sub of (max_depth, limit) \<Rightarrow> ls_recursive W T fs path max_depth limit)
       else on_caches (ls W T fs path))))
     else if verb = ''stat'' then
       opened (\<lambda>fs. bind_s (lift_s (path_arg sub)) (\<lambda>path. on_caches (stat_verb W fs path)))
     else if verb = ''read'' then
       opened (\<lambda>fs.
       bind_s (lift_s (path_arg sub)) (\<lambda>path.
       bind_s (lift_s (get_one as_os ''output'' sub)) (\<lambda>out. read_verb W T fs path out)))
     else if verb = ''export'' then run_export W T (X sub) target offset
     else if verb = ''xattr'' then
       opened (\<lambda>fs. bind_s (lift_s (path_arg sub)) (\<lambda>path. xattr_matches W T fs path sub))
     else if verb = ''get'' \<or> verb = ''info'' then
       opened (\<lambda>fs.
       bind_s (lift_s (get_one as_string ''key'' sub)) (\<lambda>key. ret_s (get_verb T fs key)))
     else if verb \<in> set MUTATIONS then
       err_cli (Refused (text_of (verb @ '': '' @ READ_ONLY @ ''; rebuild the image with mksquashfs instead'')))
     else lift_s Panics)))"

section \<open>The tool and its family\<close>

text \<open>\<open>TOOL\<close>, registered with \<open>fs_core::cli\<close>; its usage exit status and the crate's name and version,
  which \<open>cargo\<close> sets, are parameters.\<close>

record ('c, 'd) tool_decl =
  td_name :: string
  td_verb :: string
  td_section :: nat
  td_usage_exit :: int
  td_about :: string
  td_command :: "shared \<Rightarrow> command_table"
  td_run ::
    "('c, 'd) world \<Rightarrow> tool \<Rightarrow> (matches \<Rightarrow> ('c, 'd) exporter) \<Rightarrow> (matches \<Rightarrow> u64 \<times> u64) \<Rightarrow>
      line_matches \<Rightarrow> (('c, 'd) proc, outcome) cli"

definition TOOL :: "int \<Rightarrow> ('c, 'd) tool_decl" where
  "TOOL usage_exit =
     \<lparr>td_name = ''fs.squashfs'', td_verb = ''fs'', td_section = 1, td_usage_exit = usage_exit,
      td_about = ''List, read and inspect a SquashFS image without mounting it'',
      td_command = command, td_run = run_matches\<rparr>"

record ('c, 'd) family =
  fm_repo :: string
  fm_crate_name :: string
  fm_version :: string
  fm_about :: string
  fm_install_hints :: "string list"
  fm_tools :: "('c, 'd) tool_decl list"

definition FAMILY :: "string \<Rightarrow> string \<Rightarrow> int \<Rightarrow> ('c, 'd) family" where
  "FAMILY crate_name version usage_exit =
     \<lparr>fm_repo = ''rust-fs-squashfs'', fm_crate_name = crate_name, fm_version = version,
      fm_about = ''SquashFS tools: work on a SquashFS image directly, without mounting it'',
      fm_install_hints =
        [''`chore cli:install` from a checkout of this repository'',
         ''`brew install antimatter-studios/tap/rust-fs-squashfs`''],
      fm_tools = [TOOL usage_exit]\<rparr>"

section \<open>Reading a match\<close>

text \<open>What a table lets the code read at a type, and what it can count on being there.\<close>

definition declares :: "arg_decl list \<Rightarrow> string \<Rightarrow> (matched \<Rightarrow> 'a option) \<Rightarrow> bool" where
  "declares as i as_ty \<longleftrightarrow> (\<exists>a \<in> set as. ad_id a = i \<and> (\<forall>v. fits a v \<longrightarrow> as_ty v \<noteq> None))"

definition demands :: "arg_decl list \<Rightarrow> string \<Rightarrow> (matched \<Rightarrow> 'a option) \<Rightarrow> bool" where
  "demands as i as_ty \<longleftrightarrow>
     (\<exists>a \<in> set as. ad_id a = i \<and> (\<forall>v. fits a v \<longrightarrow> as_ty v \<noteq> None) \<and>
       (ad_required a \<or> ad_default a \<noteq> None \<or> ad_action a = Set_true))"

abbreviation value_of :: "(matched \<Rightarrow> 'a option) \<Rightarrow> string \<Rightarrow> 'z matches_scheme \<Rightarrow> 'a option" where
  "value_of as_ty i m \<equiv> Option.bind (mt_value m i) as_ty"

lemma matches_okD:
  assumes "matches_ok as m" "a \<in> set as"
  shows "ad_id a \<in> set (mt_ids m)"
    and "mt_value m (ad_id a) = Some v \<Longrightarrow> fits a v"
    and "mt_value m (ad_id a) = None \<Longrightarrow> \<not> ad_required a \<and> ad_default a = None \<and> ad_action a \<noteq> Set_true"
  using assms by (auto simp: matches_ok_def list_all_iff dest!: bspec [where x = a])

lemma get_one_declared:
  assumes "matches_ok as m" "declares as i as_ty"
  shows "get_one as_ty i m = Ok (value_of as_ty i m)"
proof -
  obtain a where a: "a \<in> set as" "ad_id a = i" "\<forall>v. fits a v \<longrightarrow> as_ty v \<noteq> None"
    using assms(2) by (auto simp: declares_def)
  with matches_okD(1,2) [OF assms(1) a(1)]
  have "i \<in> set (mt_ids m)" "\<forall>v. mt_value m i = Some v \<longrightarrow> as_ty v \<noteq> None" by auto
  then show ?thesis by (auto simp: get_one_def split: option.split)
qed

lemma demands_declares: "demands as i as_ty \<Longrightarrow> declares as i as_ty"
  by (auto simp: demands_def declares_def)

lemma get_one_demanded:
  assumes "matches_ok as m" "demands as i as_ty"
  shows "and_then (get_one as_ty i m) expect = Ok (the (value_of as_ty i m))"
proof -
  obtain a where a: "a \<in> set as" "ad_id a = i" "\<forall>v. fits a v \<longrightarrow> as_ty v \<noteq> None"
    "ad_required a \<or> ad_default a \<noteq> None \<or> ad_action a = Set_true"
    using assms(2) by (auto simp: demands_def)
  have "mt_value m i \<noteq> None" using a(2,4) matches_okD(3) [OF assms(1) a(1)] by metis
  then obtain v where "mt_value m i = Some v" by blast
  moreover from this a have "as_ty v \<noteq> None" using matches_okD(2) [OF assms(1) a(1)] by blast
  ultimately show ?thesis
    using get_one_declared [OF assms(1) demands_declares [OF assms(2)]] by (auto simp: expect_def)
qed

lemma fits_read:
  "ad_action a = Set_value \<Longrightarrow> ad_parser a = Parse_os \<Longrightarrow> fits a v \<longrightarrow> as_os v \<noteq> None"
  "ad_action a = Set_value \<Longrightarrow> ad_parser a = Parse_u64 \<Longrightarrow> fits a v \<longrightarrow> as_u64 v \<noteq> None"
  "ad_action a = Set_value \<Longrightarrow> ad_parser a = Parse_string \<Longrightarrow> fits a v \<longrightarrow> as_string v \<noteq> None"
  "ad_action a = Set_true \<Longrightarrow> fits a v \<longrightarrow> as_bool v \<noteq> None"
  by (cases v; simp)+

section \<open>What the commands declare\<close>

text \<open>What is relied on of \<open>fs_core\<close>'s own arguments: \<open>--recursive\<close> is a flag.\<close>

definition shared_ok :: "shared \<Rightarrow> bool" where
  "shared_ok S \<longleftrightarrow> list_ex (\<lambda>a. ad_id a = ''recursive'' \<and> ad_action a = Set_true) (sh_recursive S)"

lemma Arg_simps [simp]:
  "ad_id (Arg i) = i" "ad_short (Arg i) = None" "ad_long (Arg i) = None" "ad_parser (Arg i) = Parse_string"
  "ad_action (Arg i) = Set_value" "ad_required (Arg i) = False" "ad_global (Arg i) = False"
  "ad_default (Arg i) = None" "ad_requires (Arg i) = None"
  by (simp_all add: Arg_def)

lemmas command_parts = refused_command_def command_decl.select_convs command_decl.update_convs

text \<open>The arguments and the summary of each command, without its help.\<close>

lemmas command_args =
  ls_command_def [THEN arg_cong [where f = cm_args], unfolded command_parts]
  stat_command_def [THEN arg_cong [where f = cm_args], unfolded command_parts]
  read_command_def [THEN arg_cong [where f = cm_args], unfolded command_parts]
  export_command_def [THEN arg_cong [where f = cm_args], unfolded command_parts]
  import_command_def [THEN arg_cong [where f = cm_args], unfolded command_parts]
  xattr_command_def [THEN arg_cong [where f = cm_args], unfolded command_parts]
  write_command_def [THEN arg_cong [where f = cm_args], unfolded command_parts]
  mkdir_command_def [THEN arg_cong [where f = cm_args], unfolded command_parts]
  rm_command_def [THEN arg_cong [where f = cm_args], unfolded command_parts]
  rmdir_command_def [THEN arg_cong [where f = cm_args], unfolded command_parts]
  mv_command_def [THEN arg_cong [where f = cm_args], unfolded command_parts]
  ln_command_def [THEN arg_cong [where f = cm_args], unfolded command_parts]
  truncate_command_def [THEN arg_cong [where f = cm_args], unfolded command_parts]
  key_command_def [THEN arg_cong [where f = cm_args], unfolded command_parts]
  set_command_def [THEN arg_cong [where f = cm_args], unfolded command_parts]
  resize_command_def [THEN arg_cong [where f = cm_args], unfolded command_parts]

lemmas command_summaries =
  ls_command_def [THEN arg_cong [where f = cm_about], unfolded command_parts]
  stat_command_def [THEN arg_cong [where f = cm_about], unfolded command_parts]
  read_command_def [THEN arg_cong [where f = cm_about], unfolded command_parts]
  export_command_def [THEN arg_cong [where f = cm_about], unfolded command_parts]
  import_command_def [THEN arg_cong [where f = cm_about], unfolded command_parts]
  xattr_command_def [THEN arg_cong [where f = cm_about], unfolded command_parts]
  write_command_def [THEN arg_cong [where f = cm_about], unfolded command_parts]
  mkdir_command_def [THEN arg_cong [where f = cm_about], unfolded command_parts]
  rm_command_def [THEN arg_cong [where f = cm_about], unfolded command_parts]
  rmdir_command_def [THEN arg_cong [where f = cm_about], unfolded command_parts]
  mv_command_def [THEN arg_cong [where f = cm_about], unfolded command_parts]
  ln_command_def [THEN arg_cong [where f = cm_about], unfolded command_parts]
  truncate_command_def [THEN arg_cong [where f = cm_about], unfolded command_parts]
  key_command_def [THEN arg_cong [where f = cm_about], unfolded command_parts]
  set_command_def [THEN arg_cong [where f = cm_about], unfolded command_parts]
  resize_command_def [THEN arg_cong [where f = cm_about], unfolded command_parts]

lemma command_names [simp]:
  "cm_name (ls_command S) = ''ls''" "cm_name stat_command = ''stat''" "cm_name read_command = ''read''"
  "cm_name (export_command S) = ''export''" "cm_name import_command = ''import''"
  "cm_name xattr_command = ''xattr''" "cm_name write_command = ''write''" "cm_name mkdir_command = ''mkdir''"
  "cm_name rm_command = ''rm''" "cm_name rmdir_command = ''rmdir''" "cm_name mv_command = ''mv''"
  "cm_name ln_command = ''ln''" "cm_name truncate_command = ''truncate''" "cm_name (key_command n a) = n"
  "cm_name set_command = ''set''" "cm_name resize_command = ''resize''"
  by (simp_all only: ls_command_def stat_command_def read_command_def export_command_def import_command_def
      xattr_command_def write_command_def mkdir_command_def rm_command_def rmdir_command_def mv_command_def
      ln_command_def truncate_command_def key_command_def set_command_def resize_command_def
      refused_command_def command_decl.select_convs command_decl.update_convs)

lemma command_table_parts [simp]:
  "cm_args (command S) = root_args S" "ct_subcommands (command S) = subcommands S"
  "ct_subcommand_required (command S) = True"
  by (simp_all only: command_def command_decl.select_convs command_table.select_convs)

lemma root_decls:
  "ad_id target_decl = ''target''" "ad_required target_decl" "\<not> ad_global target_decl"
  "ad_default target_decl = None" "ad_requires target_decl = None" "ad_action target_decl = Set_value"
  "ad_long target_decl = None" "ad_short target_decl = None" "ad_parser target_decl = Parse_os"
  "ad_id offset_decl = ''offset''" "\<not> ad_required offset_decl" "ad_global offset_decl"
  "ad_default offset_decl = None" "ad_requires offset_decl = None" "ad_action offset_decl = Set_value"
  "ad_long offset_decl = Some ''offset''" "ad_short offset_decl = None" "ad_parser offset_decl = Parse_u64"
  by (simp_all add: target_decl_def offset_decl_def)

lemma declares_own:
  "a \<in> set (cm_args c) \<Longrightarrow> ad_id a = i \<Longrightarrow> \<forall>v. fits a v \<longrightarrow> as_ty v \<noteq> None \<Longrightarrow> declares (taken_by t c) i as_ty"
  by (auto simp: declares_def taken_by_def)

lemma demands_own:
  "a \<in> set (cm_args c) \<Longrightarrow> ad_id a = i \<Longrightarrow> \<forall>v. fits a v \<longrightarrow> as_ty v \<noteq> None \<Longrightarrow>
    ad_required a \<or> ad_default a \<noteq> None \<or> ad_action a = Set_true \<Longrightarrow> demands (taken_by t c) i as_ty"
  unfolding demands_def taken_by_def by auto

lemma declares_offset:
  "declares (root_args S) ''offset'' as_u64" "declares (taken_by (command S) c) ''offset'' as_u64"
proof -
  have "offset_decl \<in> set (root_args S)" by (simp add: root_args_def)
  then show "declares (root_args S) ''offset'' as_u64" "declares (taken_by (command S) c) ''offset'' as_u64"
    using fits_read(2) [of offset_decl] root_decls by (auto simp: declares_def taken_by_def)
qed

lemma demands_target: "demands (root_args S) ''target'' as_os"
proof -
  have "target_decl \<in> set (root_args S)" by (simp add: root_args_def)
  then show ?thesis using fits_read(1) [of target_decl] root_decls by (auto simp: demands_def)
qed

lemma demands_path:
  assumes "c \<in> {ls_command S, stat_command, read_command, xattr_command}"
  shows "demands (taken_by t c) ''path'' as_os"
proof -
  have "\<exists>a \<in> set (cm_args c). ad_id a = ''path'' \<and> (ad_required a \<or> ad_default a \<noteq> None) \<and>
      ad_action a = Set_value \<and> ad_parser a = Parse_os"
    using assms
    by (auto simp: command_args mutation_path_def)
  then obtain a where "a \<in> set (cm_args c)" "ad_id a = ''path''" "ad_required a \<or> ad_default a \<noteq> None"
    "ad_action a = Set_value" "ad_parser a = Parse_os" by blast
  then show ?thesis by (intro demands_own [of a] allI fits_read(1)) auto
qed

lemma declares_output:
  assumes "c \<in> {read_command, xattr_command}"
  shows "declares (taken_by t c) ''output'' as_os"
proof -
  have "\<exists>a \<in> set (cm_args c). ad_id a = ''output'' \<and> ad_action a = Set_value \<and> ad_parser a = Parse_os"
    using assms by (auto simp: command_args)
  then obtain a where "a \<in> set (cm_args c)" "ad_id a = ''output''" "ad_action a = Set_value"
    "ad_parser a = Parse_os" by blast
  then show ?thesis by (intro declares_own [of a] allI fits_read(1))
qed

lemma declares_name: "declares (taken_by t xattr_command) ''name'' as_os"
proof -
  have "\<exists>a \<in> set (cm_args xattr_command). ad_id a = ''name'' \<and> ad_action a = Set_value \<and> ad_parser a = Parse_os"
    by (auto simp: command_args)
  then obtain a where "a \<in> set (cm_args xattr_command)" "ad_id a = ''name''" "ad_action a = Set_value"
    "ad_parser a = Parse_os" by blast
  then show ?thesis by (intro declares_own [of a] allI fits_read(1))
qed

lemma declares_key: "declares (taken_by t (key_command n about)) ''key'' as_string"
proof -
  have "\<exists>a \<in> set (cm_args (key_command n about)). ad_id a = ''key'' \<and> ad_action a = Set_value \<and>
      ad_parser a = Parse_string"
    by (simp add: command_args)
  then obtain a where "a \<in> set (cm_args (key_command n about))" "ad_id a = ''key''" "ad_action a = Set_value"
    "ad_parser a = Parse_string" by blast
  then show ?thesis by (intro declares_own [of a] allI fits_read(3))
qed

lemma demands_recursive:
  assumes "shared_ok S"
  shows "demands (taken_by t (ls_command S)) ''recursive'' as_bool"
proof -
  have "\<exists>a \<in> set (cm_args (ls_command S)). ad_id a = ''recursive'' \<and> ad_action a = Set_true"
    using assms by (auto simp: shared_ok_def list_ex_iff command_args)
  then obtain a where "a \<in> set (cm_args (ls_command S))" "ad_id a = ''recursive''" "ad_action a = Set_true"
    by blast
  then show ?thesis by (intro demands_own [of a] allI fits_read(4)) auto
qed

abbreviation made_global :: "arg_decl list \<Rightarrow> arg_decl list" where
  "made_global \<equiv> map (\<lambda>a. a\<lparr>ad_global := True\<rparr>)"

lemma taken_by_command: "taken_by (command S) c = cm_args c @ offset_decl # made_global (sh_format S)"
proof -
  have "filter ad_global (made_global (sh_format S)) = made_global (sh_format S)"
    by (simp add: filter_id_conv)
  then show ?thesis by (simp add: taken_by_def root_args_def root_decls)
qed

lemma subcommand_names: "map cm_name (subcommands S) =
  [''ls'', ''stat'', ''read'', ''export'', ''import'', ''xattr'', ''write'', ''mkdir'', ''rm'', ''rmdir'',
   ''mv'', ''ln'', ''truncate'', ''get'', ''info'', ''set'', ''resize'']"
  by (simp add: subcommands_def)

section \<open>\<open>run\<close> on what \<open>clap\<close> returns\<close>

definition line_args :: "(matches \<Rightarrow> u64 \<times> u64) \<Rightarrow> line_matches \<Rightarrow> args" where
  "line_args bounds l =
     (case mt_subcommand l of
        Some (verb, sub) \<Rightarrow>
          \<lparr>ar_target = the (value_of as_os ''target'' l), ar_verb = verb,
           ar_offset_sub = value_of as_u64 ''offset'' sub, ar_offset_main = value_of as_u64 ''offset'' l,
           ar_recursive = (value_of as_bool ''recursive'' sub = Some True),
           ar_max_depth = fst (bounds sub), ar_limit = snd (bounds sub),
           ar_path = the (value_of as_os ''path'' sub), ar_output = value_of as_os ''output'' sub,
           ar_name = value_of as_os ''name'' sub, ar_key = value_of as_string ''key'' sub\<rparr>)"

lemma bind_lift_Ok: "bind_s (lift_s (Ok v)) f = f v"
  by (simp add: fun_eq_iff sm_defs)

lemma xattr_matches_eq:
  assumes "get_one as_os ''name'' sub = Ok name" "get_one as_os ''output'' sub = Ok out"
  shows "xattr_matches W T fs path sub = xattr_verb W T fs path name out"
  unfolding xattr_matches_def xattr_verb_def assms bind_lift_Ok by (rule refl)

lemma get_flag_demanded:
  assumes "matches_ok as m" "demands as i as_bool"
  shows "get_flag i m = Ok (value_of as_bool i m = Some True)"
  using get_one_demanded [OF assms] get_one_declared [OF assms(1) demands_declares [OF assms(2)]]
  by (cases "value_of as_bool i m") (simp_all add: get_flag_def expect_def)

lemma run_matches_eq:
  assumes "line_ok (command S) l" "shared_ok S" "mt_subcommand l = Some (verb, sub)"
  shows "run_matches W T X bounds l = run W T (X sub) (line_args bounds l) \<and>
    verb \<in> set (map cm_name (subcommands S))"
proof -
  from assms(1,3) obtain c where root: "matches_ok (root_args S) l" and c: "c \<in> set (subcommands S)"
    "cm_name c = verb" and sub: "matches_ok (taken_by (command S) c) sub"
    by (auto simp: line_ok_def list_ex_iff)
  note one = get_one_declared [OF sub] and must = get_one_demanded [OF sub]
  have target: "and_then (get_one as_os ''target'' l) expect = Ok (ar_target (line_args bounds l))"
    by (simp add: get_one_demanded [OF root demands_target] line_args_def assms(3))
  have offset: "offset_arg l sub = Ok (effective_offset (line_args bounds l))"
    unfolding offset_arg_def get_one_declared [OF root declares_offset(1)] one [OF declares_offset(2)]
    by (auto simp: line_args_def assms(3) effective_offset_def split: option.split)
  have path: "path_arg sub = Ok (ar_path (line_args bounds l))"
    if "c \<in> {ls_command S, stat_command, read_command, xattr_command}"
    by (simp add: path_arg_def must [OF demands_path [OF that]] line_args_def assms(3))
  have rest: "ar_verb (line_args bounds l) = verb"
    "ar_output (line_args bounds l) = value_of as_os ''output'' sub"
    "ar_name (line_args bounds l) = value_of as_os ''name'' sub"
    "ar_key (line_args bounds l) = value_of as_string ''key'' sub"
    "ar_recursive (line_args bounds l) = (value_of as_bool ''recursive'' sub = Some True)"
    "bounds sub = (ar_max_depth (line_args bounds l), ar_limit (line_args bounds l))"
    by (simp_all add: line_args_def assms(3))
  note run = run_matches_def target assms(3) expect_def option.case bind_lift_Ok prod.case offset
  note ref = run_def rest Let_def
  consider "c = ls_command S" | "c = stat_command" | "c = read_command" | "c = export_command S"
    | "c = xattr_command" | n a where "c = key_command n a" "n = ''get'' \<or> n = ''info''"
    | "cm_name c \<in> set MUTATIONS"
    using c(1) unfolding subcommands_def by (auto simp: MUTATIONS_def)
  then have "run_matches W T X bounds l = run W T (X sub) (line_args bounds l)"
  proof cases
    case 1
    then have "verb = ''ls''" using c(2) by simp
    then show ?thesis
      using path get_flag_demanded [OF sub [unfolded 1] demands_recursive [OF assms(2)]] 1
      by (simp add: run ref bind_lift_Ok)
  next
    case 2
    then have "verb = ''stat''" using c(2) by simp
    then show ?thesis using path 2 by (simp add: run ref)
  next
    case 3
    then have "verb = ''read''" using c(2) by simp
    then show ?thesis using path 3 one [OF declares_output] by (simp add: run ref)
  next
    case 4
    then have "verb = ''export''" using c(2) by simp
    then show ?thesis by (simp add: run ref)
  next
    case 5
    then have "verb = ''xattr''" using c(2) by simp
    then show ?thesis
      using path 5
      by (simp add: run ref xattr_matches_eq [OF one [OF declares_name [folded 5]] one [OF declares_output]])
  next
    case 6
    then have "verb = ''get'' \<or> verb = ''info''" using c(2) by simp
    then show ?thesis using one [OF declares_key [of "command S" n a, folded 6(1)]] by (auto simp: run ref)
  next
    case 7
    then show ?thesis using c(2) by (auto simp: run ref MUTATIONS_def)
  qed
  then show ?thesis using c by force
qed

section \<open>\<open>export\<close> does not crash\<close>

text \<open>What is relied on of the shared transfer: handed a file, or a tree, whose reads do not crash, it
  does not crash.\<close>

definition safe_source :: "('c, 'd) tree_source \<Rightarrow> bool" where
  "safe_source ts \<longleftrightarrow>
     (\<forall>p c. safe (fst (ts_symbolic_link ts p c)) \<and> safe (fst (ts_metadata ts p c)) \<and>
       safe (fst (ts_read_dir ts p c))) \<and>
     (\<forall>p offset buf st. safe (fst (ts_read_file_at ts p offset buf st)))"

definition sound_transfer :: "('c, 'd) exporter \<Rightarrow> bool" where
  "sound_transfer X \<longleftrightarrow>
     (\<forall>n rd s. (\<forall>offset buf c. safe (fst (rd offset buf c))) \<longrightarrow> safe (fst (ex_file X n rd s))) \<and>
     (\<forall>ts s. safe_source ts \<longrightarrow> safe (fst (ex_tree X ts s)))"

lemma triple_tree_resolve: "mounted fs \<Longrightarrow> triple any (tree_resolve W fs path) any"
  unfolding tree_resolve_def using triple_within [OF triple_lookup_path] by simp

lemma triple_tree_children: "mounted fs \<Longrightarrow> triple any (tree_children W fs path ds) any"
  by (induction ds)
    (simp_all add: triple_cli_any triple_then [OF triple_within [OF triple_read_inode]] triple_then_any)

lemma safe_tree_read:
  assumes "mounted fs"
  shows "safe (fst (tree_read_file_at W fs path offset buf st))"
proof -
  have last: "safe (fst (tree_read_last W fs offset buf (c, Some l)))" for c l
    using safe_source_read_at [OF assms, of W "snd (snd l)" "fst (snd l)" offset buf c]
    by (cases l) (simp add: tree_read_last_def case_prod_beta)
  obtain c l where st: "st = (c, l)" by (rule prod.exhaust)
  obtain r d where rd: "tree_resolve W fs path c = (r, d)" by (rule prod.exhaust)
  with tripleD(1) [OF triple_tree_resolve [OF assms] TrueI, of W path c] have "safe r" by simp
  then show ?thesis
    unfolding tree_read_file_at_def st using last rd
    by (cases l; cases r) (auto simp: safe_def split: sum.split)
qed

lemma safe_tree_export:
  assumes "mounted fs"
  shows "safe_source (tree_export W fs img)"
proof -
  note r = triple_then_any [OF triple_tree_resolve [OF assms]]
  have "triple any (tree_symbolic_link W fs p) any" for p
    unfolding tree_symbolic_link_def
    by (intro r triple_if triple_cli_any triple_then [OF triple_within [OF triple_lift [where Q = any]]])
      (simp_all add: read_symlink_target_def)
  moreover have "triple any (tree_metadata_at W fs p) any" for p
    unfolding tree_metadata_at_def by (intro r triple_cli_any)
  moreover have "triple any (tree_read_dir W fs p) any" for p
    unfolding tree_read_dir_def
    by (intro r triple_then [OF triple_within [OF triple_read_dir]] triple_tree_children assms)
  ultimately show ?thesis
    unfolding safe_source_def tree_export_def triple_def by (simp add: safe_tree_read [OF assms])
qed

lemma triple_run_export:
  assumes "sound_transfer X"
  shows "triple any (run_export W T X target offset) any"
proof -
  have parsed: "triple any (bind_c (from_matches r) k) any" if "\<And>v. triple any (k v) any"
    for r :: "cli_error + 'x" and k :: "'x \<Rightarrow> (('a, 'b) proc, outcome) cli"
    by (rule triple_then [where R = any]) (simp_all add: from_matches_def triple_ret that)
  have one: "triple any (export_file W X fs path) any" if "mounted fs" for fs path
    unfolding export_file_def
    by (rule triple_then [OF triple_on_caches [OF triple_within [OF triple_lookup_path [OF that]]]])
      (use assms in \<open>simp add: sound_transfer_def safe_source_read_at [OF that] triple_cli_any triple_always\<close>)
  have tree: "triple any (ex_tree X (tree_export W fs target)) any" if "mounted fs" for fs
    using assms by (intro triple_always) (simp add: sound_transfer_def safe_tree_export [OF that])
  have resized: "triple any (bind_s (on_caches (change (set_data_cache_capacity W 0))) k) any"
    if "\<And>v. triple any (k v) any" for k :: "unit \<Rightarrow> (('a, 'b) proc, outcome) cli"
    by (rule triple_bind [OF triple_on_caches [where Q = any]]) (simp add: triple_def change_def, rule that)
  show ?thesis
    unfolding run_export_def
    by (intro parsed triple_then [OF triple_open_target] resized triple_if one tree) 
qed


section \<open>Properties\<close>

text \<open>The shared arguments with their flags, and \<open>fs.squashfs img ls /a -R\<close> as it is parsed.\<close>

definition sample_shared :: shared where
  "sample_shared =
     \<lparr>sh_format = [(Arg ''text'')\<lparr>ad_long := Some ''text'', ad_action := Set_true\<rparr>],
      sh_recursive = [(Arg ''recursive'')\<lparr>ad_long := Some ''recursive'', ad_short := Some (CHR ''R''), ad_action := Set_true\<rparr>],
      sh_export = [(Arg ''source'')\<lparr>ad_required := True, ad_parser := Parse_os\<rparr>]\<rparr>"

definition sample_line :: line_matches where
  "sample_line =
     \<lparr>mt_ids = [''target'', ''offset'', ''text''],
      mt_value = [''target'' \<mapsto> Os [0x69], ''text'' \<mapsto> Flag False],
      mt_subcommand =
        Some (''ls'',
          \<lparr>mt_ids = [''recursive'', ''path'', ''offset'', ''text''],
           mt_value = [''path'' \<mapsto> Os [0x2F], ''text'' \<mapsto> Flag False, ''recursive'' \<mapsto> Flag True]\<rparr>)\<rparr>"

lemma sample_shared_ok: "shared_ok sample_shared"
  by (simp add: shared_ok_def sample_shared_def)

lemma sample_line_ok: "line_ok (command sample_shared) sample_line"
proof -
  have "matches_ok (root_args sample_shared) sample_line"
    by (simp add: matches_ok_def root_args_def root_decls sample_shared_def sample_line_def)
  moreover have "matches_ok (taken_by (command sample_shared) (ls_command sample_shared)) (snd (the (mt_subcommand sample_line)))"
    by (simp add: matches_ok_def taken_by_command root_decls sample_shared_def sample_line_def command_args)
  ultimately show ?thesis
    by (simp add: line_ok_def sample_line_def subcommands_def)
qed

text \<open>\<open>fs.squashfs img rm /a\<close>.\<close>

definition refused_line :: line_matches where
  "refused_line =
     sample_line\<lparr>mt_subcommand :=
       Some (''rm'', \<lparr>mt_ids = [''path'', ''offset'', ''text''],
         mt_value = [''path'' \<mapsto> Os [0x2F, 0x61], ''text'' \<mapsto> Flag False]\<rparr>)\<rparr>"

lemma refused_line_sub:
  "mt_subcommand refused_line = Some (''rm'', \<lparr>mt_ids = [''path'', ''offset'', ''text''],
      mt_value = [''path'' \<mapsto> Os [0x2F, 0x61], ''text'' \<mapsto> Flag False]\<rparr>)"
  by (simp add: refused_line_def)

lemma refused_line_ok: "line_ok (command sample_shared) refused_line"
proof -
  have "matches_ok (root_args sample_shared) refused_line"
    by (simp add: matches_ok_def root_args_def root_decls sample_shared_def refused_line_def sample_line_def)
  moreover have "matches_ok (taken_by (command sample_shared) rm_command) (snd (the (mt_subcommand refused_line)))"
    by (simp add: matches_ok_def taken_by_command root_decls sample_shared_def refused_line_sub command_args
        mutation_path_def)
  ultimately show ?thesis by (simp add: line_ok_def refused_line_sub subcommands_def)
qed

lemma sample_exporter_sound: "sound_transfer sample_exporter"
  by (simp add: sound_transfer_def sample_exporter_def err_cli_def ret_s_def)

text \<open>C21. No command line crashes the tool: on every line \<open>clap\<close> can return for the table, whatever the
  image holds, every verb ends with a report or an error.  No argument is read that is not declared,
  or at another type, none is missing that the code counts on, and no verb is unknown; \<open>export\<close> is
  included, as long as the shared transfer does not itself crash.\<close>

theorem command_line_never_crashes:
  assumes "line_ok (command S) l" "shared_ok S" "\<And>sub. sound_transfer (X sub)"
  shows "safe (fst (run_matches W T X bounds l s))"
proof -
  obtain verb sub where l: "mt_subcommand l = Some (verb, sub)"
    using assms(1) by (auto simp: line_ok_def split: option.splits)
  note eq = run_matches_eq [OF assms(1,2) l, of W T X bounds]
  have v: "ar_verb (line_args bounds l) = verb" by (simp add: line_args_def l)
  show ?thesis
  proof (cases "verb = ''export''")
    case True
    then have "run W T (X sub) (line_args bounds l) =
        run_export W T (X sub) (ar_target (line_args bounds l)) (effective_offset (line_args bounds l))"
      by (simp add: run_def v)
    then show ?thesis using eq tripleD(1) [OF triple_run_export [OF assms(3)] TrueI] by simp
  next
    case False
    then have "verb \<in> set verbs" using eq unfolding subcommand_names by (auto simp: verbs_def MUTATIONS_def)
    then show ?thesis using eq tripleD(1) [OF triple_run [of "line_args bounds l", unfolded v] TrueI] by simp
  qed
qed

lemma command_line_never_crashes_witness:
  "safe (fst (run_matches sample_world sample_tool (\<lambda>_. sample_exporter) (\<lambda>_. (9, 9)) sample_line sample_proc))"
  by (rule command_line_never_crashes [OF sample_line_ok sample_shared_ok sample_exporter_sound])

lemma command_abouts:
  "list_all (\<lambda>c. (cm_about c = ''Refused: SquashFS is read-only'') = (cm_name c \<in> set MUTATIONS)) (subcommands S)"
  by (simp add: subcommands_def command_summaries refused_about_def MUTATIONS_def)

lemma run_mutation:
  "ar_verb a \<in> set MUTATIONS \<Longrightarrow> run W T X a =
    err_cli (Refused (text_of (ar_verb a @ '': '' @ READ_ONLY @ ''; rebuild the image with mksquashfs instead'')))"
  unfolding run_def Let_def MUTATIONS_def by auto

text \<open>C22. The help tells the truth about refusals: a verb whose summary says it is refused answers so on
  every accepted line, without opening the image or touching anything; and the others are the verbs
  that read.\<close>

theorem refusals_documented:
  assumes "line_ok (command S) l" "shared_ok S" "mt_subcommand l = Some (verb, sub)"
    "c \<in> set (subcommands S)" "cm_name c = verb"
  shows "if cm_about c = ''Refused: SquashFS is read-only'' then
      run_matches W T X bounds l s =
        (Ok (Inl (Refused (text_of (verb @ '': SquashFS is read-only; rebuild the image with mksquashfs instead'')))), s)
    else verb \<in> {''ls'', ''stat'', ''read'', ''export'', ''xattr'', ''get'', ''info''}"
proof -
  have about: "(cm_about c = ''Refused: SquashFS is read-only'') = (verb \<in> set MUTATIONS)"
    using assms(4,5) command_abouts [of S] by (auto simp: list_all_iff)
  note eq = run_matches_eq [OF assms(1-3), of W T X bounds]
  have verb: "ar_verb (line_args bounds l) = verb" by (simp add: line_args_def assms(3))
  show ?thesis
  proof (cases "verb \<in> set MUTATIONS")
    case True
    then show ?thesis
      using eq run_mutation [of "line_args bounds l" W T "X sub"]
      unfolding about verb by (simp add: err_cli_def ret_s_def READ_ONLY_def)
  next
    case False
    then show ?thesis using eq unfolding about subcommand_names by (auto simp: MUTATIONS_def)
  qed
qed


lemma refusals_documented_witness:
  "run_matches sample_world sample_tool (\<lambda>_. sample_exporter) (\<lambda>_. (9, 9)) refused_line sample_proc =
    (Ok (Inl (Refused (text_of ''rm: SquashFS is read-only; rebuild the image with mksquashfs instead''))), sample_proc)"
proof -
  have "rm_command \<in> set (subcommands sample_shared)" by (simp add: subcommands_def)
  moreover have "cm_about rm_command = ''Refused: SquashFS is read-only''"
    by (simp add: command_summaries refused_about_def)
  ultimately show ?thesis
    using refusals_documented [OF refused_line_ok sample_shared_ok refused_line_sub, of rm_command sample_world sample_tool]
    by simp
qed

end
