(* ===== verification/Spec2Isabelle.thy ===== *)
theory Spec2Isabelle
  imports Racing Tree_Calls Tree_Verbs Packing_Mount Xz_Roundtrip Cli_Reports Cli_Args
begin

text \<open>
  A model of the SquashFS reader \<open>rust-fs-squashfs\<close> and the theorems that make it correct.

  \<^bold>\<open>The program.\<close>  A SquashFS image is a read-only archive: a superblock, data blocks, and tables
  of compressed metadata blocks.  \<open>src/src/superblock.rs\<close> parses and checks the superblock;
  \<open>decompress.rs\<close> dispatches to the codecs and \<open>xz.rs\<close> reads filtered xz streams and undoes
  their branch converters; \<open>metablock.rs\<close> reads metadata blocks through a cache and makes a run
  of them one byte stream; \<open>table.rs\<close>, \<open>inode.rs\<close>, \<open>dir.rs\<close> and \<open>xattr.rs\<close> parse what the
  stream holds; \<open>fs.rs\<close> is the handle over all of them, with a second cache for data blocks.

  \<^bold>\<open>Which theory models what.\<close>
  \<^item> \<open>Prelude\<close>, \<open>Outcome\<close>: machine integers, slices and indexing with Rust's panics as values, the
    result type, state passing, and the two judgements the proofs are organised by: \<open>triple P m Q\<close>
    (no panic, an invariant of the state, a fact of the value) and \<open>agree R m n\<close> (the same answer from
    related states).  \<open>Errors\<close>: \<open>error.rs\<close>.
  \<^item> \<open>Externals\<close>: the code outside the crate as records of functions, arguments of the definitions
    that use it: the device (\<open>fs_core::BlockRead\<close>), the codec crates, the \<open>lru\<close> crate with its
    documented behaviour as \<open>lru_contract\<close>; and the interface \<open>memo_cache\<close> both caches provide.
  \<^item> \<open>Compressors\<close>, \<open>Sinks\<close>, \<open>Codec\<close>: \<open>decompress.rs\<close>.  \<open>Bcj\<close>, \<open>Xz_Stream\<close>: \<open>xz.rs\<close>.
    \<open>Bcj_Windows\<close>, \<open>Bcj_Ia64\<close>, \<open>Bcj_X86\<close>, \<open>Bcj_Inverse\<close>: the encoders of the branch converters, which the
    decoders of \<open>xz.rs\<close> are proved to undo.  \<open>Xz_Layout\<close>, \<open>Xz_Roundtrip\<close>: a stream as its producer
    writes it, which the reader of \<open>xz.rs\<close> gives back.
  \<^item> \<open>Superblock\<close>: \<open>superblock.rs\<close>.  \<open>Metablock\<close>: \<open>metablock.rs\<close>, the cache state threaded as
    \<open>'c meta_cache option\<close> and the cursor as a record.
  \<^item> \<open>Tables\<close>, \<open>Inode\<close>, \<open>Dirlist\<close>, \<open>Xattrs\<close>: \<open>table.rs\<close>, \<open>inode.rs\<close>, \<open>dir.rs\<close>, \<open>xattr.rs\<close>.
  \<^item> \<open>Data_Cache\<close>, \<open>Filesystem\<close>, \<open>File_Read\<close>: \<open>fs.rs\<close>.  The fields of the handle that \<open>open\<close> fills are
    the record \<open>filesystem\<close>; the two caches behind their locks are the state \<open>caches\<close>.
  \<^item> \<open>Mount\<close>: the handle's calls as operations of a state machine over the caches, and the states
    any sequence of calls and resizes reaches.  \<open>Racing\<close>: readers on several threads, which take the data
    cache's mutex for the lookup and for the insert and decode between the two, in any interleaving.

  \<^item> \<open>Utf8\<close>: the standard library's lossy decoding, for messages.  \<open>Capi\<close>: \<open>capi.rs\<close>, the C ABI: the
    thread's error slot, the panic guard, the handle with the path it read last, and the exported
    calls, a caller's memory being a field of the state.  \<open>Capi_Calls\<close>: what those calls promise.
  \<^item> \<open>Cli\<close>: \<open>cli/squashfs/fs.rs\<close>, the command line's verbs over the caches, standard output and the
    local files (\<open>proc\<close>); \<open>fs_core::cli\<close> and the host's failures are the record \<open>tool\<close>.  The recursive
    walk is the loop over a stack of iterators the source has.  \<open>Cli_Verbs\<close>: what the verbs promise;
    \<open>Cli_Reports\<close>: the type of the JSON they report.  \<open>Cli_Args\<close>: the table of commands and arguments
    declared with \<open>clap\<close>, \<open>run\<close> over the matches of a line, and \<open>cli/main.rs\<close>.
  \<^item> \<open>Tree\<close>: the abstract specification.  \<open>tree\<close> is a file tree, \<open>image_holds\<close> says over an image's bytes
    that it stores one, and the handle's calls at any point of any history answer what the tree
    says; \<open>Tree_Calls\<close> carries this to the C ABI and \<open>Tree_Verbs\<close> to the command line, where the
    recursive listing's loop is the tree's pre-order walk.
  \<^item> \<open>Packing\<close>: an image writer, which states the format from the tree down to the bytes of an image.
    \<open>Packing_Stream\<close>, \<open>Packing_Layout\<close>: where its parts are; \<open>Packing_Mount\<close>: the image opens, and mounting it
    gives the tree back.

  \<^bold>\<open>What the lemmas show.\<close>  Each on-disk layout is stated a second time as an encoder
  (\<open>superblock_bytes\<close>, \<open>listing_bytes\<close>, \<open>inode_bytes\<close>, \<open>pair_bytes\<close>, \<open>stored_block\<close>, \<open>table_at\<close>, \<open>xz_stream_bytes\<close>, \<open>pack\<close>), and
  each parser is proved to read it back; the superblock and directory parsers accept nothing else.
  The cursor is proved to be a flat byte stream, so the parsers above it are proved against bytes
  and not blocks (\<open>reads\<close>).  Both caches are interpretations of \<open>memo_cache\<close>, and no answer depends on
  what they hold.  No call panics: every slice, index and division of the source is a definition
  that can give \<open>Panics\<close>, and every operation is proved never to.  Files are read exactly, and an image
  made from any tree within the format's bounds is read back as that tree.
  The C calls are proved total, with the error slot set exactly on failure (\<open>answers_caller\<close>), and
  their answers free of the handle's history (\<open>history_free\<close>).

  \<^bold>\<open>Bounds and termination.\<close>  Machine words keep their width and wrap as in the release profile;
  \<open>usize\<close> is \<open>nat\<close>, with the guards of the source kept against \<open>2^64\<close>.  No definition takes fuel: each
  loop is a recursion with a measure (what is left of the buffer, the bytes a cursor still lacks,
  the part of a read not yet written, the inode numbers a walk has not visited), except the x86
  converter's inner loop, which nothing in its
  text bounds and which is a partial function proved to return.

  \<^bold>\<open>Not modelled.\<close>  The bytes a codec decodes to, the replacement policy of the \<open>lru\<close> crate and
  the block cache \<open>fs_core::CachingDevice\<close> are parameters.  Allocation and its failure are not
  modelled, nor the validity of the pointers a C caller passes.  How \<open>clap\<close> parses a command line and
  the shared transfers \<open>export\<close> calls are parameters, known by what their documentation promises.
\<close>

end
